(* ===== verification/Runtime_Prelude.thy ===== *)
theory Runtime_Prelude
  imports Main "HOL-Library.Word" "HOL-Library.List_Lexorder"
begin

text \<open>
  Shared vocabulary of the model of the Sprout C runtime.

  A C \<^verbatim>\<open>unsigned char\<close> is a \<open>byte\<close>, a Sprout value (a C \<^verbatim>\<open>long long\<close> that is either an
  unboxed integer or the address of a heap object) is an \<open>sval\<close>. A NUL-terminated C string is
  the list of its bytes before the terminator; \<open>cstr_ok\<close> says that such a list holds no NUL.
  A run that ends in \<^verbatim>\<open>sprout_fail\<close> (the runtime's abort with a message) is \<open>Inl (SproutFail msg)\<close>, and
  what C leaves undefined is an error too: a dereference of a null pointer is \<open>Inl NullDeref\<close>, of a freed record
  \<open>Inl UseAfterFree\<close>, a signed addition out of range \<open>Inl SignedOverflow\<close>, a store past the end of a buffer \<open>Inl OutOfBounds\<close>. A theorem that
  an operation returns \<open>Inr\<close> therefore also says that it does none of what its definition tests for. Where a component counts in
  \<open>nat\<close> or \<open>int\<close> without such a test, its theory says why the C value stays in range.
\<close>

named_theorems cstr_simps \<open>facts about C strings and their comparison\<close>
named_theorems res_simps \<open>rewriting of the result type\<close>

type_synonym byte = "8 word"
type_synonym sval = "64 word"
type_synonym cstr = "byte list"

datatype rt_error = SproutFail string | NullDeref | UseAfterFree | SignedOverflow | OutOfBounds

type_synonym 'a res = "rt_error + 'a"

definition INT_MAX :: int where
  "INT_MAX = 2 ^ 31 - 1"

definition res_bind :: "'a res \<Rightarrow> ('a \<Rightarrow> 'b res) \<Rightarrow> 'b res" where
  "res_bind r f = (case r of Inl e \<Rightarrow> Inl e | Inr x \<Rightarrow> f x)"

definition res_map :: "('a \<Rightarrow> 'b) \<Rightarrow> 'a res \<Rightarrow> 'b res" where
  "res_map f r = res_bind r (\<lambda>x. Inr (f x))"

lemma res_bind_simps [simp, res_simps]:
  "res_bind (Inr x) f = f x"
  "res_bind (Inl e) f = Inl e"
  by (simp_all add: res_bind_def)

lemma res_map_simps [simp, res_simps]:
  "res_map f (Inr x) = Inr (f x)"
  "res_map f (Inl e) = Inl e"
  by (simp_all add: res_map_def)

lemma res_bind_eq_Inr [res_simps]:
  "res_bind r f = Inr y \<longleftrightarrow> (\<exists>x. r = Inr x \<and> f x = Inr y)"
  by (cases r) auto

lemma res_bind_cong [fundef_cong]:
  "r = r' \<Longrightarrow> (\<And>x. r' = Inr x \<Longrightarrow> f x = f' x) \<Longrightarrow> res_bind r f = res_bind r' f'"
  by (cases r') auto

lemma nth_update_field:
  "(\<And>x. f (u x) = f x) \<Longrightarrow> f (xs[i := u (xs ! i)] ! j) = f (xs ! j)"
  by (cases "i < length xs"; cases "i = j") (simp_all add: list_update_beyond)

section \<open>C strings\<close>

definition cstr_ok :: "cstr \<Rightarrow> bool" where
  "cstr_ok s \<longleftrightarrow> 0 \<notin> set s"

lemma cstr_ok_simps [simp, cstr_simps]:
  "cstr_ok []"
  "cstr_ok (c # s) \<longleftrightarrow> c \<noteq> 0 \<and> cstr_ok s"
  "cstr_ok (s @ t) \<longleftrightarrow> cstr_ok s \<and> cstr_ok t"
  by (auto simp: cstr_ok_def)

lemma cstr_ok_take [intro]: "cstr_ok s \<Longrightarrow> cstr_ok (take n s)"
  by (auto simp: cstr_ok_def dest: in_set_takeD)

lemma cstr_ok_drop [intro]: "cstr_ok s \<Longrightarrow> cstr_ok (drop n s)"
  by (auto simp: cstr_ok_def dest: in_set_dropD)

text \<open>The byte a read at index \<open>i\<close> finds: the terminator at index \<open>length s\<close>.\<close>

definition cbyte :: "cstr \<Rightarrow> nat \<Rightarrow> byte" where
  "cbyte s i = (if i < length s then s ! i else 0)"

lemma cbyte_simps [simp]:
  "cbyte (c # s) 0 = c"
  "cbyte (c # s) (Suc i) = cbyte s i"
  "cbyte [] i = 0"
  by (simp_all add: cbyte_def)

lemma cbyte_eq_0 [cstr_simps]: "cstr_ok s \<Longrightarrow> cbyte s i = 0 \<longleftrightarrow> length s \<le> i"
  by (auto simp: cbyte_def cstr_ok_def) (metis nth_mem)

text \<open>The C library's comparison: the first differing byte, read as unsigned, decides.\<close>

fun strcmp :: "cstr \<Rightarrow> cstr \<Rightarrow> int" where
  "strcmp [] [] = 0"
| "strcmp [] (y # ys) = - uint y"
| "strcmp (x # xs) [] = uint x"
| "strcmp (x # xs) (y # ys) = (if x = y then strcmp xs ys else uint x - uint y)"

lemma uint_pos_iff: "(0::int) < uint (x :: byte) \<longleftrightarrow> x \<noteq> 0"
  by (metis less_le uint_0_iff unsigned_greater_eq)

lemma strcmp_less_iff [cstr_simps]:
  "cstr_ok a \<Longrightarrow> cstr_ok b \<Longrightarrow> strcmp a b < 0 \<longleftrightarrow> a < b"
  by (induction a b rule: strcmp.induct) (auto simp: uint_pos_iff word_less_def not_less)

lemma uint_diff_0_iff: "uint x - uint y = 0 \<longleftrightarrow> x = y" for x y :: byte
  by (simp add: word_uint_eq_iff)

lemma strcmp_eq_iff [cstr_simps]:
  "cstr_ok a \<Longrightarrow> cstr_ok b \<Longrightarrow> strcmp a b = 0 \<longleftrightarrow> a = b"
  by (induction a b rule: strcmp.induct) (simp_all add: uint_0_iff uint_diff_0_iff del: right_minus_eq)

lemma strcmp_same [simp]: "strcmp a a = 0"
  by (induction a) auto

end
