(* ===== verification/Timer_Heap.thy ===== *)
theory Timer_Heap
  imports Runtime_Prelude "HOL-Library.Multiset"
begin

text \<open>
  The deadline heap of \<^verbatim>\<open>runtime/sprout_poll.c\<close> (the Windows poller): a binary min-heap in the array
  \<^verbatim>\<open>g_timers\<close>. The array's first \<^verbatim>\<open>g_timer_len\<close> entries are the list \<open>ts\<close>.

  The heap is a priority queue of timers. The interface is the locale \<open>deadline_queue\<close>; the loop with which
  the poller harvests due timers is proved correct in the locale once, for every queue that keeps the laws.
\<close>

record win_timer =
  wt_deadline :: int
  wt_id :: int
  wt_token :: nat

section \<open>Operations\<close>

definition timer_swap :: "nat \<Rightarrow> nat \<Rightarrow> win_timer list \<Rightarrow> win_timer list" where
  "timer_swap a b ts = ts[a := ts ! b, b := ts ! a]"

fun timer_sift_up :: "nat \<Rightarrow> win_timer list \<Rightarrow> win_timer list" where
  "timer_sift_up i ts =
     (if i > 0
      then let p = (i - 1) div 2 in
           if wt_deadline (ts ! p) \<le> wt_deadline (ts ! i) then ts
           else timer_sift_up p (timer_swap p i ts)
      else ts)"

declare timer_sift_up.simps [simp del]

text \<open>The index of the least of an entry and its children.\<close>

definition least_child :: "nat \<Rightarrow> win_timer list \<Rightarrow> nat" where
  "least_child i ts =
     (let l = 2 * i + 1; r = l + 1;
          m = (if l < length ts \<and> wt_deadline (ts ! l) < wt_deadline (ts ! i) then l else i)
      in if r < length ts \<and> wt_deadline (ts ! r) < wt_deadline (ts ! m) then r else m)"

lemma length_timer_swap [simp]: "length (timer_swap a b ts) = length ts"
  by (simp add: timer_swap_def)

lemma least_child_cases: "least_child i ts = i \<or> i < least_child i ts \<and> least_child i ts < length ts"
  by (auto simp: least_child_def Let_def)

function timer_sift_down :: "nat \<Rightarrow> win_timer list \<Rightarrow> win_timer list" where
  "timer_sift_down i ts =
     (let m = least_child i ts in if m = i then ts else timer_sift_down m (timer_swap m i ts))"
  by pat_completeness auto
termination
proof (relation "measure (\<lambda>(i, ts). length ts - i)")
  fix i ts m assume "m = least_child i ts" "m \<noteq> i"
  then show "((m, timer_swap m i ts), i, ts) \<in> measure (\<lambda>(i, ts). length ts - i)"
    using least_child_cases [of i ts] by auto
qed simp

declare timer_sift_down.simps [simp del]

definition timer_drop :: "nat \<Rightarrow> win_timer list \<Rightarrow> win_timer list" where
  "timer_drop i ts =
     (let n = length ts - 1 in
      if i \<noteq> n then timer_sift_up i (timer_sift_down i ((butlast ts)[i := ts ! n])) else butlast ts)"

definition LLONG_MAX :: int where
  "LLONG_MAX = 2 ^ 63 - 1"

text \<open>The part of \<^verbatim>\<open>sprout_poll_add_timer\<close> behind the growth of the array: \<open>now\<close> is the answer of
  \<^verbatim>\<open>GetTickCount64\<close>.\<close>

definition timer_push :: "int \<Rightarrow> int \<Rightarrow> nat \<Rightarrow> win_timer list \<Rightarrow> win_timer list" where
  "timer_push deadline tid token ts =
     timer_sift_up (length ts) (ts @ [\<lparr>wt_deadline = deadline, wt_id = tid, wt_token = token\<rparr>])"

fun timer_find :: "int \<Rightarrow> nat \<Rightarrow> win_timer list \<Rightarrow> nat option" where
  "timer_find tid i [] = None"
| "timer_find tid i (t # ts) = (if wt_id t = tid then Some i else timer_find tid (i + 1) ts)"

definition timer_remove :: "int \<Rightarrow> win_timer list \<Rightarrow> win_timer list" where
  "timer_remove tid ts = (case timer_find tid 0 ts of None \<Rightarrow> ts | Some i \<Rightarrow> timer_drop i ts)"

section \<open>The entries\<close>

lemma mset_timer_swap: "a < length ts \<Longrightarrow> b < length ts \<Longrightarrow> mset (timer_swap a b ts) = mset ts"
  by (simp add: timer_swap_def mset_swap)

lemma length_sift_up [simp]: "length (timer_sift_up i ts) = length ts"
  by (induction i ts rule: timer_sift_up.induct) (subst timer_sift_up.simps, simp add: Let_def)

lemma length_sift_down [simp]: "length (timer_sift_down i ts) = length ts"
  by (induction i ts rule: timer_sift_down.induct) (subst timer_sift_down.simps, simp add: Let_def)

lemma mset_sift_up: "i < length ts \<Longrightarrow> mset (timer_sift_up i ts) = mset ts"
proof (induction i ts rule: timer_sift_up.induct)
  case (1 i ts)
  then show ?case
    by (subst timer_sift_up.simps) (auto simp: Let_def mset_timer_swap)
qed

lemma mset_sift_down: "i < length ts \<Longrightarrow> mset (timer_sift_down i ts) = mset ts"
proof (induction i ts rule: timer_sift_down.induct)
  case (1 i ts)
  then show ?case
    using least_child_cases [of i ts] by (subst timer_sift_down.simps) (auto simp: Let_def mset_timer_swap)
qed

lemma mset_timer_push: "mset (timer_push d i k ts) = add_mset \<lparr>wt_deadline = d, wt_id = i, wt_token = k\<rparr> (mset ts)"
  by (simp add: timer_push_def mset_sift_up)

text \<open>Removal from an unordered array: the last entry fills the hole.\<close>

lemma mset_swap_remove:
  assumes "i < length xs"
  shows "mset (if i \<noteq> length xs - 1 then (butlast xs)[i := xs ! (length xs - 1)] else butlast xs) = mset xs - {#xs ! i#}"
proof -
  let ?n = "length xs - 1"
  have n: "xs = butlast xs @ [xs ! ?n]"
    using assms by (metis append_butlast_last_id last_conv_nth length_greater_0_conv not_less_zero neq0_conv)
  then have m: "mset xs = add_mset (xs ! ?n) (mset (butlast xs))"
    by (metis mset_append mset_single_iff_right add_mset_add_single mset.simps)
  show ?thesis
  proof (cases "i = ?n")
    case True
    then show ?thesis using m by simp
  next
    case False
    then have i: "i < length (butlast xs)" using assms by simp
    then have b: "butlast xs ! i = xs ! i" by (simp add: nth_butlast)
    then have "xs ! i \<in># mset (butlast xs)" using i by (metis nth_mem set_mset_mset)
    then show ?thesis using m i b False by (simp add: mset_update diff_union_swap2)
  qed
qed

lemma mset_timer_drop:
  assumes "i < length ts"
  shows "mset (timer_drop i ts) = mset ts - {#ts ! i#}"
  using mset_swap_remove [OF assms] assms by (auto simp: timer_drop_def Let_def mset_sift_up mset_sift_down)

section \<open>The heap order\<close>

definition parent :: "nat \<Rightarrow> nat" where
  "parent i = (i - 1) div 2"

definition le_at :: "win_timer list \<Rightarrow> nat \<Rightarrow> nat \<Rightarrow> bool" where
  "le_at ts i j \<longleftrightarrow> wt_deadline (ts ! i) \<le> wt_deadline (ts ! j)"

definition timer_heap :: "win_timer list \<Rightarrow> bool" where
  "timer_heap ts \<longleftrightarrow> (\<forall>j. 0 < j \<and> j < length ts \<longrightarrow> le_at ts (parent j) j)"

text \<open>Entry \<open>i\<close> may be smaller than its parent: the state of the loop that sifts up.\<close>

definition heap_up :: "nat \<Rightarrow> win_timer list \<Rightarrow> bool" where
  "heap_up i ts \<longleftrightarrow> i < length ts \<and> (\<forall>j. 0 < j \<and> j < length ts \<and> j \<noteq> i \<longrightarrow> le_at ts (parent j) j) \<and>
     (\<forall>j. 0 < j \<and> j < length ts \<and> parent j = i \<and> 0 < i \<longrightarrow> le_at ts (parent i) j)"

text \<open>Entry \<open>i\<close> may be greater than its children: the state of the loop that sifts down.\<close>

definition heap_down :: "nat \<Rightarrow> win_timer list \<Rightarrow> bool" where
  "heap_down i ts \<longleftrightarrow> i < length ts \<and> (\<forall>j. 0 < j \<and> j < length ts \<and> parent j \<noteq> i \<longrightarrow> le_at ts (parent j) j) \<and>
     (\<forall>j. 0 < j \<and> j < length ts \<and> parent j = i \<and> 0 < i \<longrightarrow> le_at ts (parent i) j)"

lemma heap_edge:
  "heap_up i ts \<Longrightarrow> 0 < j \<Longrightarrow> j < length ts \<Longrightarrow> j \<noteq> i \<Longrightarrow> le_at ts (parent j) j"
  "heap_down i ts \<Longrightarrow> 0 < j \<Longrightarrow> j < length ts \<Longrightarrow> parent j \<noteq> i \<Longrightarrow> le_at ts (parent j) j"
  by (simp_all add: heap_up_def heap_down_def)

lemma parent_less: "0 < i \<Longrightarrow> parent i < i"
  by (auto simp: parent_def)

lemma parent_cases: "0 < j \<Longrightarrow> parent j = i \<longleftrightarrow> j = 2 * i + 1 \<or> j = 2 * i + 2"
  by (auto simp: parent_def)

lemma nth_timer_swap:
  "a < length ts \<Longrightarrow> b < length ts \<Longrightarrow> j < length ts \<Longrightarrow>
   timer_swap a b ts ! j = ts ! (if j = a then b else if j = b then a else j)"
  by (auto simp: timer_swap_def nth_list_update)

lemma sift_up_heap: "heap_up i ts \<Longrightarrow> timer_heap (timer_sift_up i ts)"
proof (induction i ts rule: timer_sift_up.induct)
  case (1 i ts)
  note up = 1(2)
  show ?case
  proof (cases "0 < i \<and> \<not> le_at ts (parent i) i")
    case False
    then have "timer_sift_up i ts = ts" by (subst timer_sift_up.simps) (auto simp: Let_def le_at_def parent_def)
    moreover have "timer_heap ts"
      using up False unfolding timer_heap_def heap_up_def by metis
    ultimately show ?thesis by simp
  next
    case True
    let ?p = "parent i" and ?ts = "timer_swap (parent i) i ts"
    have i: "i < length ts" "?p < i" using up True parent_less by (auto simp: heap_up_def)
    have "heap_up ?p ?ts"
      unfolding heap_up_def
    proof (intro conjI allI impI)
      show "?p < length ?ts" using i by simp
      fix j assume j: "0 < j \<and> j < length ?ts \<and> j \<noteq> ?p"
      have "le_at ts (parent j) j" if "j \<noteq> i" using up j that by (simp add: heap_up_def)
      moreover have "le_at ts ?p j" if "parent j = i" using up j that True by (simp add: heap_up_def)
      ultimately show "le_at ?ts (parent j) j"
        using j i True parent_less [of j] by (auto simp: le_at_def nth_timer_swap)
    next
      fix j assume j: "0 < j \<and> j < length ?ts \<and> parent j = ?p \<and> 0 < ?p"
      have "le_at ts (parent ?p) ?p" using up j i by (simp add: heap_up_def)
      moreover have "le_at ts ?p j" if "j \<noteq> i" using heap_edge(1) [OF up, of j] j that by simp
      ultimately show "le_at ?ts (parent ?p) j"
        using j i True parent_less [of ?p] parent_less [of j] by (auto simp: le_at_def nth_timer_swap)
    qed
    moreover have "timer_sift_up i ts = timer_sift_up ?p ?ts"
      using True by (subst timer_sift_up.simps) (simp add: Let_def le_at_def parent_def)
    ultimately show ?thesis
      using 1(1) [of ?p] True by (simp add: le_at_def parent_def)
  qed
qed

lemma least_child_le:
  assumes "j = i \<or> 0 < j \<and> parent j = i" "j < length ts"
  shows "wt_deadline (ts ! least_child i ts) \<le> wt_deadline (ts ! j)"
  using assms parent_cases [of j i] by (auto simp: least_child_def Let_def)

lemma least_child_parent: "least_child i ts \<noteq> i \<Longrightarrow> parent (least_child i ts) = i \<and> 0 < least_child i ts"
  by (auto simp: least_child_def Let_def parent_def)

lemma sift_down_heap: "heap_down i ts \<Longrightarrow> timer_heap (timer_sift_down i ts)"
proof (induction i ts rule: timer_sift_down.induct)
  case (1 i ts)
  note down = 1(2)
  let ?m = "least_child i ts"
  have i: "i < length ts" using down by (simp add: heap_down_def)
  show ?case
  proof (cases "?m = i")
    case True
    then have "timer_sift_down i ts = ts" by (subst timer_sift_down.simps) (simp add: Let_def)
    moreover have "le_at ts (parent j) j" if "0 < j \<and> j < length ts" for j
      using least_child_le [of j i ts] down that True by (cases "parent j = i") (auto simp: heap_down_def le_at_def)
    ultimately show ?thesis by (simp add: timer_heap_def)
  next
    case False
    let ?ts = "timer_swap ?m i ts"
    have m: "parent ?m = i" "0 < ?m" "?m < length ts" "i < ?m"
      using least_child_parent [OF False] least_child_cases [of i ts] False by auto
    have "heap_down ?m ?ts"
      unfolding heap_down_def
    proof (intro conjI allI impI)
      show "?m < length ?ts" using m by simp
      fix j assume j: "0 < j \<and> j < length ?ts \<and> parent j \<noteq> ?m"
      show "le_at ?ts (parent j) j"
      proof (cases "parent j = i")
        case True
        then show ?thesis
          using j i m parent_less [of j] least_child_le [of j i ts] least_child_le [of i i ts]
          by (auto simp: le_at_def nth_timer_swap)
      next
        case False
        then have "le_at ts (parent j) j" using down j by (simp add: heap_down_def)
        moreover have "le_at ts (parent i) ?m" if "0 < i" using down that m by (simp add: heap_down_def)
        ultimately show ?thesis
          using j i m False parent_less [of j] by (auto simp: le_at_def nth_timer_swap)
      qed
    next
      fix j assume j: "0 < j \<and> j < length ?ts \<and> parent j = ?m \<and> 0 < ?m"
      have "parent j \<noteq> i" using j m by simp
      then have "le_at ts ?m j" using heap_edge(2) [OF down, of j] j by simp
      then show "le_at ?ts (parent ?m) j"
        using j i m parent_less [of j] by (auto simp: le_at_def nth_timer_swap)
    qed
    moreover have "timer_sift_down i ts = timer_sift_down ?m ?ts"
      using False by (subst timer_sift_down.simps) (simp add: Let_def)
    ultimately show ?thesis using 1(1) False by simp
  qed
qed

lemma sift_up_noop: "i = 0 \<or> le_at ts (parent i) i \<Longrightarrow> timer_sift_up i ts = ts"
  by (subst timer_sift_up.simps) (auto simp: Let_def le_at_def parent_def)

lemma sift_down_noop: "(\<And>j. 0 < j \<Longrightarrow> j < length ts \<Longrightarrow> parent j = i \<Longrightarrow> le_at ts i j) \<Longrightarrow> timer_sift_down i ts = ts"
proof -
  assume a: "\<And>j. 0 < j \<Longrightarrow> j < length ts \<Longrightarrow> parent j = i \<Longrightarrow> le_at ts i j"
  have "least_child i ts = i"
    using a [of "2 * i + 1"] a [of "2 * i + 2"] by (auto simp: least_child_def Let_def le_at_def parent_def)
  then show ?thesis by (subst timer_sift_down.simps) (simp add: Let_def)
qed

lemma timer_heap_push: "timer_heap ts \<Longrightarrow> timer_heap (timer_push d i k ts)"
  unfolding timer_push_def
proof (rule sift_up_heap)
  assume h: "timer_heap ts"
  let ?t = "\<lparr>wt_deadline = d, wt_id = i, wt_token = k\<rparr>"
  have "parent j < length ts" if "j < length ts" for j
    using that parent_less [of j] by (cases "j = 0") (auto simp: parent_def)
  moreover have "\<not> (parent j = length ts)" if "j < length (ts @ [?t])" "0 < j" for j
    using that parent_less [of j] by auto
  ultimately show "heap_up (length ts) (ts @ [?t])"
    using h by (auto simp: heap_up_def timer_heap_def le_at_def nth_append less_Suc_eq)
qed

text \<open>Any entry may be replaced by any other: one of the two loops does nothing, the other repairs the order.\<close>

lemma replace_heap:
  assumes h: "timer_heap us" and i: "i < length us"
  shows "timer_heap (timer_sift_up i (timer_sift_down i (us[i := x])))"
proof -
  let ?ts = "us[i := x]"
  have nx: "?ts ! j = us ! j" if "j \<noteq> i" for j using that by simp
  have edge: "le_at ?ts (parent j) j" if "0 < j" "j < length us" "j \<noteq> i" "parent j \<noteq> i" for j
    using h that by (auto simp: timer_heap_def le_at_def)
  have grand: "le_at ?ts (parent i) j" if "0 < j" "j < length us" "parent j = i" "0 < i" for j
  proof -
    have "le_at us (parent i) i" "le_at us i j" using h that i by (auto simp: timer_heap_def)
    then show ?thesis using that parent_less [of i] parent_less [of j] by (auto simp: le_at_def)
  qed
  show ?thesis
  proof (cases "i = 0 \<or> le_at ?ts (parent i) i")
    case True
    have "heap_down i ?ts"
      using edge grand True i by (auto simp: heap_down_def)
    then have hp: "timer_heap (timer_sift_down i ?ts)" by (rule sift_down_heap)
    then have "i = 0 \<or> le_at (timer_sift_down i ?ts) (parent i) i" using i by (auto simp: timer_heap_def)
    then show ?thesis using hp by (simp add: sift_up_noop)
  next
    case False
    have "le_at ?ts i j" if "0 < j" "j < length ?ts" "parent j = i" for j
      using grand [of j] that False by (auto simp: le_at_def)
    note ch = this
    then have e: "timer_sift_down i ?ts = ?ts" by (rule sift_down_noop) simp_all
    have "le_at ?ts (parent j) j" if "0 < j" "j < length us" "j \<noteq> i" for j
      using edge [OF that] ch [of j] that by (cases "parent j = i") auto
    then have "heap_up i ?ts" using grand i by (auto simp: heap_up_def)
    then show ?thesis using sift_up_heap by (simp add: e)
  qed
qed

lemma timer_heap_butlast: "timer_heap ts \<Longrightarrow> timer_heap (butlast ts)"
  unfolding timer_heap_def le_at_def
  by (metis length_butlast nth_butlast parent_less less_diff_conv less_trans add_lessD1)

lemma timer_heap_drop: "timer_heap ts \<Longrightarrow> i < length ts \<Longrightarrow> timer_heap (timer_drop i ts)"
  using replace_heap [OF timer_heap_butlast, of ts i] timer_heap_butlast [of ts] by (auto simp: timer_drop_def Let_def)

lemma timer_heap_min:
  assumes h: "timer_heap ts" and j: "j < length ts"
  shows "wt_deadline (ts ! 0) \<le> wt_deadline (ts ! j)"
  using j
proof (induction j rule: less_induct)
  case (less j)
  show ?case
  proof (cases "j = 0")
    case False
    then have "parent j < j" using parent_less by simp
    then have "wt_deadline (ts ! 0) \<le> wt_deadline (ts ! parent j)" using less by simp
    moreover have "le_at ts (parent j) j" using h less.prems False by (simp add: timer_heap_def)
    ultimately show ?thesis by (simp add: le_at_def)
  qed simp
qed

section \<open>Harvesting due timers\<close>

text \<open>The loop over a queue given by its operations: at most \<open>n\<close> entries whose deadline has passed.\<close>

primrec drain :: "('q \<Rightarrow> bool) \<Rightarrow> ('q \<Rightarrow> win_timer) \<Rightarrow> ('q \<Rightarrow> 'q) \<Rightarrow> nat \<Rightarrow> int \<Rightarrow> 'q \<Rightarrow> win_timer list \<times> 'q" where
  "drain emp first del 0 now q = ([], q)"
| "drain emp first del (Suc n) now q =
     (if \<not> emp q \<and> wt_deadline (first q) \<le> now
      then let (ts, q') = drain emp first del n now (del q) in (first q # ts, q')
      else ([], q))"

text \<open>What a harvest promises of the entries \<open>M\<close> it starts from.\<close>

definition harvested :: "nat \<Rightarrow> int \<Rightarrow> win_timer multiset \<Rightarrow> win_timer list \<Rightarrow> win_timer multiset \<Rightarrow> bool" where
  "harvested n now M ts M' \<longleftrightarrow> M = mset ts + M' \<and> length ts \<le> n \<and> sorted (map wt_deadline ts) \<and>
     (\<forall>t \<in> set ts. wt_deadline t \<le> now) \<and> (\<forall>t \<in> set ts. \<forall>u \<in># M'. wt_deadline t \<le> wt_deadline u) \<and>
     (length ts < n \<longrightarrow> (\<forall>u \<in># M'. now < wt_deadline u))"

locale deadline_queue =
  fixes entries :: "'q \<Rightarrow> win_timer multiset" and wf :: "'q \<Rightarrow> bool" and emp :: "'q \<Rightarrow> bool"
    and first :: "'q \<Rightarrow> win_timer" and del :: "'q \<Rightarrow> 'q"
  assumes emp: "wf q \<Longrightarrow> emp q \<longleftrightarrow> entries q = {#}"
    and first_in: "wf q \<Longrightarrow> entries q \<noteq> {#} \<Longrightarrow> first q \<in># entries q"
    and first_min: "wf q \<Longrightarrow> t \<in># entries q \<Longrightarrow> wt_deadline (first q) \<le> wt_deadline t"
    and del_wf: "wf q \<Longrightarrow> entries q \<noteq> {#} \<Longrightarrow> wf (del q)"
    and del_entries: "wf q \<Longrightarrow> entries q \<noteq> {#} \<Longrightarrow> entries (del q) = entries q - {#first q#}"
begin

lemma drain_spec:
  "wf q \<Longrightarrow> drain emp first del n now q = (ts, q') \<Longrightarrow> wf q' \<and> harvested n now (entries q) ts (entries q')"
proof (induction n arbitrary: q ts)
  case 0
  then show ?case by (simp add: harvested_def)
next
  case (Suc n)
  note w = Suc.prems(1)
  show ?case
  proof (cases "\<not> emp q \<and> wt_deadline (first q) \<le> now")
    case False
    then have "ts = []" "q' = q" using Suc.prems(2) by auto
    moreover have "now < wt_deadline u" if "u \<in># entries q" for u
      using False emp [OF w] first_min [OF w that] that by force
    ultimately show ?thesis using w by (simp add: harvested_def)
  next
    case True
    then have ne: "entries q \<noteq> {#}" using emp [OF w] by simp
    obtain us where us: "drain emp first del n now (del q) = (us, q')" and ts: "ts = first q # us"
      using Suc.prems(2) True by (auto split: prod.splits)
    have ih: "wf q'" "harvested n now (entries (del q)) us (entries q')"
      using Suc.IH [OF del_wf [OF w ne] us] by auto
    have e: "entries q = add_mset (first q) (entries (del q))"
      using del_entries [OF w ne] first_in [OF w ne] by simp
    have "wt_deadline (first q) \<le> wt_deadline u" if "u \<in> set us \<or> u \<in># entries q'" for u
      using first_min [OF w, of u] that ih(2) e by (auto simp: harvested_def)
    then show ?thesis using ih e True by (auto simp: harvested_def ts)
  qed
qed

end

definition harvest_timers :: "nat \<Rightarrow> int \<Rightarrow> win_timer list \<Rightarrow> win_timer list \<times> win_timer list" where
  "harvest_timers = drain (\<lambda>ts. ts = []) (\<lambda>ts. ts ! 0) (timer_drop 0)"

interpretation heap_queue: deadline_queue mset timer_heap "\<lambda>ts. ts = []" "\<lambda>ts. ts ! 0" "timer_drop 0"
proof unfold_locales
  fix ts t assume h: "timer_heap ts"
  show "t \<in># mset ts \<Longrightarrow> wt_deadline (ts ! 0) \<le> wt_deadline t"
    using timer_heap_min [OF h] by (auto simp: in_set_conv_nth)
qed (auto simp: mset_timer_drop timer_heap_drop)

lemma timer_find_cases:
  "case timer_find tid i ts of None \<Rightarrow> tid \<notin> wt_id ` set ts
   | Some j \<Rightarrow> i \<le> j \<and> j - i < length ts \<and> wt_id (ts ! (j - i)) = tid"
proof (induction ts arbitrary: i)
  case (Cons t ts)
  then show ?case using Cons.IH [of "i + 1"] by (auto split: option.splits simp: Suc_diff_le nth_Cons' less_Suc_eq_le)
qed simp

lemma timer_remove_heap: "timer_heap ts \<Longrightarrow> timer_heap (timer_remove tid ts)"
  using timer_find_cases [where tid = tid and i = 0 and ts = ts] by (auto simp: timer_remove_def timer_heap_drop split: option.splits)

text \<open>With distinct identifiers, removal deletes the entry of that identifier and no other.\<close>

lemma timer_remove_mset:
  assumes "distinct (map wt_id ts)"
  shows "mset (timer_remove tid ts) = filter_mset (\<lambda>t. wt_id t \<noteq> tid) (mset ts)"
proof (cases "timer_find tid 0 ts")
  case None
  then have "tid \<notin> wt_id ` set ts" using timer_find_cases [where tid = tid and i = 0 and ts = ts] by simp
  then have "filter_mset (\<lambda>t. wt_id t \<noteq> tid) (mset ts) = mset ts" by (auto simp: filter_mset_eq_conv)
  then show ?thesis using None by (simp add: timer_remove_def)
next
  case (Some j)
  then have j: "j < length ts" "wt_id (ts ! j) = tid" using timer_find_cases [where tid = tid and i = 0 and ts = ts] by auto
  let ?u = "take j ts @ drop (Suc j) ts"
  have ts: "ts = take j ts @ ts ! j # drop (Suc j) ts" using id_take_nth_drop [OF j(1)] .
  then have m: "mset ts = add_mset (ts ! j) (mset ?u)" by (metis mset_append mset.simps(2) union_mset_add_mset_right)
  have "distinct (map wt_id (take j ts @ ts ! j # drop (Suc j) ts))" using assms ts by simp
  then have "\<forall>t \<in> set ?u. wt_id t \<noteq> tid" using j(2) by (auto simp: image_iff)
  then have "filter (\<lambda>t. wt_id t \<noteq> tid) ?u = ?u" by (simp only: filter_True)
  then have "filter_mset (\<lambda>t. wt_id t \<noteq> tid) (mset ?u) = mset ?u" by (metis mset_filter)
  then show ?thesis using Some j m by (simp add: timer_remove_def mset_timer_drop)
qed

end
