(* ===== verification/Poller.thy ===== *)
theory Poller
  imports Timer_Heap
begin

text \<open>
  The Windows poller of \<^verbatim>\<open>runtime/sprout_poll.c\<close>: the compact array of watched sockets, the deadline heap
  and the wait that harvests both. A socket registration and its token, which C keeps in the parallel arrays
  \<^verbatim>\<open>g_fds\<close> and \<^verbatim>\<open>g_fd_tokens\<close>, are one record, since every access indexes both alike. The clock, the
  answers of \<^verbatim>\<open>realloc\<close> and those of \<^verbatim>\<open>WSAPoll\<close> are arguments. The capacities are C \<^verbatim>\<open>int\<close>s that double without
  a test: they are \<open>nat\<close> here, since overflowing them takes more than \<open>2 ^ 30\<close> registrations. The subtraction of the clock
  from a deadline is unbounded here; it stays in the range of \<^verbatim>\<open>long long\<close> because callers arm timers with positive delays.

  Also here: the tag with which the Linux poller marks the token of a timer.
\<close>

section \<open>State\<close>

datatype poll_event = POLLRDNORM | POLLWRNORM

record poll_fd =
  pf_fd :: int
  pf_events :: poll_event
  pf_revents :: bool
  pf_token :: nat

record poller =
  p_fds :: "poll_fd list"
  p_fd_cap :: nat
  p_timers :: "win_timer list"
  p_timer_cap :: nat
  p_timer_seq :: int

definition poll_init :: poller where
  "poll_init = \<lparr>p_fds = [], p_fd_cap = 0, p_timers = [], p_timer_cap = 0, p_timer_seq = 1\<rparr>"

section \<open>Socket registrations\<close>

function double_until :: "nat \<Rightarrow> nat \<Rightarrow> nat" where
  "double_until need cap = (if 0 < cap \<and> cap < need then double_until need (2 * cap) else cap)"
  by pat_completeness auto
termination
  by (relation "measure (\<lambda>(need, cap). need - cap)") auto

declare double_until.simps [simp del]

definition fds_reserve :: "bool \<Rightarrow> bool \<Rightarrow> nat \<Rightarrow> poller \<Rightarrow> poller res" where
  "fds_reserve got_fds got_tokens need P =
     (if need \<le> p_fd_cap P then Inr P
      else let cap = double_until need (if p_fd_cap P < 16 then 16 else p_fd_cap P) in
        if \<not> got_fds then Inl (SproutFail ''sprout_poll: out of memory growing the fd set'')
        else if \<not> got_tokens then Inl (SproutFail ''sprout_poll: out of memory growing the token set'')
        else Inr (P\<lparr>p_fd_cap := cap\<rparr>))"

fun fds_find :: "int \<Rightarrow> nat \<Rightarrow> poll_fd list \<Rightarrow> nat option" where
  "fds_find s i [] = None"
| "fds_find s i (f # fs) = (if pf_fd f = s then Some i else fds_find s (i + 1) fs)"

definition fds_drop :: "nat \<Rightarrow> poll_fd list \<Rightarrow> poll_fd list" where
  "fds_drop i fs = (let n = length fs - 1 in if i \<noteq> n then (butlast fs)[i := fs ! n] else butlast fs)"

definition SPROUT_POLL_WRITE :: int where
  "SPROUT_POLL_WRITE = 2"

definition sprout_poll_add :: "bool \<Rightarrow> bool \<Rightarrow> int \<Rightarrow> int \<Rightarrow> nat \<Rightarrow> poller \<Rightarrow> poller res" where
  "sprout_poll_add got_fds got_tokens fd interest token P =
     (let ev = (if interest = SPROUT_POLL_WRITE then POLLWRNORM else POLLRDNORM);
          f = \<lparr>pf_fd = fd, pf_events = ev, pf_revents = False, pf_token = token\<rparr> in
      case fds_find fd 0 (p_fds P) of
        None \<Rightarrow> res_map (\<lambda>P1. P1\<lparr>p_fds := p_fds P1 @ [f]\<rparr>) (fds_reserve got_fds got_tokens (length (p_fds P) + 1) P)
      | Some i \<Rightarrow> Inr (P\<lparr>p_fds := (p_fds P)[i := f]\<rparr>))"

definition sprout_poll_remove :: "int \<Rightarrow> poller \<Rightarrow> poller" where
  "sprout_poll_remove fd P =
     (case fds_find fd 0 (p_fds P) of None \<Rightarrow> P | Some i \<Rightarrow> P\<lparr>p_fds := fds_drop i (p_fds P)\<rparr>)"

section \<open>Timers\<close>

text \<open>\<open>None\<close> is the return value 0: no timer armed. \<open>now\<close> is the answer of \<^verbatim>\<open>GetTickCount64\<close>.\<close>

definition sprout_poll_add_timer :: "bool \<Rightarrow> int \<Rightarrow> int \<Rightarrow> nat \<Rightarrow> poller \<Rightarrow> (int option \<times> poller) res" where
  "sprout_poll_add_timer got now ms token P =
     (let grow = length (p_timers P) = p_timer_cap P in
      if grow \<and> \<not> got then Inr (None, P)
      else let cap = (if grow then if p_timer_cap P < 16 then 16 else p_timer_cap P * 2 else p_timer_cap P);
               tid = p_timer_seq P in
        if tid + 1 > LLONG_MAX \<or> now + ms > LLONG_MAX \<or> now + ms < - LLONG_MAX - 1 then Inl SignedOverflow
        else Inr (Some tid, P\<lparr>p_timer_cap := cap, p_timer_seq := tid + 1,
                              p_timers := timer_push (now + ms) tid token (p_timers P)\<rparr>))"

definition sprout_poll_remove_timer :: "int \<Rightarrow> poller \<Rightarrow> poller" where
  "sprout_poll_remove_timer tid P = P\<lparr>p_timers := timer_remove tid (p_timers P)\<rparr>"

section \<open>The wait\<close>

definition wait_timeout :: "int \<Rightarrow> poller \<Rightarrow> int" where
  "wait_timeout now P =
     (if p_timers P \<noteq> []
      then let d = wt_deadline (p_timers P ! 0) - now;
               d = (if d < 0 then 0 else d) in
           if d > INT_MAX then INT_MAX else d
      else - 1)"

text \<open>The answers of the system in one round: the clock before the wait, the sockets \<^verbatim>\<open>WSAPoll\<close> found ready
  (\<open>None\<close> for \<^verbatim>\<open>SOCKET_ERROR\<close>), the clock after it.\<close>

record answer =
  an_before :: int
  an_ready :: "bool list option"
  an_after :: int

fun ready_hits :: "nat \<Rightarrow> nat \<Rightarrow> poll_fd list \<Rightarrow> nat list" where
  "ready_hits room i [] = []"
| "ready_hits room i (f # fs) =
     (if room = 0 then []
      else if pf_revents f then i # ready_hits (room - 1) (i + 1) fs else ready_hits room (i + 1) fs)"

definition block :: "answer \<Rightarrow> poller \<Rightarrow> poller res" where
  "block a P =
     (if p_fds P \<noteq> []
      then (case an_ready a of
              None \<Rightarrow> Inl (SproutFail ''sprout_poll_wait: WSAPoll failed'')
            | Some rs \<Rightarrow> Inr (P\<lparr>p_fds := map2 (\<lambda>f r. f\<lparr>pf_revents := r\<rparr>) (p_fds P) rs\<rparr>))
      else if wait_timeout (an_before a) P \<ge> 0 then Inr P
      else Inl (SproutFail ''sprout_poll_wait: called with no registrations''))"

definition poll_round :: "nat \<Rightarrow> answer \<Rightarrow> poller \<Rightarrow> ((nat \<times> bool) list \<times> poller) res" where
  "poll_round want a P =
     res_bind (block a P) (\<lambda>P1.
       let hit = ready_hits want 0 (p_fds P1);
           toks = map (\<lambda>i. (pf_token (p_fds P1 ! i), False)) hit;
           (due, rest) = harvest_timers (want - length hit) (an_after a) (p_timers P1)
       in Inr (toks @ map (\<lambda>t. (wt_token t, True)) due,
               P1\<lparr>p_fds := fold fds_drop (rev hit) (p_fds P1), p_timers := rest\<rparr>))"

text \<open>The loop runs until a round has an event. \<open>None\<close>: the rounds given were not enough.\<close>

fun sprout_poll_wait :: "nat \<Rightarrow> answer list \<Rightarrow> poller \<Rightarrow> ((nat \<times> bool) list \<times> poller) res option" where
  "sprout_poll_wait limit [] P = None"
| "sprout_poll_wait limit (a # as) P =
     (case poll_round (min limit 64) a P of
        Inl e \<Rightarrow> Some (Inl e)
      | Inr (evs, P1) \<Rightarrow> if evs \<noteq> [] then Some (Inr (evs, P1)) else sprout_poll_wait limit as P1)"

section \<open>Tokens of the Linux poller\<close>

unbundle bit_operations_syntax

definition poll_tag_timer :: "64 word \<Rightarrow> 64 word" where
  "poll_tag_timer token = token OR 1"

definition poll_untag :: "64 word \<Rightarrow> 64 word \<times> bool" where
  "poll_untag raw = (raw AND NOT 1, raw AND 1 = 1)"

section \<open>Invariant and meaning\<close>

definition poller_inv :: "poller \<Rightarrow> bool" where
  "poller_inv P \<longleftrightarrow> timer_heap (p_timers P) \<and> distinct (map wt_id (p_timers P)) \<and>
     (\<forall>t \<in> set (p_timers P). wt_id t < p_timer_seq P) \<and> distinct (map pf_fd (p_fds P)) \<and>
     length (p_fds P) \<le> p_fd_cap P \<and> length (p_timers P) \<le> p_timer_cap P"

text \<open>What is watched, by descriptor, and what is armed, by identifier.\<close>

definition watched :: "poller \<Rightarrow> int \<Rightarrow> (poll_event \<times> nat) option" where
  "watched P = map_of (map (\<lambda>f. (pf_fd f, pf_events f, pf_token f)) (p_fds P))"

definition armed :: "poller \<Rightarrow> int \<Rightarrow> (int \<times> nat) option" where
  "armed P = map_of (map (\<lambda>t. (wt_id t, wt_deadline t, wt_token t)) (p_timers P))"

lemma map_of_key:
  assumes "distinct (map k xs)"
  shows "map_of (map (\<lambda>x. (k x, g x)) xs) a = Some v \<longleftrightarrow> (\<exists>x \<in> set xs. k x = a \<and> g x = v)"
  using assms by (induction xs) (auto simp: image_iff)

lemma map_of_key_None: "map_of (map (\<lambda>x. (k x, g x)) xs) a = None \<longleftrightarrow> a \<notin> k ` set xs"
  by (induction xs) auto

lemma map_eqI_Some: "(\<And>a v. m a = Some v \<longleftrightarrow> m' a = Some v) \<Longrightarrow> m = m'"
  by (metis ext option.exhaust option.distinct(1))

lemma fds_find_cases:
  "case fds_find s i fs of None \<Rightarrow> s \<notin> pf_fd ` set fs
   | Some j \<Rightarrow> i \<le> j \<and> j - i < length fs \<and> pf_fd (fs ! (j - i)) = s"
proof (induction fs arbitrary: i)
  case (Cons f fs)
  then show ?case using Cons.IH [of "i + 1"] by (auto split: option.splits simp: Suc_diff_le nth_Cons' less_Suc_eq_le)
qed simp

lemmas fds_find0 = fds_find_cases [where i = 0, simplified]

lemma mset_fds_drop: "i < length fs \<Longrightarrow> mset (fds_drop i fs) = mset fs - {#fs ! i#}"
  unfolding fds_drop_def Let_def by (rule mset_swap_remove)

lemma mset_sub_distinct:
  assumes "mset ys \<subseteq># mset xs" "distinct (map k xs)"
  shows "distinct (map k ys)" "length ys \<le> length xs" "set ys \<subseteq> set xs"
proof -
  obtain zs where "mset xs = mset ys + mset zs" using assms(1) by (metis ex_mset mset_subset_eq_exists_conv)
  then have "mset (map k xs) = mset (map k (ys @ zs))" by simp
  then have "distinct (map k (ys @ zs))" using assms(2) mset_eq_imp_distinct_iff by metis
  then show "distinct (map k ys)" by simp
  show "length ys \<le> length xs" using size_mset_mono [OF assms(1)] by simp
  show "set ys \<subseteq> set xs" using assms(1) by (metis set_mset_mono set_mset_mset)
qed

lemma double_until_ge: "0 < cap \<Longrightarrow> need \<le> double_until need cap \<and> cap \<le> double_until need cap"
proof (induction need cap rule: double_until.induct)
  case (1 need cap)
  show ?case
  proof (cases "cap < need")
    case True
    then have "double_until need cap = double_until need (2 * cap)" using 1(2) by (subst double_until.simps) simp
    then show ?thesis using 1 True by simp
  qed (simp add: double_until.simps)
qed

lemma fds_reserve_cap:
  assumes "fds_reserve a b need P = Inr P'"
  shows "need \<le> p_fd_cap P'" "p_fds P' = p_fds P" "p_timers P' = p_timers P" "p_timer_cap P' = p_timer_cap P" "p_timer_seq P' = p_timer_seq P"
    "p_fd_cap P \<le> p_fd_cap P'"
  using assms double_until_ge [of "if p_fd_cap P < 16 then 16 else p_fd_cap P" need]
  by (auto simp: fds_reserve_def Let_def split: if_splits)

section \<open>Registrations refine a map\<close>

lemma watched_Some:
  assumes "distinct (map pf_fd (p_fds P))"
  shows "watched P a = Some v \<longleftrightarrow> (\<exists>f \<in> set (p_fds P). pf_fd f = a \<and> (pf_events f, pf_token f) = v)"
  unfolding watched_def by (rule map_of_key [OF assms])

lemma armed_Some:
  assumes "distinct (map wt_id (p_timers P))"
  shows "armed P a = Some v \<longleftrightarrow> (\<exists>t \<in> set (p_timers P). wt_id t = a \<and> (wt_deadline t, wt_token t) = v)"
  unfolding armed_def by (rule map_of_key [OF assms])

lemma update_key:
  assumes d: "distinct (map k xs)" and i: "i < length xs" and x: "k x = k (xs ! i)"
  shows "distinct (map k (xs[i := x]))" "set (xs[i := x]) = insert x {y \<in> set xs. k y \<noteq> k x}"
proof -
  have "map k (xs[i := x]) = map k xs" using i x by (simp add: map_update) (metis list_update_id map_update)
  then show "distinct (map k (xs[i := x]))" using d by simp
  have "k (xs ! j) = k (xs ! i) \<longleftrightarrow> j = i" if "j < length xs" for j
    using d i that by (metis length_map nth_eq_iff_index_eq nth_map)
  then show "set (xs[i := x]) = insert x {y \<in> set xs. k y \<noteq> k x}"
    using i x by (auto simp: set_conv_nth nth_list_update) metis+
qed

lemma remove_key:
  assumes d: "distinct (map k xs)" and i: "i < length xs" and ys: "mset ys = mset xs - {#xs ! i#}"
  shows "distinct (map k ys)" "set ys = {y \<in> set xs. k y \<noteq> k (xs ! i)}" "length ys \<le> length xs"
proof -
  have sub: "mset ys \<subseteq># mset xs" using ys by simp
  show "distinct (map k ys)" "length ys \<le> length xs" using mset_sub_distinct [OF sub d] by auto
  have "mset xs = mset (xs ! i # ys)" using ys i by (simp add: insert_DiffM nth_mem)
  then have "distinct (map k (xs ! i # ys))" "set xs = insert (xs ! i) (set ys)"
    using d by (metis mset_eq_imp_distinct_iff mset_map, metis list.simps(15) mset_eq_setD)
  then show "set ys = {y \<in> set xs. k y \<noteq> k (xs ! i)}" by (auto simp: image_iff)
qed

lemma poll_add_spec:
  assumes inv: "poller_inv P" and r: "sprout_poll_add a b fd interest token P = Inr P'"
  shows "poller_inv P' \<and> armed P' = armed P \<and>
    watched P' = (watched P)(fd \<mapsto> (if interest = SPROUT_POLL_WRITE then POLLWRNORM else POLLRDNORM, token))"
proof -
  let ?ev = "if interest = SPROUT_POLL_WRITE then POLLWRNORM else POLLRDNORM"
  let ?f = "\<lparr>pf_fd = fd, pf_events = ?ev, pf_revents = False, pf_token = token\<rparr>"
  have d: "distinct (map pf_fd (p_fds P))" using inv by (simp add: poller_inv_def)
  have "poller_inv P' \<and> p_timers P' = p_timers P \<and> set (p_fds P') = insert ?f {f \<in> set (p_fds P). pf_fd f \<noteq> fd}"
  proof (cases "fds_find fd 0 (p_fds P)")
    case None
    then obtain P1 where P1: "fds_reserve a b (length (p_fds P) + 1) P = Inr P1" and P': "P' = P1\<lparr>p_fds := p_fds P1 @ [?f]\<rparr>"
      using r by (auto simp: sprout_poll_add_def Let_def res_map_def res_bind_eq_Inr)
    have "fd \<notin> pf_fd ` set (p_fds P)" using fds_find0 [of fd "p_fds P"] None by simp
    then show ?thesis using inv fds_reserve_cap [OF P1] P' by (auto simp: poller_inv_def)
  next
    case (Some i)
    then have i: "i < length (p_fds P)" "pf_fd (p_fds P ! i) = fd" using fds_find0 [of fd "p_fds P"] by auto
    have P': "P' = P\<lparr>p_fds := (p_fds P)[i := ?f]\<rparr>" using r Some by (simp add: sprout_poll_add_def Let_def)
    show ?thesis
      using inv update_key [OF d i(1), of ?f] i(2) by (simp add: P' poller_inv_def)
  qed
  note * = this
  have d': "distinct (map pf_fd (p_fds P'))" using * by (simp add: poller_inv_def)
  have "watched P' = (watched P)(fd \<mapsto> (?ev, token))"
    by (rule map_eqI_Some) (use * in \<open>auto simp: watched_Some [OF d] watched_Some [OF d']\<close>)
  then show ?thesis using * by (simp add: armed_def)
qed

lemma poll_remove_spec:
  assumes inv: "poller_inv P"
  shows "poller_inv (sprout_poll_remove fd P) \<and> armed (sprout_poll_remove fd P) = armed P \<and>
    watched (sprout_poll_remove fd P) = (watched P)(fd := None)"
proof -
  let ?P = "sprout_poll_remove fd P"
  have d: "distinct (map pf_fd (p_fds P))" using inv by (simp add: poller_inv_def)
  have "poller_inv ?P \<and> p_timers ?P = p_timers P \<and> set (p_fds ?P) = {f \<in> set (p_fds P). pf_fd f \<noteq> fd}"
  proof (cases "fds_find fd 0 (p_fds P)")
    case None
    then have "fd \<notin> pf_fd ` set (p_fds P)" using fds_find0 [of fd "p_fds P"] by simp
    then show ?thesis using inv None by (auto simp: sprout_poll_remove_def)
  next
    case (Some i)
    then have i: "i < length (p_fds P)" "pf_fd (p_fds P ! i) = fd" using fds_find0 [of fd "p_fds P"] by auto
    show ?thesis
      using inv remove_key [OF d i(1) mset_fds_drop [OF i(1)]] i(2) Some
      by (auto simp: sprout_poll_remove_def poller_inv_def)
  qed
  note * = this
  have d': "distinct (map pf_fd (p_fds ?P))" using * by (simp add: poller_inv_def)
  have "watched ?P = (watched P)(fd := None)"
    by (rule map_eqI_Some) (use * in \<open>auto simp: watched_Some [OF d] watched_Some [OF d'] split: if_splits\<close>)
  then show ?thesis using * by (simp add: armed_def)
qed

lemma set_timer_push: "set (timer_push d i k ts) = insert \<lparr>wt_deadline = d, wt_id = i, wt_token = k\<rparr> (set ts)"
  using mset_timer_push [of d i k ts] by (metis mset_eq_setD list.simps(15) mset.simps(2))

lemma distinct_timer_push: "distinct (map wt_id (timer_push d i k ts)) \<longleftrightarrow> i \<notin> wt_id ` set ts \<and> distinct (map wt_id ts)"
proof -
  let ?t = "\<lparr>wt_deadline = d, wt_id = i, wt_token = k\<rparr>"
  have "mset (map wt_id (timer_push d i k ts)) = mset (map wt_id (?t # ts))" using mset_timer_push [of d i k ts] by simp
  then have "distinct (map wt_id (timer_push d i k ts)) = distinct (map wt_id (?t # ts))" by (rule mset_eq_imp_distinct_iff)
  then show ?thesis by simp
qed

lemma add_timer_spec:
  assumes inv: "poller_inv P" and r: "sprout_poll_add_timer got now ms token P = Inr (Some tid, P')"
  shows "poller_inv P' \<and> watched P' = watched P \<and> armed P tid = None \<and> armed P' = (armed P)(tid \<mapsto> (now + ms, token)) \<and>
    tid = p_timer_seq P \<and> tid < p_timer_seq P'"
proof -
  have tid: "tid = p_timer_seq P" and seq: "p_timer_seq P' = tid + 1" and fds: "p_fds P' = p_fds P" "p_fd_cap P' = p_fd_cap P"
    and T: "p_timers P' = timer_push (now + ms) tid token (p_timers P)"
    and cap: "p_timer_cap P' = (if length (p_timers P) = p_timer_cap P
                then if p_timer_cap P < 16 then 16 else p_timer_cap P * 2 else p_timer_cap P)"
    using r by (auto simp: sprout_poll_add_timer_def Let_def split: if_splits)
  have new: "tid \<notin> wt_id ` set (p_timers P)" using inv tid by (auto simp: poller_inv_def)
  have d: "distinct (map wt_id (p_timers P))" using inv by (simp add: poller_inv_def)
  have d': "distinct (map wt_id (p_timers P'))" using d new by (simp add: T distinct_timer_push)
  have "length (p_timers P') = length (p_timers P) + 1" by (simp add: T timer_push_def)
  then have "length (p_timers P') \<le> p_timer_cap P'" using inv by (auto simp: cap poller_inv_def)
  then have "poller_inv P'"
    using inv d' timer_heap_push [of "p_timers P"] by (auto simp: poller_inv_def T seq fds set_timer_push tid)
  moreover have "armed P' = (armed P)(tid \<mapsto> (now + ms, token))"
    by (rule map_eqI_Some) (use new in \<open>auto simp: armed_Some [OF d] armed_Some [OF d'] T set_timer_push\<close>)
  moreover have "armed P tid = None" using new by (simp add: armed_def map_of_key_None)
  ultimately show ?thesis by (simp add: tid seq fds watched_def)
qed

lemma remove_timer_spec:
  assumes inv: "poller_inv P"
  shows "poller_inv (sprout_poll_remove_timer tid P) \<and> watched (sprout_poll_remove_timer tid P) = watched P \<and>
    armed (sprout_poll_remove_timer tid P) = (armed P)(tid := None)"
proof -
  let ?ts = "p_timers P" and ?us = "timer_remove tid (p_timers P)"
  have d: "distinct (map wt_id ?ts)" using inv by (simp add: poller_inv_def)
  have m: "mset ?us = filter_mset (\<lambda>t. wt_id t \<noteq> tid) (mset ?ts)" by (rule timer_remove_mset [OF d])
  then have sub: "mset ?us \<subseteq># mset ?ts" by simp
  have st: "set ?us = {t \<in> set ?ts. wt_id t \<noteq> tid}" using arg_cong [OF m, of set_mset] by auto
  have pt: "p_timers (sprout_poll_remove_timer tid P) = ?us" by (simp add: sprout_poll_remove_timer_def)
  have d': "distinct (map wt_id (p_timers (sprout_poll_remove_timer tid P)))"
    using mset_sub_distinct(1) [OF sub d] by (simp add: pt)
  have "armed (sprout_poll_remove_timer tid P) = (armed P)(tid := None)"
    by (rule map_eqI_Some) (use st in \<open>auto simp: armed_Some [OF d] armed_Some [OF d'] pt split: if_splits\<close>)
  then show ?thesis
    using inv mset_sub_distinct [OF sub d] timer_remove_heap [of ?ts tid] st
    by (auto simp: sprout_poll_remove_timer_def poller_inv_def watched_def)
qed

section \<open>The harvest\<close>

lemma ready_hits_range: "j \<in> set (ready_hits room i fs) \<Longrightarrow> i \<le> j \<and> j < i + length fs"
  by (induction room i fs rule: ready_hits.induct) (force split: if_splits)+

lemma ready_hits_sorted: "sorted_wrt (<) (ready_hits room i fs)"
  by (induction room i fs rule: ready_hits.induct) (auto dest: ready_hits_range)

lemma ready_hits_map: "map (\<lambda>j. fs ! (j - i)) (ready_hits room i fs) = take room (filter pf_revents fs)"
proof (induction room i fs rule: ready_hits.induct)
  case (2 room i f fs)
  have shift: "map (\<lambda>j. (f # fs) ! (j - i)) (ready_hits r (i + 1) fs) = map (\<lambda>j. fs ! (j - (i + 1))) (ready_hits r (i + 1) fs)" for r
    by (rule map_cong) (auto dest!: ready_hits_range simp: nth_Cons')
  show ?case
  proof (cases "room = 0")
    case False
    then show ?thesis using 2 shift [of room] shift [of "room - 1"] by (cases "pf_revents f") (auto simp: take_Cons')
  qed simp
qed simp

lemmas ready_hits0 = ready_hits_map [where i = 0, simplified] ready_hits_sorted ready_hits_range [where i = 0, simplified]

lemma fold_drop:
  "sorted_wrt (<) hs \<Longrightarrow> \<forall>j \<in> set hs. j < length xs \<Longrightarrow>
   mset (fold fds_drop (rev hs) xs) = mset xs - mset (map ((!) xs) hs)"
proof (induction hs arbitrary: xs rule: rev_induct)
  case (snoc h hs)
  let ?ys = "fds_drop h xs"
  have h: "h < length xs" and lt: "\<forall>j \<in> set hs. j < h" using snoc.prems by (auto simp: sorted_wrt_append)
  have len: "length ?ys = length xs - 1" by (simp add: fds_drop_def Let_def)
  have nth: "?ys ! j = xs ! j" if "j < h" for j
    using that h by (auto simp: fds_drop_def Let_def nth_butlast nth_list_update)
  have e: "map ((!) ?ys) hs = map ((!) xs) hs" using nth lt by simp
  have "mset (fold fds_drop (rev hs) ?ys) = mset ?ys - mset (map ((!) ?ys) hs)"
    by (rule snoc.IH) (use snoc.prems lt h len in \<open>auto simp: sorted_wrt_append\<close>)
  then show ?case unfolding e mset_fds_drop [OF h] by (simp add: diff_diff_add_mset)
qed simp

text \<open>The registrations with the answers of \<^verbatim>\<open>WSAPoll\<close> filled in. It answers for every entry of the array.\<close>

definition answered :: "answer \<Rightarrow> poller \<Rightarrow> poll_fd list" where
  "answered a P = (case an_ready a of None \<Rightarrow> [] | Some rs \<Rightarrow> map2 (\<lambda>f r. f\<lparr>pf_revents := r\<rparr>) (p_fds P) rs)"

definition answer_ok :: "answer \<Rightarrow> poller \<Rightarrow> bool" where
  "answer_ok a P \<longleftrightarrow> (case an_ready a of None \<Rightarrow> True | Some rs \<Rightarrow> length rs = length (p_fds P))"

lemma map2_fields:
  "length rs = length fs \<Longrightarrow> map (\<lambda>f. (pf_fd f, pf_events f, pf_token f)) (map2 (\<lambda>f r. f\<lparr>pf_revents := r\<rparr>) fs rs) =
     map (\<lambda>f. (pf_fd f, pf_events f, pf_token f)) fs"
  "length rs = length fs \<Longrightarrow> map pf_fd (map2 (\<lambda>f r. f\<lparr>pf_revents := r\<rparr>) fs rs) = map pf_fd fs"
  by (induction rs fs rule: list_induct2) simp_all

lemma block_spec:
  assumes "block a P = Inr P1" "answer_ok a P"
  shows "p_fds P1 = answered a P" "P1 = P\<lparr>p_fds := p_fds P1\<rparr>"
    "map (\<lambda>f. (pf_fd f, pf_events f, pf_token f)) (p_fds P1) = map (\<lambda>f. (pf_fd f, pf_events f, pf_token f)) (p_fds P)"
    "map pf_fd (p_fds P1) = map pf_fd (p_fds P)"
  using assms map2_fields [of _ "p_fds P"]
  by (auto simp: block_def answered_def answer_ok_def split: if_splits option.splits)

lemma poll_round_spec:
  assumes inv: "poller_inv P" and ok: "answer_ok a P" and r: "poll_round want a P = Inr (evs, P')"
  obtains ready due where "evs = map (\<lambda>f. (pf_token f, False)) ready @ map (\<lambda>t. (wt_token t, True)) due"
    "ready = take want (filter pf_revents (answered a P))" "mset (p_fds P') = mset (answered a P) - mset ready"
    "harvested (want - length ready) (an_after a) (mset (p_timers P)) due (mset (p_timers P'))" "poller_inv P'"
    "distinct (map pf_fd (answered a P))"
    "map (\<lambda>f. (pf_fd f, pf_events f, pf_token f)) (answered a P) = map (\<lambda>f. (pf_fd f, pf_events f, pf_token f)) (p_fds P)"
proof -
  obtain P1 where P1: "block a P = Inr P1"
    using r unfolding poll_round_def by (cases "block a P") auto
  note b = block_spec [OF P1 ok]
  let ?F = "answered a P" and ?hit = "ready_hits want 0 (p_fds P1)"
  let ?ready = "take want (filter pf_revents ?F)"
  obtain due rest where h: "harvest_timers (want - length ?hit) (an_after a) (p_timers P1) = (due, rest)" by (rule prod.exhaust)
  have pt: "p_timers P1 = p_timers P" using b(2) by (metis poller.select_convs(3) poller.surjective poller.update_convs(1))
  have mh: "map ((!) ?F) ?hit = ?ready" using ready_hits0(1) [of ?F want] by (simp add: b(1))
  have lh: "length ?hit = length ?ready" using mh by (metis length_map)
  have toks: "map (\<lambda>i. (pf_token (p_fds P1 ! i), False)) ?hit = map (\<lambda>f. (pf_token f, False)) ?ready"
    unfolding mh [symmetric] by (simp add: b(1) comp_def)
  have e: "evs = map (\<lambda>f. (pf_token f, False)) ?ready @ map (\<lambda>t. (wt_token t, True)) due"
    and P': "P' = P1\<lparr>p_fds := fold fds_drop (rev ?hit) (p_fds P1), p_timers := rest\<rparr>"
    using r by (auto simp: poll_round_def P1 Let_def h toks)
  have "mset (fold fds_drop (rev ?hit) ?F) = mset ?F - mset (map ((!) ?F) ?hit)"
    by (rule fold_drop) (use ready_hits0(2,3) in \<open>auto simp: b(1)\<close>)
  then have mf: "mset (p_fds P') = mset ?F - mset ?ready" unfolding mh by (simp add: P' b(1))
  have hv: "timer_heap rest" "harvested (want - length ?ready) (an_after a) (mset (p_timers P)) due (mset (p_timers P'))"
    using heap_queue.drain_spec [of "p_timers P" "want - length ?hit" "an_after a" due rest] inv h
    by (simp_all add: poller_inv_def harvest_timers_def pt lh P')
  have d: "distinct (map pf_fd ?F)" using inv b(1,4) by (simp add: poller_inv_def)
  have subf: "mset (p_fds P') \<subseteq># mset ?F" using mf by simp
  have subt: "mset rest \<subseteq># mset (p_timers P)" using hv(2) by (simp add: harvested_def P')
  have len: "length ?F = length (p_fds P)" using b(1,4) by (metis length_map)
  have caps: "p_fd_cap P' = p_fd_cap P" "p_timer_cap P' = p_timer_cap P" "p_timer_seq P' = p_timer_seq P"
    using b(2) P' by (metis poller.select_convs poller.surjective poller.update_convs)+
  have dt: "distinct (map wt_id (p_timers P))" using inv by (simp add: poller_inv_def)
  have "poller_inv P'"
    using inv hv(1) mset_sub_distinct [OF subf d] mset_sub_distinct [OF subt dt] len caps
    by (auto simp: poller_inv_def P')
  then show thesis using that [OF e refl mf hv(2) _ d] b(1,3) by simp
qed

text \<open>The sockets \<^verbatim>\<open>WSAPoll\<close> reported ready.\<close>

definition socket_ready :: "answer \<Rightarrow> poller \<Rightarrow> int \<Rightarrow> bool" where
  "socket_ready a P fd =
     (case an_ready a of None \<Rightarrow> False | Some rs \<Rightarrow> list_ex (\<lambda>(f, r). r \<and> pf_fd f = fd) (zip (p_fds P) rs))"

lemma socket_ready_answered: "socket_ready a P fd \<longleftrightarrow> (\<exists>f \<in> set (filter pf_revents (answered a P)). pf_fd f = fd)"
proof (cases "an_ready a")
  case (Some rs)
  have "(\<exists>p \<in> set ps. snd p \<and> pf_fd (fst p) = fd) \<longleftrightarrow>
      (\<exists>f \<in> set (map (\<lambda>(f, r). f\<lparr>pf_revents := r\<rparr>) ps). pf_revents f \<and> pf_fd f = fd)" for ps
    by (induction ps) auto
  from this [of "zip (p_fds P) rs"] show ?thesis
    using Some by (simp add: socket_ready_def answered_def list_ex_iff case_prod_beta Bex_def conj_assoc)
qed (simp add: socket_ready_def answered_def)

text \<open>What a wait takes away: registrations that became ready and timers that are due, each with an event for its
  token. Everything else stays, and there is no other event.\<close>

definition consumed :: "answer \<Rightarrow> (nat \<times> bool) list \<Rightarrow> poller \<Rightarrow> poller \<Rightarrow> bool" where
  "consumed a evs P P' \<longleftrightarrow>
     (\<forall>fd. watched P' fd = watched P fd \<or>
        (\<exists>ev tok. socket_ready a P fd \<and> watched P fd = Some (ev, tok) \<and> watched P' fd = None \<and> (tok, False) \<in> set evs)) \<and>
     (\<forall>tid. armed P' tid = armed P tid \<or>
        (\<exists>d tok. armed P tid = Some (d, tok) \<and> armed P' tid = None \<and> d \<le> an_after a \<and> (tok, True) \<in> set evs)) \<and>
     (\<forall>tok. (tok, False) \<in> set evs \<longrightarrow>
        (\<exists>fd ev. socket_ready a P fd \<and> watched P fd = Some (ev, tok) \<and> watched P' fd = None)) \<and>
     (\<forall>tok. (tok, True) \<in> set evs \<longrightarrow>
        (\<exists>tid d. armed P tid = Some (d, tok) \<and> d \<le> an_after a \<and> armed P' tid = None)) \<and>
     card (dom (watched P')) + card (dom (armed P')) + length evs = card (dom (watched P)) + card (dom (armed P))"

lemma card_keys: "distinct (map k xs) \<Longrightarrow> card (dom (map_of (map (\<lambda>x. (k x, g x)) xs))) = length xs"
  using distinct_card [of "map k xs"] by (simp add: dom_map_of_conv_image_fst image_image)

lemma consumed_keys:
  assumes d: "distinct (map k xs)" and m: "mset xs = mset ts + mset ys"
  shows "map_of (map (\<lambda>x. (k x, g x)) ys) a = map_of (map (\<lambda>x. (k x, g x)) xs) a \<or>
    (\<exists>x \<in> set ts. k x = a \<and> map_of (map (\<lambda>x. (k x, g x)) xs) a = Some (g x) \<and> map_of (map (\<lambda>x. (k x, g x)) ys) a = None)"
proof -
  have "mset (map k xs) = mset (map k (ts @ ys))" using m by simp
  then have d2: "distinct (map k (ts @ ys))" using d by (metis mset_eq_imp_distinct_iff)
  then have dy: "distinct (map k ys)" by simp
  have s: "set xs = set ts \<union> set ys" using m by (metis mset_append mset_eq_setD set_append)
  show ?thesis
  proof (cases "\<exists>x \<in> set ts. k x = a")
    case True
    then obtain x where x: "x \<in> set ts" "k x = a" by blast
    then have "a \<notin> k ` set ys" using d2 by auto
    then show ?thesis using x s by (auto simp: map_of_key_None map_of_key [OF d])
  next
    case False
    have "map_of (map (\<lambda>x. (k x, g x)) ys) a = Some v \<longleftrightarrow> map_of (map (\<lambda>x. (k x, g x)) xs) a = Some v" for v
      using False s by (auto simp: map_of_key [OF d] map_of_key [OF dy])
    then show ?thesis by (metis option.exhaust)
  qed
qed

lemma consumed_gone:
  assumes d: "distinct (map k xs)" and m: "mset xs = mset ts + mset ys" and x: "x \<in> set ts"
  shows "map_of (map (\<lambda>x. (k x, g x)) xs) (k x) = Some (g x)" "map_of (map (\<lambda>x. (k x, g x)) ys) (k x) = None"
proof -
  have "mset (map k xs) = mset (map k (ts @ ys))" using m by simp
  then have "distinct (map k (ts @ ys))" using d by (metis mset_eq_imp_distinct_iff)
  then show "map_of (map (\<lambda>x. (k x, g x)) ys) (k x) = None" using x by (auto simp: map_of_key_None)
  have "set xs = set ts \<union> set ys" using m by (metis mset_append mset_eq_setD set_append)
  then show "map_of (map (\<lambda>x. (k x, g x)) xs) (k x) = Some (g x)" using x map_of_key [OF d, of g "k x"] by auto
qed

lemma round_consumed:
  assumes inv: "poller_inv P" and ok: "answer_ok a P" and r: "poll_round want a P = Inr (evs, P')"
  shows "poller_inv P' \<and> consumed a evs P P' \<and> length evs \<le> want \<and>
    (length evs < want \<longrightarrow> (\<forall>fd. socket_ready a P fd \<longrightarrow> watched P' fd = None) \<and>
      (\<forall>tid d tok. armed P' tid = Some (d, tok) \<longrightarrow> an_after a < d))"
proof -
  obtain ready due where e: "evs = map (\<lambda>f. (pf_token f, False)) ready @ map (\<lambda>t. (wt_token t, True)) due"
    and rd: "ready = take want (filter pf_revents (answered a P))" and mf: "mset (p_fds P') = mset (answered a P) - mset ready"
    and h: "harvested (want - length ready) (an_after a) (mset (p_timers P)) due (mset (p_timers P'))" and inv': "poller_inv P'"
    and d: "distinct (map pf_fd (answered a P))"
    and same: "map (\<lambda>f. (pf_fd f, pf_events f, pf_token f)) (answered a P) = map (\<lambda>f. (pf_fd f, pf_events f, pf_token f)) (p_fds P)"
    using poll_round_spec [OF inv ok r] .
  let ?F = "answered a P"
  have "mset ready \<subseteq># mset ?F" unfolding rd
    by (metis multiset_filter_subset mset_filter subset_mset.trans append_take_drop_id mset_append mset_subset_eq_add_left)
  then have mF: "mset ?F = mset ready + mset (p_fds P')" using mf by simp
  have mT: "mset (p_timers P) = mset due + mset (p_timers P')" using h by (simp add: harvested_def)
  have dt: "distinct (map wt_id (p_timers P))" "distinct (map wt_id (p_timers P'))" "distinct (map pf_fd (p_fds P'))"
    using inv inv' by (simp_all add: poller_inv_def)
  have wP: "watched P = map_of (map (\<lambda>f. (pf_fd f, pf_events f, pf_token f)) ?F)" by (simp add: watched_def same)
  have wP': "watched P' = map_of (map (\<lambda>f. (pf_fd f, pf_events f, pf_token f)) (p_fds P'))" by (simp add: watched_def)
  have sr: "socket_ready a P (pf_fd f)" if "f \<in> set ready" for f
    using in_set_takeD [OF that [unfolded rd]] unfolding socket_ready_answered by blast
  have gone: "watched P (pf_fd f) = Some (pf_events f, pf_token f)" "watched P' (pf_fd f) = None" if "f \<in> set ready" for f
    unfolding wP wP' by (rule consumed_gone [OF d mF that])+
  have fired: "armed P (wt_id t) = Some (wt_deadline t, wt_token t)" "armed P' (wt_id t) = None" if "t \<in> set due" for t
    unfolding armed_def by (rule consumed_gone [OF dt(1) mT that])+
  have due: "wt_deadline t \<le> an_after a" if "t \<in> set due" for t using h that by (simp add: harvested_def)
  have "watched P' fd = watched P fd \<or>
        (\<exists>ev tok. socket_ready a P fd \<and> watched P fd = Some (ev, tok) \<and> watched P' fd = None \<and> (tok, False) \<in> set evs)" for fd
    using consumed_keys [OF d mF, where g = "\<lambda>f. (pf_events f, pf_token f)" and a = fd] sr unfolding wP wP' e by auto
  moreover have "armed P' tid = armed P tid \<or>
        (\<exists>d tok. armed P tid = Some (d, tok) \<and> armed P' tid = None \<and> d \<le> an_after a \<and> (tok, True) \<in> set evs)" for tid
    using consumed_keys [OF dt(1) mT, where g = "\<lambda>t. (wt_deadline t, wt_token t)" and a = tid] due
    unfolding armed_def e by auto
  moreover have "\<exists>fd ev. socket_ready a P fd \<and> watched P fd = Some (ev, tok) \<and> watched P' fd = None"
    if "(tok, False) \<in> set evs" for tok
    using that sr gone unfolding e by auto
  moreover have "\<exists>tid d. armed P tid = Some (d, tok) \<and> d \<le> an_after a \<and> armed P' tid = None"
    if ev: "(tok, True) \<in> set evs" for tok
  proof -
    obtain t where "t \<in> set due" "tok = wt_token t" using ev unfolding e by auto
    then show ?thesis using fired [of t] due [of t] by blast
  qed
  moreover have "card (dom (watched P')) + card (dom (armed P')) + length evs = card (dom (watched P)) + card (dom (armed P))"
    using arg_cong [OF mF, of size] arg_cong [OF mT, of size] unfolding wP wP' armed_def e
      card_keys [OF d] card_keys [OF dt(1)] card_keys [OF dt(2)] card_keys [OF dt(3)] by simp
  moreover have "length evs \<le> want" using h by (auto simp: e harvested_def rd)
  moreover have "watched P' fd = None" if "length evs < want" "socket_ready a P fd" for fd
  proof -
    have "ready = filter pf_revents (answered a P)" using that(1) unfolding e rd by auto
    then show ?thesis using that(2) gone(2) unfolding socket_ready_answered by metis
  qed
  moreover have "an_after a < d" if "length evs < want" "armed P' tid = Some (d, tok)" for tid d tok
    using that h armed_Some [OF dt(2)] by (auto simp: e harvested_def)
  ultimately show ?thesis using inv' unfolding consumed_def by blast
qed

section \<open>Properties\<close>

definition two_timers :: poller where
  "two_timers = poll_init\<lparr>p_fds := [\<lparr>pf_fd = 5, pf_events = POLLRDNORM, pf_revents = False, pf_token = 8\<rparr>], p_fd_cap := 16,
     p_timers := timer_push 20 2 16 (timer_push 30 1 24 []), p_timer_cap := 16, p_timer_seq := 3\<rparr>"

lemma two_timers_inv: "poller_inv two_timers"
proof -
  have "timer_heap (timer_push 20 2 16 (timer_push 30 1 24 []))"
    by (intro timer_heap_push) (simp add: timer_heap_def)
  then show ?thesis
    by (auto simp: two_timers_def poller_inv_def distinct_timer_push set_timer_push) (simp add: timer_push_def)
qed

text \<open>C34. The timers of the poller refine a map from identifiers to deadlines and tokens: arming binds an identifier that
  no timer had before or has, removal unbinds exactly that identifier, and removing one that fired, was removed
  or was never issued changes nothing. An arming that gets no memory changes nothing. Every operation keeps
  the heap order, the uniqueness of identifiers, and the array within its capacity.\<close>

theorem poll_timers_refine_map:
  assumes "poller_inv P"
  shows "(\<forall>got now ms token tid P'. sprout_poll_add_timer got now ms token P = Inr (Some tid, P') \<longrightarrow>
      poller_inv P' \<and> armed P tid = None \<and> armed P' = (armed P)(tid \<mapsto> (now + ms, token)) \<and> watched P' = watched P \<and>
      p_timer_seq P \<le> tid \<and> tid < p_timer_seq P') \<and>
    (\<forall>got now ms token P'. sprout_poll_add_timer got now ms token P = Inr (None, P') \<longrightarrow> P' = P) \<and>
    (\<forall>tid. poller_inv (sprout_poll_remove_timer tid P) \<and> armed (sprout_poll_remove_timer tid P) = (armed P)(tid := None) \<and>
      watched (sprout_poll_remove_timer tid P) = watched P)"
  using add_timer_spec [OF assms] remove_timer_spec [OF assms]
  by (auto simp: sprout_poll_add_timer_def Let_def split: if_splits)

theorem poll_timers_refine_map_witness:
  "armed two_timers 1 = Some (30, 24) \<and> armed (sprout_poll_remove_timer 1 two_timers) = (armed two_timers)(1 := None) \<and>
   armed (sprout_poll_remove_timer 9 two_timers) = armed two_timers"
proof -
  have "armed two_timers 1 = Some (30, 24)" "armed two_timers 9 = None" by code_simp+
  then show ?thesis using poll_timers_refine_map [OF two_timers_inv] by (simp add: fun_upd_idem)
qed

text \<open>C35. The compact array of sockets refines a map from descriptors to interest and token: adding a descriptor binds it
  or replaces its binding in place, removing one unbinds it although the last entry moves into its place, and
  the array never exceeds the capacity that was reserved.\<close>

theorem poll_sockets_refine_map:
  assumes "poller_inv P"
  shows "(\<forall>a b fd interest token P'. sprout_poll_add a b fd interest token P = Inr P' \<longrightarrow>
      poller_inv P' \<and> armed P' = armed P \<and>
      watched P' = (watched P)(fd \<mapsto> (if interest = SPROUT_POLL_WRITE then POLLWRNORM else POLLRDNORM, token))) \<and>
    (\<forall>fd. poller_inv (sprout_poll_remove fd P) \<and> armed (sprout_poll_remove fd P) = armed P \<and>
      watched (sprout_poll_remove fd P) = (watched P)(fd := None))"
  using poll_add_spec [OF assms] poll_remove_spec [OF assms] by blast

theorem poll_sockets_refine_map_witness:
  "\<exists>P'. sprout_poll_add True True 7 2 32 two_timers = Inr P' \<and> watched P' 7 = Some (POLLWRNORM, 32) \<and> watched P' 5 = watched two_timers 5"
proof -
  have "sprout_poll_add True True 7 2 32 two_timers =
      Inr (two_timers\<lparr>p_fds := p_fds two_timers @ [\<lparr>pf_fd = 7, pf_events = POLLWRNORM, pf_revents = False, pf_token = 32\<rparr>]\<rparr>)"
    by (simp add: sprout_poll_add_def two_timers_def fds_reserve_def SPROUT_POLL_WRITE_def)
  then show ?thesis using poll_sockets_refine_map [OF two_timers_inv] by (fastforce simp: SPROUT_POLL_WRITE_def)
qed

text \<open>C36. A round of the wait is one-shot and reports exactly what the system answered: it returns at most as many events
  as there is room for, each event takes away exactly one registration, a socket event that of a socket which
  \<^verbatim>\<open>WSAPoll\<close> reported ready and which is then no longer watched, a timer event one that is due by the clock and
  then no longer armed; all other registrations stay as they were. With room to spare, every ready socket and every
  due timer is reported. The wait returns the first round that has an event.\<close>

theorem poll_wait_one_shot:
  assumes "poller_inv P" "poll_round want a P = Inr (evs, P')" "answer_ok a P"
  shows "poller_inv P' \<and> length evs \<le> want \<and> consumed a evs P P' \<and>
    (length evs < want \<longrightarrow> (\<forall>fd. socket_ready a P fd \<longrightarrow> watched P' fd = None) \<and>
      (\<forall>tid d tok. armed P' tid = Some (d, tok) \<longrightarrow> an_after a < d)) \<and>
    (evs \<noteq> [] \<longrightarrow> want = min limit 64 \<longrightarrow> sprout_poll_wait limit (a # as) P = Some (Inr (evs, P'))) \<and>
    (evs = [] \<longrightarrow> watched P' = watched P \<and> armed P' = armed P)"
proof -
  note c = round_consumed [OF assms(1,3,2)]
  have "watched P' fd = watched P fd" "armed P' tid = armed P tid" if "evs = []" for fd tid
    using c that unfolding consumed_def by auto
  then show ?thesis using c assms(2) by auto
qed

definition at_25 :: answer where
  "at_25 = \<lparr>an_before = 10, an_ready = Some [False], an_after = 25\<rparr>"

theorem poll_wait_one_shot_witness:
  "\<exists>P'. poll_round 64 (at_25\<lparr>an_ready := Some [True]\<rparr>) two_timers = Inr ([(8, False), (16, True)], P') \<and>
     poller_inv P' \<and> watched P' 5 = None \<and> consumed (at_25\<lparr>an_ready := Some [True]\<rparr>) [(8, False), (16, True)] two_timers P'"
proof -
  let ?a = "at_25\<lparr>an_ready := Some [True]\<rparr>"
  have "case poll_round 64 ?a two_timers of Inl _ \<Rightarrow> False | Inr (evs, _) \<Rightarrow> evs = [(8, False), (16, True)]" by code_simp
  then obtain P' where r: "poll_round 64 ?a two_timers = Inr ([(8, False), (16, True)], P')" by (auto split: sum.splits)
  have "answer_ok ?a two_timers" "socket_ready ?a two_timers 5" by code_simp+
  then show ?thesis using poll_wait_one_shot [OF two_timers_inv r] r by auto
qed

text \<open>C37. The round of a wait delivers exactly the ready sockets in array order, up to the room, and then the due timers,
  earliest deadline first, up to the room that is left: with room to spare, no due timer stays armed.\<close>

theorem poll_round_order:
  assumes "poller_inv P" "poll_round want a P = Inr (evs, P')" "answer_ok a P"
  shows "\<exists>ready due. ready = take want (filter pf_revents (answered a P)) \<and>
    evs = map (\<lambda>f. (pf_token f, False)) ready @ map (\<lambda>t. (wt_token t, True)) due \<and>
    mset (p_timers P) = mset due + mset (p_timers P') \<and> sorted (map wt_deadline due) \<and>
    (\<forall>t \<in> set due. wt_deadline t \<le> an_after a \<and> (\<forall>u \<in> set (p_timers P'). wt_deadline t \<le> wt_deadline u)) \<and>
    (length evs < want \<longrightarrow> (\<forall>u \<in> set (p_timers P'). an_after a < wt_deadline u))"
proof -
  obtain ready due where e: "evs = map (\<lambda>f. (pf_token f, False)) ready @ map (\<lambda>t. (wt_token t, True)) due"
    and rd: "ready = take want (filter pf_revents (answered a P))"
    and "mset (p_fds P') = mset (answered a P) - mset ready"
    and h: "harvested (want - length ready) (an_after a) (mset (p_timers P)) due (mset (p_timers P'))"
    by (rule poll_round_spec [OF assms(1,3,2)])
  show ?thesis
    using h e rd by (intro exI [of _ ready] exI [of _ due]) (auto simp: harvested_def)
qed

theorem poll_round_order_witness:
  "\<exists>P'. poll_round 64 (at_25\<lparr>an_after := 40\<rparr>) two_timers = Inr ([(16, True), (24, True)], P') \<and>
     (\<forall>u \<in> set (p_timers P'). 40 < wt_deadline u)"
proof -
  have "case poll_round 64 (at_25\<lparr>an_after := 40\<rparr>) two_timers of Inl _ \<Rightarrow> False | Inr (evs, P') \<Rightarrow> evs = [(16, True), (24, True)]"
    by code_simp
  then obtain P' where r: "poll_round 64 (at_25\<lparr>an_after := 40\<rparr>) two_timers = Inr ([(16, True), (24, True)], P')"
    by (auto split: sum.splits)
  have ok: "answer_ok (at_25\<lparr>an_after := 40\<rparr>) two_timers" by code_simp
  have "length [(16 :: nat, True), (24, True)] < 64 \<longrightarrow> (\<forall>u \<in> set (p_timers P'). an_after (at_25\<lparr>an_after := 40\<rparr>) < wt_deadline u)"
    using poll_round_order [OF two_timers_inv r ok] by (elim exE conjE)
  then show ?thesis using r by simp
qed

text \<open>C38. The wait returns whenever a timer is due after it blocked: with room in the batch and no error of
  \<^verbatim>\<open>WSAPoll\<close>, the round reports an event.\<close>

theorem poll_wait_returns_due:
  assumes inv: "poller_inv P" and ok: "answer_ok a P" "p_fds P \<noteq> [] \<longrightarrow> an_ready a \<noteq> None" and max: "0 < limit"
    and due: "t \<in> set (p_timers P)" "wt_deadline t \<le> an_after a"
  shows "\<exists>evs P'. evs \<noteq> [] \<and> sprout_poll_wait limit (a # as) P = Some (Inr (evs, P'))"
proof -
  have "wait_timeout (an_before a) P \<ge> 0" using due(1) by (auto simp: wait_timeout_def Let_def INT_MAX_def)
  then obtain P1 where "block a P = Inr P1" using ok(2) by (cases "p_fds P = []") (auto simp: block_def)
  then have "\<exists>evs P'. poll_round (min limit 64) a P = Inr (evs, P')"
    by (simp add: poll_round_def Let_def split: prod.split)
  then obtain evs P' where r: "poll_round (min limit 64) a P = Inr (evs, P')" by blast
  have "evs \<noteq> []"
  proof
    assume ev: "evs = []"
    obtain ready d where e: "evs = map (\<lambda>f. (pf_token f, False)) ready @ map (\<lambda>t. (wt_token t, True)) d"
      and "ready = take (min limit 64) (filter pf_revents (answered a P))" and "mset (p_fds P') = mset (answered a P) - mset ready"
      and h: "harvested (min limit 64 - length ready) (an_after a) (mset (p_timers P)) d (mset (p_timers P'))"
      by (rule poll_round_spec [OF inv ok(1) r])
    have "ready = []" "d = []" using e ev by simp_all
    then have "\<forall>u \<in># mset (p_timers P). an_after a < wt_deadline u" using h max by (simp add: harvested_def)
    then show False using due by fastforce
  qed
  then show ?thesis using r by simp
qed

theorem poll_wait_returns_due_witness:
  "\<exists>evs P'. evs \<noteq> [] \<and> sprout_poll_wait 8 [at_25] two_timers = Some (Inr (evs, P'))"
proof (rule poll_wait_returns_due [OF two_timers_inv])
  show "\<lparr>wt_deadline = 20, wt_id = 2, wt_token = 16\<rparr> \<in> set (p_timers two_timers)" by (simp add: two_timers_def set_timer_push)
qed (simp_all add: at_25_def answer_ok_def two_timers_def)

text \<open>C39. The timeout given to \<^verbatim>\<open>WSAPoll\<close> is an \<^verbatim>\<open>int\<close>; it is negative, which waits forever, only when no timer is
  armed, and it is zero exactly when some timer is due; the wait never sleeps past the nearest deadline.\<close>

theorem wait_timeout_bounds:
  assumes "poller_inv P"
  shows "(wait_timeout now P < 0 \<longleftrightarrow> p_timers P = []) \<and> - 1 \<le> wait_timeout now P \<and> wait_timeout now P \<le> INT_MAX \<and>
    (wait_timeout now P = 0 \<longleftrightarrow> (\<exists>t \<in> set (p_timers P). wt_deadline t \<le> now)) \<and>
    (\<forall>t \<in> set (p_timers P). now < wt_deadline t \<longrightarrow> now + wait_timeout now P \<le> wt_deadline t)"
proof (cases "p_timers P")
  case (Cons u us)
  have m: "wt_deadline u \<le> wt_deadline t" if "t \<in> set (p_timers P)" for t
    using heap_queue.first_min [of "p_timers P" t] assms that Cons by (simp add: poller_inv_def)
  have w: "wait_timeout now P = min INT_MAX (max 0 (wt_deadline u - now))"
    by (auto simp: wait_timeout_def Cons Let_def)
  have "(wait_timeout now P = 0) = (\<exists>t \<in> set (p_timers P). wt_deadline t \<le> now)"
    using m unfolding w INT_MAX_def by (auto simp: Cons min_def max_def split: if_splits) force+
  moreover have "now + wait_timeout now P \<le> wt_deadline t" if "t \<in> set (p_timers P)" "now < wt_deadline t" for t
    using m [OF that(1)] that(2) unfolding w by (simp add: min_def max_def)
  moreover have "0 \<le> wait_timeout now P" "wait_timeout now P \<le> INT_MAX" unfolding w by (simp_all add: INT_MAX_def)
  ultimately show ?thesis using Cons by auto
qed (simp add: wait_timeout_def INT_MAX_def)

theorem wait_timeout_bounds_witness: "wait_timeout 25 two_timers = 0 \<and> wait_timeout 12 two_timers = 8"
proof -
  have "\<lparr>wt_deadline = 20, wt_id = 2, wt_token = 16\<rparr> \<in> set (p_timers two_timers)" by (simp add: two_timers_def set_timer_push)
  then have "\<exists>t \<in> set (p_timers two_timers). wt_deadline t \<le> 25" by force
  moreover have "wait_timeout 12 two_timers = 8" by code_simp
  ultimately show ?thesis using wait_timeout_bounds [OF two_timers_inv, of 25] by blast
qed

text \<open>The tag of the Linux poller is invertible on the tokens it is used with: an aligned pointer comes back
  unchanged, with the flag that says whether it was registered for a timer.\<close>

theorem poll_tag_roundtrip:
  assumes "token AND 7 = 0"
  shows "poll_untag (poll_tag_timer token) = (token, True) \<and> poll_untag token = (token, False)"
proof -
  have b: "\<not> bit token 0"
  proof -
    have "bit (token AND 7) 0 = bit (0 :: 64 word) 0" using assms by simp
    moreover have "bit (7 :: 64 word) 0" by (simp add: bit_0)
    ultimately show ?thesis by (simp add: bit_and_iff)
  qed
  have n: "bit token n \<longrightarrow> 0 < n" for n using b by (cases n) auto
  have "(token OR 1) AND NOT 1 = token" by (rule bit_eqI) (use n in \<open>auto simp: bit_simps bit_1_iff\<close>)
  moreover have "token AND NOT 1 = token" by (rule bit_eqI) (use n in \<open>auto simp: bit_simps bit_1_iff\<close>)
  moreover have "(token OR 1) AND 1 = 1" by (rule bit_eqI) (auto simp: bit_simps bit_1_iff)
  moreover have "token AND 1 = 0" by (rule bit_eqI) (use n in \<open>auto simp: bit_simps bit_1_iff\<close>)
  ultimately show ?thesis by (simp add: poll_tag_timer_def poll_untag_def)
qed

theorem poll_tag_roundtrip_witness: "poll_untag (poll_tag_timer 4096) = (4096, True)"
  using poll_tag_roundtrip [of 4096] by simp

end
