(* ===== verification/Bst_Map.thy ===== *)
theory Bst_Map
  imports Runtime_Prelude
begin

text \<open>
  The persistent map of the runtime: an AVL tree of immutable nodes with stored heights and
  subtree sizes. The source never changes a node once it is published, so a handle is modelled by
  the tree it denotes, and the handle 0 by \<open>Null\<close>. Height and size are C \<^verbatim>\<open>int\<close>s: a map with more than
  \<open>INT_MAX\<close> entries overflows its size field, which is the error \<open>SignedOverflow\<close> here. Node allocations are
  taken to succeed (they end the program when they fail).
\<close>

datatype bst =
    Null
  | BSTNode (bst_key: cstr) (bst_value: sval) (bst_left: bst) (bst_right: bst)
      (node_height: int) (node_size: int)

fun bst_height :: "bst \<Rightarrow> int" where
  "bst_height Null = 0"
| "bst_height (BSTNode k v l r h s) = h"

fun bst_size :: "bst \<Rightarrow> int" where
  "bst_size Null = 0"
| "bst_size (BSTNode k v l r h s) = s"

text \<open>A freshly allocated node with its four data fields stored and \<open>bst_update\<close> applied.\<close>

definition bst_update :: "cstr \<Rightarrow> sval \<Rightarrow> bst \<Rightarrow> bst \<Rightarrow> bst res" where
  "bst_update k v l r =
     (let lh = bst_height l; rh = bst_height r; height = 1 + (if lh > rh then lh else rh);
          size = 1 + bst_size l + bst_size r
      in if height > INT_MAX \<or> 1 + bst_size l > INT_MAX \<or> size > INT_MAX then Inl SignedOverflow
         else Inr (BSTNode k v l r height size))"

fun bst_bf :: "bst \<Rightarrow> int" where
  "bst_bf Null = 0"
| "bst_bf (BSTNode k v l r h s) = bst_height l - bst_height r"

fun bst_rotate_right :: "bst \<Rightarrow> bst res" where
  "bst_rotate_right (BSTNode ak av (BSTNode bk bv b_left b_right bh bs) a_right ah as) =
     res_bind (bst_update ak av b_right a_right) (\<lambda>new_a. bst_update bk bv b_left new_a)"
| "bst_rotate_right _ = Inl NullDeref"

fun bst_rotate_left :: "bst \<Rightarrow> bst res" where
  "bst_rotate_left (BSTNode ak av a_left (BSTNode bk bv b_left b_right bh bs) ah as) =
     res_bind (bst_update ak av a_left b_left) (\<lambda>new_a. bst_update bk bv new_a b_right)"
| "bst_rotate_left _ = Inl NullDeref"

fun bst_balance :: "bst \<Rightarrow> bst res" where
  "bst_balance Null = Inr Null"
| "bst_balance (BSTNode k v l r h s) =
     (let bf = bst_bf (BSTNode k v l r h s)
      in if bf > 1 then
           (if bst_bf l < 0
            then res_bind (bst_rotate_left l) (\<lambda>new_left.
                   res_bind (bst_update k v new_left r) bst_rotate_right)
            else bst_rotate_right (BSTNode k v l r h s))
         else if bf < -1 then
           (if bst_bf r > 0
            then res_bind (bst_rotate_right r) (\<lambda>new_right.
                   res_bind (bst_update k v l new_right) bst_rotate_left)
            else bst_rotate_left (BSTNode k v l r h s))
         else Inr (BSTNode k v l r h s))"

fun bst_insert_node :: "bst \<Rightarrow> cstr \<Rightarrow> sval \<Rightarrow> bst res" where
  "bst_insert_node Null ikey value = Inr (BSTNode ikey value Null Null 1 1)"
| "bst_insert_node (BSTNode k v l r h s) ikey value =
     (let cmp = strcmp ikey k
      in if cmp = 0 then Inr (BSTNode k value l r h s)
         else if cmp < 0 then
           res_bind (bst_insert_node l ikey value) (\<lambda>new_child. res_bind (bst_update k v new_child r) bst_balance)
         else
           res_bind (bst_insert_node r ikey value) (\<lambda>new_child. res_bind (bst_update k v l new_child) bst_balance))"

fun bst_find_min :: "bst \<Rightarrow> bst" where
  "bst_find_min Null = Null"
| "bst_find_min (BSTNode k v l r h s) = (if l = Null then BSTNode k v l r h s else bst_find_min l)"

fun bst_remove_min :: "bst \<Rightarrow> bst res" where
  "bst_remove_min Null = Inr Null"
| "bst_remove_min (BSTNode k v l r h s) =
     (if l = Null then Inr r
      else res_bind (bst_remove_min l) (\<lambda>new_left. res_bind (bst_update k v new_left r) bst_balance))"

fun bst_remove_node :: "bst \<Rightarrow> cstr \<Rightarrow> bst res" where
  "bst_remove_node Null ikey = Inr Null"
| "bst_remove_node (BSTNode k v l r h s) ikey =
     (let cmp = strcmp ikey k
      in if cmp = 0 then
           (if l = Null then Inr r
            else if r = Null then Inr l
            else (case bst_find_min r of
                    Null \<Rightarrow> Inl NullDeref
                  | BSTNode succ_key succ_value _ _ _ _ \<Rightarrow>
                      res_bind (bst_remove_min r)
                        (\<lambda>new_right. res_bind (bst_update succ_key succ_value l new_right) bst_balance)))
         else if cmp < 0 then
           res_bind (bst_remove_node l ikey) (\<lambda>new_child. res_bind (bst_update k v new_child r) bst_balance)
         else
           res_bind (bst_remove_node r ikey) (\<lambda>new_child. res_bind (bst_update k v l new_child) bst_balance))"

definition LLONG_MIN :: sval where
  "LLONG_MIN = 0x8000000000000000"

fun bst_get :: "bst \<Rightarrow> cstr \<Rightarrow> sval" where
  "bst_get Null key = LLONG_MIN"
| "bst_get (BSTNode k v l r h s) key =
     (let cmp = strcmp key k
      in if cmp = 0 then v else bst_get (if cmp < 0 then l else r) key)"

fun bst_has_key :: "bst \<Rightarrow> cstr \<Rightarrow> bool" where
  "bst_has_key Null key = False"
| "bst_has_key (BSTNode k v l r h s) key =
     (let cmp = strcmp key k
      in if cmp = 0 then True else bst_has_key (if cmp < 0 then l else r) key)"

fun bst_nth_node :: "bst \<Rightarrow> int \<Rightarrow> bst" where
  "bst_nth_node Null n = Null"
| "bst_nth_node (BSTNode k v l r h s) n =
     (let ls = bst_size l
      in if n < ls then bst_nth_node l n
         else if n = ls then BSTNode k v l r h s
         else bst_nth_node r (n - (ls + 1)))"

fun bst_to_list_acc :: "bst \<Rightarrow> cstr list \<Rightarrow> cstr list" where
  "bst_to_list_acc Null tail = tail"
| "bst_to_list_acc (BSTNode k v l r h s) tail =
     (let acc = bst_to_list_acc r tail; acc = k # acc
      in bst_to_list_acc l acc)"

text \<open>
  The builtins. A key handle of 0 is \<open>None\<close>; \<open>Nothing\<close> and \<open>Just\<close> objects are values of type
  \<open>option\<close>, and a Sprout list of strings is a list.
\<close>

definition map_empty :: bst where
  "map_empty = Null"

definition map_get :: "bst \<Rightarrow> cstr option \<Rightarrow> sval option res" where
  "map_get map_h key_val =
     (case key_val of
        None \<Rightarrow> Inl (SproutFail ''map_get: null key'')
      | Some key \<Rightarrow>
          (let found = bst_get map_h key
           in Inr (if found = LLONG_MIN then None else Some found)))"

definition map_set :: "bst \<Rightarrow> cstr option \<Rightarrow> sval \<Rightarrow> bst res" where
  "map_set map_h key_val value =
     (case key_val of
        None \<Rightarrow> Inl (SproutFail ''map_set: null key'')
      | Some key \<Rightarrow> bst_insert_node map_h key value)"

definition map_remove :: "bst \<Rightarrow> cstr option \<Rightarrow> bst res" where
  "map_remove map_h key_val =
     (case key_val of
        None \<Rightarrow> Inl (SproutFail ''map_remove: null key'')
      | Some key \<Rightarrow> if \<not> bst_has_key map_h key then Inr map_h else bst_remove_node map_h key)"

definition map_size :: "bst \<Rightarrow> int" where
  "map_size map_h = bst_size map_h"

definition map_nth_key :: "bst \<Rightarrow> int \<Rightarrow> cstr option" where
  "map_nth_key map_h index =
     (case bst_nth_node map_h index of Null \<Rightarrow> None | BSTNode k v l r h s \<Rightarrow> Some k)"

definition map_nth_value :: "bst \<Rightarrow> int \<Rightarrow> sval option" where
  "map_nth_value map_h index =
     (case bst_nth_node map_h index of Null \<Rightarrow> None | BSTNode k v l r h s \<Rightarrow> Some v)"

definition map_keys :: "bst \<Rightarrow> cstr list" where
  "map_keys map_h = bst_to_list_acc map_h []"


section \<open>The invariant and the abstraction\<close>

text \<open>The entries of a tree in key order, and what every published tree satisfies: stored heights
  and sizes are right, siblings differ by at most one in height, keys are C strings in strictly
  increasing byte order.\<close>

fun entries :: "bst \<Rightarrow> (cstr \<times> sval) list" where
  "entries Null = []"
| "entries (BSTNode k v l r h s) = entries l @ (k, v) # entries r"

fun avl :: "bst \<Rightarrow> bool" where
  "avl Null = True"
| "avl (BSTNode k v l r h s) \<longleftrightarrow>
     h = 1 + max (bst_height l) (bst_height r) \<and> s = 1 + bst_size l + bst_size r \<and>
     \<bar>bst_height l - bst_height r\<bar> \<le> 1 \<and> avl l \<and> avl r"

definition keys_ok :: "(cstr \<times> sval) list \<Rightarrow> bool" where
  "keys_ok ps \<longleftrightarrow> sorted_wrt (<) (map fst ps) \<and> (\<forall>k \<in> fst ` set ps. cstr_ok k)"

definition map_inv :: "bst \<Rightarrow> bool" where
  "map_inv t \<longleftrightarrow> avl t \<and> keys_ok (entries t) \<and> bst_size t \<le> INT_MAX"

text \<open>Specification on sorted association lists.\<close>

definition kv_put :: "cstr \<Rightarrow> sval \<Rightarrow> (cstr \<times> sval) list \<Rightarrow> (cstr \<times> sval) list" where
  "kv_put k v ps = filter (\<lambda>p. fst p < k) ps @ (k, v) # filter (\<lambda>p. k < fst p) ps"

definition kv_drop :: "cstr \<Rightarrow> (cstr \<times> sval) list \<Rightarrow> (cstr \<times> sval) list" where
  "kv_drop k ps = filter (\<lambda>p. fst p \<noteq> k) ps"

lemma keys_ok_append:
  "keys_ok (ps @ (a, b) # qs) \<longleftrightarrow>
     keys_ok ps \<and> keys_ok qs \<and> cstr_ok a \<and> (\<forall>p \<in> set ps. fst p < a) \<and> (\<forall>q \<in> set qs. a < fst q)"
  by (auto simp: keys_ok_def sorted_wrt_append ball_Un)
    (metis fst_conv order.strict_trans)

lemma keys_ok_Nil [simp]: "keys_ok []"
  by (simp add: keys_ok_def)

lemma keys_ok_filter: "keys_ok ps \<Longrightarrow> keys_ok (filter P ps)"
  by (auto simp: keys_ok_def sorted_wrt_map sorted_wrt_filter)

lemma keys_ok_kv_put: "keys_ok ps \<Longrightarrow> cstr_ok k \<Longrightarrow> keys_ok (kv_put k v ps)"
  by (auto simp: kv_put_def keys_ok_append keys_ok_filter)

lemma keys_ok_kv_drop: "keys_ok ps \<Longrightarrow> keys_ok (kv_drop k ps)"
  by (simp add: kv_drop_def keys_ok_filter)

lemma map_of_filter_fst:
  "map_of (filter (\<lambda>p. P (fst p)) qs) x = (if P x then map_of qs x else None)"
  by (induction qs) auto

lemma map_of_kv_put: "map_of (kv_put k v ps) = (map_of ps)(k \<mapsto> v)"
proof
  fix x
  show "map_of (kv_put k v ps) x = ((map_of ps)(k \<mapsto> v)) x"
    using map_of_filter_fst [of "\<lambda>a. a < k" ps x] map_of_filter_fst [of "\<lambda>a. k < a" ps x]
      not_less_iff_gr_or_eq [of x k] order.asym [of x k]
    by (auto simp: kv_put_def map_add_def split: option.split if_splits)
qed

lemma map_of_kv_drop: "map_of (kv_drop k ps) = (map_of ps)(k := None)"
  unfolding kv_drop_def by (induction ps) (auto simp: fun_eq_iff)

lemma filter_lt_above: "(\<forall>p \<in> set ps. a < fst p) \<Longrightarrow> k \<le> a \<Longrightarrow> filter (\<lambda>p. fst p < k) ps = []"
  for k :: cstr
  by (auto simp: filter_empty_conv) 

lemma filter_gt_above: "(\<forall>p \<in> set ps. a < fst p) \<Longrightarrow> k \<le> a \<Longrightarrow> filter (\<lambda>p. k < fst p) ps = ps"
  for k :: cstr
  by (auto simp: filter_id_conv)

lemma filter_lt_below: "(\<forall>p \<in> set ps. fst p < a) \<Longrightarrow> a \<le> k \<Longrightarrow> filter (\<lambda>p. fst p < k) ps = ps"
  for k :: cstr
  by (auto simp: filter_id_conv)

lemma filter_gt_below: "(\<forall>p \<in> set ps. fst p < a) \<Longrightarrow> a \<le> k \<Longrightarrow> filter (\<lambda>p. k < fst p) ps = []"
  for k :: cstr
  by (auto simp: filter_empty_conv)

lemmas kv_filter = filter_lt_above filter_gt_above filter_lt_below filter_gt_below

lemma kv_put_split:
  assumes "keys_ok (ps @ (a, b) # qs)"
  shows "kv_put k v (ps @ (a, b) # qs) =
    (if k = a then ps @ (a, v) # qs
     else if k < a then kv_put k v ps @ (a, b) # qs
     else ps @ (a, b) # kv_put k v qs)"
  using assms
  by (auto simp: kv_put_def keys_ok_append kv_filter not_less)

lemma kv_drop_keep: "\<forall>x \<in> set xs. fst x \<noteq> k \<Longrightarrow> kv_drop k xs = xs"
  by (simp add: kv_drop_def filter_id_conv)

lemma kv_drop_split:
  assumes "keys_ok (ps @ (a, b) # qs)"
  shows "kv_drop k (ps @ (a, b) # qs) =
    (if k = a then ps @ qs
     else if k < a then kv_drop k ps @ (a, b) # qs
     else ps @ (a, b) # kv_drop k qs)"
proof -
  from assms have b: "\<forall>x \<in> set ps. fst x < a" "\<forall>x \<in> set qs. a < fst x"
    by (auto simp: keys_ok_append)
  have app: "kv_drop k (ps @ (a, b) # qs) =
      kv_drop k ps @ (if k = a then kv_drop k qs else (a, b) # kv_drop k qs)"
    by (simp add: kv_drop_def)
  consider "k < a" | "k = a" | "a < k" by (rule linorder_cases)
  then show ?thesis
  proof cases
    case 1
    with b have "\<forall>x \<in> set qs. fst x \<noteq> k" by auto
    with 1 show ?thesis by (simp add: app kv_drop_keep)
  next
    case 2
    with b have "\<forall>x \<in> set qs. fst x \<noteq> k" "\<forall>x \<in> set ps. fst x \<noteq> k" by auto
    with 2 app show ?thesis by (simp add: kv_drop_keep)
  next
    case 3
    with b have "\<forall>x \<in> set ps. fst x \<noteq> k" by auto
    with 3 show ?thesis by (simp add: app kv_drop_keep)
  qed
qed

section \<open>Balancing\<close>

lemma avl_height_nonneg: "avl t \<Longrightarrow> 0 \<le> bst_height t"
  by (induction t) auto

lemma avl_height_0: "avl t \<Longrightarrow> bst_height t = 0 \<longleftrightarrow> t = Null"
  using avl_height_nonneg by (cases t) fastforce+

lemma avl_size_nonneg: "avl t \<Longrightarrow> 0 \<le> bst_size t"
  by (induction t) auto

lemma avl_size_entries: "avl t \<Longrightarrow> bst_size t = int (length (entries t))"
  by (induction t) auto


lemma avl_height_le_size: "avl t \<Longrightarrow> bst_height t \<le> bst_size t"
proof (induction t)
  case (BSTNode k v l r h s)
  then show ?case using avl_size_nonneg [of l] avl_size_nonneg [of r] by auto
qed simp

text \<open>The fields of a node are in range when its size is.\<close>

lemma bst_update_fits:
  assumes "bst_height l \<le> bst_size l" "bst_height r \<le> bst_size r" "0 \<le> bst_size l" "0 \<le> bst_size r"
    and "1 + bst_size l + bst_size r \<le> INT_MAX"
  shows "bst_update k v l r = Inr (BSTNode k v l r (1 + max (bst_height l) (bst_height r)) (1 + bst_size l + bst_size r))"
proof -
  have "\<not> (1 + max (bst_height l) (bst_height r) > INT_MAX)" "\<not> (1 + bst_size l > INT_MAX)" using assms by auto
  then show ?thesis using assms(5) by (auto simp: bst_update_def Let_def max_def)
qed

lemma bst_balance_update:
  assumes "avl l" "avl r" "\<bar>bst_height l - bst_height r\<bar> \<le> 2" "1 + bst_size l + bst_size r \<le> INT_MAX"
  shows "\<exists>t. res_bind (bst_update k v l r) bst_balance = Inr t \<and> avl t \<and> t \<noteq> Null \<and>
    entries t = entries l @ (k, v) # entries r \<and>
    bst_height t \<in> {max (bst_height l) (bst_height r), 1 + max (bst_height l) (bst_height r)} \<and>
    (\<bar>bst_height l - bst_height r\<bar> \<le> 1 \<longrightarrow> bst_height t = 1 + max (bst_height l) (bst_height r))"
proof -
  note pos = avl_height_nonneg avl_size_nonneg avl_height_le_size
  note lr = pos [OF assms(1)] pos [OF assms(2)]
  have u: "bst_update k v l r = Inr (BSTNode k v l r (1 + max (bst_height l) (bst_height r)) (1 + bst_size l + bst_size r))"
    using lr assms(4) by (intro bst_update_fits)
  consider "bst_height l - bst_height r > 1" | "bst_height l - bst_height r < -1"
    | "\<bar>bst_height l - bst_height r\<bar> \<le> 1"
    by linarith
  then show ?thesis
  proof cases
    case 1
    with assms lr obtain bk bv bl br bh bs where l: "l = BSTNode bk bv bl br bh bs" by (cases l) auto
    then have a: "avl bl" "avl br" using assms(1) by auto
    note b = pos [OF a(1)] pos [OF a(2)]
    show ?thesis
    proof (cases "bst_bf l < 0")
      case True
      with l b obtain ck cv cl cr ch cs where br: "br = BSTNode ck cv cl cr ch cs" by (cases br) auto
      then have "avl cl" "avl cr" using a(2) by auto
      note c = pos [OF this(1)] pos [OF this(2)]
      from 1 True assms u lr b c show ?thesis
        unfolding l br by (auto simp: bst_update_fits Let_def)
    next
      case False
      from 1 False assms u lr b show ?thesis
        unfolding l by (auto simp: bst_update_fits Let_def)
    qed
  next
    case 2
    with assms lr obtain bk bv bl br bh bs where r: "r = BSTNode bk bv bl br bh bs" by (cases r) auto
    then have a: "avl bl" "avl br" using assms(2) by auto
    note b = pos [OF a(1)] pos [OF a(2)]
    show ?thesis
    proof (cases "bst_bf r > 0")
      case True
      with r b obtain ck cv cl cr ch cs where bl: "bl = BSTNode ck cv cl cr ch cs" by (cases bl) auto
      then have "avl cl" "avl cr" using a(1) by auto
      note c = pos [OF this(1)] pos [OF this(2)]
      from 2 True assms u lr b c show ?thesis
        unfolding r bl by (auto simp: bst_update_fits Let_def)
    next
      case False
      from 2 False assms u lr b show ?thesis
        unfolding r by (auto simp: bst_update_fits Let_def)
    qed
  next
    case 3
    with assms(1,2) show ?thesis by (auto simp: u Let_def)
  qed
qed

section \<open>Lookup\<close>

lemma map_of_split:
  assumes "keys_ok (ps @ (a, b) # qs)"
  shows "map_of (ps @ (a, b) # qs) x =
    (if x = a then Some b else if x < a then map_of ps x else map_of qs x)"
proof -
  have below: "map_of ps x = None" if "a \<le> x"
    using assms that by (auto simp: keys_ok_append map_of_eq_None_iff)
  have above: "map_of qs x = None" if "x \<le> a"
    using assms that by (auto simp: keys_ok_append map_of_eq_None_iff)
  show ?thesis
    using below above by (cases "x < a") (auto simp: map_add_def not_less split: option.split)
qed

lemma bst_get_entries:
  "keys_ok (entries t) \<Longrightarrow> cstr_ok x \<Longrightarrow>
     bst_get t x = (case map_of (entries t) x of None \<Rightarrow> LLONG_MIN | Some v \<Rightarrow> v)"
proof (induction t)
  case (BSTNode k v l r h s)
  then have "cstr_ok k" "keys_ok (entries l)" "keys_ok (entries r)"
    by (auto simp: keys_ok_append)
  with BSTNode show ?case
    by (simp add: map_of_split cstr_simps Let_def del: map_of_append)
qed simp

lemma bst_has_key_entries:
  "keys_ok (entries t) \<Longrightarrow> cstr_ok x \<Longrightarrow> bst_has_key t x \<longleftrightarrow> map_of (entries t) x \<noteq> None"
proof (induction t)
  case (BSTNode k v l r h s)
  then have "cstr_ok k" "keys_ok (entries l)" "keys_ok (entries r)"
    by (auto simp: keys_ok_append)
  with BSTNode show ?case
    by (simp add: map_of_split cstr_simps Let_def del: map_of_append)
qed simp

section \<open>Insertion and removal\<close>

lemma length_kv_put: "keys_ok ps \<Longrightarrow> length ps \<le> length (kv_put k v ps) \<and>
   length (kv_put k v ps) = length ps + (if map_of ps k = None then 1 else 0)"
proof (induction ps)
  case (Cons p ps)
  obtain a b where p: "p = (a, b)" by force
  note ok = Cons.prems [unfolded p]
  then have ps: "keys_ok ps" "\<forall>q \<in> set ps. a < fst q" using keys_ok_append [of "[]" a b ps] by simp_all
  have "map_of ps a = None" using ps(2) by (auto simp: map_of_eq_None_iff)
  moreover have "map_of ps k = None" if "k < a" using ps(2) that by (auto simp: map_of_eq_None_iff)
  ultimately show ?case
    using Cons.IH [OF ps(1)] kv_put_split [of "[]" a b ps k v] ok unfolding p by (auto simp: kv_put_def)
qed (simp add: kv_put_def)

lemma bst_insert_node_ok:
  assumes "avl t" "keys_ok (entries t)" "cstr_ok k" "int (length (kv_put k v (entries t))) \<le> INT_MAX"
  shows "\<exists>t'. bst_insert_node t k v = Inr t' \<and> avl t' \<and>
    bst_height t' \<in> {bst_height t, bst_height t + 1} \<and> entries t' = kv_put k v (entries t)"
  using assms
proof (induction t)
  case Null
  then show ?case by (simp add: kv_put_def)
next
  case (BSTNode a b l r h s)
  then have ok: "cstr_ok a" "keys_ok (entries l)" "keys_ok (entries r)"
    by (auto simp: keys_ok_append)
  note put = kv_put_split [OF BSTNode.prems(2) [simplified], of k v]
  have av: "avl l" "avl r" using BSTNode.prems(1) by auto
  note sz = avl_size_entries [OF av(1)] avl_size_entries [OF av(2)]
  consider "k = a" | "k < a" | "a < k" by force
  then show ?case
  proof cases
    case 1
    with BSTNode.prems put show ?thesis by simp
  next
    case 2
    have n: "int (length (kv_put k v (entries l))) + 1 + int (length (entries r)) \<le> INT_MAX"
      using BSTNode.prems(4) put 2 by (auto split: if_splits)
    then have "int (length (kv_put k v (entries l))) \<le> INT_MAX" by simp
    then obtain l' where
      l': "bst_insert_node l k v = Inr l'" "avl l'" "entries l' = kv_put k v (entries l)"
        "bst_height l' \<in> {bst_height l, bst_height l + 1}"
      using BSTNode.IH(1) [OF av(1) ok(2) BSTNode.prems(3)] by blast
    have "\<bar>bst_height l' - bst_height r\<bar> \<le> 2" using l'(4) BSTNode.prems(1) by auto
    moreover have "1 + bst_size l' + bst_size r \<le> INT_MAX" using n sz avl_size_entries [OF l'(2)] l'(3) by simp
    ultimately show ?thesis
      using bst_balance_update [OF l'(2) av(2), of a b] l' 2 put BSTNode.prems ok by (auto simp: cstr_simps Let_def)
  next
    case 3
    then have n: "int (length (entries l)) + 1 + int (length (kv_put k v (entries r))) \<le> INT_MAX"
      using BSTNode.prems(4) put by (auto split: if_splits)
    then have "int (length (kv_put k v (entries r))) \<le> INT_MAX" by simp
    then obtain r' where
      r': "bst_insert_node r k v = Inr r'" "avl r'" "entries r' = kv_put k v (entries r)"
        "bst_height r' \<in> {bst_height r, bst_height r + 1}"
      using BSTNode.IH(2) [OF av(2) ok(3) BSTNode.prems(3)] by blast
    have "\<bar>bst_height l - bst_height r'\<bar> \<le> 2" using r'(4) BSTNode.prems(1) by auto
    moreover have "1 + bst_size l + bst_size r' \<le> INT_MAX" using n sz avl_size_entries [OF r'(2)] r'(3) by simp
    ultimately show ?thesis
      using bst_balance_update [OF av(1) r'(2), of a b] r' 3 put BSTNode.prems ok by (auto simp: cstr_simps Let_def)
  qed
qed

text \<open>Where the result would have more than \<open>INT_MAX\<close> entries, the size of the root overflows.\<close>

lemma bst_insert_node_overflow:
  assumes "avl t" "keys_ok (entries t)" "cstr_ok k" "bst_size t \<le> INT_MAX" "INT_MAX < int (length (kv_put k v (entries t)))"
  shows "bst_insert_node t k v = Inl SignedOverflow"
proof (cases t)
  case Null
  then show ?thesis using assms(5) by (simp add: kv_put_def INT_MAX_def)
next
  case (BSTNode a b l r h s)
  then have ok: "cstr_ok a" "keys_ok (entries l)" "keys_ok (entries r)" "avl l" "avl r"
    using assms(1,2) by (auto simp: keys_ok_append)
  note put = kv_put_split [OF assms(2) [unfolded BSTNode entries.simps], of k v]
  note sz = avl_size_entries [OF ok(4)] avl_size_entries [OF ok(5)]
  have s: "int (length (entries l)) + 1 + int (length (entries r)) \<le> INT_MAX" using assms(1,4) sz BSTNode by auto
  note n = length_kv_put [OF ok(2), of k v] length_kv_put [OF ok(3), of k v]
  consider "k = a" | "k < a" | "a < k" by force
  then show ?thesis
  proof cases
    case 1
    then show ?thesis using assms(5) put s BSTNode by simp
  next
    case 2
    have "int (length (kv_put k v (entries l))) \<le> INT_MAX" using n(1) s by (auto split: if_splits)
    then obtain l' where l': "bst_insert_node l k v = Inr l'" "avl l'" "entries l' = kv_put k v (entries l)"
      using bst_insert_node_ok [OF ok(4,2) assms(3)] by blast
    moreover have "INT_MAX < 1 + bst_size l' + bst_size r"
      using assms(5) put 2 BSTNode sz l'(3) avl_size_entries [OF l'(2)] by (auto split: if_splits)
    then have "bst_update a b l' r = Inl SignedOverflow" by (simp add: bst_update_def Let_def)
    ultimately show ?thesis using 2 BSTNode ok(1) assms(3) by (simp add: cstr_simps Let_def)
  next
    case 3
    have "int (length (kv_put k v (entries r))) \<le> INT_MAX" using n(2) s by (auto split: if_splits)
    then obtain r' where r': "bst_insert_node r k v = Inr r'" "avl r'" "entries r' = kv_put k v (entries r)"
      using bst_insert_node_ok [OF ok(5,3) assms(3)] by blast
    moreover have "INT_MAX < 1 + bst_size l + bst_size r'"
      using assms(5) put 3 BSTNode sz r'(3) avl_size_entries [OF r'(2)] by (auto split: if_splits)
    then have "bst_update a b l r' = Inl SignedOverflow" by (simp add: bst_update_def Let_def)
    ultimately show ?thesis using 3 BSTNode ok(1) assms(3) by (auto simp: cstr_simps Let_def)
  qed
qed

lemma bst_find_min_entries:
  "t \<noteq> Null \<Longrightarrow> \<exists>k v l r h s. bst_find_min t = BSTNode k v l r h s \<and> hd (entries t) = (k, v)"
proof (induction t)
  case (BSTNode k v l r h s)
  then show ?case
    by (cases l) (auto simp: hd_append)
qed simp

lemma bst_remove_min_ok:
  assumes "avl t" "bst_size t \<le> INT_MAX"
  shows "\<exists>t'. bst_remove_min t = Inr t' \<and> avl t' \<and>
    bst_height t' \<in> {bst_height t - 1, bst_height t} \<and>
    entries t' = tl (entries t)"
  using assms
proof (induction t)
  case (BSTNode a b l r h s)
  show ?case
  proof (cases "l = Null")
    case True
    with BSTNode.prems avl_height_nonneg [of r] show ?thesis by auto
  next
    case False
    have av: "avl l" "avl r" using BSTNode.prems(1) by auto
    have "bst_size l \<le> INT_MAX" using BSTNode.prems avl_size_nonneg [OF av(2)] by auto
    with BSTNode.IH(1) [OF av(1)] obtain l' where
      l': "bst_remove_min l = Inr l'" "avl l'" "entries l' = tl (entries l)"
        "bst_height l' \<in> {bst_height l - 1, bst_height l}"
      by blast
    from False have ne: "entries l \<noteq> []" by (cases l) auto
    have "\<bar>bst_height l' - bst_height r\<bar> \<le> 2" using l'(4) BSTNode.prems(1) by auto
    moreover have "bst_size l' \<le> bst_size l" using avl_size_entries [OF l'(2)] avl_size_entries [OF av(1)] l'(3) by simp
    then have "1 + bst_size l' + bst_size r \<le> INT_MAX" using BSTNode.prems by auto
    ultimately obtain t' where "bst_remove_min (BSTNode a b l r h s) = Inr t'" "avl t'"
      "entries t' = entries l' @ (a, b) # entries r" "bst_height t' \<in> {h - 1, h}"
      using bst_balance_update [OF l'(2) av(2), of a b] l' BSTNode.prems(1) False
      by (auto simp: max_def split: if_splits)
    then show ?thesis using l' ne by (cases "entries l") auto
  qed
qed simp


lemma length_kv_drop: "length (kv_drop k ps) \<le> length ps"
  by (simp add: kv_drop_def)

lemma bst_remove_node_ok:
  assumes "avl t" "keys_ok (entries t)" "cstr_ok k" "bst_size t \<le> INT_MAX"
  shows "\<exists>t'. bst_remove_node t k = Inr t' \<and> avl t' \<and>
    bst_height t' \<in> {bst_height t - 1, bst_height t} \<and> entries t' = kv_drop k (entries t)"
  using assms
proof (induction t)
  case Null
  then show ?case by (simp add: kv_drop_def)
next
  case (BSTNode a b l r h s)
  then have ok: "cstr_ok a" "keys_ok (entries l)" "keys_ok (entries r)" "avl l" "avl r"
    by (auto simp: keys_ok_append)
  note del = kv_drop_split [OF BSTNode.prems(2) [simplified], of k]
  note sz = avl_size_entries [OF ok(4)] avl_size_entries [OF ok(5)]
  have s: "1 + bst_size l + bst_size r \<le> INT_MAX" using BSTNode.prems(1,4) by auto
  then have sl: "bst_size l \<le> INT_MAX" "bst_size r \<le> INT_MAX" using sz by auto
  consider "k = a" "l = Null \<or> r = Null" | "k = a" "l \<noteq> Null" "r \<noteq> Null" | "k < a" | "a < k" by force
  then show ?case
  proof cases
    case 1
    with BSTNode.prems avl_height_nonneg [of l] avl_height_nonneg [of r] del show ?thesis by auto
  next
    case 2
    from bst_find_min_entries [OF 2(3)] obtain sk sv sl sr sh ss where
      m: "bst_find_min r = BSTNode sk sv sl sr sh ss" "hd (entries r) = (sk, sv)" by blast
    from bst_remove_min_ok [OF ok(5) sl(2)] obtain r' where
      r': "bst_remove_min r = Inr r'" "avl r'" "entries r' = tl (entries r)"
        "bst_height r' \<in> {bst_height r - 1, bst_height r}" by blast
    from 2 have "entries r \<noteq> []" by (cases r) auto
    with m r' have "entries r = (sk, sv) # entries r'" by (cases "entries r") auto
    moreover from r' BSTNode.prems(1) have h: "\<bar>bst_height l - bst_height r'\<bar> \<le> 2" by auto
    have "1 + bst_size l + bst_size r' \<le> INT_MAX" using s sz avl_size_entries [OF r'(2)] r'(3) by simp
    from bst_balance_update [OF ok(4) r'(2) h this, of sk sv]
    obtain t' where "res_bind (bst_update sk sv l r') bst_balance = Inr t'" "avl t'"
      "entries t' = entries l @ (sk, sv) # entries r'" "bst_height t' \<in> {h - 1, h}"
      using r'(4) BSTNode.prems by (auto simp: max_def split: if_splits)
    ultimately show ?thesis using 2 m r' del BSTNode.prems by auto
  next
    case 3
    from BSTNode.IH(1) [OF ok(4,2) BSTNode.prems(3) sl(1)] obtain l' where
      l': "bst_remove_node l k = Inr l'" "avl l'" "entries l' = kv_drop k (entries l)"
        "bst_height l' \<in> {bst_height l - 1, bst_height l}"
      by blast
    have h: "\<bar>bst_height l' - bst_height r\<bar> \<le> 2" using l'(4) BSTNode.prems(1) by auto
    have "1 + bst_size l' + bst_size r \<le> INT_MAX"
      using s sz avl_size_entries [OF l'(2)] l'(3) length_kv_drop [of k "entries l"] by simp
    from bst_balance_update [OF l'(2) ok(5) h this, of a b] l' 3 del BSTNode.prems ok show ?thesis
      by (auto simp: cstr_simps Let_def)
  next
    case 4
    from BSTNode.IH(2) [OF ok(5,3) BSTNode.prems(3) sl(2)] obtain r' where
      r': "bst_remove_node r k = Inr r'" "avl r'" "entries r' = kv_drop k (entries r)"
        "bst_height r' \<in> {bst_height r - 1, bst_height r}"
      by blast
    have h: "\<bar>bst_height l - bst_height r'\<bar> \<le> 2" using r'(4) BSTNode.prems(1) by auto
    have "1 + bst_size l + bst_size r' \<le> INT_MAX"
      using s sz avl_size_entries [OF r'(2)] r'(3) length_kv_drop [of k "entries r"] by simp
    from bst_balance_update [OF ok(4) r'(2) h this, of a b] r' 4 del BSTNode.prems ok show ?thesis
      by (auto simp: cstr_simps Let_def)
  qed
qed

section \<open>Positional access and depth\<close>

lemma bst_nth_node_entries:
  "avl t \<Longrightarrow>
    (if 0 \<le> n \<and> n < bst_size t
     then \<exists>l r h s. bst_nth_node t n =
       BSTNode (fst (entries t ! nat n)) (snd (entries t ! nat n)) l r h s
     else bst_nth_node t n = Null)"
proof (induction t arbitrary: n)
  case (BSTNode k v l r h s)
  have sz: "bst_size l = int (length (entries l))" "bst_size r = int (length (entries r))"
    using BSTNode.prems avl_size_entries by auto
  consider "n < bst_size l" | "n = bst_size l" | "bst_size l < n" by linarith
  then show ?case
  proof cases
    case 1
    with BSTNode.IH(1) [of n] BSTNode.prems sz show ?thesis
      by (auto simp: nth_append Let_def split: if_splits)
  next
    case 2
    with BSTNode.prems sz show ?thesis by (auto simp: nth_append Let_def)
  next
    case 3
    then have "nat n - length (entries l) = Suc (nat (n - (bst_size l + 1)))"
      using sz by auto
    with 3 BSTNode.IH(2) [of "n - (bst_size l + 1)"] BSTNode.prems sz show ?thesis
      by (auto simp: nth_append Let_def split: if_splits)
  qed
qed simp

lemma bst_to_list_acc_entries: "bst_to_list_acc t acc = map fst (entries t) @ acc"
  by (induction t arbitrary: acc) (auto simp: Let_def)

text \<open>An AVL tree of height \<open>n\<close> has at least \<open>2 ^ (n div 2)\<close> positions.\<close>

lemma avl_size_ge: "avl t \<Longrightarrow> 2 ^ (nat (bst_height t) div 2) \<le> bst_size t + 1"
proof (induction t)
  case (BSTNode k v l r h s)
  define m where "m = nat (bst_height l)"
  define n where "n = nat (bst_height r)"
  have h: "nat h = 1 + max m n" "m \<le> n + 1" "n \<le> m + 1"
    using BSTNode.prems avl_height_nonneg [of l] avl_height_nonneg [of r]
    by (auto simp: m_def n_def)
  have le: "2 ^ (m div 2) \<le> bst_size l + 1" "2 ^ (n div 2) \<le> bst_size r + 1"
    using BSTNode unfolding m_def n_def by auto
  have "(2::int) ^ (nat h div 2) \<le> 2 ^ (m div 2) + 2 ^ (n div 2)"
  proof -
    have "nat h div 2 \<le> Suc (min m n div 2)" using h by auto
    then have "(2::int) ^ (nat h div 2) \<le> 2 * 2 ^ (min m n div 2)"
      by (metis one_le_numeral power_Suc power_increasing)
    moreover have "(2::int) ^ (min m n div 2) \<le> 2 ^ (m div 2)" "(2::int) ^ (min m n div 2) \<le> 2 ^ (n div 2)"
      by (auto intro!: power_increasing div_le_mono)
    ultimately show ?thesis by linarith
  qed
  with le BSTNode.prems show ?case by auto
qed simp



section \<open>The interface of a persistent map\<close>

datatype ('k, 'v) map_op = MSet 'k 'v | MRemove 'k

fun run_ops :: "('m \<Rightarrow> 'k \<Rightarrow> 'v \<Rightarrow> 'm res) \<Rightarrow> ('m \<Rightarrow> 'k \<Rightarrow> 'm res) \<Rightarrow> 'm \<Rightarrow> ('k, 'v) map_op list \<Rightarrow> 'm res" where
  "run_ops put del m [] = Inr m"
| "run_ops put del m (MSet k v # xs) = res_bind (put m k v) (\<lambda>m'. run_ops put del m' xs)"
| "run_ops put del m (MRemove k # xs) = res_bind (del m k) (\<lambda>m'. run_ops put del m' xs)"

fun spec_ops :: "('k \<rightharpoonup> 'v) \<Rightarrow> ('k, 'v) map_op list \<Rightarrow> ('k \<rightharpoonup> 'v)" where
  "spec_ops f [] = f"
| "spec_ops f (MSet k v # xs) = spec_ops (f(k \<mapsto> v)) xs"
| "spec_ops f (MRemove k # xs) = spec_ops (f(k := None)) xs"

fun op_key :: "('k, 'v) map_op \<Rightarrow> 'k" where
  "op_key (MSet k v) = k"
| "op_key (MRemove k) = k"

text \<open>Along the run, the map never holds more than \<open>n\<close> entries.\<close>

fun ops_fit :: "int \<Rightarrow> ('k \<rightharpoonup> 'v) \<Rightarrow> ('k, 'v) map_op list \<Rightarrow> bool" where
  "ops_fit n f [] = True"
| "ops_fit n f (MSet k v # xs) \<longleftrightarrow> int (card (dom (f(k \<mapsto> v)))) \<le> n \<and> ops_fit n (f(k \<mapsto> v)) xs"
| "ops_fit n f (MRemove k # xs) \<longleftrightarrow> ops_fit n (f(k := None)) xs"

locale persistent_map =
  fixes max_size :: int and ok :: "'k \<Rightarrow> bool" and inv :: "'m \<Rightarrow> bool" and lookup :: "'m \<Rightarrow> 'k \<Rightarrow> 'v option"
    and put :: "'m \<Rightarrow> 'k \<Rightarrow> 'v \<Rightarrow> 'm res" and del :: "'m \<Rightarrow> 'k \<Rightarrow> 'm res"
  assumes put_law: "inv m \<Longrightarrow> ok k \<Longrightarrow> int (card (dom ((lookup m)(k \<mapsto> v)))) \<le> max_size \<Longrightarrow>
      \<exists>m'. put m k v = Inr m' \<and> inv m' \<and> lookup m' = (lookup m)(k \<mapsto> v)"
    and del_law: "inv m \<Longrightarrow> ok k \<Longrightarrow>
      \<exists>m'. del m k = Inr m' \<and> inv m' \<and> lookup m' = (lookup m)(k := None)"
begin

lemma run_ops_refines:
  "inv m \<Longrightarrow> \<forall>x \<in> set xs. ok (op_key x) \<Longrightarrow> ops_fit max_size (lookup m) xs \<Longrightarrow>
     \<exists>m'. run_ops put del m xs = Inr m' \<and> inv m' \<and> lookup m' = spec_ops (lookup m) xs"
proof (induction xs arbitrary: m)
  case (Cons x xs)
  show ?case
  proof (cases x)
    case (MSet k v)
    with Cons.prems obtain m' where "put m k v = Inr m'" "inv m'" "lookup m' = (lookup m)(k \<mapsto> v)"
      using put_law [of m k v] by auto
    with Cons.IH [of m'] Cons.prems MSet show ?thesis by (simp add: fun_upd_def)
  next
    case (MRemove k)
    with Cons.prems obtain m' where "del m k = Inr m'" "inv m'" "lookup m' = (lookup m)(k := None)"
      using del_law [of m k] by auto
    with Cons.IH [of m'] Cons.prems MRemove show ?thesis by (simp add: fun_upd_def)
  qed
qed simp

end

definition map_lookup :: "bst \<Rightarrow> cstr \<Rightarrow> sval option" where
  "map_lookup m = map_of (entries m)"

lemma map_set_entries:
  assumes "map_inv m" "cstr_ok k" "int (length (kv_put k v (entries m))) \<le> INT_MAX"
  shows "\<exists>m'. map_set m (Some k) v = Inr m' \<and> map_inv m' \<and> entries m' = kv_put k v (entries m)"
  using bst_insert_node_ok [of m k v] assms keys_ok_kv_put avl_size_entries
  by (auto simp: map_set_def map_inv_def)

text \<open>A map has as many entries as keys.\<close>

lemma card_lookup: "keys_ok ps \<Longrightarrow> card (dom (map_of ps)) = length ps"
  unfolding dom_map_of_conv_image_fst keys_ok_def
  by (metis distinct_card length_map list.set_map strict_sorted_iff)

lemma map_remove_entries:
  assumes "map_inv m" "cstr_ok k"
  shows "\<exists>m'. map_remove m (Some k) = Inr m' \<and> map_inv m' \<and> entries m' = kv_drop k (entries m)"
proof (cases "bst_has_key m k")
  case True
  from assms(1) have m: "avl m" "keys_ok (entries m)" "bst_size m \<le> INT_MAX" by (simp_all add: map_inv_def)
  from bst_remove_node_ok [OF m(1,2) assms(2) m(3)] obtain m' where
    m': "bst_remove_node m k = Inr m'" "avl m'" "entries m' = kv_drop k (entries m)" by blast
  have "bst_size m' \<le> INT_MAX"
    using avl_size_entries [OF m(1)] avl_size_entries [OF m'(2)] m(3) m'(3) length_kv_drop [of k "entries m"] by simp
  then show ?thesis using True m' keys_ok_kv_drop [OF m(2)] by (simp add: map_remove_def map_inv_def)
next
  case False
  with assms have "map_of (entries m) k = None"
    by (auto simp: map_inv_def bst_has_key_entries)
  then have "kv_drop k (entries m) = entries m"
    by (intro kv_drop_keep) (force simp: map_of_eq_None_iff)
  with False assms show ?thesis by (simp add: map_remove_def)
qed

interpretation bst: persistent_map INT_MAX cstr_ok map_inv map_lookup
    "\<lambda>m k. map_set m (Some k)" "\<lambda>m k. map_remove m (Some k)"
proof
  fix m k v
  assume a: "map_inv m" "cstr_ok k" "int (card (dom ((map_lookup m)(k \<mapsto> v)))) \<le> INT_MAX"
  have "keys_ok (kv_put k v (entries m))" using a by (auto simp: map_inv_def keys_ok_kv_put)
  then have "int (length (kv_put k v (entries m))) \<le> INT_MAX"
    using a(3) card_lookup by (metis map_lookup_def map_of_kv_put)
  from map_set_entries [OF a(1,2) this]
  show "\<exists>m'. map_set m (Some k) v = Inr m' \<and> map_inv m' \<and> map_lookup m' = (map_lookup m)(k \<mapsto> v)"
    by (auto simp: map_lookup_def map_of_kv_put)
next
  fix m k
  assume "map_inv m" "cstr_ok k"
  then show "\<exists>m'. map_remove m (Some k) = Inr m' \<and> map_inv m' \<and> map_lookup m' = (map_lookup m)(k := None)"
    using map_remove_entries [of m k] by (auto simp: map_lookup_def map_of_kv_drop)
qed

lemma map_empty_inv [simp]: "map_inv map_empty" "map_lookup map_empty = Map.empty"
  by (simp_all add: map_empty_def map_inv_def map_lookup_def INT_MAX_def)

section \<open>Properties\<close>

text \<open>C19. Inserting a key into a map whose result has at most \<open>INT_MAX\<close> entries returns a tree (no null node is
  dereferenced, no \<^verbatim>\<open>int\<close> field overflows), keeps the AVL, size and order invariant, and changes the sorted entry list
  exactly as a single insertion or overwrite does. Where the result would have one entry more, the size field of
  the root overflows.\<close>

theorem map_set_correct:
  assumes "map_inv m" and "cstr_ok k"
  shows "if int (length (kv_put k v (entries m))) \<le> INT_MAX
    then \<exists>m'. map_set m (Some k) v = Inr m' \<and> map_inv m' \<and> entries m' = kv_put k v (entries m)
    else map_set m (Some k) v = Inl SignedOverflow"
  using map_set_entries [OF assms, of v] bst_insert_node_overflow [of m k v] assms
  by (auto simp: map_set_def map_inv_def)

theorem map_set_correct_witness:
  "\<exists>m'. map_set (BSTNode [98] 5 Null Null 1 1) (Some [97]) 7 = Inr m' \<and> map_inv m' \<and> entries m' = [([97], 7), ([98], 5)]"
proof -
  have i: "map_inv (BSTNode [98] 5 Null Null 1 1)" "cstr_ok [97]" by (simp_all add: map_inv_def keys_ok_def INT_MAX_def)
  have e: "kv_put [97] 7 (entries (BSTNode [98] 5 Null Null 1 1)) = [([97], 7), ([98], 5)]" by (simp add: kv_put_def)
  show ?thesis using map_set_correct [OF i, of 7] unfolding e by (simp add: INT_MAX_def)
qed

text \<open>C20. Removing a key returns a tree, keeps the invariant and deletes exactly that key; an absent
  key gives back the same map.\<close>

theorem map_remove_correct:
  assumes "map_inv m" and "cstr_ok k"
  shows "\<exists>m'. map_remove m (Some k) = Inr m' \<and> map_inv m' \<and> entries m' = kv_drop k (entries m) \<and>
    (map_lookup m k = None \<longrightarrow> m' = m)"
proof -
  from assms have "map_remove m (Some k) = Inr m" if "map_lookup m k = None"
    using that by (simp add: map_remove_def map_lookup_def map_inv_def bst_has_key_entries)
  with map_remove_entries [OF assms] show ?thesis by auto
qed

theorem map_remove_correct_witness:
  "\<exists>m'. map_remove (BSTNode [98] 5 Null Null 1 1) (Some [98]) = Inr m' \<and> map_inv m' \<and>
     entries m' = kv_drop [98] (entries (BSTNode [98] 5 Null Null 1 1)) \<and>
     (map_lookup (BSTNode [98] 5 Null Null 1 1) [98] = None \<longrightarrow> m' = BSTNode [98] 5 Null Null 1 1)"
  by (rule map_remove_correct) (simp_all add: map_inv_def keys_ok_def INT_MAX_def)

text \<open>A lookup returns the stored value, except that a stored value equal to the sentinel
  \<open>LLONG_MIN\<close> reads as absent.\<close>

theorem map_get_correct:
  assumes "map_inv m" and "cstr_ok k"
  shows "map_get m (Some k) =
    Inr (case map_lookup m k of None \<Rightarrow> None | Some v \<Rightarrow> if v = LLONG_MIN then None else Some v)"
  using assms by (simp add: map_get_def map_inv_def map_lookup_def bst_get_entries split: option.split)

theorem map_get_correct_witness:
  "map_get (BSTNode [98] 5 Null Null 1 1) (Some [98]) =
    Inr (case map_lookup (BSTNode [98] 5 Null Null 1 1) [98] of
           None \<Rightarrow> None | Some v \<Rightarrow> if v = LLONG_MIN then None else Some v)"
  by (rule map_get_correct) (simp_all add: map_inv_def keys_ok_def INT_MAX_def)

text \<open>C21. The sentinel loses a value: after storing the integer \<open>LLONG_MIN\<close> under a key, the lookup
  answers \<open>Nothing\<close> although the key is in the map, is counted and is listed. (The map has room for one more
  entry, so that the insertion returns.)\<close>

theorem map_get_loses_min_value:
  assumes "map_inv m" and "cstr_ok k" and "int (length (entries m)) < INT_MAX"
  shows "\<exists>m'. map_set m (Some k) LLONG_MIN = Inr m' \<and> map_get m' (Some k) = Inr None \<and>
    bst_has_key m' k \<and> k \<in> set (map_keys m')"
proof -
  have "int (length (kv_put k LLONG_MIN (entries m))) \<le> INT_MAX"
    using length_kv_put [of "entries m" k LLONG_MIN] assms(1,3) by (auto simp: map_inv_def split: if_splits)
  from map_set_entries [OF assms(1,2) this] obtain m' where
    m': "map_set m (Some k) LLONG_MIN = Inr m'" "map_inv m'" "entries m' = kv_put k LLONG_MIN (entries m)"
    by blast
  then have "map_of (entries m') k = Some LLONG_MIN" by (simp add: map_of_kv_put)
  moreover from m' have "k \<in> set (map_keys m')"
    by (simp add: map_keys_def bst_to_list_acc_entries kv_put_def)
  ultimately show ?thesis
    using m' assms by (auto simp: map_get_def map_inv_def bst_get_entries bst_has_key_entries)
qed

theorem map_get_loses_min_value_witness:
  "\<exists>m'. map_set map_empty (Some [97]) LLONG_MIN = Inr m' \<and> map_get m' (Some [97]) = Inr None \<and>
     bst_has_key m' [97] \<and> [97] \<in> set (map_keys m')"
  by (rule map_get_loses_min_value) (simp, simp, simp add: map_empty_def INT_MAX_def)

text \<open>Positional access, size and the key list agree with the sorted entries for every index,
  in and out of range.\<close>

theorem map_nth_correct:
  assumes "map_inv m"
  shows "map_size m = int (length (entries m)) \<and>
    map_nth_key m i =
      (if 0 \<le> i \<and> i < map_size m then Some (fst (entries m ! nat i)) else None) \<and>
    map_nth_value m i =
      (if 0 \<le> i \<and> i < map_size m then Some (snd (entries m ! nat i)) else None) \<and>
    map_keys m = map fst (entries m)"
  using assms bst_nth_node_entries [of m i]
  by (auto simp: map_inv_def map_size_def avl_size_entries map_nth_key_def map_nth_value_def
      map_keys_def bst_to_list_acc_entries split: if_splits)

theorem map_nth_correct_witness:
  "map_nth_key (BSTNode [98] 5 Null Null 1 1) 0 = Some [98]"
  using map_nth_correct [of "BSTNode [98] 5 Null Null 1 1" 0]
  by (simp add: map_inv_def keys_ok_def map_size_def INT_MAX_def)

text \<open>The number of nodes on the longest path, which is how deep the recursive functions of the map go.\<close>

fun bst_depth :: "bst \<Rightarrow> nat" where
  "bst_depth Null = 0"
| "bst_depth (BSTNode k v l r h s) = Suc (max (bst_depth l) (bst_depth r))"

lemma avl_depth: "avl t \<Longrightarrow> bst_height t = int (bst_depth t)"
  by (induction t) auto

lemma map_inv_depth:
  assumes "map_inv m"
  shows "2 ^ (bst_depth m div 2) \<le> length (entries m) + 1" "bst_depth m \<le> 63"
proof -
  from assms have a: "avl m" "int (length (entries m)) \<le> INT_MAX" by (auto simp: map_inv_def avl_size_entries)
  have "int (2 ^ (bst_depth m div 2)) \<le> int (length (entries m) + 1)"
    using avl_size_ge [OF a(1)] avl_size_entries [OF a(1)] avl_depth [OF a(1)] by simp
  then show le: "2 ^ (bst_depth m div 2) \<le> length (entries m) + 1" by (simp only: of_nat_le_iff)
  have "length (entries m) + 1 \<le> 2 ^ 31" using a(2) by (simp add: INT_MAX_def)
  then have "(2::nat) ^ (bst_depth m div 2) \<le> 2 ^ 31" using le by (rule order_trans [rotated])
  then have "bst_depth m div 2 \<le> 31" by (rule power_le_imp_le_exp [rotated]) simp
  then show "bst_depth m \<le> 63" by linarith
qed

text \<open>C18. Any sequence of insertions and removals on the empty map, with valid keys and never more than \<open>INT_MAX\<close>
  entries, runs to the end and refines the same sequence of updates of a finite map.\<close>

theorem map_ops_refine:
  assumes "\<forall>x \<in> set xs. cstr_ok (op_key x)" "ops_fit INT_MAX Map.empty xs"
  shows "\<exists>m. run_ops (\<lambda>m k. map_set m (Some k)) (\<lambda>m k. map_remove m (Some k)) map_empty xs = Inr m \<and>
    map_inv m \<and> map_lookup m = spec_ops Map.empty xs"
  using bst.run_ops_refines [of map_empty xs] assms by simp

theorem map_ops_refine_witness:
  "\<exists>m. run_ops (\<lambda>m k. map_set m (Some k)) (\<lambda>m k. map_remove m (Some k)) map_empty
        [MSet [97] 1, MSet [98] 2, MRemove [97]] = Inr m \<and>
    map_inv m \<and> map_lookup m = spec_ops Map.empty [MSet [97] 1, MSet [98] 2, MRemove [97]]"
  by (rule map_ops_refine) (simp_all add: INT_MAX_def)

text \<open>C22. The map built by any sequence of insertions and removals (with valid keys and never more than \<open>INT_MAX\<close> entries)
  is logarithmically deep: a map with \<open>n\<close> entries has no path of more than \<open>2 log (n + 1) + 1\<close> nodes, and none
  of more than 63, so that the recursion of the map builtins is bounded. The depth is that of the
  tree, not the stored height.\<close>

theorem map_depth_bound:
  assumes "\<forall>x \<in> set xs. cstr_ok (op_key x)" "ops_fit INT_MAX Map.empty xs"
  shows "\<exists>m. run_ops (\<lambda>m k. map_set m (Some k)) (\<lambda>m k. map_remove m (Some k)) map_empty xs = Inr m \<and>
    2 ^ (bst_depth m div 2) \<le> card (dom (spec_ops Map.empty xs)) + 1 \<and> bst_depth m \<le> 63"
proof -
  obtain m where m: "run_ops (\<lambda>m k. map_set m (Some k)) (\<lambda>m k. map_remove m (Some k)) map_empty xs = Inr m"
    "map_inv m" "map_lookup m = spec_ops Map.empty xs"
    using bst.run_ops_refines [of map_empty xs] assms by auto
  moreover have "card (dom (spec_ops Map.empty xs)) = length (entries m)"
    using card_lookup [of "entries m"] m(2,3) by (simp add: map_inv_def map_lookup_def)
  ultimately show ?thesis using map_inv_depth [OF m(2)] by auto
qed

theorem map_depth_bound_witness:
  "\<exists>m. run_ops (\<lambda>m k. map_set m (Some k)) (\<lambda>m k. map_remove m (Some k)) map_empty
        [MSet [97] 1, MSet [98] 2, MSet [99] 3] = Inr m \<and> bst_depth m \<le> 5"
proof -
  let ?xs = "[MSet [97] 1, MSet [98] 2, MSet [99] 3] :: (cstr, sval) map_op list"
  have "card (dom (spec_ops Map.empty ?xs)) = 3" by simp
  moreover have "\<exists>m. run_ops (\<lambda>m k. map_set m (Some k)) (\<lambda>m k. map_remove m (Some k)) map_empty ?xs = Inr m \<and>
      2 ^ (bst_depth m div 2) \<le> card (dom (spec_ops Map.empty ?xs)) + 1 \<and> bst_depth m \<le> 63"
    by (rule map_depth_bound) (simp_all add: INT_MAX_def)
  ultimately obtain m where m: "run_ops (\<lambda>m k. map_set m (Some k)) (\<lambda>m k. map_remove m (Some k)) map_empty ?xs = Inr m"
    "2 ^ (bst_depth m div 2) \<le> (4 :: nat)" by auto
  from m(2) have "(2 :: nat) ^ (bst_depth m div 2) < 2 ^ 3" by simp
  then have "bst_depth m div 2 < 3" by (rule power_less_imp_less_exp [rotated]) simp
  then show ?thesis using m(1) by auto
qed

end
