(* ===== verification/Runtime_Words.thy ===== *)
theory Runtime_Words
  imports Runtime_Prelude
begin

unbundle bit_operations_syntax

text \<open>
  Generic facts about machine words: masks, shifts and disjoint unions read as arithmetic on the
  unsigned value, and case analysis over the 256 bytes.
\<close>

named_theorems unat_simps \<open>bit operations read as arithmetic on \<open>unat\<close>\<close>

lemma and_mask_nat: "a AND (2 ^ n - 1) = a mod 2 ^ n" for a :: nat
  by (metis mask_eq_exp_minus_1 take_bit_eq_mask take_bit_eq_mod)

lemma shift_or_add_nat: "b < 2 ^ n \<Longrightarrow> push_bit n a OR b = a * 2 ^ n + b" for a b :: nat
proof -
  assume b: "b < 2 ^ n"
  then have "b = take_bit n b" by (simp add: take_bit_nat_eq_self)
  then have "push_bit n a AND b = 0"
    by (metis (no_types, opaque_lifting) and.commute and_zero_eq bit_eqI bit_and_iff bit_push_bit_iff bit_take_bit_iff linorder_not_less bit_0_eq bot_apply bot_bool_def)
  then show ?thesis
    by (metis disjunctive_add_eq_or push_bit_eq_mult)
qed

lemma unat_and_mask [unat_simps]:
  "n \<le> LENGTH('a) \<Longrightarrow> unat (w AND (2 ^ n - 1)) = unat w mod 2 ^ n" for w :: "'a::len word"
  by (metis mask_eq_exp_minus_1 take_bit_eq_mask take_bit_eq_mod unsigned_take_bit_eq)

lemma unat_shift_or [unat_simps]:
  fixes a b :: "'a::len word"
  assumes "unat b < 2 ^ n" "unat a * 2 ^ n < 2 ^ LENGTH('a)"
  shows "unat (push_bit n a OR b) = unat a * 2 ^ n + unat b"
proof -
  have "unat (push_bit n a) = unat a * 2 ^ n"
    using assms(2) by (subst unsigned_push_bit_eq) (simp add: push_bit_eq_mult take_bit_nat_eq_self)
  then have "unat (push_bit n a OR b) = push_bit n (unat a) OR unat b"
    by (simp add: unsigned_or_eq) (simp add: push_bit_eq_mult)
  with assms(1) show ?thesis by (simp add: shift_or_add_nat)
qed

lemma unat_drop [unat_simps]: "unat (drop_bit n w) = unat w div 2 ^ n" for w :: "'a::len word"
  by (subst unat_drop_bit_eq) (simp add: drop_bit_eq_div)

text \<open>Masks that select a block of higher bits, and the byte classes of UTF-8.\<close>

lemma and_high_mask_nat: "n AND (2 ^ m - 1) * 2 ^ k = (n div 2 ^ k mod 2 ^ m) * 2 ^ k" for n :: nat
proof -
  have "n AND push_bit k (mask m) = push_bit k (drop_bit k n AND mask m)"
    by (rule bit_eqI) (auto simp: bit_simps)
  then show ?thesis
    by (simp add: push_bit_eq_mult drop_bit_eq_div mask_eq_exp_minus_1 and_mask_nat [simplified])
qed

lemma unat_bound: "unat w < 2 ^ LENGTH('a)" for w :: "'a::len word"
  by (rule unsigned_less)

lemma unat_byte_less [simp]: "unat (b :: byte) < 256"
  using unsigned_less [of b] by simp

lemma byte_class_nat:
  fixes n :: nat
  assumes "n < 256"
  shows "n AND 0x80 = 0 \<longleftrightarrow> n < 128"
    and "n AND 0xE0 = 0xC0 \<longleftrightarrow> 192 \<le> n \<and> n < 224"
    and "n AND 0xF0 = 0xE0 \<longleftrightarrow> 224 \<le> n \<and> n < 240"
    and "n AND 0xF8 = 0xF0 \<longleftrightarrow> 240 \<le> n \<and> n < 248"
    and "n AND 0xC0 = 0x80 \<longleftrightarrow> 128 \<le> n \<and> n < 192"
  using assms and_high_mask_nat [of n 1 7] and_high_mask_nat [of n 3 5] and_high_mask_nat [of n 4 4]
    and_high_mask_nat [of n 5 3] and_high_mask_nat [of n 2 6]
  by simp_all linarith+

lemma byte_classes [simp]:
  fixes b :: byte
  shows "b AND 0x80 = 0 \<longleftrightarrow> unat b < 128"
    and "b AND 0xE0 = 0xC0 \<longleftrightarrow> 192 \<le> unat b \<and> unat b < 224"
    and "b AND 0xF0 = 0xE0 \<longleftrightarrow> 224 \<le> unat b \<and> unat b < 240"
    and "b AND 0xF8 = 0xF0 \<longleftrightarrow> 240 \<le> unat b \<and> unat b < 248"
    and "b AND 0xC0 = 0x80 \<longleftrightarrow> 128 \<le> unat b \<and> unat b < 192"
  using byte_class_nat [of "unat b"] by (simp_all add: word_unat_eq_iff unsigned_and_eq)

end
