(* ===== verification/Utf8.thy ===== *)
theory Utf8
  imports Runtime_Words
begin

unbundle bit_operations_syntax

text \<open>
  UTF-8 in the runtime: the forward step every string walker is built on, decoding, the validator
  behind \<open>bytes_to_utf8\<close>, and the encoder of \<open>char_to_string\<close>. A read of byte \<open>i\<close> of a C string is
  \<open>cbyte s i\<close>; a codepoint is a C \<^verbatim>\<open>unsigned int\<close>, a 32-bit word.
\<close>

definition sprout_utf8_char_width :: "byte \<Rightarrow> nat res" where
  "sprout_utf8_char_width lead =
     (if lead AND 0x80 = 0 then Inr 1
      else if lead AND 0xE0 = 0xC0 then Inr 2
      else if lead AND 0xF0 = 0xE0 then Inr 3
      else if lead AND 0xF8 = 0xF0 then Inr 4
      else Inl (SproutFail ''str_utf8: invalid UTF-8 lead byte''))"

definition sprout_utf8_is_cont :: "byte \<Rightarrow> bool" where
  "sprout_utf8_is_cont b \<longleftrightarrow> b AND 0xC0 = 0x80"

definition sprout_utf8_step :: "cstr \<Rightarrow> nat \<Rightarrow> nat res" where
  "sprout_utf8_step s i =
     res_bind (sprout_utf8_char_width (cbyte s i))
       (\<lambda>width.
          if list_all (\<lambda>k. cbyte s (i + k) AND 0xC0 = 0x80) [1..<width] then Inr width
          else Inl (SproutFail ''str_utf8: truncated or malformed UTF-8 sequence''))"

definition sprout_utf8_decode_at :: "cstr \<Rightarrow> nat \<Rightarrow> nat \<Rightarrow> 32 word" where
  "sprout_utf8_decode_at s pos width =
     (let u = (\<lambda>k. ucast (cbyte s (pos + k)) :: 32 word)
      in if width = 1 then u 0
         else if width = 2 then push_bit 6 (u 0 AND 0x1F) OR (u 1 AND 0x3F)
         else if width = 3 then
           push_bit 12 (u 0 AND 0x0F) OR push_bit 6 (u 1 AND 0x3F) OR (u 2 AND 0x3F)
         else push_bit 18 (u 0 AND 0x07) OR push_bit 12 (u 1 AND 0x3F) OR
           push_bit 6 (u 2 AND 0x3F) OR (u 3 AND 0x3F))"

lemma sprout_utf8_char_width_pos: "sprout_utf8_char_width b = Inr w \<Longrightarrow> 1 \<le> w \<and> w \<le> 4"
  by (auto simp: sprout_utf8_char_width_def split: if_splits)

lemma sprout_utf8_step_pos: "sprout_utf8_step s i = Inr w \<Longrightarrow> 1 \<le> w \<and> w \<le> 4"
  by (auto simp: sprout_utf8_step_def res_bind_eq_Inr split: if_splits dest: sprout_utf8_char_width_pos)

function utf8_count_loop :: "cstr \<Rightarrow> nat \<Rightarrow> nat \<Rightarrow> nat res" where
  "utf8_count_loop s i count =
     (if cbyte s i \<noteq> 0
      then res_bind (sprout_utf8_step s i) (\<lambda>w. utf8_count_loop s (i + w) (count + 1))
      else Inr count)"
  by pat_completeness auto
termination
  by (relation "measure (\<lambda>(s, i, count). length s - i)")
    (auto simp: cbyte_def split: if_splits dest: sprout_utf8_step_pos)

declare utf8_count_loop.simps [simp del]

definition sprout_utf8_codepoint_count :: "cstr \<Rightarrow> nat res" where
  "sprout_utf8_codepoint_count s = utf8_count_loop s 0 0"

function utf8_prefix_count_loop :: "cstr \<Rightarrow> nat \<Rightarrow> nat \<Rightarrow> nat \<Rightarrow> nat res" where
  "utf8_prefix_count_loop s byte_limit i count =
     (if cbyte s i \<noteq> 0 \<and> i < byte_limit
      then res_bind (sprout_utf8_step s i) (\<lambda>w. utf8_prefix_count_loop s byte_limit (i + w) (count + 1))
      else Inr count)"
  by pat_completeness auto
termination
  by (relation "measure (\<lambda>(s, byte_limit, i, count). byte_limit - i)")
    (auto dest: sprout_utf8_step_pos)

declare utf8_prefix_count_loop.simps [simp del]

definition sprout_utf8_codepoint_prefix_count :: "cstr \<Rightarrow> nat \<Rightarrow> nat res" where
  "sprout_utf8_codepoint_prefix_count s byte_limit = utf8_prefix_count_loop s byte_limit 0 0"

text \<open>The validator, over a length-delimited buffer: \<open>None\<close> when it returns 1, else the reason.\<close>

function utf8_validate_from :: "byte list \<Rightarrow> nat \<Rightarrow> string option" where
  "utf8_validate_from data i =
     (if i < length data then
        (let b0 = data ! i; len = length data in
         if b0 = 0 then Some ''decoded string contains NUL byte''
         else if b0 \<le> 0x7F then utf8_validate_from data (i + 1)
         else if b0 AND 0xE0 = 0xC0 then
           (if i + 1 \<ge> len then Some ''truncated UTF-8 sequence''
            else let b1 = data ! (i + 1) in
              if b1 AND 0xC0 \<noteq> 0x80 \<or> b0 < 0xC2 then Some ''invalid UTF-8 sequence''
              else utf8_validate_from data (i + 2))
         else if b0 AND 0xF0 = 0xE0 then
           (if i + 2 \<ge> len then Some ''truncated UTF-8 sequence''
            else let b1 = data ! (i + 1); b2 = data ! (i + 2) in
              if b1 AND 0xC0 \<noteq> 0x80 \<or> b2 AND 0xC0 \<noteq> 0x80 then Some ''invalid UTF-8 sequence''
              else if (b0 = 0xE0 \<and> b1 < 0xA0) \<or> (b0 = 0xED \<and> b1 \<ge> 0xA0) then Some ''invalid UTF-8 sequence''
              else utf8_validate_from data (i + 3))
         else if b0 AND 0xF8 = 0xF0 then
           (if i + 3 \<ge> len then Some ''truncated UTF-8 sequence''
            else let b1 = data ! (i + 1); b2 = data ! (i + 2); b3 = data ! (i + 3) in
              if b1 AND 0xC0 \<noteq> 0x80 \<or> b2 AND 0xC0 \<noteq> 0x80 \<or> b3 AND 0xC0 \<noteq> 0x80
              then Some ''invalid UTF-8 sequence''
              else if (b0 = 0xF0 \<and> b1 < 0x90) \<or> (b0 = 0xF4 \<and> b1 \<ge> 0x90) \<or> b0 > 0xF4
              then Some ''invalid UTF-8 sequence''
              else utf8_validate_from data (i + 4))
         else Some ''invalid UTF-8 sequence'')
      else None)"
  by pat_completeness auto
termination
  by (relation "measure (\<lambda>(data, i). length data - i)") auto

declare utf8_validate_from.simps [simp del]

definition utf8_validate :: "byte list \<Rightarrow> string option" where
  "utf8_validate data = utf8_validate_from data 0"

definition utf8_valid :: "byte list \<Rightarrow> bool" where
  "utf8_valid data \<longleftrightarrow> utf8_validate data = None"

text \<open>Characters: an immediate 64-bit integer, checked against the Unicode range.\<close>

definition sprout_validate_codepoint :: "int \<Rightarrow> string \<Rightarrow> unit res" where
  "sprout_validate_codepoint cp who =
     (if cp < 0 \<or> cp > 0x10FFFF \<or> (cp \<ge> 0xD800 \<and> cp \<le> 0xDFFF) then Inl (SproutFail who) else Inr ())"

definition utf8_encode_cp :: "32 word \<Rightarrow> byte list" where
  "utf8_encode_cp cp =
     (if cp \<le> 0x7f then [ucast cp]
      else if cp \<le> 0x7ff then
        [ucast (0xc0 OR drop_bit 6 cp), ucast (0x80 OR (cp AND 0x3f))]
      else if cp \<le> 0xffff then
        [ucast (0xe0 OR drop_bit 12 cp), ucast (0x80 OR (drop_bit 6 cp AND 0x3f)),
         ucast (0x80 OR (cp AND 0x3f))]
      else
        [ucast (0xf0 OR drop_bit 18 cp), ucast (0x80 OR (drop_bit 12 cp AND 0x3f)),
         ucast (0x80 OR (drop_bit 6 cp AND 0x3f)), ucast (0x80 OR (cp AND 0x3f))])"

definition char_to_string :: "int \<Rightarrow> cstr res" where
  "char_to_string ch =
     res_bind (sprout_validate_codepoint ch ''char_to_string: codepoint out of Unicode range'')
       (\<lambda>_. if ch = 0 then Inl (SproutFail ''char_to_string: NUL cannot be in a String'')
            else Inr (utf8_encode_cp (word_of_int ch)))"

definition char_from_codepoint :: "int \<Rightarrow> int res" where
  "char_from_codepoint codepoint =
     res_bind (sprout_validate_codepoint codepoint ''char_from_codepoint: codepoint out of Unicode range'')
       (\<lambda>_. Inr codepoint)"

section \<open>Encoding and decoding as arithmetic\<close>

lemma unat_and_masks [unat_simps]:
  fixes w :: "32 word"
  shows "unat (w AND 0x3F) = unat w mod 64" "unat (w AND 0x1F) = unat w mod 32"
    "unat (w AND 0x0F) = unat w mod 16" "unat (w AND 0x07) = unat w mod 8"
  using unat_and_mask [of 6 w] unat_and_mask [of 5 w] unat_and_mask [of 4 w] unat_and_mask [of 3 w]
  by simp_all

lemma unat_or_tags [unat_simps]:
  fixes w :: "32 word"
  shows "unat w < 64 \<Longrightarrow> unat (0x80 OR w) = 128 + unat w"
    "unat w < 32 \<Longrightarrow> unat (0xc0 OR w) = 192 + unat w"
    "unat w < 16 \<Longrightarrow> unat (0xe0 OR w) = 224 + unat w"
    "unat w < 8 \<Longrightarrow> unat (0xf0 OR w) = 240 + unat w"
  using unat_shift_or [of w 6 2] unat_shift_or [of w 5 6] unat_shift_or [of w 4 14] unat_shift_or [of w 3 30]
  by (simp_all add: push_bit_eq_mult)

lemma unat_ucast_byte [unat_simps]:
  "unat (ucast (w :: 32 word) :: byte) = unat w mod 256"
  "unat (ucast (b :: byte) :: 32 word) = unat b"
  by (simp_all add: unsigned_ucast_eq take_bit_nat_eq_self order.strict_trans [OF unat_byte_less]
      take_bit_eq_mod [of 8])

lemma utf8_encode_cp_unat:
  "map unat (utf8_encode_cp cp) =
     (let n = unat cp in
      if n \<le> 0x7f then [n]
      else if n \<le> 0x7ff then [192 + n div 64, 128 + n mod 64]
      else if n \<le> 0xffff then [224 + n div 4096, 128 + n div 64 mod 64, 128 + n mod 64]
      else if n \<le> 0x10ffff then
        [240 + n div 262144, 128 + n div 4096 mod 64, 128 + n div 64 mod 64, 128 + n mod 64]
      else map unat (utf8_encode_cp cp))"
  by (simp add: utf8_encode_cp_def Let_def word_le_nat_alt unat_simps)

lemma decode_unat:
  "unat (sprout_utf8_decode_at s pos w) =
     (let u = (\<lambda>k. unat (cbyte s (pos + k))) in
      if w = 1 then u 0
      else if w = 2 then u 0 mod 32 * 64 + u 1 mod 64
      else if w = 3 then u 0 mod 16 * 4096 + u 1 mod 64 * 64 + u 2 mod 64
      else u 0 mod 8 * 262144 + u 1 mod 64 * 4096 + u 2 mod 64 * 64 + u 3 mod 64)"
  by (simp add: sprout_utf8_decode_at_def Let_def unat_simps del: push_bit_and)


section \<open>Strings as sequences of characters\<close>

text \<open>What a Sprout \<open>String\<close> may contain: Unicode scalar values other than NUL.\<close>

definition string_char :: "32 word \<Rightarrow> bool" where
  "string_char cp \<longleftrightarrow> cp \<noteq> 0 \<and> unat cp \<le> 0x10FFFF \<and> \<not> (0xD800 \<le> unat cp \<and> unat cp \<le> 0xDFFF)"

definition utf8_encode :: "32 word list \<Rightarrow> byte list" where
  "utf8_encode cps = concat (map utf8_encode_cp cps)"

lemma utf8_encode_simps [simp]:
  "utf8_encode [] = []"
  "utf8_encode (cp # cps) = utf8_encode_cp cp @ utf8_encode cps"
  "utf8_encode (xs @ ys) = utf8_encode xs @ utf8_encode ys"
  by (simp_all add: utf8_encode_def)

lemma map_unat_eq: "map unat xs = map unat ys \<longleftrightarrow> xs = ys" for xs ys :: "'a::len word list"
  by (rule inj_map_eq_map) (simp add: inj_def word_unat_eq_iff)

lemma unat_nz: "cp \<noteq> 0 \<longleftrightarrow> 0 < unat cp" for cp :: "'a::len word"
  by (simp add: unat_gt_0)

text \<open>The four shapes of an encoded character.\<close>

lemma utf8_encode_cp_cases:
  assumes "string_char cp"
  obtains
    (One) a where "utf8_encode_cp cp = [a]" "unat a = unat cp" "0 < unat a" "unat a < 128"
  | (Two) a b where "utf8_encode_cp cp = [a, b]" "unat a = 192 + unat cp div 64" "unat b = 128 + unat cp mod 64"
      "128 \<le> unat cp" "unat cp < 2048"
  | (Three) a b c where "utf8_encode_cp cp = [a, b, c]" "unat a = 224 + unat cp div 4096"
      "unat b = 128 + unat cp div 64 mod 64" "unat c = 128 + unat cp mod 64"
      "2048 \<le> unat cp" "unat cp < 65536" "unat cp < 0xD800 \<or> 0xDFFF < unat cp"
  | (Four) a b c d where "utf8_encode_cp cp = [a, b, c, d]" "unat a = 240 + unat cp div 262144"
      "unat b = 128 + unat cp div 4096 mod 64" "unat c = 128 + unat cp div 64 mod 64"
      "unat d = 128 + unat cp mod 64" "65536 \<le> unat cp" "unat cp \<le> 0x10FFFF"
proof -
  note e = utf8_encode_cp_unat [of cp, unfolded Let_def]
  note sc = assms [unfolded string_char_def unat_nz]
  consider "unat cp \<le> 0x7f" | "0x7f < unat cp" "unat cp \<le> 0x7ff" | "0x7ff < unat cp" "unat cp \<le> 0xffff"
    | "0xffff < unat cp" by linarith
  then show thesis
  proof cases
    case 1
    with e have "map unat (utf8_encode_cp cp) = [unat cp]" by simp
    with 1 sc show thesis by (elim map_eq_Cons_D [elim_format] exE conjE) (rule One, auto)
  next
    case 2
    with e have "map unat (utf8_encode_cp cp) = [192 + unat cp div 64, 128 + unat cp mod 64]" by simp
    with 2 sc show thesis by (elim map_eq_Cons_D [elim_format] exE conjE) (rule Two, auto)
  next
    case 3
    with e have "map unat (utf8_encode_cp cp) =
      [224 + unat cp div 4096, 128 + unat cp div 64 mod 64, 128 + unat cp mod 64]" by simp
    with 3 sc show thesis by (elim map_eq_Cons_D [elim_format] exE conjE) (rule Three, auto)
  next
    case 4
    with e sc have "map unat (utf8_encode_cp cp) =
      [240 + unat cp div 262144, 128 + unat cp div 4096 mod 64, 128 + unat cp div 64 mod 64,
       128 + unat cp mod 64]" by simp
    with 4 sc show thesis by (elim map_eq_Cons_D [elim_format] exE conjE) (rule Four, auto)
  qed
qed


lemma string_char_word: "string_char cp \<longleftrightarrow> 0 < unat cp \<and> unat cp \<le> 0x10FFFF \<and> \<not> (0xD800 \<le> unat cp \<and> unat cp \<le> 0xDFFF)"
  by (auto simp: string_char_def unat_nz)

text \<open>What the validator requires of one sequence, over the numeric values of its bytes.\<close>

fun seq_ok :: "nat list \<Rightarrow> bool" where
  "seq_ok [a] \<longleftrightarrow> 0 < a \<and> a < 128"
| "seq_ok [a, b] \<longleftrightarrow> 194 \<le> a \<and> a < 224 \<and> 128 \<le> b \<and> b < 192"
| "seq_ok [a, b, c] \<longleftrightarrow> 224 \<le> a \<and> a < 240 \<and> 128 \<le> b \<and> b < 192 \<and> 128 \<le> c \<and> c < 192 \<and>
     (a = 224 \<longrightarrow> 160 \<le> b) \<and> (a = 237 \<longrightarrow> b < 160)"
| "seq_ok [a, b, c, d] \<longleftrightarrow> 240 \<le> a \<and> a \<le> 244 \<and> 128 \<le> b \<and> b < 192 \<and> 128 \<le> c \<and> c < 192 \<and>
     128 \<le> d \<and> d < 192 \<and> (a = 240 \<longrightarrow> 144 \<le> b) \<and> (a = 244 \<longrightarrow> b < 144)"
| "seq_ok _ \<longleftrightarrow> False"

lemmas byte_order = word_le_nat_alt word_less_nat_alt

lemma seq_ok_cases:
  assumes "seq_ok (map unat bs)"
  obtains a where "bs = [a]" | a b where "bs = [a, b]" | a b c where "bs = [a, b, c]"
    | a b c d where "bs = [a, b, c, d]"
  using assms by (cases "map unat bs" rule: seq_ok.cases) auto

lemma utf8_validate_seq:
  assumes "seq_ok (map unat bs)"
  shows "utf8_validate_from (pre @ bs @ rest) (length pre) =
    utf8_validate_from (pre @ bs @ rest) (length pre + length bs)"
proof -
  from assms show ?thesis
  proof (cases rule: seq_ok_cases)
    case (1 a)
    with assms have "a \<noteq> 0" by auto
    with 1 assms show ?thesis
      by (subst utf8_validate_from.simps) (simp add: nth_append Let_def word_le_nat_alt)
  next
    case (2 a b)
    with assms have "a \<noteq> 0" by auto
    with 2 assms show ?thesis
      by (subst utf8_validate_from.simps) (simp add: nth_append Let_def byte_order)
  next
    case (3 a b c)
    with assms have n: "224 \<le> unat a" "unat a < 240" "unat a = 224 \<longrightarrow> 160 \<le> unat b" "unat a = 237 \<longrightarrow> unat b < 160"
      by simp_all
    have g0: "a \<noteq> 0" "\<not> a \<le> 0x7F" using n(1,2) by (auto simp: byte_order)
    have "\<not> (a = 0xE0 \<and> b < 0xA0)" using n(3) by (auto simp: byte_order)
    moreover have "\<not> (a = 0xED \<and> b \<ge> 0xA0)" using n(4) by (auto simp: byte_order)
    ultimately have g: "\<not> (a = 0xE0 \<and> b < 0xA0 \<or> a = 0xED \<and> b \<ge> 0xA0)" by blast
    have c: "128 \<le> unat b" "unat b < 192" "128 \<le> unat c" "unat c < 192" using 3 assms by simp_all
    show ?thesis unfolding 3
      by (subst utf8_validate_from.simps)
        (simp add: nth_append Let_def numeral_3_eq_3 g0(1,2) if_not_P [OF g] c n(1,2) leD [OF n(1)])
  next
    case (4 a b c d)
    with assms have n: "240 \<le> unat a" "unat a \<le> 244" "unat a = 240 \<longrightarrow> 144 \<le> unat b" "unat a = 244 \<longrightarrow> unat b < 144"
      by simp_all
    have g0: "a \<noteq> 0" "\<not> a \<le> 0x7F" "\<not> a > 0xF4" using n(1,2) by (auto simp: byte_order)
    have "\<not> (a = 0xF0 \<and> b < 0x90)" using n(3) by (auto simp: byte_order)
    moreover have "\<not> (a = 0xF4 \<and> b \<ge> 0x90)" using n(4) by (auto simp: byte_order)
    ultimately have g: "\<not> (a = 0xF0 \<and> b < 0x90 \<or> a = 0xF4 \<and> b \<ge> 0x90 \<or> a > 0xF4)" using g0(3) by blast
    have c: "128 \<le> unat b" "unat b < 192" "128 \<le> unat c" "unat c < 192" "128 \<le> unat d" "unat d < 192"
      using 4 assms by simp_all
    have a: "\<not> unat a < 224" "\<not> unat a < 240" "unat a < 248" using n(1,2) by linarith+
    have l: "length pre + length [a, b, c, d] = length pre + 4" by simp
    show ?thesis unfolding 4 l
      by (subst utf8_validate_from.simps)
        (simp add: nth_append Let_def g0(1,2) if_not_P [OF g] c n(1) a)
  qed
qed

lemma seq_ok_nonzero: "seq_ok (map unat (b # bs)) \<Longrightarrow> b \<noteq> 0" for b :: byte
  by (cases "map unat (b # bs)" rule: seq_ok.cases) auto

lemma utf8_step_seq:
  assumes "seq_ok (map unat bs)"
  shows "sprout_utf8_step (pre @ bs @ rest) (length pre) = Inr (length bs)"
    and "cbyte (pre @ bs @ rest) (length pre) \<noteq> 0" and "bs \<noteq> []"
proof -
  consider a where "bs = [a]" | a b where "bs = [a, b]" | a b c where "bs = [a, b, c]"
    | a b c d where "bs = [a, b, c, d]"
    using assms by (cases "map unat bs" rule: seq_ok.cases) auto
  then show "sprout_utf8_step (pre @ bs @ rest) (length pre) = Inr (length bs)"
    using assms
    by cases (simp_all add: sprout_utf8_step_def sprout_utf8_char_width_def cbyte_def nth_append upt_rec)
  show ne: "bs \<noteq> []" using assms by auto
  show "cbyte (pre @ bs @ rest) (length pre) \<noteq> 0"
    using assms ne by (cases bs) (auto simp: cbyte_def nth_append dest!: seq_ok_nonzero [simplified])
qed

lemma seq_ok_encode:
  assumes "string_char cp"
  shows "seq_ok (map unat (utf8_encode_cp cp))"
  using assms
proof (cases rule: utf8_encode_cp_cases)
  case (One a)
  then show ?thesis by simp
next
  case (Two a b)
  then show ?thesis by auto
next
  case (Three a b c)
  define q where "q = unat cp div 64"
  have q: "unat cp div 4096 = q div 64" "32 \<le> q" "q < 1024" "\<not> (864 \<le> q \<and> q < 896)"
    using Three by (auto simp: q_def div_mult2_eq [symmetric])
  have e: "q div 64 * 64 + q mod 64 = q" by (rule div_mult_mod_eq)
  have "32 \<le> q mod 64" if "q div 64 = 0" using e q(2) unfolding that by linarith
  moreover have "q mod 64 < 32" if "q div 64 = 13" using e q(4) unfolding that by linarith
  moreover have "q mod 64 < 64" "q div 64 < 16" using q(3) by auto
  ultimately have "q div 64 = 0 \<longrightarrow> 32 \<le> q mod 64" "q div 64 = 13 \<longrightarrow> q mod 64 < 32" "q mod 64 < 64" "q div 64 < 16"
    by blast+
  then show ?thesis using Three q by (simp flip: q_def)
next
  case (Four a b c d)
  define q where "q = unat cp div 4096"
  have q: "unat cp div 262144 = q div 64" "16 \<le> q" "q < 272"
    using Four by (auto simp: q_def div_mult2_eq [symmetric])
  have e: "q div 64 * 64 + q mod 64 = q" by (rule div_mult_mod_eq)
  have "16 \<le> q mod 64" if "q div 64 = 0" using e q(2) unfolding that by linarith
  moreover have "q mod 64 < 16" if "q div 64 = 4" using e q(3) unfolding that by linarith
  moreover have "q mod 64 < 64" "q div 64 \<le> 4" using q(3) by auto
  ultimately have "q div 64 = 0 \<longrightarrow> 16 \<le> q mod 64" "q div 64 = 4 \<longrightarrow> q mod 64 < 16" "q mod 64 < 64" "q div 64 \<le> 4"
    by blast+
  then show ?thesis using Four q by (simp flip: q_def)
qed

lemma tag_mods:
  "d < 32 \<Longrightarrow> (192 + d) mod 32 = d" "d < 16 \<Longrightarrow> (224 + d) mod 16 = d" "d < 8 \<Longrightarrow> (240 + d) mod 8 = d"
  "d < 64 \<Longrightarrow> (128 + d) mod 64 = d" for d :: nat
  using mod_mult_self1 [of d 6 32] mod_mult_self1 [of d 14 16] mod_mult_self1 [of d 30 8]
    mod_mult_self1 [of d 2 64] by (simp_all add: add.commute)

lemma base64_digits:
  "n div 64 * 64 + n mod 64 = n"
  "n div 4096 * 4096 + n div 64 mod 64 * 64 + n mod 64 = n"
  "n div 262144 * 262144 + n div 4096 mod 64 * 4096 + n div 64 mod 64 * 64 + n mod 64 = n" for n :: nat
proof -
  note d = div_mult_mod_eq [of n 64] div_mult_mod_eq [of "n div 64" 64] div_mult_mod_eq [of "n div 4096" 64]
  have q: "n div 64 div 64 = n div 4096" "n div 4096 div 64 = n div 262144"
    by (simp_all add: div_mult2_eq [symmetric])
  show "n div 64 * 64 + n mod 64 = n" using d by linarith
  show "n div 4096 * 4096 + n div 64 mod 64 * 64 + n mod 64 = n" using d unfolding q by linarith
  show "n div 262144 * 262144 + n div 4096 mod 64 * 4096 + n div 64 mod 64 * 64 + n mod 64 = n"
    using d unfolding q by linarith
qed

lemma decode_encode:
  assumes "string_char cp"
  shows "sprout_utf8_decode_at (pre @ utf8_encode_cp cp @ rest) (length pre) (length (utf8_encode_cp cp)) = cp"
proof -
  have "unat (sprout_utf8_decode_at (pre @ utf8_encode_cp cp @ rest) (length pre)
      (length (utf8_encode_cp cp))) = unat cp"
    using assms
  proof (cases rule: utf8_encode_cp_cases)
    case (One a)
    then show ?thesis by (simp add: decode_unat cbyte_def nth_append Let_def)
  next
    case (Two a b)
    then have "unat cp div 64 < 32" by auto
    with Two show ?thesis
      by (simp add: decode_unat cbyte_def nth_append Let_def tag_mods base64_digits)
  next
    case (Three a b c)
    then have "unat cp div 4096 < 16" by auto
    with Three show ?thesis
      by (simp add: decode_unat cbyte_def nth_append Let_def tag_mods base64_digits)
  next
    case (Four a b c d)
    then have "unat cp div 262144 < 8" by auto
    with Four show ?thesis
      by (simp add: decode_unat cbyte_def nth_append Let_def tag_mods base64_digits)
  qed
  then show ?thesis by (simp add: word_unat_eq_iff)
qed


lemma seq_ok_decodeI:
  assumes "map unat (utf8_encode_cp cp) = map unat bs" "string_char cp"
  shows "\<exists>cp. string_char cp \<and> utf8_encode_cp cp = bs"
  using assms by (auto simp only: map_unat_eq)

lemma unat_codepoint: "n \<le> 0x10FFFF \<Longrightarrow> unat (word_of_nat n :: 32 word) = n"
  by (simp add: unat_of_nat)

lemma seq_ok_decode2:
  assumes "seq_ok [unat a, unat b]"
  shows "\<exists>cp. string_char cp \<and> utf8_encode_cp cp = [a, b]"
proof -
  define x y where "x = unat a - 192" and "y = unat b - 128"
  have ab: "unat a = 192 + x" "unat b = 128 + y" "y < 64" "2 \<le> x" "x < 32"
    using assms by (auto simp: x_def y_def)
  then have u: "unat (word_of_nat (x * 64 + y) :: 32 word) = x * 64 + y"
    by (intro unat_codepoint) simp
  show ?thesis
    by (rule seq_ok_decodeI [of "word_of_nat (x * 64 + y)"])
      (use ab u in \<open>auto simp: utf8_encode_cp_unat string_char_word Let_def\<close>)
qed

lemma seq_ok_decode3:
  assumes "seq_ok [unat a, unat b, unat c]"
  shows "\<exists>cp. string_char cp \<and> utf8_encode_cp cp = [a, b, c]"
proof -
  define x y z where "x = unat a - 224" and "y = unat b - 128" and "z = unat c - 128"
  have ab: "unat a = 224 + x" "unat b = 128 + y" "unat c = 128 + z" "y < 64" "z < 64" "x < 16"
    and ran: "x = 0 \<longrightarrow> 32 \<le> y" "x = 13 \<longrightarrow> y < 32"
    using assms by (auto simp: x_def y_def z_def)
  define m where "m = x * 64 + y"
  have m: "m div 64 = x" "m mod 64 = y" "32 \<le> m" "m < 1024" using ab ran by (auto simp: m_def)
  have s: "m < 864 \<or> 896 \<le> m"
    using ab(4) ran(2) by (cases "x < 13"; cases "x = 13") (auto simp: m_def)
  define cp :: "32 word" where "cp = word_of_nat (m * 64 + z)"
  have u: "unat cp = m * 64 + z" unfolding cp_def by (rule unat_codepoint) (use ab m in simp)
  have d: "unat cp div 64 = m" "unat cp mod 64 = z" "unat cp div 4096 = x"
    using ab m u div_mult2_eq [of "unat cp" 64 64] by simp_all
  show ?thesis
  proof (rule seq_ok_decodeI [of cp])
    show "map unat (utf8_encode_cp cp) = map unat [a, b, c]"
      using ab m u d by (simp add: utf8_encode_cp_unat Let_def)
    show "string_char cp" using u m s ab(5) by (auto simp: string_char_word)
  qed
qed

lemma seq_ok_decode4:
  assumes "seq_ok [unat a, unat b, unat c, unat d]"
  shows "\<exists>cp. string_char cp \<and> utf8_encode_cp cp = [a, b, c, d]"
proof -
  define x y z w where "x = unat a - 240" and "y = unat b - 128" and "z = unat c - 128" and "w = unat d - 128"
  have ab: "unat a = 240 + x" "unat b = 128 + y" "unat c = 128 + z" "unat d = 128 + w"
    "y < 64" "z < 64" "w < 64" "x \<le> 4" and ran: "x = 0 \<longrightarrow> 16 \<le> y" "x = 4 \<longrightarrow> y < 16"
    using assms by (auto simp: x_def y_def z_def w_def)
  define m where "m = x * 64 + y"
  have m: "m div 64 = x" "m mod 64 = y" "16 \<le> m" "m < 272" using ab ran by (auto simp: m_def)
  define k where "k = m * 64 + z"
  have k: "k div 64 = m" "k mod 64 = z" "1024 \<le> k" "k < 17408" using ab m by (auto simp: k_def)
  define cp :: "32 word" where "cp = word_of_nat (k * 64 + w)"
  have u: "unat cp = k * 64 + w" unfolding cp_def by (rule unat_codepoint) (use ab k in simp)
  have d: "unat cp div 64 = k" "unat cp mod 64 = w" "unat cp div 4096 = m" "unat cp div 262144 = x"
    using ab m k u div_mult2_eq [of "unat cp" 64 64] div_mult2_eq [of "unat cp" 4096 64] by simp_all
  show ?thesis
  proof (rule seq_ok_decodeI [of cp])
    show "map unat (utf8_encode_cp cp) = map unat [a, b, c, d]"
      using ab m k u d by (simp add: utf8_encode_cp_unat Let_def)
    show "string_char cp" using u k ab(7) by (auto simp: string_char_word)
  qed
qed

lemma seq_ok_decode:
  assumes "seq_ok (map unat bs)"
  shows "\<exists>cp. string_char cp \<and> utf8_encode_cp cp = bs"
  using assms
proof (cases rule: seq_ok_cases)
  case (1 a)
  have u: "unat (word_of_nat (unat a) :: 32 word) = unat a"
    by (rule unat_codepoint) (rule order.trans [OF less_imp_le [OF unat_byte_less]], simp)
  show ?thesis unfolding 1
    by (rule seq_ok_decodeI [of "word_of_nat (unat a)"])
      (use 1 assms u in \<open>auto simp: utf8_encode_cp_unat string_char_word Let_def\<close>)
qed (use assms seq_ok_decode2 seq_ok_decode3 seq_ok_decode4 in auto)

text \<open>A position the validator accepts starts a legal sequence.\<close>

lemma drop_split2: "i + 1 < length xs \<Longrightarrow> drop i xs = [xs ! i, xs ! (i + 1)] @ drop (i + 2) xs"
  by (simp add: Cons_nth_drop_Suc)

lemma drop_split3:
  "i + 2 < length xs \<Longrightarrow> drop i xs = [xs ! i, xs ! (i + 1), xs ! (i + 2)] @ drop (i + 3) xs"
  by (simp add: Cons_nth_drop_Suc numeral_3_eq_3 numeral_2_eq_2)

lemma drop_split4:
  "i + 3 < length xs \<Longrightarrow>
    drop i xs = [xs ! i, xs ! (i + 1), xs ! (i + 2), xs ! (i + 3)] @ drop (i + 4) xs"
  using drop_split3 [of i xs] Cons_nth_drop_Suc [of "i + 3" xs] by (simp add: add.commute)

lemma byte_of_unat: "unat b = numeral n \<Longrightarrow> b = numeral n" for b :: byte
  by (metis of_nat_numeral of_nat_unat ucast_id)

lemma utf8_validate_inv:
  assumes "utf8_validate_from data i = None" "i < length data"
  shows "\<exists>bs. seq_ok (map unat bs) \<and> drop i data = bs @ drop (i + length bs) data \<and>
    utf8_validate_from data (i + length bs) = None"
proof -
  note v = assms(1) [unfolded utf8_validate_from.simps [of data i]]
  define b0 where "b0 = data ! i"
  have nz: "b0 \<noteq> 0" using v assms(2) by (auto simp: b0_def Let_def split: if_splits)
  consider "unat b0 < 128" | "192 \<le> unat b0" "unat b0 < 224" | "224 \<le> unat b0" "unat b0 < 240"
    | "240 \<le> unat b0" "unat b0 < 248"
    using v assms(2) by (auto simp: b0_def Let_def byte_order split: if_splits)
  then show ?thesis
  proof cases
    case 1
    with v assms(2) nz have "utf8_validate_from data (i + 1) = None"
      by (simp add: Let_def byte_order flip: b0_def)
    with 1 nz assms(2) show ?thesis
      by (intro exI [of _ "[b0]"]) (simp add: b0_def Cons_nth_drop_Suc unat_gt_0)
  next
    case 2
    with v assms(2) nz have "i + 1 < length data" "utf8_validate_from data (i + 2) = None"
      "128 \<le> unat (data ! (i + 1))" "unat (data ! (i + 1)) < 192" "194 \<le> unat b0"
      by (auto simp: Let_def byte_order not_less not_le b0_def split: if_splits)
    with 2 drop_split2 [of i data] show ?thesis
      by (intro exI [of _ "[b0, data ! (i + 1)]"]) (simp flip: b0_def)
  next
    case 3
    have n: "\<not> b0 \<le> 0x7F" "\<not> unat b0 < 224" using 3 by (auto simp: byte_order)
    note w = v [folded b0_def, unfolded Let_def]
    from w 3 n nz assms(2) have l: "i + 2 < length data" and v3: "utf8_validate_from data (i + 3) = None"
      and c: "128 \<le> unat (data ! (i + 1))" "unat (data ! (i + 1)) < 192"
        "128 \<le> unat (data ! (i + 2))" "unat (data ! (i + 2)) < 192"
      and g: "\<not> (b0 = 0xE0 \<and> data ! (i + 1) < 0xA0)" "\<not> (b0 = 0xED \<and> data ! (i + 1) \<ge> 0xA0)"
      by (simp_all add: not_le split: if_splits)
    have "unat b0 = 224 \<longrightarrow> 160 \<le> unat (data ! (i + 1))" using g(1) by (auto simp: byte_order dest: byte_of_unat)
    moreover have "unat b0 = 237 \<longrightarrow> unat (data ! (i + 1)) < 160" using g(2) by (auto simp: byte_order dest: byte_of_unat)
    moreover note 3 c l v3 drop_split3 [of i data]
    ultimately show ?thesis
      by (intro exI [of _ "[b0, data ! (i + 1), data ! (i + 2)]"]) (simp add: numeral_3_eq_3 flip: b0_def)
  next
    case 4
    have n: "\<not> b0 \<le> 0x7F" "\<not> unat b0 < 224" "\<not> unat b0 < 240" using 4 by (auto simp: byte_order)
    note w = v [folded b0_def, unfolded Let_def]
    from w 4 n nz assms(2) have l: "i + 3 < length data" and v4: "utf8_validate_from data (i + 4) = None"
      and c: "128 \<le> unat (data ! (i + 1))" "unat (data ! (i + 1)) < 192"
        "128 \<le> unat (data ! (i + 2))" "unat (data ! (i + 2)) < 192"
        "128 \<le> unat (data ! (i + 3))" "unat (data ! (i + 3)) < 192"
      and g: "\<not> (b0 = 0xF0 \<and> data ! (i + 1) < 0x90)" "\<not> (b0 = 0xF4 \<and> data ! (i + 1) \<ge> 0x90)" "\<not> b0 > 0xF4"
      by (simp_all add: not_le split: if_splits)
    have "unat b0 = 240 \<longrightarrow> 144 \<le> unat (data ! (i + 1))" using g(1) by (auto simp: byte_order dest: byte_of_unat)
    moreover have "unat b0 = 244 \<longrightarrow> unat (data ! (i + 1)) < 144" using g(2) by (auto simp: byte_order dest: byte_of_unat)
    moreover have "unat b0 \<le> 244" using g(3) by (simp add: byte_order)
    ultimately have ok: "seq_ok (map unat [b0, data ! (i + 1), data ! (i + 2), data ! (i + 3)])"
      using 4 c by (simp only: list.map seq_ok.simps)
    have l4: "i + length [b0, data ! (i + 1), data ! (i + 2), data ! (i + 3)] = i + 4" by simp
    show ?thesis
      by (intro exI [of _ "[b0, data ! (i + 1), data ! (i + 2), data ! (i + 3)]"] conjI)
        (fact ok, unfold l4, unfold b0_def, rule drop_split4 [OF l], fact v4)
  qed
qed


lemma utf8_validate_from_encode:
  "list_all string_char cps \<Longrightarrow> utf8_validate_from (pre @ utf8_encode cps) (length pre) = None"
proof (induction cps arbitrary: pre)
  case Nil
  then show ?case by (simp add: utf8_validate_from.simps)
next
  case (Cons cp cps)
  from Cons.IH [of "pre @ utf8_encode_cp cp"] Cons.prems have
    "utf8_validate_from (pre @ utf8_encode_cp cp @ utf8_encode cps) (length pre + length (utf8_encode_cp cp)) = None"
    by simp
  with utf8_validate_seq [OF seq_ok_encode, of cp pre "utf8_encode cps"] Cons.prems show ?case by simp
qed

lemma utf8_validate_from_decode:
  "utf8_validate_from data i = None \<Longrightarrow> \<exists>cps. list_all string_char cps \<and> drop i data = utf8_encode cps"
proof (induction "length data - i" arbitrary: i rule: less_induct)
  case less
  show ?case
  proof (cases "i < length data")
    case False
    then show ?thesis by (intro exI [of _ "[]"]) simp
  next
    case True
    with less.prems utf8_validate_inv obtain bs where
      bs: "seq_ok (map unat bs)" "drop i data = bs @ drop (i + length bs) data"
        "utf8_validate_from data (i + length bs) = None" by blast
    from bs(1) have "bs \<noteq> []" by auto
    with True have "length data - (i + length bs) < length data - i" by (cases bs) auto
    from less.hyps [OF this bs(3)] obtain cps where
      cps: "list_all string_char cps" "drop (i + length bs) data = utf8_encode cps"
      by blast
    from seq_ok_decode [OF bs(1)] obtain cp where "string_char cp" "utf8_encode_cp cp = bs" by blast
    with cps bs(2) show ?thesis by (intro exI [of _ "cp # cps"]) simp
  qed
qed

lemma utf8_valid_encode_iff:
  "utf8_valid data \<longleftrightarrow> (\<exists>cps. list_all string_char cps \<and> data = utf8_encode cps)"
  using utf8_validate_from_decode [of data 0] utf8_validate_from_encode [of _ "[]"]
  by (auto simp: utf8_valid_def utf8_validate_def)

lemma seq_ok_cstr: "seq_ok (map unat bs) \<Longrightarrow> cstr_ok bs"
  by (cases rule: seq_ok_cases, assumption) (auto simp: unat_gt_0)

lemma cstr_ok_encode: "list_all string_char cps \<Longrightarrow> cstr_ok (utf8_encode cps)"
  by (induction cps) (auto intro: seq_ok_cstr seq_ok_encode)

section \<open>Walking encoded strings\<close>

lemma utf8_step_encode:
  assumes "string_char cp"
  shows "sprout_utf8_step (pre @ utf8_encode_cp cp @ rest) (length pre) = Inr (length (utf8_encode_cp cp))"
    "cbyte (pre @ utf8_encode_cp cp @ rest) (length pre) \<noteq> 0" "utf8_encode_cp cp \<noteq> []"
  using utf8_step_seq [OF seq_ok_encode [OF assms]] by auto

lemma utf8_count_loop_encode:
  "list_all string_char cps \<Longrightarrow>
    utf8_count_loop (pre @ utf8_encode cps) (length pre) n = Inr (n + length cps)"
proof (induction cps arbitrary: pre n)
  case Nil
  then show ?case by (simp add: utf8_count_loop.simps cbyte_def)
next
  case (Cons cp cps)
  note st = utf8_step_encode(1,2) [of cp pre "utf8_encode cps"]
  from Cons.IH [of "pre @ utf8_encode_cp cp" "n + 1"] Cons.prems st show ?case
    by (subst utf8_count_loop.simps) simp
qed

lemma utf8_prefix_count_loop_encode:
  "list_all string_char cps \<Longrightarrow>
    utf8_prefix_count_loop (pre @ utf8_encode cps @ rest) (length pre + length (utf8_encode cps)) (length pre) n =
      Inr (n + length cps)"
proof (induction cps arbitrary: pre n)
  case Nil
  then show ?case by (simp add: utf8_prefix_count_loop.simps)
next
  case (Cons cp cps)
  note st = utf8_step_encode(1,2) [of cp pre "utf8_encode cps @ rest"] utf8_step_encode(3) [of cp]
  from Cons.IH [of "pre @ utf8_encode_cp cp" "n + 1"] Cons.prems st show ?case
    by (subst utf8_prefix_count_loop.simps) (simp add: add.assoc)
qed

lemma sprout_utf8_step_in_bounds:
  assumes "sprout_utf8_step s i = Inr w" "i < length s" "cstr_ok s"
  shows "i + w \<le> length s"
proof (rule ccontr)
  assume "\<not> i + w \<le> length s"
  then have w: "length s - i < w" "1 \<le> length s - i" using assms(2) by auto
  from assms(1) have "list_all (\<lambda>k. cbyte s (i + k) AND 0xC0 = 0x80) [1..<w]"
    by (auto simp: sprout_utf8_step_def res_bind_eq_Inr split: if_splits)
  moreover from w have "length s - i \<in> set [1..<w]" by auto
  ultimately have "cbyte s (i + (length s - i)) AND 0xC0 = 0x80" unfolding list_all_iff by blast
  with assms(2) show False by (simp add: cbyte_def)
qed

section \<open>Properties\<close>

text \<open>C23. The validator accepts exactly the byte strings that are the encoding of a sequence of
  Unicode scalar values without NUL: it rejects overlong forms, surrogates, values above U+10FFFF,
  stray or missing continuation bytes and NUL, and accepts everything else.\<close>

theorem utf8_valid_iff_encoding:
  "utf8_valid data \<longleftrightarrow> (\<exists>cps. list_all string_char cps \<and> data = utf8_encode cps)"
  by (rule utf8_valid_encode_iff)

text \<open>C24. A character turned into a string is valid UTF-8, holds one character and decodes back to
  itself; every other integer, and NUL, is refused.\<close>

theorem char_to_string_roundtrip:
  "if 0 < ch \<and> ch \<le> 0x10FFFF \<and> \<not> (0xD800 \<le> ch \<and> ch \<le> 0xDFFF)
   then \<exists>s. char_to_string ch = Inr s \<and> utf8_valid s \<and> sprout_utf8_step s 0 = Inr (length s) \<and>
     uint (sprout_utf8_decode_at s 0 (length s)) = ch \<and> sprout_utf8_codepoint_count s = Inr 1
   else \<exists>e. char_to_string ch = Inl e"
proof (cases "0 < ch \<and> ch \<le> 0x10FFFF \<and> \<not> (0xD800 \<le> ch \<and> ch \<le> 0xDFFF)")
  case True
  define cp :: "32 word" where "cp = word_of_int ch"
  have u: "uint cp = ch" using True by (simp add: cp_def uint_word_of_int)
  then have n: "unat cp = nat ch" by (metis nat_uint_eq)
  with True have sc: "string_char cp" by (auto simp: string_char_word)
  have "char_to_string ch = Inr (utf8_encode_cp cp)"
    using True by (auto simp: char_to_string_def sprout_validate_codepoint_def cp_def)
  moreover have "utf8_valid (utf8_encode_cp cp)"
    unfolding utf8_valid_encode_iff using sc by (intro exI [of _ "[cp]"]) simp
  moreover have "sprout_utf8_codepoint_count (utf8_encode_cp cp) = Inr 1"
    using utf8_count_loop_encode [of "[cp]" "[]" 0] sc by (simp add: sprout_utf8_codepoint_count_def)
  ultimately show ?thesis
    using True u utf8_step_encode(1) [OF sc, of "[]" "[]"] decode_encode [OF sc, of "[]" "[]"] by auto
next
  case False
  then show ?thesis
    by (auto simp: char_to_string_def sprout_validate_codepoint_def)
qed

text \<open>C25. The forward step never passes the terminator, even on a malformed string: a step that
  returns stays within the string's bytes, so no walker reads beyond the NUL.\<close>

theorem utf8_step_stays_in_bounds:
  assumes "cstr_ok s" and "i < length s" and "sprout_utf8_step s i = Inr w"
  shows "0 < w \<and> i + w \<le> length s"
  using sprout_utf8_step_in_bounds [OF assms(3,2,1)] sprout_utf8_step_pos [OF assms(3)] by simp

theorem utf8_step_stays_in_bounds_witness:
  "0 < (2::nat) \<and> 1 + 2 \<le> length [97, 0xC3, 0xA9 :: byte]"
  by (rule utf8_step_stays_in_bounds)
    (simp_all add: sprout_utf8_step_def sprout_utf8_char_width_def upt_rec cbyte_def)

end
