(* ===== verification/Byte_Buffers.thy ===== *)
theory Byte_Buffers
  imports Utf8 "HOL-Library.Signed_Division"
begin

unbundle bit_operations_syntax

text \<open>
  Immutable byte buffers and the builder that concatenates them. A handle is \<open>None\<close> when it is null, otherwise
  the bytes it denotes: a published buffer never changes. A builder holds its length, a \<^verbatim>\<open>size_t\<close> whose sum wraps, and an
  array of chunk handles. A builder can share one buffer many times, so that its length is not bounded by the memory
  in use; the length of a buffer is.
\<close>

section \<open>Buffers\<close>

type_synonym bytes = "byte list option"

definition bytes_length :: "bytes \<Rightarrow> nat res" where
  "bytes_length value = (case value of None \<Rightarrow> Inl (SproutFail ''bytes_length: null bytes'') | Some d \<Rightarrow> Inr (length d))"

text \<open>The value is \<^verbatim>\<open>Nothing\<close> or \<^verbatim>\<open>Just\<close> of the byte.\<close>

definition bytes_get :: "bytes \<Rightarrow> int \<Rightarrow> byte option res" where
  "bytes_get value index =
     (case value of
        None \<Rightarrow> Inl (SproutFail ''bytes_get: null bytes'')
      | Some d \<Rightarrow> Inr (if index < 0 \<or> nat index \<ge> length d then None else Some (d ! nat index)))"

definition bytes_slice :: "bytes \<Rightarrow> int \<Rightarrow> int \<Rightarrow> bytes res" where
  "bytes_slice value start count =
     (case value of
        None \<Rightarrow> Inl (SproutFail ''bytes_slice: null bytes'')
      | Some d \<Rightarrow>
          (let start = (if start < 0 then 0 else start); count = (if count < 0 then 0 else count);
               s = (if nat start > length d then length d else nat start);
               c = (if s + nat count > length d then length d - s else nat count)
           in Inr (Some (take c (drop s d)))))"

definition bytes_append :: "bytes \<Rightarrow> bytes \<Rightarrow> bytes res" where
  "bytes_append left right =
     (case (left, right) of
        (Some l, Some r) \<Rightarrow> Inr (Some (l @ r))
      | _ \<Rightarrow> Inl (SproutFail ''bytes_append: null bytes''))"

definition bytes_singleton :: "int \<Rightarrow> bytes res" where
  "bytes_singleton value =
     (if value < 0 \<or> value > 255 then Inl (SproutFail ''bytes_singleton: byte out of range'') else Inr (Some [word_of_int value]))"

text \<open>A string is its bytes; its length is read from the header.\<close>

definition bytes_from_utf8 :: "cstr option \<Rightarrow> bytes res" where
  "bytes_from_utf8 raw = (case raw of None \<Rightarrow> Inl (SproutFail ''bytes_from_utf8: null input'') | Some s \<Rightarrow> Inr (Some s))"

text \<open>\<open>Inl reason\<close> is \<^verbatim>\<open>Err(Utf8DecodeError(reason))\<close>.\<close>

definition bytes_to_utf8 :: "bytes \<Rightarrow> (string + cstr) res" where
  "bytes_to_utf8 value =
     (case value of
        None \<Rightarrow> Inl (SproutFail ''bytes_to_utf8: null bytes'')
      | Some d \<Rightarrow> (case utf8_validate d of Some reason \<Rightarrow> Inr (Inl reason) | None \<Rightarrow> Inr (Inr d)))"

section \<open>Builders\<close>

record builder =
  bl_len :: "64 word"
  bl_chunks :: "bytes list"

definition sprout_div_floor :: "int \<Rightarrow> int \<Rightarrow> int" where
  "sprout_div_floor left right =
     (let q = left sdiv right; r = left smod right in if r \<noteq> 0 \<and> (r > 0) \<noteq> (right > 0) then q - 1 else q)"

definition builder_mod_256 :: "int \<Rightarrow> byte" where
  "builder_mod_256 value = (let q = sprout_div_floor value 256 in word_of_int (value - q * 256))"

definition bytes_builder_bytes :: "bytes \<Rightarrow> builder res" where
  "bytes_builder_bytes value =
     (case value of
        None \<Rightarrow> Inl (SproutFail ''bytes_builder_bytes: null bytes'')
      | Some d \<Rightarrow> Inr \<lparr>bl_len = word_of_nat (length d), bl_chunks = (if length d = 0 then [] else [value])\<rparr>)"

definition bytes_builder_u16_be :: "int \<Rightarrow> builder" where
  "bytes_builder_u16_be value =
     \<lparr>bl_len = 2, bl_chunks = [Some [builder_mod_256 (sprout_div_floor value 256), builder_mod_256 value]]\<rparr>"

definition bytes_builder_u32_be :: "int \<Rightarrow> builder" where
  "bytes_builder_u32_be value =
     \<lparr>bl_len = 4, bl_chunks = [Some [builder_mod_256 (sprout_div_floor value 16777216), builder_mod_256 (sprout_div_floor value 65536),
        builder_mod_256 (sprout_div_floor value 256), builder_mod_256 value]]\<rparr>"

definition bytes_builder_append :: "builder option \<Rightarrow> builder option \<Rightarrow> builder res" where
  "bytes_builder_append left right =
     (case (left, right) of
        (Some l, Some r) \<Rightarrow>
          Inr (if length (bl_chunks l) = 0 then r
               else if length (bl_chunks r) = 0 then l
               else \<lparr>bl_len = bl_len l + bl_len r, bl_chunks = bl_chunks l @ bl_chunks r\<rparr>)
      | _ \<Rightarrow> Inl (SproutFail ''bytes_builder_append: null builder''))"

text \<open>The copy loop: \<open>out\<close> is what has been written of a buffer of \<open>len\<close> bytes.\<close>

fun copy_chunks :: "nat \<Rightarrow> bytes list \<Rightarrow> byte list \<Rightarrow> byte list res" where
  "copy_chunks len [] out = Inr out"
| "copy_chunks len (None # cs) out = Inl (SproutFail ''bytes_builder_build: null chunk'')"
| "copy_chunks len (Some d # cs) out = (if length out + length d > len then Inl OutOfBounds else copy_chunks len cs (out @ d))"

definition bytes_builder_build :: "builder option \<Rightarrow> bytes res" where
  "bytes_builder_build value =
     (case value of
        None \<Rightarrow> Inl (SproutFail ''bytes_builder_build: null builder'')
      | Some b \<Rightarrow> res_map Some (copy_chunks (unat (bl_len b)) (bl_chunks b) []))"

section \<open>What a builder denotes\<close>

lemma div_floor_pos: "0 < right \<Longrightarrow> sprout_div_floor left right = left div right"
proof -
  assume r: "0 < right"
  define q m where "q = left sdiv right" and "m = left smod right"
  have e: "left = right * q + m" unfolding q_def m_def by (rule mult_sdiv_smod_eq [symmetric])
  have "\<bar>m\<bar> \<le> \<bar>left\<bar> mod right" unfolding m_def smod_int_alt_def using r by (auto simp: abs_mult sgn_if)
  also have "\<dots> < right" using r by simp
  finally have b: "- right < m" "m < right" by auto
  show ?thesis
  proof (cases "0 \<le> m")
    case True
    then have "sprout_div_floor left right = q" using r by (auto simp: sprout_div_floor_def Let_def q_def [symmetric] m_def [symmetric])
    then show ?thesis using int_div_pos_eq [OF e True b(2)] by simp
  next
    case False
    then have "sprout_div_floor left right = q - 1" using r by (auto simp: sprout_div_floor_def Let_def q_def [symmetric] m_def [symmetric])
    moreover have "left = right * (q - 1) + (m + right)" using e by (simp add: algebra_simps)
    ultimately show ?thesis using int_div_pos_eq [of left right "q - 1" "m + right"] False b(1) by simp
  qed
qed

lemma builder_mod_256_eq: "builder_mod_256 v = word_of_int v"
proof -
  have "v - v div 256 * 256 = v mod 256" by (simp add: minus_div_mult_eq_mod)
  moreover have "word_of_int (v mod 256) = (word_of_int v :: byte)" by (simp add: word_of_int_eq_iff take_bit_eq_mod)
  moreover have "sprout_div_floor v 256 = v div 256" by (simp add: div_floor_pos)
  ultimately show ?thesis unfolding builder_mod_256_def Let_def by (simp only:)
qed

definition builder_ok :: "builder \<Rightarrow> byte list \<Rightarrow> bool" where
  "builder_ok b d \<longleftrightarrow> (\<exists>ds. bl_chunks b = map Some ds \<and> d = concat ds \<and> bl_len b = word_of_nat (length d))"

lemma copy_chunks_ok: "length out + length (concat ds) \<le> len \<Longrightarrow> copy_chunks len (map Some ds) out = Inr (out @ concat ds)"
  by (induction ds arbitrary: out) auto

lemma copy_chunks_overrun:
  "length out \<le> len \<Longrightarrow> len < length out + length (concat ds) \<Longrightarrow> copy_chunks len (map Some ds) out = Inl OutOfBounds"
  by (induction ds arbitrary: out) auto

lemma build_ok:
  assumes "builder_ok b d"
  shows "bytes_builder_build (Some b) = (if length d < 2 ^ 64 then Inr (Some d) else Inl OutOfBounds)"
proof -
  obtain ds where ds: "bl_chunks b = map Some ds" "d = concat ds" "bl_len b = word_of_nat (length d)"
    using assms by (auto simp: builder_ok_def)
  have n: "unat (bl_len b) = length d mod 2 ^ 64" by (simp add: ds(3) unsigned_of_nat take_bit_eq_mod)
  show ?thesis
  proof (cases "length d < 2 ^ 64")
    case True
    then have "copy_chunks (unat (bl_len b)) (map Some ds) [] = Inr ([] @ concat ds)"
      by (intro copy_chunks_ok) (simp add: n ds(2))
    then show ?thesis using True ds(1,2) by (simp add: bytes_builder_build_def)
  next
    case False
    have "length d mod 2 ^ 64 < 2 ^ 64" by simp
    then have "length d mod 2 ^ 64 < length d" using False by linarith
    then have "copy_chunks (unat (bl_len b)) (map Some ds) [] = Inl OutOfBounds"
      by (intro copy_chunks_overrun) (simp_all add: n ds(2))
    then show ?thesis using False ds(1) by (simp add: bytes_builder_build_def)
  qed
qed

lemma append_ok:
  assumes "builder_ok b d" "builder_ok c e"
  obtains bc where "bytes_builder_append (Some b) (Some c) = Inr bc" "builder_ok bc (d @ e)"
proof -
  obtain ds es where "bl_chunks b = map Some ds" "d = concat ds" "bl_len b = word_of_nat (length d)"
    "bl_chunks c = map Some es" "e = concat es" "bl_len c = word_of_nat (length e)"
    using assms by (auto simp: builder_ok_def)
  then show thesis
    by (intro that) (auto simp: bytes_builder_append_def builder_ok_def intro: exI [of _ "ds @ es"])
qed

text \<open>What the standard library does with builders: leaves and concatenations.\<close>

datatype build = BBytes "byte list" | BU16 int | BU32 int | BAppend build build

fun run_build :: "build \<Rightarrow> builder res" where
  "run_build (BBytes d) = bytes_builder_bytes (Some d)"
| "run_build (BU16 v) = Inr (bytes_builder_u16_be v)"
| "run_build (BU32 v) = Inr (bytes_builder_u32_be v)"
| "run_build (BAppend x y) = res_bind (run_build x) (\<lambda>a. res_bind (run_build y) (\<lambda>b. bytes_builder_append (Some a) (Some b)))"

text \<open>Big-endian digits.\<close>

definition be_bytes :: "nat \<Rightarrow> int \<Rightarrow> byte list" where
  "be_bytes n v = map (\<lambda>i. word_of_int (v div 256 ^ i)) (rev [0..<n])"

fun build_spec :: "build \<Rightarrow> byte list" where
  "build_spec (BBytes d) = d"
| "build_spec (BU16 v) = be_bytes 2 v"
| "build_spec (BU32 v) = be_bytes 4 v"
| "build_spec (BAppend x y) = build_spec x @ build_spec y"

lemma run_build_ok: "\<exists>b. run_build x = Inr b \<and> builder_ok b (build_spec x)"
proof (induction x)
  case (BBytes d)
  show ?case by (auto simp: bytes_builder_bytes_def builder_ok_def intro: exI [of _ "[]"] exI [of _ "[d]"])
next
  case (BU16 v)
  show ?case
    by (auto simp: bytes_builder_u16_be_def builder_ok_def be_bytes_def builder_mod_256_eq div_floor_pos upt_rec
        intro!: exI [of _ "[be_bytes 2 v]"])
next
  case (BU32 v)
  show ?case
    by (auto simp: bytes_builder_u32_be_def builder_ok_def be_bytes_def builder_mod_256_eq div_floor_pos upt_rec
        intro!: exI [of _ "[be_bytes 4 v]"])
next
  case (BAppend x y)
  then show ?case using append_ok by (metis run_build.simps(4) build_spec.simps(4) res_bind_simps(1))
qed

text \<open>C29. Whatever buffers and big-endian numbers are appended in whatever order, the builder's length is the total length
  modulo \<open>2 ^ 64\<close>. If the total is below that, building stays within the buffer it sized and gives the concatenation
  of the parts; otherwise the \<^verbatim>\<open>size_t\<close> sum wrapped and the copy loop writes past the end of the buffer.\<close>

theorem builder_refines_concat:
  "\<exists>b. run_build x = Inr b \<and> bl_len b = word_of_nat (length (build_spec x)) \<and>
    bytes_builder_build (Some b) = (if length (build_spec x) < 2 ^ 64 then Inr (Some (build_spec x)) else Inl OutOfBounds)"
proof -
  obtain b where b: "run_build x = Inr b" "builder_ok b (build_spec x)" using run_build_ok by blast
  then show ?thesis using build_ok [OF b(2)] by (auto simp: builder_ok_def)
qed

end
