(* ===== verification/Crypto_Digest.thy ===== *)
theory Crypto_Digest
  imports Byte_Buffers
begin

unbundle bit_operations_syntax

text \<open>
  SHA-256 and HMAC of the runtime: the streaming context with its 64-byte buffer, and the block-wise definition of
  FIPS 180-4 it is compared with. \<open>junk\<close> is what the uninitialised buffer of a context on the stack holds.
  A copy of no bytes is a no-op here, also the one from the null data of an empty key in \<^verbatim>\<open>hmac_sha256_digest\<close>, which the C
  standard leaves undefined.
\<close>

section \<open>The compression function\<close>

type_synonym w32 = "32 word"

definition crypto_rotr32 :: "w32 \<Rightarrow> nat \<Rightarrow> w32" where
  "crypto_rotr32 x n = drop_bit n x OR push_bit (32 - n) x"

definition crypto_ch :: "w32 \<Rightarrow> w32 \<Rightarrow> w32 \<Rightarrow> w32" where
  "crypto_ch x y z = (x AND y) XOR (NOT x AND z)"

definition crypto_maj :: "w32 \<Rightarrow> w32 \<Rightarrow> w32 \<Rightarrow> w32" where
  "crypto_maj x y z = (x AND y) XOR (x AND z) XOR (y AND z)"

definition crypto_sig0 :: "w32 \<Rightarrow> w32" where
  "crypto_sig0 x = crypto_rotr32 x 7 XOR crypto_rotr32 x 18 XOR drop_bit 3 x"

definition crypto_sig1 :: "w32 \<Rightarrow> w32" where
  "crypto_sig1 x = crypto_rotr32 x 17 XOR crypto_rotr32 x 19 XOR drop_bit 10 x"

definition crypto_ep0 :: "w32 \<Rightarrow> w32" where
  "crypto_ep0 x = crypto_rotr32 x 2 XOR crypto_rotr32 x 13 XOR crypto_rotr32 x 22"

definition crypto_ep1 :: "w32 \<Rightarrow> w32" where
  "crypto_ep1 x = crypto_rotr32 x 6 XOR crypto_rotr32 x 11 XOR crypto_rotr32 x 25"

definition SHA256_K :: "w32 list" where
  "SHA256_K = concat [
     [0x428a2f98, 0x71374491, 0xb5c0fbcf, 0xe9b5dba5],
     [0x3956c25b, 0x59f111f1, 0x923f82a4, 0xab1c5ed5],
     [0xd807aa98, 0x12835b01, 0x243185be, 0x550c7dc3],
     [0x72be5d74, 0x80deb1fe, 0x9bdc06a7, 0xc19bf174],
     [0xe49b69c1, 0xefbe4786, 0x0fc19dc6, 0x240ca1cc],
     [0x2de92c6f, 0x4a7484aa, 0x5cb0a9dc, 0x76f988da],
     [0x983e5152, 0xa831c66d, 0xb00327c8, 0xbf597fc7],
     [0xc6e00bf3, 0xd5a79147, 0x06ca6351, 0x14292967],
     [0x27b70a85, 0x2e1b2138, 0x4d2c6dfc, 0x53380d13],
     [0x650a7354, 0x766a0abb, 0x81c2c92e, 0x92722c85],
     [0xa2bfe8a1, 0xa81a664b, 0xc24b8b70, 0xc76c51a3],
     [0xd192e819, 0xd6990624, 0xf40e3585, 0x106aa070],
     [0x19a4c116, 0x1e376c08, 0x2748774c, 0x34b0bcb5],
     [0x391c0cb3, 0x4ed8aa4a, 0x5b9cca4f, 0x682e6ff3],
     [0x748f82ee, 0x78a5636f, 0x84c87814, 0x8cc70208],
     [0x90befffa, 0xa4506ceb, 0xbef9a3f7, 0xc67178f2]]"

record sha_ctx =
  sha_state :: "w32 list"
  sha_bitlen :: "64 word"
  sha_data :: "byte list"
  sha_datalen :: nat

definition sha_word :: "byte list \<Rightarrow> nat \<Rightarrow> w32" where
  "sha_word data i =
     push_bit 24 (ucast (data ! (i * 4))) OR push_bit 16 (ucast (data ! (i * 4 + 1))) OR
     push_bit 8 (ucast (data ! (i * 4 + 2))) OR ucast (data ! (i * 4 + 3))"

definition sha_schedule :: "byte list \<Rightarrow> w32 list" where
  "sha_schedule data =
     fold (\<lambda>i m. m @ [crypto_sig1 (m ! (i - 2)) + m ! (i - 7) + crypto_sig0 (m ! (i - 15)) + m ! (i - 16)])
       [16..<64] (map (sha_word data) [0..<16])"

definition sha_round :: "w32 list \<Rightarrow> nat \<Rightarrow> w32 list \<Rightarrow> w32 list" where
  "sha_round m i v =
     (let a = v ! 0; b = v ! 1; c = v ! 2; d = v ! 3; e = v ! 4; f = v ! 5; g = v ! 6; h = v ! 7;
          t1 = h + crypto_ep1 e + crypto_ch e f g + SHA256_K ! i + m ! i;
          t2 = crypto_ep0 a + crypto_maj a b c
      in [t1 + t2, a, b, c, d + t1, e, f, g])"

definition sha_compress :: "w32 list \<Rightarrow> byte list \<Rightarrow> w32 list" where
  "sha_compress state data = map2 (+) state (fold (sha_round (sha_schedule data)) [0..<64] state)"

definition sha256_transform :: "byte list \<Rightarrow> sha_ctx \<Rightarrow> sha_ctx" where
  "sha256_transform data ctx = ctx\<lparr>sha_state := sha_compress (sha_state ctx) data\<rparr>"

section \<open>The streaming interface\<close>

definition sha_init_state :: "w32 list" where
  "sha_init_state = [0x6a09e667, 0xbb67ae85, 0x3c6ef372, 0xa54ff53a, 0x510e527f, 0x9b05688c, 0x1f83d9ab, 0x5be0cd19]"

definition sha256_init :: "(nat \<Rightarrow> byte) \<Rightarrow> sha_ctx" where
  "sha256_init junk = \<lparr>sha_state = sha_init_state, sha_bitlen = 0, sha_data = map junk [0..<64], sha_datalen = 0\<rparr>"

definition sha_put :: "byte \<Rightarrow> sha_ctx \<Rightarrow> sha_ctx" where
  "sha_put b ctx =
     (let ctx1 = ctx\<lparr>sha_data := (sha_data ctx)[sha_datalen ctx := b], sha_datalen := sha_datalen ctx + 1\<rparr> in
      if sha_datalen ctx1 = 64
      then (sha256_transform (sha_data ctx1) ctx1)\<lparr>sha_bitlen := sha_bitlen ctx1 + 512, sha_datalen := 0\<rparr>
      else ctx1)"

definition sha256_update :: "byte list \<Rightarrow> sha_ctx \<Rightarrow> sha_ctx" where
  "sha256_update data ctx = fold sha_put data ctx"

text \<open>The loops that fill the buffer with zeros from \<open>i\<close> to \<open>n\<close>, and the one that appends the length.\<close>

definition sha_fill :: "nat \<Rightarrow> nat \<Rightarrow> byte list \<Rightarrow> byte list" where
  "sha_fill i n data = fold (\<lambda>k d. d[k := 0]) [i..<n] data"

definition sha_put_length :: "64 word \<Rightarrow> nat \<Rightarrow> byte list \<Rightarrow> byte list" where
  "sha_put_length bits i data = fold (\<lambda>k d. d[i + k := ucast (drop_bit ((7 - k) * 8) bits AND 0xff)]) [0..<8] data"

definition sha_word_bytes :: "w32 \<Rightarrow> byte list" where
  "sha_word_bytes w = [ucast (drop_bit 24 w AND 0xff), ucast (drop_bit 16 w AND 0xff), ucast (drop_bit 8 w AND 0xff), ucast (w AND 0xff)]"

definition sha256_final :: "sha_ctx \<Rightarrow> byte list" where
  "sha256_final ctx =
     (let i = sha_datalen ctx;
          ctx1 = ctx\<lparr>sha_bitlen := sha_bitlen ctx + word_of_nat (sha_datalen ctx) * 8, sha_data := (sha_data ctx)[i := 0x80]\<rparr>;
          (ctx2, j) =
            (if i + 1 > 56
             then (let d = sha_fill (i + 1) 64 (sha_data ctx1) in (sha256_transform d (ctx1\<lparr>sha_data := d\<rparr>), 0))
             else (ctx1, i + 1));
          d = sha_put_length (sha_bitlen ctx2) 56 (sha_fill j 56 (sha_data ctx2));
          ctx3 = sha256_transform d (ctx2\<lparr>sha_data := d\<rparr>)
      in concat (map sha_word_bytes (sha_state ctx3)))"

definition sha256_digest :: "(nat \<Rightarrow> byte) \<Rightarrow> byte list \<Rightarrow> byte list" where
  "sha256_digest junk data = sha256_final (sha256_update data (sha256_init junk))"

definition hmac_key_block :: "byte list \<Rightarrow> byte \<Rightarrow> byte list" where
  "hmac_key_block key pad = map (\<lambda>b. b XOR pad) (key @ replicate (64 - length key) 0)"

definition hmac_sha256_digest :: "(nat \<Rightarrow> byte) \<Rightarrow> byte list \<Rightarrow> byte list \<Rightarrow> byte list" where
  "hmac_sha256_digest junk key msg =
     (let key = (if length key > 64 then sha256_digest junk key else key);
          inner = sha256_final (sha256_update msg (sha256_update (hmac_key_block key 0x36) (sha256_init junk)))
      in sha256_final (sha256_update inner (sha256_update (hmac_key_block key 0x5c) (sha256_init junk))))"

definition crypto_sha256 :: "(nat \<Rightarrow> byte) \<Rightarrow> bytes \<Rightarrow> bytes res" where
  "crypto_sha256 junk value =
     (case value of None \<Rightarrow> Inl (SproutFail ''crypto_sha256: null bytes'') | Some d \<Rightarrow> Inr (Some (sha256_digest junk d)))"

definition crypto_hmac_sha256 :: "(nat \<Rightarrow> byte) \<Rightarrow> bytes \<Rightarrow> bytes \<Rightarrow> bytes res" where
  "crypto_hmac_sha256 junk key msg =
     (case (key, msg) of
        (Some k, Some m) \<Rightarrow> Inr (Some (hmac_sha256_digest junk k m))
      | _ \<Rightarrow> Inl (SproutFail ''crypto_hmac_sha256: null bytes''))"

section \<open>FIPS 180-4 and RFC 2104\<close>

function sha_blocks :: "byte list \<Rightarrow> byte list list" where
  "sha_blocks xs = (if length xs < 64 then [] else take 64 xs # sha_blocks (drop 64 xs))"
  by pat_completeness auto
termination
  by (relation "measure length") auto

declare sha_blocks.simps [simp del]

definition be64 :: "nat \<Rightarrow> byte list" where
  "be64 n = map (\<lambda>k. word_of_nat (n div 256 ^ k)) (rev [0..<8])"

text \<open>The message, a one bit, zeros up to 8 bytes before a block boundary, and the length in bits.\<close>

definition sha_padded :: "byte list \<Rightarrow> byte list" where
  "sha_padded m = m @ [0x80] @ replicate ((119 - length m mod 64) mod 64) 0 @ be64 (8 * length m)"

definition fips_sha256 :: "byte list \<Rightarrow> byte list" where
  "fips_sha256 m = concat (map sha_word_bytes (foldl sha_compress sha_init_state (sha_blocks (sha_padded m))))"

definition rfc_hmac :: "byte list \<Rightarrow> byte list \<Rightarrow> byte list" where
  "rfc_hmac key msg =
     (let k0 = (if length key > 64 then fips_sha256 key else key);
          k = k0 @ replicate (64 - length k0) 0
      in fips_sha256 (map ((XOR) 0x5c) k @ fips_sha256 (map ((XOR) 0x36) k @ msg)))"

section \<open>Streaming is block-wise\<close>

lemma sha_blocks_short [simp]: "length xs < 64 \<Longrightarrow> sha_blocks xs = []"
  by (subst sha_blocks.simps) simp

lemma sha_blocks_cons: "length xs = 64 \<Longrightarrow> sha_blocks (xs @ ys) = xs # sha_blocks ys"
  by (subst sha_blocks.simps) simp

lemma sha_blocks_append: "length xs = 64 * n \<Longrightarrow> sha_blocks (xs @ ys) = sha_blocks xs @ sha_blocks ys"
proof (induction n arbitrary: xs)
  case (Suc n)
  then have l: "length (take 64 xs) = 64" "length (drop 64 xs) = 64 * n" by simp_all
  have "sha_blocks (xs @ ys) = take 64 xs # sha_blocks (drop 64 xs @ ys)"
    using sha_blocks_cons [OF l(1), of "drop 64 xs @ ys"] by (metis append.assoc append_take_drop_id)
  moreover have "sha_blocks xs = take 64 xs # sha_blocks (drop 64 xs)"
    using sha_blocks_cons [OF l(1), of "drop 64 xs"] by simp
  ultimately show ?case using Suc.IH [OF l(2)] by simp
qed simp

definition whole :: "byte list \<Rightarrow> byte list" where
  "whole m = take (64 * (length m div 64)) m"

definition rest :: "byte list \<Rightarrow> byte list" where
  "rest m = drop (64 * (length m div 64)) m"

lemma whole_rest: "whole m @ rest m = m" "length (whole m) = 64 * (length m div 64)" "length (rest m) = length m mod 64"
  using times_div_less_eq_dividend [of 64 "length m"] by (simp_all add: whole_def rest_def minus_mult_div_eq_mod)

lemma blocks_whole: "sha_blocks (m @ ys) = sha_blocks (whole m) @ sha_blocks (rest m @ ys)"
proof -
  have "sha_blocks (whole m @ (rest m @ ys)) = sha_blocks (whole m) @ sha_blocks (rest m @ ys)"
    by (rule sha_blocks_append [OF whole_rest(2)])
  then show ?thesis by (simp add: whole_rest(1) append.assoc [symmetric] del: append.assoc append_assoc)
qed

lemma blocks_of_whole: "sha_blocks m = sha_blocks (whole m)"
  using blocks_whole [of m "[]"] by (simp add: whole_rest(3))

lemma rest_snoc: "length m mod 64 < 63 \<Longrightarrow> rest (m @ [b]) = rest m @ [b]"
  by (simp add: rest_def div_Suc mod_Suc)

text \<open>What a context knows of the message it has seen.\<close>

definition sha_inv :: "byte list \<Rightarrow> sha_ctx \<Rightarrow> bool" where
  "sha_inv m ctx \<longleftrightarrow> sha_state ctx = foldl sha_compress sha_init_state (sha_blocks m) \<and> sha_datalen ctx = length m mod 64 \<and>
     length (sha_data ctx) = 64 \<and> take (length m mod 64) (sha_data ctx) = rest m \<and> sha_bitlen ctx = word_of_nat (512 * (length m div 64))"

lemma sha_inv_init: "sha_inv [] (sha256_init junk)"
  by (simp add: sha_inv_def sha256_init_def rest_def)

lemma sha_inv_put:
  assumes inv: "sha_inv m ctx"
  shows "sha_inv (m @ [b]) (sha_put b ctx)"
proof -
  let ?r = "length m mod 64" and ?d = "(sha_data ctx)[length m mod 64 := b]"
  have I: "sha_state ctx = foldl sha_compress sha_init_state (sha_blocks m)" "sha_datalen ctx = ?r" "length (sha_data ctx) = 64"
    "take ?r (sha_data ctx) = rest m" "sha_bitlen ctx = word_of_nat (512 * (length m div 64))" using inv by (auto simp: sha_inv_def)
  have r: "?r < 64" by simp
  have tk: "take (Suc ?r) ?d = rest m @ [b]" using I(3,4) r by (simp add: take_Suc_conv_app_nth)
  have bl: "sha_blocks (m @ [b]) = sha_blocks m @ sha_blocks (rest m @ [b])"
    using blocks_whole [of m "[b]"] blocks_of_whole [of m] by simp
  show ?thesis
  proof (cases "?r = 63")
    case False
    then have lt: "?r < 63" using r by simp
    then have md: "Suc (length m) mod 64 = Suc ?r" "Suc (length m) div 64 = length m div 64" by (simp_all add: mod_Suc div_Suc)
    have "sha_blocks (rest m @ [b]) = []" using lt by (simp add: whole_rest(3))
    then show ?thesis
      using I False md tk bl rest_snoc [OF lt, of b] by (simp add: sha_inv_def sha_put_def Let_def)
  next
    case True
    have md: "Suc (length m) mod 64 = 0" "Suc (length m) div 64 = Suc (length m div 64)" using True by (simp_all add: mod_Suc div_Suc)
    have l: "length (rest m @ [b]) = 64" using True by (simp add: whole_rest(3))
    have d: "?d = rest m @ [b]" using tk I(3) True by simp
    have "sha_blocks (rest m @ [b]) = [rest m @ [b]]" using sha_blocks_cons [OF l, of "[]"] by simp
    moreover have "rest (m @ [b]) = []" using md by (simp add: rest_def)
    moreover have "word_of_nat (512 * (length m div 64)) + 512 = (word_of_nat (512 * Suc (length m div 64)) :: 64 word)" by (simp add: algebra_simps)
    ultimately show ?thesis
      using I True md bl d by (simp add: sha_inv_def sha_put_def Let_def sha256_transform_def whole_rest(3))
  qed
qed

lemma sha_inv_update: "sha_inv m ctx \<Longrightarrow> sha_inv (m @ data) (sha256_update data ctx)"
proof (induction data arbitrary: m ctx)
  case (Cons b data)
  then show ?case using Cons.IH [OF sha_inv_put [OF Cons.prems, of b]] by (simp add: sha256_update_def)
qed (simp add: sha256_update_def)

section \<open>The last blocks\<close>

lemma fold_store: "i + n \<le> length d \<Longrightarrow> fold (\<lambda>k d. d[i + k := f k]) [0..<n] d = take i d @ map f [0..<n] @ drop (i + n) d"
proof (induction n)
  case (Suc n)
  have "(take i d @ map f [0..<n] @ drop (i + n) d)[i + n := f n] = take i d @ map f [0..<n] @ (drop (i + n) d)[0 := f n]"
    using Suc.prems by (simp add: list_update_append)
  moreover have "(drop (i + n) d)[0 := f n] = f n # drop (i + Suc n) d"
    using Suc.prems by (subst Cons_nth_drop_Suc [symmetric]) simp_all
  ultimately show ?case using Suc by simp
qed simp

lemma sha_fill_eq: "i \<le> n \<Longrightarrow> n \<le> length d \<Longrightarrow> sha_fill i n d = take i d @ replicate (n - i) 0 @ drop n d"
proof -
  assume a: "i \<le> n" "n \<le> length d"
  have u: "[i..<n] = map ((+) i) [0..<n - i]" 
  proof -
    have "(+) i = (\<lambda>k. k + i)" by (simp add: fun_eq_iff)
    then show ?thesis using map_add_upt [of i "n - i"] a(1) by simp
  qed
  have "map (\<lambda>_. 0) [0..<n - i] = (replicate (n - i) 0 :: byte list)" by (simp add: map_replicate_const)
  then show ?thesis using fold_store [of i "n - i" d "\<lambda>_. 0"] a by (simp add: sha_fill_def u fold_map comp_def)
qed

lemma length_byte: "k < 8 \<Longrightarrow> ucast (drop_bit (k * 8) (word_of_nat n :: 64 word) AND 0xff) = (word_of_nat (n div 256 ^ k) :: byte)"
proof -
  assume k: "k < 8"
  have "(256 :: nat) ^ k = 2 ^ (k * 8)" by (simp add: power_mult mult.commute [of k])
  moreover have mask: "x AND 0xff = take_bit 8 x" for x :: "64 word" by (simp add: take_bit_eq_mask mask_eq_exp_minus_1)
  ultimately have "n div 256 ^ k = drop_bit (k * 8) n" by (simp add: drop_bit_eq_div)
  then show ?thesis
    using k mask by (intro bit_word_eqI) (auto simp: bit_simps)
qed

lemma put_length_eq:
  "length d = 64 \<Longrightarrow> sha_put_length (word_of_nat n) 56 d = take 56 d @ be64 n"
proof -
  assume d: "length d = 64"
  have "map (\<lambda>k. ucast (drop_bit ((7 - k) * 8) (word_of_nat n :: 64 word) AND 0xff)) [0..<8] = be64 n"
    by (rule nth_equalityI) (simp_all add: be64_def rev_nth length_byte)
  then show ?thesis using fold_store [of 56 8 d] d by (simp add: sha_put_length_def)
qed

lemma length_be64 [simp]: "length (be64 n) = 8"
  by (simp add: be64_def)

lemma pad_small: "(119 - r) mod 64 = 55 - r" if "r \<le> 55" for r :: nat
proof -
  have "119 - r = (55 - r) + 64" using that by simp
  then show ?thesis by (simp only: mod_add_self2) simp
qed

lemma pad_big: "(119 - r) mod 64 = (63 - r) + 56" if "55 < r" "r < 64" for r :: nat
  using that by simp

lemma sha_final_ref:
  assumes inv: "sha_inv m ctx"
  shows "sha256_final ctx = fips_sha256 m"
proof -
  let ?r = "length m mod 64"
  define n where "n = 8 * length m"
  have I: "sha_state ctx = foldl sha_compress sha_init_state (sha_blocks m)" "sha_datalen ctx = ?r" "length (sha_data ctx) = 64"
    "take ?r (sha_data ctx) = rest m" "sha_bitlen ctx = word_of_nat (512 * (length m div 64))" using inv by (auto simp: sha_inv_def)
  have r: "?r < 64" by simp
  have sum: "512 * (length m div 64) + ?r * 8 = n" using mult_div_mod_eq [of 64 "length m"] unfolding n_def by linarith
  have bits: "sha_bitlen ctx + word_of_nat ?r * 8 = word_of_nat n"
  proof -
    have "(word_of_nat (512 * (length m div 64)) :: 64 word) + word_of_nat ?r * 8 = word_of_nat (512 * (length m div 64) + ?r * 8)" by simp
    then show ?thesis unfolding I(5) sum .
  qed
  let ?d = "(sha_data ctx)[?r := 0x80]"
  have tk: "take (Suc ?r) ?d = rest m @ [0x80]" "length ?d = 64" using I(3,4) r by (simp_all add: take_Suc_conv_app_nth)
  have blocks: "sha_blocks (sha_padded m) = sha_blocks m @ sha_blocks (rest m @ [0x80] @ replicate ((119 - ?r) mod 64) 0 @ be64 n)"
    unfolding sha_padded_def n_def blocks_whole [of m "[0x80] @ _"] blocks_of_whole [of m] ..
  show ?thesis
  proof (cases "?r + 1 > 56")
    case False
    let ?b = "rest m @ [0x80] @ replicate (55 - ?r) 0 @ be64 n"
    have z: "(119 - ?r) mod 64 = 55 - ?r" by (rule pad_small) (use False in linarith)
    have "sha_fill (Suc ?r) 56 ?d = take (Suc ?r) ?d @ replicate (55 - ?r) 0 @ drop 56 ?d" using sha_fill_eq [of "Suc ?r" 56 ?d] False tk(2) by simp
    then have e: "sha_fill (Suc ?r) 56 ?d = (rest m @ [0x80] @ replicate (55 - ?r) 0) @ drop 56 ?d" using tk(1) by simp
    have l56: "length (rest m @ [0x80] @ replicate (55 - ?r) 0) = 56" using False by (simp add: whole_rest(3))
    have "take 56 (sha_fill (Suc ?r) 56 ?d) = rest m @ [0x80] @ replicate (55 - ?r) 0" "length (sha_fill (Suc ?r) 56 ?d) = 64"
    proof -
      show "take 56 (sha_fill (Suc ?r) 56 ?d) = rest m @ [0x80] @ replicate (55 - ?r) 0" unfolding e by (metis append_eq_conv_conj l56)
      show "length (sha_fill (Suc ?r) 56 ?d) = 64" unfolding e length_append [of "rest m @ _"] l56 using tk(2) by simp
    qed
    then have d: "sha_put_length (word_of_nat n) 56 (sha_fill (Suc ?r) 56 ?d) = ?b" using put_length_eq [of "sha_fill (Suc ?r) 56 ?d"] by simp
    have "length ?b = 64" using False by (simp add: whole_rest(3))
    then have "sha_blocks ?b = [?b]" using sha_blocks_cons [of ?b "[]"] by simp
    then have "foldl sha_compress sha_init_state (sha_blocks (sha_padded m)) = sha_compress (sha_state ctx) ?b" using blocks z I(1) by simp
    then show ?thesis
      using False I(2) bits d by (simp add: sha256_final_def Let_def fips_sha256_def sha256_transform_def)
  next
    case True
    let ?b1 = "rest m @ [0x80] @ replicate (63 - ?r) 0" and ?b2 = "replicate 56 0 @ be64 n"
    have z: "(119 - ?r) mod 64 = (63 - ?r) + 56" by (rule pad_big) (use True r in linarith)+
    have f1: "sha_fill (Suc ?r) 64 ?d = ?b1" using sha_fill_eq [of "Suc ?r" 64 ?d] r tk by simp
    have l1: "length ?b1 = 64" using r by (simp add: whole_rest(3))
    have "sha_fill 0 56 ?b1 = replicate 56 0 @ drop 56 ?b1" using sha_fill_eq [of 0 56 ?b1] l1 by simp
    then have d: "sha_put_length (word_of_nat n) 56 (sha_fill 0 56 ?b1) = ?b2" using put_length_eq [of "sha_fill 0 56 ?b1" n] l1 by simp
    have "rest m @ [0x80] @ replicate ((119 - ?r) mod 64) 0 @ be64 n = ?b1 @ ?b2" unfolding z replicate_add by simp
    moreover have "sha_blocks (?b1 @ ?b2) = [?b1, ?b2]" using sha_blocks_cons [OF l1, of ?b2] sha_blocks_cons [of ?b2 "[]"] by simp
    ultimately have "foldl sha_compress sha_init_state (sha_blocks (sha_padded m)) = sha_compress (sha_compress (sha_state ctx) ?b1) ?b2"
      using blocks I(1) by simp
    then show ?thesis
      using True I(2) bits d f1 by (simp add: sha256_final_def Let_def fips_sha256_def sha256_transform_def)
  qed
qed

lemma digest_ref: "sha256_digest junk data = fips_sha256 data"
  unfolding sha256_digest_def using sha_final_ref [OF sha_inv_update [OF sha_inv_init]] by simp

lemma length_digest: "length (fips_sha256 m) = 32"
proof -
  have rd: "length (sha_round w i v) = 8" for w i v by (simp add: sha_round_def Let_def)
  have fr: "length v = 8 \<Longrightarrow> length (fold (sha_round w) xs v) = 8" for w xs v by (induction xs arbitrary: v) (simp_all add: rd)
  have "length st = 8 \<Longrightarrow> length (foldl sha_compress st bs) = 8" for st bs
    by (induction bs arbitrary: st) (simp_all add: sha_compress_def fr)
  then have "length (foldl sha_compress sha_init_state (sha_blocks (sha_padded m))) = 8" by (simp add: sha_init_state_def)
  then show ?thesis by (simp add: fips_sha256_def sha_word_bytes_def length_concat comp_def sum_list_triv)
qed

text \<open>C26. The streaming SHA-256 of the runtime, fed byte by byte through a buffer of unspecified initial content, computes the hash
  of the padded message block by block, for every length; HMAC is the two nested hashes of RFC 2104, for every key length.\<close>

theorem sha256_matches_reference:
  "sha256_digest junk data = fips_sha256 data \<and> hmac_sha256_digest junk key data = rfc_hmac key data \<and> length (sha256_digest junk data) = 32"
proof -
  have two: "sha256_final (sha256_update y (sha256_update x (sha256_init junk))) = fips_sha256 (x @ y)" for x y
    using sha_final_ref [OF sha_inv_update [OF sha_inv_update [OF sha_inv_init]]] by simp
  have kb: "hmac_key_block k p = map ((XOR) p) (k @ replicate (64 - length k) 0)" for k p by (simp add: hmac_key_block_def xor.commute)
  show ?thesis
    by (simp add: hmac_sha256_digest_def rfc_hmac_def Let_def two digest_ref kb length_digest)
qed

end
