(* ===== verification/Base64.thy ===== *)
theory Base64
  imports Byte_Buffers
begin

unbundle bit_operations_syntax

text \<open>
  Base64 of the runtime, and the byte-wise exclusive or of the crypto module. The decoder sizes its buffer from the
  trailing padding before it looks at the characters; a store past that size is the outcome \<open>Overrun\<close>. \<open>mem_ok\<close> is
  whether the decoder's buffer can be allocated: its allocator ends the program when it cannot, so the test of the
  result against \<^verbatim>\<open>NULL\<close> never succeeds. The other allocations are taken to succeed.
\<close>

section \<open>Encoder\<close>

text \<open>The ASCII codes of \<^verbatim>\<open>A-Z\<close>, \<^verbatim>\<open>a-z\<close>, \<^verbatim>\<open>0-9\<close>, \<^verbatim>\<open>+\<close> and \<^verbatim>\<open>/\<close>.\<close>

definition base64_table :: "byte list" where
  "base64_table = map word_of_nat ([65..<91] @ [97..<123] @ [48..<58] @ [43, 47])"

abbreviation pad :: byte where
  "pad \<equiv> 61"

function base64_encode_from :: "byte list \<Rightarrow> nat \<Rightarrow> byte list" where
  "base64_encode_from data i =
     (if i < length data
      then (let remaining = length data - i; a = data ! i;
                b = (if remaining > 1 then data ! (i + 1) else 0);
                c = (if remaining > 2 then data ! (i + 2) else 0)
            in [base64_table ! unat (drop_bit 2 a AND 0x3f),
                base64_table ! unat (push_bit 4 (a AND 0x03) OR drop_bit 4 b),
                if remaining > 1 then base64_table ! unat (push_bit 2 (b AND 0x0f) OR drop_bit 6 c) else pad,
                if remaining > 2 then base64_table ! unat (c AND 0x3f) else pad] @
               base64_encode_from data (i + 1 + (if remaining > 1 then 1 else 0) + (if remaining > 2 then 1 else 0)))
      else [])"
  by pat_completeness auto
termination
  by (relation "measure (\<lambda>(data, i). length data - i)") auto

declare base64_encode_from.simps [simp del]

definition base64_encode_bytes :: "byte list \<Rightarrow> cstr" where
  "base64_encode_bytes data = base64_encode_from data 0"

section \<open>Decoder\<close>

definition base64_value :: "byte \<Rightarrow> int" where
  "base64_value c =
     (if 65 \<le> c \<and> c \<le> 90 then uint c - 65
      else if 97 \<le> c \<and> c \<le> 122 then uint c - 97 + 26
      else if 48 \<le> c \<and> c \<le> 57 then uint c - 48 + 52
      else if c = 43 then 62
      else if c = 47 then 63
      else - 1)"

text \<open>The outcomes of \<^verbatim>\<open>base64_decode_bytes\<close>: the buffer and the length it reports, 0 with \<^verbatim>\<open>*err\<close>, the fatal exit of the
  allocator, and a store past the allocated size.\<close>

datatype decoded = Decoded "byte list" nat | Bad string | Fatal string | Overrun

definition base64_size :: "cstr \<Rightarrow> nat" where
  "base64_size text =
     (let len = length text; sz = len div 4 * 3;
          size1 = (if len \<ge> 1 \<and> text ! (len - 1) = pad then sz - 1 else sz)
      in if len \<ge> 2 \<and> text ! (len - 2) = pad then size1 - 1 else size1)"

definition byte_of :: "int \<Rightarrow> byte" where
  "byte_of v = word_of_int v"

text \<open>The store of some bytes at \<open>out[j++]\<close>.\<close>

definition put_bytes :: "nat \<Rightarrow> byte list \<Rightarrow> byte list \<Rightarrow> byte list option" where
  "put_bytes sz bs out = (if length out + length bs \<le> sz then Some (out @ bs) else None)"

definition done_with :: "nat \<Rightarrow> byte list option \<Rightarrow> decoded" where
  "done_with sz out = (case out of None \<Rightarrow> Overrun | Some d \<Rightarrow> Decoded d sz)"

function base64_decode_from :: "cstr \<Rightarrow> nat \<Rightarrow> nat \<Rightarrow> byte list \<Rightarrow> decoded" where
  "base64_decode_from text sz i out =
     (if i < length text
      then (let c0 = cbyte text i; c1 = cbyte text (i + 1); c2 = cbyte text (i + 2); c3 = cbyte text (i + 3);
                v0 = base64_value c0; v1 = base64_value c1
            in if v0 < 0 \<or> v1 < 0 then Bad ''invalid base64 character''
               else let b0 = byte_of (push_bit 2 v0 OR drop_bit 4 v1) in
               if c2 = pad
               then (if c3 \<noteq> pad then Bad ''invalid base64 padding''
                     else if i + 4 \<noteq> length text then Bad ''invalid base64 padding''
                     else done_with sz (put_bytes sz [b0] out))
               else let v2 = base64_value c2 in
                 if v2 < 0 then Bad ''invalid base64 character''
                 else let b1 = byte_of (push_bit 4 (v1 AND 0x0f) OR drop_bit 2 v2) in
                 if c3 = pad
                 then (if i + 4 \<noteq> length text then Bad ''invalid base64 padding'' else done_with sz (put_bytes sz [b0, b1] out))
                 else let v3 = base64_value c3 in
                   if v3 < 0 then Bad ''invalid base64 character''
                   else (case put_bytes sz [b0, b1, byte_of (push_bit 6 (v2 AND 0x03) OR v3)] out of
                           None \<Rightarrow> Overrun
                         | Some out' \<Rightarrow> base64_decode_from text sz (i + 4) out'))
      else Decoded out sz)"
  by pat_completeness auto
termination
  by (relation "measure (\<lambda>(text, sz, i, out). length text - i)") auto

declare base64_decode_from.simps [simp del]

definition base64_decode_bytes :: "bool \<Rightarrow> cstr \<Rightarrow> decoded" where
  "base64_decode_bytes mem_ok text =
     (if length text mod 4 \<noteq> 0 then Bad ''invalid base64 length''
      else if base64_size text > 0 \<and> \<not> mem_ok then Fatal ''crypto_base64_decode: out of memory''
      else base64_decode_from text (base64_size text) 0 [])"

definition crypto_base64_encode :: "bytes \<Rightarrow> cstr res" where
  "crypto_base64_encode value =
     (case value of None \<Rightarrow> Inl (SproutFail ''crypto_base64_encode: null bytes'') | Some d \<Rightarrow> Inr (base64_encode_bytes d))"

text \<open>\<open>Inl reason\<close> is \<^verbatim>\<open>Err(Base64DecodeError(reason))\<close>.\<close>

definition crypto_base64_decode :: "bool \<Rightarrow> cstr option \<Rightarrow> (string + bytes) res" where
  "crypto_base64_decode mem_ok raw =
     (case raw of
        None \<Rightarrow> Inl (SproutFail ''crypto_base64_decode: null input'')
      | Some text \<Rightarrow>
          (case base64_decode_bytes mem_ok text of
             Bad err \<Rightarrow> Inr (Inl err)
           | Fatal err \<Rightarrow> Inl (SproutFail err)
           | Overrun \<Rightarrow> Inl OutOfBounds
           | Decoded d len \<Rightarrow> Inr (Inr (Some d))))"

text \<open>\<open>Inl (l, r)\<close> is \<^verbatim>\<open>Err(BytesXorLengthMismatch(l, r))\<close>.\<close>

definition crypto_bytes_xor :: "bytes \<Rightarrow> bytes \<Rightarrow> ((nat \<times> nat) + bytes) res" where
  "crypto_bytes_xor left right =
     (case (left, right) of
        (Some l, Some r) \<Rightarrow> Inr (if length l \<noteq> length r then Inl (length l, length r) else Inr (Some (map2 (XOR) l r)))
      | _ \<Rightarrow> Inl (SproutFail ''crypto_bytes_xor: null bytes''))"

section \<open>Groups\<close>

lemma base64_alphabet: "\<forall>v \<in> set [0..<64]. base64_value (base64_table ! v) = int v \<and> base64_table ! v \<noteq> pad \<and> base64_table ! v \<noteq> 0"
  by code_simp

lemma alphabet: "v < 64 \<Longrightarrow> base64_value (base64_table ! v) = int v" "v < 64 \<Longrightarrow> base64_table ! v \<noteq> pad"
  using base64_alphabet by simp_all

lemma sextets:
  fixes a b c :: byte
  shows "unat (drop_bit 2 a AND 0x3f) = unat a div 4" "unat (push_bit 4 (a AND 0x03) OR drop_bit 4 b) = unat a mod 4 * 16 + unat b div 16"
    "unat (push_bit 2 (b AND 0x0f) OR drop_bit 6 c) = unat b mod 16 * 4 + unat c div 64" "unat (c AND 0x3f) = unat c mod 64"
proof -
  have m: "unat (x AND 0x3f) = unat x mod 64" "unat (x AND 0x0f) = unat x mod 16" "unat (x AND 0x03) = unat x mod 4" for x :: byte
    using unat_and_mask [of 6 x] unat_and_mask [of 4 x] unat_and_mask [of 2 x] by simp_all
  have d: "unat a div 4 < 64" "unat b div 16 < 16" "unat c div 64 < 4" by (simp_all add: less_mult_imp_div_less)
  show "unat (drop_bit 2 a AND 0x3f) = unat a div 4" using d(1) by (simp add: m unat_drop)
  show "unat (push_bit 4 (a AND 0x03) OR drop_bit 4 b) = unat a mod 4 * 16 + unat b div 16"
    using unat_shift_or [of "drop_bit 4 b" 4 "a AND 0x03"] d(2) by (simp add: m unat_drop)
  show "unat (push_bit 2 (b AND 0x0f) OR drop_bit 6 c) = unat b mod 16 * 4 + unat c div 64"
    using unat_shift_or [of "drop_bit 6 c" 2 "b AND 0x0f"] d(3) by (simp add: m unat_drop)
  show "unat (c AND 0x3f) = unat c mod 64" by (rule m)
qed

lemma sextet_range:
  fixes a b c :: byte
  shows "unat (drop_bit 2 a AND 0x3f) < 64" "unat (push_bit 4 (a AND 0x03) OR drop_bit 4 b) < 64"
    "unat (push_bit 2 (b AND 0x0f) OR drop_bit 6 c) < 64" "unat (c AND 0x3f) < 64"
proof -
  have "unat a < 256" "unat b < 256" "unat c < 256" by simp_all
  then show "unat (drop_bit 2 a AND 0x3f) < 64" "unat (push_bit 4 (a AND 0x03) OR drop_bit 4 b) < 64"
    "unat (push_bit 2 (b AND 0x0f) OR drop_bit 6 c) < 64" "unat (c AND 0x3f) < 64"
    unfolding sextets by linarith+
qed

lemma int_shift_or: "y < 2 ^ n \<Longrightarrow> push_bit n (int x) OR int y = int (x * 2 ^ n + y)"
  using shift_or_add_nat [of y n x] by (metis of_nat_or_eq push_bit_of_nat)

lemma byte_of_self: "byte_of (int (unat b)) = b"
  by (simp add: byte_of_def)

text \<open>Three bytes from four sextets.\<close>

lemma regroup:
  fixes a b c :: byte
  shows "byte_of (push_bit 2 (int (unat a div 4)) OR drop_bit 4 (int (unat a mod 4 * 16 + unat b div 16))) = a"
    "byte_of (push_bit 4 (int (unat a mod 4 * 16 + unat b div 16) AND 0x0f) OR drop_bit 2 (int (unat b mod 16 * 4 + unat c div 64))) = b"
    "byte_of (push_bit 6 (int (unat b mod 16 * 4 + unat c div 64) AND 0x03) OR int (unat c mod 64)) = c"
proof -
  have d: "unat b div 16 < 16" "unat c div 64 < 4" by (simp_all add: less_mult_imp_div_less)
  have m: "int x AND 0x0f = int (x mod 16)" "int x AND 0x03 = int (x mod 4)" for x
    using take_bit_eq_mask [of 4 "int x"] take_bit_eq_mask [of 2 "int x"] by (simp_all add: mask_eq_exp_minus_1 take_bit_eq_mod zmod_int)
  have dr: "drop_bit k (int x) = int (x div 2 ^ k)" for k x by (simp add: drop_bit_eq_div zdiv_int)
  have e1: "(unat a mod 4 * 16 + unat b div 16) div 16 = unat a mod 4" "(unat a mod 4 * 16 + unat b div 16) mod 16 = unat b div 16"
    "(unat b mod 16 * 4 + unat c div 64) div 4 = unat b mod 16" "(unat b mod 16 * 4 + unat c div 64) mod 4 = unat c div 64" using d by simp_all
  have s1: "push_bit 2 (int (unat a div 4)) OR int (unat a mod 4) = int (unat a)"
    using int_shift_or [of "unat a mod 4" 2 "unat a div 4"] by (simp del: of_nat_add of_nat_mult)
  have s2: "push_bit 4 (int (unat b div 16)) OR int (unat b mod 16) = int (unat b)"
    using int_shift_or [of "unat b mod 16" 4 "unat b div 16"] by (simp del: of_nat_add of_nat_mult)
  have s3: "push_bit 6 (int (unat c div 64)) OR int (unat c mod 64) = int (unat c)"
    using int_shift_or [of "unat c mod 64" 6 "unat c div 64"] by (simp del: of_nat_add of_nat_mult)
  have p: "(2::nat) ^ 2 = 4" "(2::nat) ^ 4 = 16" by simp_all
  show "byte_of (push_bit 2 (int (unat a div 4)) OR drop_bit 4 (int (unat a mod 4 * 16 + unat b div 16))) = a"
    unfolding dr p e1(1) s1 by (rule byte_of_self)
  show "byte_of (push_bit 4 (int (unat a mod 4 * 16 + unat b div 16) AND 0x0f) OR drop_bit 2 (int (unat b mod 16 * 4 + unat c div 64))) = b"
    unfolding dr m p e1(2,3) s2 by (rule byte_of_self)
  show "byte_of (push_bit 6 (int (unat b mod 16 * 4 + unat c div 64) AND 0x03) OR int (unat c mod 64)) = c"
    unfolding m e1(4) s3 by (rule byte_of_self)
qed

section \<open>Round trip\<close>

definition sx0 :: "byte \<Rightarrow> nat" where "sx0 a = unat (drop_bit 2 a AND 0x3f)"
definition sx1 :: "byte \<Rightarrow> byte \<Rightarrow> nat" where "sx1 a b = unat (push_bit 4 (a AND 0x03) OR drop_bit 4 b)"
definition sx2 :: "byte \<Rightarrow> byte \<Rightarrow> nat" where "sx2 b c = unat (push_bit 2 (b AND 0x0f) OR drop_bit 6 c)"
definition sx3 :: "byte \<Rightarrow> nat" where "sx3 c = unat (c AND 0x3f)"

lemma sx_alphabet [simp]:
  "base64_value (base64_table ! sx0 a) = int (sx0 a)" "base64_value (base64_table ! sx1 a b) = int (sx1 a b)"
  "base64_value (base64_table ! sx2 b c) = int (sx2 b c)" "base64_value (base64_table ! sx3 c) = int (sx3 c)"
  "base64_table ! sx2 b c \<noteq> pad" "base64_table ! sx3 c \<noteq> pad"
  using sextet_range alphabet by (simp_all add: sx0_def sx1_def sx2_def sx3_def del: unat_byte_less)

lemma sx_regroup:
  "byte_of (push_bit 2 (int (sx0 a)) OR drop_bit 4 (int (sx1 a b))) = a"
  "byte_of (push_bit 4 (int (sx1 a b) AND 0x0f) OR drop_bit 2 (int (sx2 b c))) = b"
  "byte_of (push_bit 6 (int (sx2 b c) AND 0x03) OR int (sx3 c)) = c"
proof -
  note v = sx0_def [unfolded sextets(1)] sx1_def [unfolded sextets(2)] sx2_def [unfolded sextets(3)] sx3_def [unfolded sextets(4)]
  show "byte_of (push_bit 2 (int (sx0 a)) OR drop_bit 4 (int (sx1 a b))) = a" unfolding v by (rule regroup(1))
  show "byte_of (push_bit 4 (int (sx1 a b) AND 0x0f) OR drop_bit 2 (int (sx2 b c))) = b" unfolding v by (rule regroup(2))
  show "byte_of (push_bit 6 (int (sx2 b c) AND 0x03) OR int (sx3 c)) = c" unfolding v by (rule regroup(3))
qed

definition group1 :: "byte \<Rightarrow> byte list" where
  "group1 a = [base64_table ! sx0 a, base64_table ! sx1 a 0, pad, pad]"

definition group2 :: "byte \<Rightarrow> byte \<Rightarrow> byte list" where
  "group2 a b = [base64_table ! sx0 a, base64_table ! sx1 a b, base64_table ! sx2 b 0, pad]"

definition group3 :: "byte \<Rightarrow> byte \<Rightarrow> byte \<Rightarrow> byte list" where
  "group3 a b c = [base64_table ! sx0 a, base64_table ! sx1 a b, base64_table ! sx2 b c, base64_table ! sx3 c]"

lemmas sx_defs = sx0_def sx1_def sx2_def sx3_def

fun groups :: "byte list \<Rightarrow> byte list" where
  "groups [] = []"
| "groups [a] = group1 a"
| "groups [a, b] = group2 a b"
| "groups (a # b # c # r) = group3 a b c @ groups r"

lemma length_group [simp]: "length (group1 a) = 4" "length (group2 a b) = 4" "length (group3 a b c) = 4"
  by (simp_all add: group1_def group2_def group3_def)

lemma encode_groups: "base64_encode_from (pre @ d) (length pre) = groups d"
proof (induction d arbitrary: pre rule: groups.induct)
  case 1
  show ?case by (subst base64_encode_from.simps) simp
next
  case (2 a)
  show ?case unfolding base64_encode_from.simps [of "pre @ [a]" "length pre"] by (simp add: group1_def Let_def nth_append base64_encode_from.simps [of _ "Suc (length pre)"] sx_defs)
next
  case (3 a b)
  show ?case unfolding base64_encode_from.simps [of "pre @ [a, b]" "length pre"] by (simp add: group2_def Let_def nth_append base64_encode_from.simps [of _ "Suc (Suc (length pre))"] sx_defs)
next
  case (4 a b c r)
  have "base64_encode_from (pre @ a # b # c # r) (Suc (Suc (Suc (length pre)))) = groups r" using 4 [of "pre @ [a, b, c]"] by simp
  then show ?case
    unfolding base64_encode_from.simps [of "pre @ a # b # c # r" "length pre"] by (simp add: group3_def Let_def nth_append sx_defs)
qed

lemma cbyte_group: "cbyte (pre @ c0 # c1 # c2 # c3 # t) (length pre) = c0" "cbyte (pre @ c0 # c1 # c2 # c3 # t) (length pre + 1) = c1"
  "cbyte (pre @ c0 # c1 # c2 # c3 # t) (length pre + 2) = c2" "cbyte (pre @ c0 # c1 # c2 # c3 # t) (length pre + 3) = c3"
  by (simp_all add: cbyte_def nth_append)

lemma decode_groups:
  "length out + length d \<le> sz \<Longrightarrow> base64_decode_from (pre @ groups d) sz (length pre) out = Decoded (out @ d) sz"
proof (induction d arbitrary: pre out rule: groups.induct)
  case 1
  show ?case by (subst base64_decode_from.simps) simp
next
  case (2 a)
  then show ?case
    by (subst base64_decode_from.simps)
      (simp add: group1_def cbyte_group [of pre, simplified] sx_regroup Let_def put_bytes_def done_with_def del: push_bit_and)
next
  case (3 a b)
  then show ?case
    by (subst base64_decode_from.simps)
      (simp add: group2_def cbyte_group [of pre, simplified] sx_regroup Let_def put_bytes_def done_with_def del: push_bit_and)
next
  case (4 a b c r)
  have "base64_decode_from (pre @ group3 a b c @ groups r) sz (length pre + 4) (out @ [a, b, c]) = Decoded (out @ a # b # c # r) sz"
    using "4.IH" [of "out @ [a, b, c]" "pre @ group3 a b c"] "4.prems" by simp
  then show ?case
    using "4.prems"
    by (subst base64_decode_from.simps)
      (simp add: group3_def cbyte_group [of pre, simplified] sx_regroup Let_def put_bytes_def del: push_bit_and)
qed

lemma groups_nil_iff [simp]: "groups d = [] \<longleftrightarrow> d = []"
  by (cases d rule: groups.cases) (simp_all add: group1_def group2_def group3_def)

lemma length_groups_mod: "length (groups d) mod 4 = 0"
  by (induction d rule: groups.induct) simp_all

lemma length_groups_ge: "d \<noteq> [] \<Longrightarrow> 4 \<le> length (groups d)"
  by (cases d rule: groups.cases) simp_all

lemma size_tail: "length g = 4 \<Longrightarrow> 4 \<le> length t \<Longrightarrow> base64_size (g @ t) = 3 + base64_size t"
proof -
  assume g: "length g = 4" and t: "4 \<le> length t"
  have q: "length (g @ t) div 4 * 3 = 3 + length t div 4 * 3" using g div_add_self1 [of 4 "length t"] by simp
  have l: "3 \<le> length t div 4 * 3" using t div_le_mono [of 4 "length t" 4] by simp
  have i: "length (g @ t) - 1 = length g + (length t - 1)" "length (g @ t) - 2 = length g + (length t - 2)" using t by simp_all
  have n: "(g @ t) ! (length (g @ t) - 1) = t ! (length t - 1)" "(g @ t) ! (length (g @ t) - 2) = t ! (length t - 2)"
    unfolding i by (rule nth_append_length_plus)+
  show "base64_size (g @ t) = 3 + base64_size t"
    unfolding base64_size_def Let_def n q using l t by simp
qed

lemma size_groups: "base64_size (groups d) = length d"
proof (induction d rule: groups.induct)
  case 1
  show ?case by (simp add: base64_size_def)
next
  case (2 a)
  show ?case by (simp add: base64_size_def group1_def)
next
  case (3 a b)
  show ?case by (simp add: base64_size_def group2_def)
next
  case (4 a b c r)
  show ?case
  proof (cases "r = []")
    case True
    then show ?thesis by (simp add: base64_size_def group3_def)
  next
    case False
    then show ?thesis using size_tail [of "group3 a b c" "groups r"] 4 length_groups_ge [of r] by simp
  qed
qed

lemma length_groups: "length (groups d) = 4 * ((length d + 2) div 3)"
proof (induction d rule: groups.induct)
  case (4 a b c r)
  have l: "length (a # b # c # r) + 2 = (length r + 2) + 3" by simp
  have "(length r + 2 + 3) div 3 = Suc ((length r + 2) div 3)" by (rule div_add_self2 [of 3 "length r + 2", simplified Suc_eq_plus1 [symmetric]]) simp
  then show ?case unfolding l using 4 by (simp del: add_2_eq_Suc')
qed simp_all

lemma encode_is_groups: "base64_encode_bytes d = groups d"
  using encode_groups [of "[]" d] by (simp add: base64_encode_bytes_def)

text \<open>C28. The encoder writes exactly the characters its buffer was allocated for, less the terminator, and decoding
  what it wrote gives the bytes back with their exact length, for every byte string.\<close>

theorem base64_roundtrip:
  "length (base64_encode_bytes d) = 4 * ((length d + 2) div 3) \<and>
   base64_decode_bytes True (base64_encode_bytes d) = Decoded d (length d)"
  unfolding encode_is_groups base64_decode_bytes_def
  using decode_groups [of "[]" d "length d" "[]"] by (simp add: length_groups length_groups_mod size_groups)

section \<open>No overrun\<close>

text \<open>The buffer has room for every group before the last, and for what the padding lets the last one store.\<close>

lemma base64_size_last:
  assumes "length text = 4 * Suc k"
  shows "base64_size text = 3 * k + (if text ! (4 * k + 2) = pad then (if text ! (4 * k + 3) = pad then 1 else 2)
           else if text ! (4 * k + 3) = pad then 2 else 3)"
  using assms by (simp add: base64_size_def Let_def add.commute)

definition within :: "decoded \<Rightarrow> bool" where
  "within r = (case r of Decoded d n \<Rightarrow> length d = n | Overrun \<Rightarrow> False | _ \<Rightarrow> True)"

lemma within_simps [simp]:
  "within (Bad e)" "within (Fatal e)" "\<not> within Overrun" "within (Decoded d n) \<longleftrightarrow> length d = n"
  by (simp_all add: within_def)

lemma within_done: "length out + length bs = sz \<Longrightarrow> within (done_with sz (put_bytes sz bs out))"
  by (simp add: put_bytes_def done_with_def)

lemma decode_within:
  assumes "length text = 4 * Suc m" "k \<le> Suc m" "length out = 3 * k" "k = Suc m \<Longrightarrow> base64_size text = 3 * k"
  shows "within (base64_decode_from text (base64_size text) (4 * k) out)"
  using assms
proof (induction "Suc m - k" arbitrary: k out)
  case 0
  then have "k = Suc m" by simp
  then show ?case using 0 by (subst base64_decode_from.simps) simp
next
  case (Suc j)
  have k: "k \<le> m" using Suc(2) by simp
  have sz: "base64_size text = 3 * m + (if text ! (4 * m + 2) = pad then (if text ! (4 * m + 3) = pad then 1 else 2)
           else if text ! (4 * m + 3) = pad then 2 else 3)" by (rule base64_size_last) (rule Suc)
  have c: "cbyte text (4 * k + 2) = text ! (4 * k + 2)" "cbyte text (4 * k + 3) = text ! (4 * k + 3)"
    using k Suc(3) by (simp_all add: cbyte_def)
  have next_group: "within (base64_decode_from text (base64_size text) (4 * k + 4) (out @ [b0, b1, b2]))"
    if "cbyte text (4 * k + 2) \<noteq> pad" "cbyte text (4 * k + 3) \<noteq> pad" for b0 b1 b2
    using Suc(1) [of "Suc k" "out @ [b0, b1, b2]"] Suc(2,3,5) that k c sz by (cases "k = m") (simp_all add: algebra_simps)
  have room: "put_bytes (base64_size text) [b0, b1, b2] out = Some (out @ [b0, b1, b2])"
    if "cbyte text (4 * k + 2) \<noteq> pad" "cbyte text (4 * k + 3) \<noteq> pad" for b0 b1 b2
    unfolding put_bytes_def using that k c sz Suc(5) by (cases "k = m") simp_all
  have last1: "within (done_with (base64_size text) (put_bytes (base64_size text) [b0] out))"
    if "4 * k + 4 = length text" "cbyte text (4 * k + 2) = pad" "cbyte text (4 * k + 3) = pad" for b0
    by (rule within_done) (use that c sz Suc(3,5) in simp)
  have last2: "within (done_with (base64_size text) (put_bytes (base64_size text) [b0, b1] out))"
    if "4 * k + 4 = length text" "cbyte text (4 * k + 2) \<noteq> pad" "cbyte text (4 * k + 3) = pad" for b0 b1
    by (rule within_done) (use that c sz Suc(3,5) in simp)
  show ?case
    unfolding base64_decode_from.simps [of "text" "base64_size text" "4 * k" out] Let_def
    using last1 last2 k Suc(3) by (simp add: next_group room del: add_2_eq_Suc' push_bit_and)
qed

text \<open>C27. No text makes the decoder store outside the buffer it sized from the padding, the text's malformed padding
  included, and when it succeeds the length it reports is the number of bytes it stored, none of the buffer being
  left unwritten.\<close>

theorem base64_decode_in_bounds:
  "case base64_decode_bytes mem_ok text of Decoded d n \<Rightarrow> length d = n | Overrun \<Rightarrow> False | _ \<Rightarrow> True"
proof -
  have "within (base64_decode_bytes mem_ok text)"
  proof (cases "length text mod 4 = 0 \<and> text \<noteq> []")
    case True
    then obtain n where "length text = 4 * n" by (metis mod_eq_0_iff_dvd dvdE)
    with True obtain m where m: "length text = 4 * Suc m" by (cases n) simp_all
    show ?thesis using decode_within [OF m, of 0 "[]"] by (simp add: base64_decode_bytes_def)
  next
    case False
    then show ?thesis by (cases "text = []") (simp_all add: base64_decode_bytes_def base64_size_def base64_decode_from.simps [of "[]"])
  qed
  then show ?thesis by (simp add: within_def)
qed

end
