(* ===== verification/Heap_Word.thy ===== *)
theory Heap_Word
  imports Runtime_Words
begin

unbundle bit_operations_syntax

text \<open>
  The 64-bit header in front of every heap payload (\<^verbatim>\<open>sprout_word.h\<close> and the header section of
  \<^verbatim>\<open>sprout_runtime.c\<close>): kind in bits 0..7, mark colour in bit 8, a saturating age in bits 9..12, the
  REMEMBERED flag of the write barrier in bit 13 and a 50-bit \<open>aux\<close> field above. \<open>aux\<close> packs a
  constructor's tag and arity, a closure's capture count and arity, a vector's inline element count
  and NOSCAN flag, or a byte length. Every function below works on the raw word, as the C code does.
\<close>

named_theorems hdr_simps \<open>reading a header field back\<close>

datatype heap_kind =
    HEAP_FREE | HEAP_OBJ | HEAP_CLOSURE | HEAP_VECTOR | HEAP_MAP | HEAP_BYTES | HEAP_BUILDER
  | HEAP_TUPLE | HEAP_REF | HEAP_CSTR | HEAP_POISON | HEAP_UNKNOWN

fun kind_code :: "heap_kind \<Rightarrow> 64 word" where
  "kind_code HEAP_FREE = 0"
| "kind_code HEAP_OBJ = 1"
| "kind_code HEAP_CLOSURE = 2"
| "kind_code HEAP_VECTOR = 3"
| "kind_code HEAP_MAP = 4"
| "kind_code HEAP_BYTES = 5"
| "kind_code HEAP_BUILDER = 6"
| "kind_code HEAP_TUPLE = 7"
| "kind_code HEAP_REF = 9"
| "kind_code HEAP_CSTR = 10"
| "kind_code HEAP_POISON = 0xFF"
| "kind_code HEAP_UNKNOWN = 8"

definition sprout_hdr_kind :: "64 word \<Rightarrow> heap_kind" where
  "sprout_hdr_kind h =
     (let k = h AND 0xFF in
      if k = 0 then HEAP_FREE else if k = 1 then HEAP_OBJ else if k = 2 then HEAP_CLOSURE
      else if k = 3 then HEAP_VECTOR else if k = 4 then HEAP_MAP else if k = 5 then HEAP_BYTES
      else if k = 6 then HEAP_BUILDER else if k = 7 then HEAP_TUPLE else if k = 9 then HEAP_REF
      else if k = 10 then HEAP_CSTR else if k = 0xFF then HEAP_POISON else HEAP_UNKNOWN)"

definition sprout_slot_kind_known :: "heap_kind \<Rightarrow> bool" where
  "sprout_slot_kind_known kind \<longleftrightarrow> kind \<noteq> HEAP_UNKNOWN"

definition sprout_hdr_make :: "heap_kind \<Rightarrow> 64 word \<Rightarrow> 64 word" where
  "sprout_hdr_make kind aux = (kind_code kind AND 0xFF) OR push_bit 14 aux"

definition sprout_hdr_aux :: "64 word \<Rightarrow> 64 word" where
  "sprout_hdr_aux h = drop_bit 14 h"

section \<open>Packings of the aux field\<close>

definition sprout_closure_aux :: "64 word \<Rightarrow> 64 word \<Rightarrow> 64 word" where
  "sprout_closure_aux n_caps arity = (n_caps AND 0xFFFFFFFF) OR push_bit 32 (arity AND 0x3FFFF)"

definition sprout_closure_ncaps :: "64 word \<Rightarrow> 64 word" where
  "sprout_closure_ncaps aux = aux AND 0xFFFFFFFF"

definition sprout_closure_arity_of :: "64 word \<Rightarrow> 64 word" where
  "sprout_closure_arity_of aux = drop_bit 32 aux AND 0x3FFFF"

text \<open>The header \<^verbatim>\<open>sprout_obj_write_tag\<close> stores, with HDRCHECK's range test as an error, and the tag
  \<^verbatim>\<open>sprout_tag\<close> reads from the header behind a handle it found not to be null.\<close>

definition sprout_obj_write_tag :: "bool \<Rightarrow> 64 word \<Rightarrow> int \<Rightarrow> (64 word) res" where
  "sprout_obj_write_tag hdrcheck tag arity =
     (if hdrcheck \<and> (arity < 0 \<or> arity > 255)
      then Inl (SproutFail ''sprout_obj_write_tag: arity out of range'')
      else Inr (sprout_hdr_make HEAP_OBJ (push_bit 8 tag OR (word_of_int (arity mod 2 ^ 32) AND 0xFF))))"

definition sprout_tag :: "bool \<Rightarrow> 64 word \<Rightarrow> (64 word) res" where
  "sprout_tag lineage hdr =
     (if sprout_hdr_kind hdr = HEAP_POISON \<and> lineage
      then Inl (SproutFail ''USE-AFTER-FREE: sprout_tag read poisoned ptr'')
      else Inr (drop_bit 8 (sprout_hdr_aux hdr)))"

definition obj_arity :: "64 word \<Rightarrow> 64 word" where
  "obj_arity hdr = sprout_hdr_aux hdr AND 0xFF"

definition sprout_vec_is_noscan :: "64 word \<Rightarrow> bool" where
  "sprout_vec_is_noscan hdr \<longleftrightarrow> hdr AND push_bit 63 1 \<noteq> 0"

definition sprout_vec_set_noscan :: "64 word \<Rightarrow> 64 word" where
  "sprout_vec_set_noscan hdr = hdr OR push_bit 63 1"

definition vec_inline_count :: "64 word \<Rightarrow> 64 word" where
  "vec_inline_count aux = aux AND (push_bit 49 1 - 1)"

section \<open>Collector bits\<close>

definition gc_color_bit :: "64 word" where "gc_color_bit = 0x100"
definition gc_remembered_bit :: "64 word" where "gc_remembered_bit = push_bit 13 1"
definition gc_age_mask :: "64 word" where "gc_age_mask = push_bit 9 15"

definition sprout_hdr_age :: "64 word \<Rightarrow> 64 word" where
  "sprout_hdr_age h = drop_bit 9 (h AND gc_age_mask)"

definition sprout_hdr_age_bump :: "64 word \<Rightarrow> 64 word" where
  "sprout_hdr_age_bump h =
     (let age = sprout_hdr_age h in
      if age \<ge> 15 then h else (h AND NOT gc_age_mask) OR push_bit 9 (age + 1))"

definition hdr_color :: "64 word \<Rightarrow> bool" where
  "hdr_color h \<longleftrightarrow> h AND gc_color_bit \<noteq> 0"

definition hdr_remembered :: "64 word \<Rightarrow> bool" where
  "hdr_remembered h \<longleftrightarrow> h AND gc_remembered_bit \<noteq> 0"

section \<open>Slot sizes\<close>

definition round16 :: "64 word \<Rightarrow> 64 word" where
  "round16 n = (n + 15) AND NOT 15"

definition sprout_obj_alloc_arity :: "bool \<Rightarrow> 64 word \<Rightarrow> 64 word" where
  "sprout_obj_alloc_arity lineage arity = (if lineage \<and> arity < 2 then 2 else arity)"

definition slot_payload_bytes :: "bool \<Rightarrow> heap_kind \<Rightarrow> 64 word \<Rightarrow> 64 word" where
  "slot_payload_bytes lineage kind aux =
     (case kind of
        HEAP_OBJ \<Rightarrow> sprout_obj_alloc_arity lineage (aux AND 0xFF) * 8
      | HEAP_CLOSURE \<Rightarrow> (sprout_closure_ncaps aux + 1) * 8
      | HEAP_VECTOR \<Rightarrow> 24 + vec_inline_count aux * 8
      | HEAP_MAP \<Rightarrow> 40
      | HEAP_BYTES \<Rightarrow> 16
      | HEAP_BUILDER \<Rightarrow> 24
      | HEAP_TUPLE \<Rightarrow> aux * 8
      | HEAP_REF \<Rightarrow> 8
      | HEAP_CSTR \<Rightarrow> aux + 1
      | _ \<Rightarrow> 8)"

definition slot_bytes :: "bool \<Rightarrow> heap_kind \<Rightarrow> 64 word \<Rightarrow> 64 word" where
  "slot_bytes lineage kind aux =
     (let payload = slot_payload_bytes lineage kind aux
      in round16 (8 + (if payload < 8 then 8 else payload)))"

definition sprout_slot_step :: "bool \<Rightarrow> 64 word \<Rightarrow> 64 word" where
  "sprout_slot_step lineage h =
     (if sprout_hdr_kind h = HEAP_FREE \<or> sprout_hdr_kind h = HEAP_POISON
      then (let ssize = drop_bit 14 h in if ssize < 16 then 16 else ssize)
      else slot_bytes lineage (sprout_hdr_kind h) (drop_bit 14 h))"

text \<open>The slot \<^verbatim>\<open>sprout_gc_alloc_block\<close> reserves for a payload of that many bytes.\<close>

definition alloc_slot :: "64 word \<Rightarrow> 64 word" where
  "alloc_slot payload_bytes = round16 (8 + payload_bytes)"

definition sprout_slot_is_large :: "64 word \<Rightarrow> bool" where
  "sprout_slot_is_large n \<longleftrightarrow> n > 4096"

definition sprout_closure_arity_check :: "64 word \<Rightarrow> int \<Rightarrow> unit res" where
  "sprout_closure_arity_check hdr n_args =
     (let arity = sprout_closure_arity_of (sprout_hdr_aux hdr) in
      if arity = 0x3FFFF then Inr ()
      else if sint arity = n_args then Inr ()
      else Inl (SproutFail ''this function value expects another number of arguments''))"

section \<open>Allocation sites\<close>

text \<open>
  What each allocating function asks of \<^verbatim>\<open>sprout_gc_alloc_block\<close>: the kind and \<open>aux\<close> of the header and
  the payload size in bytes. The sweep later sees only the header.
\<close>

type_synonym alloc_request = "heap_kind \<times> 64 word \<times> 64 word"

definition sprout_alloc_obj_raw :: "bool \<Rightarrow> 64 word \<Rightarrow> alloc_request" where
  "sprout_alloc_obj_raw lineage arity = (HEAP_OBJ, arity, sprout_obj_alloc_arity lineage arity * 8)"

text \<open>
  A constructor object gets its final header from \<^verbatim>\<open>sprout_obj_write_tag\<close>, over the one the allocator
  wrote. The functions that make one return its handle, the request with the header left in memory if they
  allocated (at the address \<open>obj\<close>, the allocator's answer), and the table of constructors: a nullary
  constructor is allocated once and kept in its entry.
\<close>

record ctor_meta =
  cm_arity :: int
  cm_singleton :: "64 word"

type_synonym ctor_table = "64 word \<Rightarrow> ctor_meta option"
type_synonym obj_result = "64 word \<times> (alloc_request \<times> 64 word) option \<times> ctor_table"

definition obj_tagged :: "bool \<Rightarrow> bool \<Rightarrow> 64 word \<Rightarrow> 64 word \<Rightarrow> int \<Rightarrow> ctor_table \<Rightarrow> obj_result res" where
  "obj_tagged lineage hdrcheck obj tag arity ctors =
     res_map (\<lambda>h. (obj, Some (sprout_alloc_obj_raw lineage (word_of_int arity), h), ctors))
       (sprout_obj_write_tag hdrcheck tag arity)"

definition get_or_make_singleton :: "bool \<Rightarrow> bool \<Rightarrow> 64 word \<Rightarrow> ctor_meta \<Rightarrow> 64 word \<Rightarrow> ctor_table \<Rightarrow> obj_result res" where
  "get_or_make_singleton lineage hdrcheck obj meta tag ctors =
     (if cm_singleton meta = 0
      then obj_tagged lineage hdrcheck obj tag 0 (ctors(tag \<mapsto> meta\<lparr>cm_singleton := obj\<rparr>))
      else Inr (cm_singleton meta, None, ctors))"

definition sprout_make0 :: "bool \<Rightarrow> bool \<Rightarrow> 64 word \<Rightarrow> 64 word \<Rightarrow> ctor_table \<Rightarrow> obj_result res" where
  "sprout_make0 lineage hdrcheck obj tag ctors =
     (case ctors tag of
        Some meta \<Rightarrow> if cm_arity meta = 0 then get_or_make_singleton lineage hdrcheck obj meta tag ctors
                      else obj_tagged lineage hdrcheck obj tag 0 ctors
      | None \<Rightarrow> obj_tagged lineage hdrcheck obj tag 0 ctors)"

definition sprout_alloc_obj :: "bool \<Rightarrow> bool \<Rightarrow> 64 word \<Rightarrow> 64 word \<Rightarrow> int \<Rightarrow> ctor_table \<Rightarrow> obj_result res" where
  "sprout_alloc_obj lineage hdrcheck obj tag nfields ctors =
     (if nfields < 0 \<or> nfields > 255 then Inl (SproutFail ''sprout_alloc_obj: arity out of range'')
      else if nfields = 0 then sprout_make0 lineage hdrcheck obj tag ctors
      else obj_tagged lineage hdrcheck obj tag nfields ctors)"

definition sprout_alloc_closure :: "64 word \<Rightarrow> 64 word \<Rightarrow> alloc_request res" where
  "sprout_alloc_closure sz arity =
     (if sint sz < 0 then Inl (SproutFail ''sprout_alloc_closure: size must be >= 0'')
      else if sint arity < 0 then Inl (SproutFail ''sprout_alloc_closure: arity must be >= 0'')
      else if arity > 0x3FFFF
      then Inl (SproutFail ''sprout_alloc_closure: arity exceeds the header's arity field'')
      else let slots = (if sz = 0 then 0 else sz div 8 - 1)
           in Inr (HEAP_CLOSURE, sprout_closure_aux slots arity, sz))"

definition sprout_alloc_tuple_blob :: "64 word \<Rightarrow> alloc_request res" where
  "sprout_alloc_tuple_blob size_bytes =
     (if sint size_bytes < 0 then Inl (SproutFail ''sprout_alloc_tuple_blob: size must be >= 0'')
      else Inr (HEAP_TUPLE, size_bytes div 8, size_bytes))"

definition sprout_str_alloc :: "64 word \<Rightarrow> alloc_request" where
  "sprout_str_alloc len = (HEAP_CSTR, len, len + 1)"

definition vec_inline_max :: "64 word" where
  "vec_inline_max = (4096 - 8 - 24) div 8"

definition sprout_alloc_vector_sized :: "64 word \<Rightarrow> alloc_request" where
  "sprout_alloc_vector_sized count =
     (let inline_count = (if count \<le> vec_inline_max then count else 0)
      in (HEAP_VECTOR, inline_count, 24 + inline_count * 8))"

definition sprout_alloc_bst_node :: alloc_request where
  "sprout_alloc_bst_node = (HEAP_MAP, 0, 40)"

definition sprout_alloc_bytes_val :: alloc_request where
  "sprout_alloc_bytes_val = (HEAP_BYTES, 0, 16)"

definition sprout_alloc_builder_val :: alloc_request where
  "sprout_alloc_builder_val = (HEAP_BUILDER, 0, 24)"

definition ref_new :: alloc_request where
  "ref_new = (HEAP_REF, 0, 8)"

section \<open>Bits of a header\<close>

lemma mask_numerals:
  "(0xFF :: 64 word) = mask 8" "(0xFFFFFFFF :: 64 word) = mask 32" "(0x3FFFF :: 64 word) = mask 18"
  "(15 :: 64 word) = mask 4" "(0x100 :: 64 word) = push_bit 8 1"
  by (simp_all add: mask_eq_exp_minus_1)

lemma and_mask_numerals:
  fixes w :: "64 word"
  shows "w AND 0xFF = take_bit 8 w" "w AND 0xFFFFFFFF = take_bit 32 w" "w AND 0x3FFFF = take_bit 18 w"
  unfolding mask_numerals by (simp_all only: take_bit_eq_mask)

lemma vec_inline_count_take: "vec_inline_count aux = take_bit 49 aux"
proof -
  have "push_bit 49 1 - 1 = (mask 49 :: 64 word)" by (simp add: mask_eq_exp_minus_1 push_bit_eq_mult)
  then show ?thesis by (simp only: vec_inline_count_def take_bit_eq_mask)
qed

lemma and_single_bit: "(w AND push_bit n 1 \<noteq> 0) \<longleftrightarrow> bit w n" if "n < 64" for w :: "64 word"
proof -
  have "w AND push_bit n 1 = (if bit w n then push_bit n 1 else 0)"
    using that by (intro bit_eqI) (auto simp: bit_simps simp del: push_bit_of_1)
  moreover have "push_bit n 1 \<noteq> (0 :: 64 word)" using that by (simp add: push_bit_eq_0_iff)
  ultimately show ?thesis by simp
qed

lemma hdr_flag_bits [hdr_simps]:
  "hdr_color h \<longleftrightarrow> bit h 8"
  "hdr_remembered h \<longleftrightarrow> bit h 13"
  "sprout_vec_is_noscan h \<longleftrightarrow> bit h 63"
  unfolding hdr_color_def gc_color_bit_def mask_numerals(5) hdr_remembered_def gc_remembered_bit_def
    sprout_vec_is_noscan_def
  by (simp_all only: and_single_bit)

lemma hdr_age_bits: "sprout_hdr_age h = take_bit 4 (drop_bit 9 h)"
  unfolding sprout_hdr_age_def gc_age_mask_def mask_numerals(4)
  by (rule bit_eqI) (auto simp: bit_simps)

lemma sprout_hdr_kind_cong: "take_bit 8 h = take_bit 8 h' \<Longrightarrow> sprout_hdr_kind h = sprout_hdr_kind h'"
  by (simp only: sprout_hdr_kind_def and_mask_numerals)

lemma kind_code_take: "take_bit 8 (kind_code k) = kind_code k"
  unfolding and_mask_numerals(1) [symmetric] by (cases k) simp_all

lemma kind_of_kind_code: "sprout_hdr_kind (kind_code k) = k"
  by (cases k) (simp_all add: sprout_hdr_kind_def)

lemma hdr_make_bits: "bit (sprout_hdr_make k aux) n \<longleftrightarrow>
   (n < 8 \<and> bit (kind_code k) n) \<or> (14 \<le> n \<and> n < 64 \<and> bit aux (n - 14))"
  unfolding sprout_hdr_make_def and_mask_numerals by (auto simp: bit_simps)

lemma hdr_make_kind [hdr_simps]: "sprout_hdr_kind (sprout_hdr_make k aux) = k"
proof -
  have "take_bit 8 (sprout_hdr_make k aux) = take_bit 8 (kind_code k)"
    by (rule bit_eqI) (auto simp: bit_simps hdr_make_bits)
  from sprout_hdr_kind_cong [OF this] show ?thesis by (simp only: kind_of_kind_code)
qed

lemma hdr_make_aux [hdr_simps]: "sprout_hdr_aux (sprout_hdr_make k aux) = take_bit 50 aux"
  unfolding sprout_hdr_aux_def by (rule bit_eqI) (auto simp: bit_simps hdr_make_bits)

lemma hdr_make_flags [hdr_simps]:
  "\<not> hdr_color (sprout_hdr_make k aux)" "\<not> hdr_remembered (sprout_hdr_make k aux)"
  "sprout_hdr_age (sprout_hdr_make k aux) = 0"
proof -
  show "\<not> hdr_color (sprout_hdr_make k aux)" "\<not> hdr_remembered (sprout_hdr_make k aux)"
    by (simp_all add: hdr_flag_bits hdr_make_bits)
  show "sprout_hdr_age (sprout_hdr_make k aux) = 0"
    unfolding hdr_age_bits by (rule bit_eqI) (auto simp: bit_simps hdr_make_bits)
qed

lemma closure_aux_fields [hdr_simps]:
  "sprout_closure_ncaps (sprout_closure_aux n a) = take_bit 32 n"
  "sprout_closure_arity_of (sprout_closure_aux n a) = take_bit 18 a"
  "take_bit 50 (sprout_closure_aux n a) = sprout_closure_aux n a"
  unfolding sprout_closure_aux_def sprout_closure_ncaps_def sprout_closure_arity_of_def and_mask_numerals
  by (rule bit_eqI, auto simp: bit_simps)+

text \<open>Collector writes: the bits they change and the fields they leave alone.\<close>

definition same_identity :: "64 word \<Rightarrow> 64 word \<Rightarrow> bool" where
  "same_identity h h' \<longleftrightarrow> sprout_hdr_kind h' = sprout_hdr_kind h \<and> sprout_hdr_aux h' = sprout_hdr_aux h"

lemma same_identityI:
  "(\<And>n. n < 8 \<or> 14 \<le> n \<Longrightarrow> bit h' n = bit h n) \<Longrightarrow> same_identity h h'"
  unfolding same_identity_def sprout_hdr_aux_def
  by (intro conjI sprout_hdr_kind_cong bit_eqI) (auto simp: bit_simps)

lemma same_identity_refl [simp]: "same_identity h h"
  by (simp add: same_identity_def)

lemma same_identity_trans [trans]: "same_identity a b \<Longrightarrow> same_identity b c \<Longrightarrow> same_identity a c"
  by (simp add: same_identity_def)

lemma gc_mask_bits:
  "bit gc_color_bit n \<longleftrightarrow> n = 8" "bit gc_remembered_bit n \<longleftrightarrow> n = 13" "bit gc_age_mask n \<longleftrightarrow> 9 \<le> n \<and> n < 13"
  unfolding gc_color_bit_def mask_numerals gc_remembered_bit_def gc_age_mask_def
  by (auto simp: bit_simps simp del: push_bit_of_1)

lemma not_mask_bits:
  "bit (h AND NOT gc_color_bit) n \<longleftrightarrow> bit h n \<and> n \<noteq> 8"
  "bit (h AND NOT gc_remembered_bit) n \<longleftrightarrow> bit h n \<and> n \<noteq> 13"
  "bit (h AND NOT gc_age_mask) n \<longleftrightarrow> bit h n \<and> \<not> (9 \<le> n \<and> n < 13)"
  by (auto simp: bit_simps gc_mask_bits dest: bit_imp_le_length)

lemmas gc_bits = gc_mask_bits not_mask_bits bit_or_iff

lemma hdr_age_eqI: "(\<And>n. 9 \<le> n \<Longrightarrow> n < 13 \<Longrightarrow> bit h n = bit h' n) \<Longrightarrow> sprout_hdr_age h = sprout_hdr_age h'"
  unfolding hdr_age_bits by (rule bit_eqI) (auto simp: bit_simps)

lemma set_color [hdr_simps]:
  "same_identity h (h OR gc_color_bit)" "hdr_color (h OR gc_color_bit)"
  "hdr_remembered (h OR gc_color_bit) = hdr_remembered h"
  "sprout_hdr_age (h OR gc_color_bit) = sprout_hdr_age h"
  by (auto simp: hdr_flag_bits gc_bits intro!: same_identityI hdr_age_eqI)

lemma clear_color [hdr_simps]:
  "same_identity h (h AND NOT gc_color_bit)" "\<not> hdr_color (h AND NOT gc_color_bit)"
  "hdr_remembered (h AND NOT gc_color_bit) = hdr_remembered h"
  "sprout_hdr_age (h AND NOT gc_color_bit) = sprout_hdr_age h"
  by (auto simp: hdr_flag_bits gc_bits intro!: same_identityI hdr_age_eqI)

lemma set_remembered [hdr_simps]:
  "same_identity h (h OR gc_remembered_bit)" "hdr_remembered (h OR gc_remembered_bit)"
  "hdr_color (h OR gc_remembered_bit) = hdr_color h"
  "sprout_hdr_age (h OR gc_remembered_bit) = sprout_hdr_age h"
  by (auto simp: hdr_flag_bits gc_bits intro!: same_identityI hdr_age_eqI)

lemma clear_remembered [hdr_simps]:
  "same_identity h (h AND NOT gc_remembered_bit)" "\<not> hdr_remembered (h AND NOT gc_remembered_bit)"
  "hdr_color (h AND NOT gc_remembered_bit) = hdr_color h"
  "sprout_hdr_age (h AND NOT gc_remembered_bit) = sprout_hdr_age h"
  by (auto simp: hdr_flag_bits gc_bits intro!: same_identityI hdr_age_eqI)

lemma age_less_16: "unat (sprout_hdr_age h) < 16"
  using take_bit_nat_less_exp [of 4 "unat (drop_bit 9 h)"]
  by (simp only: hdr_age_bits unsigned_take_bit_eq) simp

lemma take_bit_small: "unat w < 2 ^ n \<Longrightarrow> take_bit n w = w" for w :: "64 word"
  by (metis take_bit_nat_eq_self unsigned_take_bit_eq word_unat_eq_iff)

lemma age_bump_age [hdr_simps]:
  "unat (sprout_hdr_age (sprout_hdr_age_bump h)) = min 15 (unat (sprout_hdr_age h) + 1)"
proof (cases "15 \<le> sprout_hdr_age h")
  case True
  with age_less_16 [of h] show ?thesis
    by (simp add: sprout_hdr_age_bump_def Let_def word_le_nat_alt)
next
  case False
  let ?a = "sprout_hdr_age h + 1"
  from False have a: "unat ?a = unat (sprout_hdr_age h) + 1" "unat ?a < 2 ^ 4"
    by (simp_all add: word_le_nat_alt unat_word_ariths)
  from False have "sprout_hdr_age_bump h = (h AND NOT gc_age_mask) OR push_bit 9 ?a"
    by (simp add: sprout_hdr_age_bump_def Let_def)
  moreover have "take_bit 4 (drop_bit 9 ((h AND NOT gc_age_mask) OR push_bit 9 ?a)) = take_bit 4 ?a"
    by (rule bit_eqI) (simp only: bit_take_bit_iff bit_drop_bit_eq comp_def gc_bits bit_push_bit_iff, auto)
  ultimately have "sprout_hdr_age (sprout_hdr_age_bump h) = ?a"
    using take_bit_small [OF a(2)] hdr_age_bits [of "sprout_hdr_age_bump h"] by simp
  with a show ?thesis by simp
qed

lemma age_bump_keeps [hdr_simps]:
  "same_identity h (sprout_hdr_age_bump h)"
  "hdr_color (sprout_hdr_age_bump h) = hdr_color h"
  "hdr_remembered (sprout_hdr_age_bump h) = hdr_remembered h"
proof -
  have b: "bit (sprout_hdr_age_bump h) n = bit h n" if "n < 9 \<or> 13 \<le> n" for n
  proof (cases "15 \<le> sprout_hdr_age h")
    case True
    then show ?thesis by (simp add: sprout_hdr_age_bump_def Let_def)
  next
    case False
    let ?a = "sprout_hdr_age h + 1"
    from False have "unat ?a < 2 ^ 4" by (simp add: word_le_nat_alt unat_word_ariths)
    then have small: "bit ?a k \<Longrightarrow> k < 4" for k by (metis bit_take_bit_iff take_bit_small)
    have "\<not> bit (push_bit 9 ?a) n"
    proof
      assume "bit (push_bit 9 ?a) n"
      then have "9 \<le> n" "bit ?a (n - 9)" by (simp_all add: bit_push_bit_iff)
      with small [of "n - 9"] that show False by linarith
    qed
    with False that show ?thesis
      by (auto simp: sprout_hdr_age_bump_def Let_def gc_bits)
  qed
  show "same_identity h (sprout_hdr_age_bump h)" by (rule same_identityI) (rule b, linarith)
  show "hdr_color (sprout_hdr_age_bump h) = hdr_color h" "hdr_remembered (sprout_hdr_age_bump h) = hdr_remembered h"
    by (simp_all add: hdr_flag_bits b)
qed

section \<open>Slot sizes as numbers\<close>

lemma unat_round16: "unat n + 15 < 2 ^ 64 \<Longrightarrow> unat (round16 n) = (unat n + 15) div 16 * 16"
proof -
  assume n: "unat n + 15 < 2 ^ 64"
  have "(n + 15) AND NOT 15 = push_bit 4 (drop_bit 4 (n + 15))"
    unfolding mask_numerals(4) by (rule bit_eqI) (auto simp: bit_simps dest: bit_imp_le_length)
  moreover have "unat (n + 15) = unat n + 15" using n by (simp add: unat_word_ariths)
  moreover have "(unat n + 15) div 16 * 16 < 2 ^ 64" using n by (meson div_times_less_eq_dividend le_less_trans)
  ultimately show ?thesis
    by (simp add: round16_def push_bit_eq_mult unat_word_ariths(2) unat_drop)
qed

lemma unat_take_less: "n < 64 \<Longrightarrow> unat (take_bit n w) < 2 ^ n" for w :: "64 word"
  using take_bit_nat_less_exp [of n "unat w"] by (simp only: unsigned_take_bit_eq)

lemma slot_payload_bound: "unat aux < 2 ^ 50 \<Longrightarrow> unat (slot_payload_bytes lineage kind aux) < 2 ^ 60"
proof -
  assume a: "unat aux < 2 ^ 50"
  have m: "unat (w * 8) = unat w * 8" "unat (24 + w * 8) = 24 + unat w * 8" "unat (w + 1) = unat w + 1"
    "unat ((w + 1) * 8) = (unat w + 1) * 8"
    if "unat w < 2 ^ 50" for w :: "64 word"
    using that by (simp_all add: unat_word_ariths)
  have t: "unat (take_bit 8 aux) < 2 ^ 8" "unat (take_bit 32 aux) < 2 ^ 32" "unat (take_bit 49 aux) < 2 ^ 49"
    by (simp_all only: unat_take_less)
  show ?thesis
    using a t m [of aux] m [of "take_bit 8 aux"] m [of "take_bit 32 aux"] m [of "take_bit 49 aux"]
    by (cases kind) (simp_all add: slot_payload_bytes_def sprout_obj_alloc_arity_def
        sprout_closure_ncaps_def and_mask_numerals vec_inline_count_take)
qed

text \<open>A slot is at least 16 bytes, a multiple of 16, and has room for the header and the payload.\<close>

lemma unat_alloc_slot: "unat n < 2 ^ 61 \<Longrightarrow> unat (alloc_slot n) = (unat n + 23) div 16 * 16"
proof -
  assume n: "unat n < 2 ^ 61"
  then have "unat (8 + n) = 8 + unat n" by (simp add: unat_word_ariths(1))
  with n unat_round16 [of "8 + n"] show ?thesis by (simp add: alloc_slot_def)
qed

lemma unat_slot_bytes:
  assumes "unat aux < 2 ^ 50"
  shows "unat (slot_bytes lineage kind aux) = (max 8 (unat (slot_payload_bytes lineage kind aux)) + 23) div 16 * 16"
proof -
  let ?p = "slot_payload_bytes lineage kind aux"
  let ?q = "if ?p < 8 then 8 else ?p"
  have q: "unat ?q = max 8 (unat ?p)" by (simp add: word_less_nat_alt)
  moreover from this have "unat ?q < 2 ^ 61" using slot_payload_bound [OF assms, of lineage kind] by simp
  then have "unat (alloc_slot ?q) = (unat ?q + 23) div 16 * 16" by (rule unat_alloc_slot)
  moreover have "slot_bytes lineage kind aux = alloc_slot ?q" by (simp only: slot_bytes_def alloc_slot_def Let_def)
  ultimately show ?thesis by (simp only:)
qed

lemma unat_div: "unat (a div b) = unat a div unat b" for a b :: "64 word"
  by (simp add: unat_div_distrib)

lemma slot_step_make:
  "k \<noteq> HEAP_FREE \<Longrightarrow> k \<noteq> HEAP_POISON \<Longrightarrow> unat aux < 2 ^ 50 \<Longrightarrow>
   sprout_slot_step lineage (sprout_hdr_make k aux) = slot_bytes lineage k aux"
  by (simp add: sprout_slot_step_def hdr_simps flip: sprout_hdr_aux_def) (simp add: take_bit_small)

text \<open>The sweep's step over a header agrees with the size reserved for it.\<close>

lemma slot_step_eq_alloc:
  assumes "k \<noteq> HEAP_FREE" "k \<noteq> HEAP_POISON" "unat aux < 2 ^ 50"
    and "max 8 (unat (slot_payload_bytes lineage k aux)) = max 8 (unat bytes)" "unat bytes < 2 ^ 60"
  shows "sprout_slot_step lineage (sprout_hdr_make k aux) = alloc_slot bytes"
proof -
  have r: "(max 8 b + 23) div 16 * 16 = (b + 23) div 16 * 16" for b :: nat
  proof (cases "8 \<le> b")
    case False
    then have "(b + 23) div 16 = 1" by linarith
    with False show ?thesis by simp
  qed simp
  from assms(5) have "unat bytes < 2 ^ 61" by simp
  then have "unat (slot_bytes lineage k aux) = unat (alloc_slot bytes)"
    by (simp only: unat_slot_bytes [OF assms(3)] assms(4) unat_alloc_slot r)
  then have "slot_bytes lineage k aux = alloc_slot bytes" by (rule unsigned_word_eqI)
  then show ?thesis by (simp only: slot_step_make [OF assms(1-3)])
qed

lemma vec_max: "vec_inline_max = 508"
  by (simp add: vec_inline_max_def)

lemma str_site: "unat len < 2 ^ 50 \<Longrightarrow> sprout_str_alloc len = (k, a, b) \<Longrightarrow>
    sprout_slot_step lineage (sprout_hdr_make k a) = alloc_slot b"
  by (rule slot_step_eq_alloc) (auto simp: sprout_str_alloc_def slot_payload_bytes_def unat_word_ariths)

lemma vector_site: "sprout_alloc_vector_sized len = (k, a, b) \<Longrightarrow>
    sprout_slot_step lineage (sprout_hdr_make k a) = alloc_slot b"
proof -
  assume "sprout_alloc_vector_sized len = (k, a, b)"
  then have e: "k = HEAP_VECTOR" "b = 24 + a * 8" and a: "unat a \<le> 508"
    by (auto simp: sprout_alloc_vector_sized_def Let_def vec_max word_le_nat_alt split: if_splits)
  then have b: "unat b = 24 + unat a * 8" by (simp add: unat_word_ariths)
  from a have t: "vec_inline_count a = a" by (simp add: vec_inline_count_take take_bit_small)
  show ?thesis using a b t e
    by (intro slot_step_eq_alloc) (simp_all add: slot_payload_bytes_def)
qed

lemma fixed_sites: "(k, a, b) \<in> {sprout_alloc_bst_node, sprout_alloc_bytes_val, sprout_alloc_builder_val, ref_new} \<Longrightarrow>
    sprout_slot_step lineage (sprout_hdr_make k a) = alloc_slot b"
  by (rule slot_step_eq_alloc)
    (auto simp: sprout_alloc_bst_node_def sprout_alloc_bytes_val_def sprout_alloc_builder_val_def ref_new_def
      slot_payload_bytes_def)

text \<open>The header of a constructor object, whatever its tag: the arity is in the low byte of the aux field.\<close>

lemma hdr_make_take: "sprout_hdr_make k (take_bit 50 aux) = sprout_hdr_make k aux"
  by (rule bit_eqI) (auto simp: hdr_make_bits bit_take_bit_iff)

lemma obj_hdr_arity:
  assumes "sprout_obj_write_tag hdrcheck tag arity = Inr h" "0 \<le> arity" "arity \<le> 255"
  shows "h = sprout_hdr_make HEAP_OBJ (push_bit 8 tag OR take_bit 8 (word_of_int arity))"
    "take_bit 8 (word_of_int arity :: 64 word) = word_of_int arity" "unat (word_of_int arity :: 64 word) = nat arity"
proof -
  from assms have m: "arity mod 2 ^ 32 = arity" by simp
  show a: "unat (word_of_int arity :: 64 word) = nat arity"
    using assms(2,3) by (simp add: unsigned_of_int take_bit_int_eq_self flip: nat_uint_eq)
  then show "take_bit 8 (word_of_int arity :: 64 word) = word_of_int arity" using assms(3) by (intro take_bit_small) simp
  show "h = sprout_hdr_make HEAP_OBJ (push_bit 8 tag OR take_bit 8 (word_of_int arity))"
    using assms(1) unfolding sprout_obj_write_tag_def m and_mask_numerals by (auto split: if_splits)
qed

lemma obj_tagged_site:
  assumes "sprout_obj_write_tag hdrcheck tag n = Inr h" "0 \<le> n" "n \<le> 255"
    and "sprout_alloc_obj_raw lineage (word_of_int n) = (k, a, b)"
  shows "sprout_slot_step lineage h = alloc_slot b"
proof -
  define x where "x = (take_bit 50 (push_bit 8 tag OR take_bit 8 (word_of_int n)) :: 64 word)"
  note o = obj_hdr_arity [OF assms(1-3)]
  have "unat x < 2 ^ 50" unfolding x_def by (rule unat_take_less) simp
  moreover have "x AND 0xFF = word_of_int n" unfolding and_mask_numerals x_def
    by (subst o(2) [symmetric], rule bit_eqI) (auto simp: bit_simps)
  ultimately have x: "unat x < 2 ^ 50" "x AND 0xFF = word_of_int n" by blast+
  have b: "b = sprout_obj_alloc_arity lineage (word_of_int n) * 8" using assms(4) by (auto simp: sprout_alloc_obj_raw_def)
  have "unat b < 2 ^ 12" using o(3) assms(3) unfolding b by (auto simp: sprout_obj_alloc_arity_def unat_word_ariths)
  then have "sprout_slot_step lineage (sprout_hdr_make HEAP_OBJ x) = alloc_slot b"
    using x by (intro slot_step_eq_alloc) (simp_all add: slot_payload_bytes_def b)
  then show ?thesis by (simp only: x_def hdr_make_take o(1))
qed

lemma obj_taggedD:
  assumes "obj_tagged lineage hdrcheck obj tag n ctors = Inr (p, Some (r, h), ctors')"
  shows "sprout_obj_write_tag hdrcheck tag n = Inr h" "sprout_alloc_obj_raw lineage (word_of_int n) = r"
  using assms by (cases "sprout_obj_write_tag hdrcheck tag n"; simp add: obj_tagged_def)+

lemma obj_site:
  assumes "sprout_alloc_obj lineage hdrcheck obj tag n ctors = Inr (p, Some ((k, a, b), h), ctors')"
  shows "sprout_slot_step lineage h = alloc_slot b"
proof -
  obtain m c where t: "obj_tagged lineage hdrcheck obj tag m c = Inr (p, Some ((k, a, b), h), ctors')" "0 \<le> m" "m \<le> 255"
    using assms by (fastforce simp: sprout_alloc_obj_def sprout_make0_def get_or_make_singleton_def
        split: if_splits option.splits)
  then show ?thesis by (intro obj_tagged_site [OF obj_taggedD(1) [OF t(1)] t(2,3) obj_taggedD(2) [OF t(1)]])
qed

lemma tuple_site: "sprout_alloc_tuple_blob sz = Inr (k, a, b) \<Longrightarrow> 8 dvd unat sz \<Longrightarrow> unat sz < 2 ^ 34 \<Longrightarrow>
    sprout_slot_step lineage (sprout_hdr_make k a) = alloc_slot b"
proof -
  assume r: "sprout_alloc_tuple_blob sz = Inr (k, a, b)" and d: "8 dvd unat sz" "unat sz < 2 ^ 34"
  then have e: "k = HEAP_TUPLE" "a = sz div 8" "b = sz"
    by (auto simp: sprout_alloc_tuple_blob_def split: if_splits)
  then have "unat a = unat sz div 8" by (simp add: unat_div)
  with d have "unat (a * 8) = unat b" "unat a < 2 ^ 31"
    by (auto simp: unat_word_ariths(2) e)
  with d e show ?thesis
    by (intro slot_step_eq_alloc) (simp_all add: slot_payload_bytes_def)
qed

lemma closure_site: "sprout_alloc_closure sz arity = Inr (k, a, b) \<Longrightarrow> 8 dvd unat sz \<Longrightarrow> unat sz < 2 ^ 34 \<Longrightarrow>
    sprout_slot_step lineage (sprout_hdr_make k a) = alloc_slot b"
proof -
  assume r: "sprout_alloc_closure sz arity = Inr (k, a, b)" and d: "8 dvd unat sz" "unat sz < 2 ^ 34"
  let ?s = "if sz = 0 then 0 else sz div 8 - 1"
  from r have e: "k = HEAP_CLOSURE" "a = sprout_closure_aux ?s arity" "b = sz"
    by (auto simp: sprout_alloc_closure_def Let_def split: if_splits)
  have n: "unat ?s = unat sz div 8 - 1"
  proof (cases "sz = 0")
    case False
    then have "1 \<le> unat (sz div 8)" using d by (simp add: unat_div unat_gt_0 dvd_imp_le Suc_le_eq div_greater_zero_iff)
    then have "(1 :: 64 word) \<le> sz div 8" by (simp add: word_le_nat_alt)
    then show ?thesis using False by (simp add: unat_sub unat_div)
  qed simp
  have "unat sz div 8 < 2 ^ 31" using d(2) by (intro less_mult_imp_div_less) simp
  with n have s: "unat ?s < 2 ^ 31" by (simp only:)
  then have "sprout_closure_ncaps a = ?s" by (simp only: e closure_aux_fields take_bit_small [of ?s 32])
      (rule take_bit_small, simp)
  moreover have "unat ((?s + 1) * 8) = max 8 (unat sz)"
  proof -
    have "unat ((?s + 1) * 8) = (unat ?s + 1) * 8" using s by (simp only: unat_word_ariths) simp
    also have "\<dots> = max 8 (unat sz)" using n d by (auto simp: max_def)
    finally show ?thesis .
  qed
  moreover have "unat a < 2 ^ 50" using unat_take_less [of 50 a] e(2) closure_aux_fields(3) by simp
  ultimately show ?thesis using e d
    by (intro slot_step_eq_alloc) (simp_all add: slot_payload_bytes_def)
qed

lemmas site_steps = str_site vector_site fixed_sites tuple_site closure_site

text \<open>C16. Every allocating function reserves exactly the slot that the sweep's walk later steps over
  when it reads the header the function left in memory: constructor objects with any tag (the tag shares the aux field with
  the arity; in lineage mode small objects are padded; a nullary constructor that is already interned allocates nothing),
  closures and tuples whose size is a multiple of 8 below 2 to the 34 as the compiler emits it, strings shorter
  than 2 to the 50, vectors with inline or separate elements, and the fixed-size cells.\<close>

theorem alloc_size_matches_sweep_step:
  assumes "sprout_alloc_obj lineage hdrcheck obj tag n ctors = Inr (p, Some ((kind, aux, bytes), h), ctors')
           \<or> h = sprout_hdr_make kind aux \<and>
             ((kind, aux, bytes) \<in> {sprout_str_alloc len, sprout_alloc_vector_sized len, sprout_alloc_bst_node,
                   sprout_alloc_bytes_val, sprout_alloc_builder_val, ref_new}
              \<or> (sprout_alloc_closure sz arity = Inr (kind, aux, bytes) \<and> 8 dvd unat sz)
              \<or> (sprout_alloc_tuple_blob sz = Inr (kind, aux, bytes) \<and> 8 dvd unat sz))"
    and "unat len < 2 ^ 50" "unat sz < 2 ^ 34"
  shows "sprout_slot_step lineage h = alloc_slot bytes"
  using assms(1)
proof (elim disjE conjE)
  assume "sprout_alloc_obj lineage hdrcheck obj tag n ctors = Inr (p, Some ((kind, aux, bytes), h), ctors')"
  then show ?thesis by (rule obj_site)
qed (use assms(2,3) in \<open>auto intro: site_steps\<close>)

theorem alloc_size_matches_sweep_step_witness:
  "sprout_alloc_obj False True 0x5008 7 3 Map.empty = Inr (0x5008, Some ((HEAP_OBJ, 3, 24), 0x1C0C001), Map.empty) \<and>
   sprout_slot_step False 0x1C0C001 = alloc_slot 24 \<and>
   sprout_slot_step False (sprout_hdr_make HEAP_CLOSURE (sprout_closure_aux 2 1)) = alloc_slot 24"
proof -
  have o: "sprout_alloc_obj False True 0x5008 7 3 Map.empty = Inr (0x5008, Some ((HEAP_OBJ, 3, 24), 0x1C0C001), Map.empty)"
    by (simp add: sprout_alloc_obj_def obj_tagged_def sprout_alloc_obj_raw_def sprout_obj_alloc_arity_def
        sprout_obj_write_tag_def sprout_hdr_make_def push_bit_eq_mult)
  have c: "sprout_alloc_closure 24 1 = Inr (HEAP_CLOSURE, sprout_closure_aux 2 1, 24)"
    by (simp add: sprout_alloc_closure_def)
  have "sprout_slot_step False 0x1C0C001 = alloc_slot 24"
    by (rule alloc_size_matches_sweep_step [of False True "0x5008" 7 3 Map.empty "0x5008" HEAP_OBJ 3 24 _ Map.empty 0 0 0])
      (simp_all add: o)
  moreover have "sprout_slot_step False (sprout_hdr_make HEAP_CLOSURE (sprout_closure_aux 2 1)) = alloc_slot 24"
    by (rule alloc_size_matches_sweep_step [of _ _ _ _ _ _ _ HEAP_CLOSURE "sprout_closure_aux 2 1" _ _ _ 0 24 1]) (simp_all add: c)
  ultimately show ?thesis using o by blast
qed

text \<open>The collector's writes to a header, in any order.\<close>

datatype gc_write = SetColor | ClearColor | SetRemembered | ClearRemembered | BumpAge

fun gc_write_hdr :: "gc_write \<Rightarrow> 64 word \<Rightarrow> 64 word" where
  "gc_write_hdr SetColor h = h OR gc_color_bit"
| "gc_write_hdr ClearColor h = h AND NOT gc_color_bit"
| "gc_write_hdr SetRemembered h = h OR gc_remembered_bit"
| "gc_write_hdr ClearRemembered h = h AND NOT gc_remembered_bit"
| "gc_write_hdr BumpAge h = sprout_hdr_age_bump h"

lemma gc_writes_same_identity: "same_identity h (fold gc_write_hdr ws h)"
proof (induction ws arbitrary: h)
  case (Cons w ws)
  have "same_identity h (gc_write_hdr w h)" by (cases w) (simp_all add: hdr_simps)
  also have "same_identity \<dots> (fold gc_write_hdr ws (gc_write_hdr w h))" by (rule Cons.IH)
  finally show ?case by simp
qed simp

lemma obj_hdr_tag_arity:
  assumes "sprout_obj_write_tag hdrcheck tag arity = Inr h" "unat tag < 2 ^ 42" "0 \<le> arity" "arity \<le> 255"
  shows "sprout_hdr_kind h = HEAP_OBJ" "drop_bit 8 (sprout_hdr_aux h) = tag"
    "sprout_hdr_aux h AND 0xFF = word_of_int arity"
proof -
  let ?a = "word_of_int arity :: 64 word"
  note h = obj_hdr_arity [OF assms(1,3,4)]
  have t: "take_bit 42 tag = tag" using assms(2) by (rule take_bit_small)
  have x: "sprout_hdr_aux h = take_bit 50 (push_bit 8 tag OR take_bit 8 ?a)" by (simp add: h(1) hdr_simps)
  show "sprout_hdr_kind h = HEAP_OBJ" by (simp add: h(1) hdr_simps)
  have "drop_bit 8 (sprout_hdr_aux h) = take_bit 42 tag"
    unfolding x by (rule bit_eqI) (auto simp: bit_simps)
  with t show "drop_bit 8 (sprout_hdr_aux h) = tag" by simp
  have "sprout_hdr_aux h AND 0xFF = take_bit 8 ?a"
    unfolding x and_mask_numerals by (rule bit_eqI) (auto simp: bit_simps)
  with h(2) show "sprout_hdr_aux h AND 0xFF = ?a" by simp
qed

text \<open>C17. A constructor object keeps its tag and its arity through any number of collector writes to
  its header (marking, unmarking, entering and leaving the remembered set, ageing), and the sweep steps
  over it by the same size before and after them.\<close>

theorem obj_tag_survives_collector:
  assumes "sprout_obj_write_tag hdrcheck tag arity = Inr h" "unat tag < 2 ^ 42" "0 \<le> arity" "arity \<le> 255"
  shows "sprout_tag lineage (fold gc_write_hdr ws h) = Inr tag \<and>
         obj_arity (fold gc_write_hdr ws h) = word_of_int arity \<and>
         sprout_slot_step lineage (fold gc_write_hdr ws h) = sprout_slot_step lineage h"
  using gc_writes_same_identity [of h ws] obj_hdr_tag_arity [OF assms]
  by (simp add: same_identity_def sprout_tag_def obj_arity_def sprout_slot_step_def sprout_hdr_aux_def)

theorem obj_tag_survives_collector_witness:
  "\<exists>h. sprout_obj_write_tag True 7 3 = Inr h \<and>
       sprout_tag False (fold gc_write_hdr [SetColor, BumpAge, SetRemembered] h) = Inr 7 \<and>
       obj_arity (fold gc_write_hdr [SetColor, BumpAge, SetRemembered] h) = 3"
proof -
  have "sprout_obj_write_tag True 7 3 = Inr 0x1C0C001"
    by (simp add: sprout_obj_write_tag_def sprout_hdr_make_def push_bit_eq_mult)
  with obj_tag_survives_collector [of True 7 3 "0x1C0C001" False "[SetColor, BumpAge, SetRemembered]"]
  show ?thesis by simp
qed

end
