(* ===== verification/Gc_Roots.thy ===== *)
theory Gc_Roots
  imports Heap_Word
begin

text \<open>
  What the collector treats as live from outside the heap: permanent roots, one LIFO pool of temporary
  roots per task (selected by \<^verbatim>\<open>g_current_roots\<close>, all of them linked in a registry) and the fixed table
  of handles that C builtins use. A root names a memory cell; \<open>mem\<close> gives the word in a cell.
  The live part of a pool array, \<^verbatim>\<open>pool[0..pool_top)\<close>, is a list in push order. The handle table keeps
  the C arrays as they are: 1024 values, 1024 flags, a stack of free indices and its top.
\<close>

datatype root_kind = ROOT_I64 | ROOT_PTR | ROOT_SCAN

record root_node =
  rn_slot :: nat
  rn_kind :: root_kind
  rn_aux_words :: nat

record roots =
  pool :: "root_node list"
  pool_size :: nat

record root_state =
  g_root_nodes :: "root_node list"
  root_ctx :: "nat \<Rightarrow> roots"
  g_roots_registry :: "nat list"
  g_current_roots :: nat

definition register_root_slot :: "nat \<Rightarrow> root_kind \<Rightarrow> nat \<Rightarrow> root_state \<Rightarrow> root_state" where
  "register_root_slot slot kind aux_words st =
     st\<lparr>g_root_nodes := \<lparr>rn_slot = slot, rn_kind = kind, rn_aux_words = aux_words\<rparr> # g_root_nodes st\<rparr>"

definition sprout_gc_register_i64_root :: "nat \<Rightarrow> root_state \<Rightarrow> root_state" where
  "sprout_gc_register_i64_root slot st = register_root_slot slot ROOT_I64 0 st"

definition sprout_gc_register_ptr_root :: "nat \<Rightarrow> root_state \<Rightarrow> root_state" where
  "sprout_gc_register_ptr_root slot st = register_root_slot slot ROOT_PTR 0 st"

definition sprout_gc_register_scan_root :: "nat \<Rightarrow> int \<Rightarrow> root_state \<Rightarrow> root_state res" where
  "sprout_gc_register_scan_root slot size_bytes st =
     (if size_bytes < 0 then Inl (SproutFail ''sprout_gc_register_scan_root: size must be >= 0'')
      else Inr (register_root_slot slot ROOT_SCAN (nat size_bytes div 8) st))"

definition sprout_gc_push_root :: "nat \<Rightarrow> root_kind \<Rightarrow> nat \<Rightarrow> root_state \<Rightarrow> root_state res" where
  "sprout_gc_push_root slot kind aux_words st =
     (let c = g_current_roots st; rc = root_ctx st c in
      if length (pool rc) \<ge> pool_size rc
      then Inl (SproutFail ''sprout_gc_push_root: GC root pool exhausted'')
      else Inr (st\<lparr>root_ctx := (root_ctx st)(c := rc\<lparr>pool := pool rc @
                 [\<lparr>rn_slot = slot, rn_kind = kind, rn_aux_words = aux_words\<rparr>]\<rparr>)\<rparr>))"

definition sprout_gc_push_i64_root :: "nat \<Rightarrow> root_state \<Rightarrow> root_state res" where
  "sprout_gc_push_i64_root slot st = sprout_gc_push_root slot ROOT_I64 0 st"

definition sprout_gc_push_ptr_root :: "nat \<Rightarrow> root_state \<Rightarrow> root_state res" where
  "sprout_gc_push_ptr_root slot st = sprout_gc_push_root slot ROOT_PTR 0 st"

definition sprout_gc_push_scan_root :: "nat \<Rightarrow> int \<Rightarrow> root_state \<Rightarrow> root_state res" where
  "sprout_gc_push_scan_root slot size_bytes st =
     (if size_bytes < 0 then Inl (SproutFail ''sprout_gc_push_scan_root: size must be >= 0'')
      else sprout_gc_push_root slot ROOT_SCAN (nat size_bytes div 8) st)"

definition sprout_gc_pop_roots :: "int \<Rightarrow> root_state \<Rightarrow> root_state res" where
  "sprout_gc_pop_roots count st =
     (if count < 0 then Inl (SproutFail ''sprout_gc_pop_roots: count must be >= 0'')
      else let c = g_current_roots st; rc = root_ctx st c in
        if nat count > length (pool rc) then Inl (SproutFail ''sprout_gc_pop_roots: root stack underflow'')
        else Inr (st\<lparr>root_ctx := (root_ctx st)(c := rc\<lparr>pool := take (length (pool rc) - nat count) (pool rc)\<rparr>)\<rparr>))"

definition sprout_roots_switch :: "nat \<Rightarrow> root_state \<Rightarrow> root_state" where
  "sprout_roots_switch r st = st\<lparr>g_current_roots := r\<rparr>"

text \<open>A new context; its address \<open>r\<close> is the allocator's choice.\<close>

definition sprout_roots_new :: "nat \<Rightarrow> nat \<Rightarrow> root_state \<Rightarrow> root_state" where
  "sprout_roots_new r pool_slots st =
     st\<lparr>root_ctx := (root_ctx st)(r := \<lparr>pool = [], pool_size = pool_slots\<rparr>),
        g_roots_registry := r # g_roots_registry st\<rparr>"

definition sprout_roots_push_ptr :: "nat \<Rightarrow> nat \<Rightarrow> root_state \<Rightarrow> root_state res" where
  "sprout_roots_push_ptr r slot st =
     (let rc = root_ctx st r in
      if length (pool rc) \<ge> pool_size rc
      then Inl (SproutFail ''sprout_roots_push_ptr: GC root pool exhausted'')
      else Inr (st\<lparr>root_ctx := (root_ctx st)(r := rc\<lparr>pool := pool rc @
                 [\<lparr>rn_slot = slot, rn_kind = ROOT_PTR, rn_aux_words = 0\<rparr>]\<rparr>)\<rparr>))"

definition sprout_roots_set_scan :: "nat \<Rightarrow> nat \<Rightarrow> nat \<Rightarrow> root_state \<Rightarrow> root_state res" where
  "sprout_roots_set_scan r base words st =
     (let rc = root_ctx st r in
      if pool_size rc < 1 then Inl (SproutFail ''sprout_roots_set_scan: pool has no slot'')
      else Inr (st\<lparr>root_ctx := (root_ctx st)(r := rc\<lparr>pool :=
                 [\<lparr>rn_slot = base, rn_kind = ROOT_SCAN, rn_aux_words = words\<rparr>]\<rparr>)\<rparr>))"

text \<open>Unlinks the first registry entry that is \<open>r\<close>.\<close>

definition sprout_roots_free :: "nat \<Rightarrow> root_state \<Rightarrow> root_state" where
  "sprout_roots_free r st = st\<lparr>g_roots_registry := remove1 r (g_roots_registry st)\<rparr>"

definition sprout_gc_root_count :: "root_state \<Rightarrow> nat" where
  "sprout_gc_root_count st =
     length (g_root_nodes st) + sum_list (map (\<lambda>r. length (pool (root_ctx st r))) (g_roots_registry st))"

section \<open>Handles\<close>

record handle_table =
  ht_value :: "sval list"
  ht_in_use :: "bool list"
  ht_freelist :: "nat list"
  ht_freelist_top :: nat

definition handle_table_size :: nat where "handle_table_size = 1024"

definition sprout_handle_table_init :: "handle_table \<Rightarrow> handle_table" where
  "sprout_handle_table_init t =
     t\<lparr>ht_in_use := replicate handle_table_size False,
       ht_freelist := map (\<lambda>i. handle_table_size - 1 - i) [0..<handle_table_size],
       ht_freelist_top := handle_table_size\<rparr>"

definition sprout_handle_new :: "sval \<Rightarrow> handle_table \<Rightarrow> (handle_table \<times> nat) res" where
  "sprout_handle_new value t =
     (if ht_freelist_top t = 0 then Inl (SproutFail ''sprout_handle_new: handle table exhausted'')
      else let top = ht_freelist_top t - 1; h = ht_freelist t ! top in
        Inr (t\<lparr>ht_freelist_top := top, ht_value := (ht_value t)[h := value],
              ht_in_use := (ht_in_use t)[h := True]\<rparr>, h))"

definition sprout_handle_get :: "nat \<Rightarrow> handle_table \<Rightarrow> sval" where
  "sprout_handle_get h t = ht_value t ! h"

definition sprout_handle_set :: "nat \<Rightarrow> sval \<Rightarrow> handle_table \<Rightarrow> handle_table" where
  "sprout_handle_set h value t = t\<lparr>ht_value := (ht_value t)[h := value]\<rparr>"

definition sprout_handle_release :: "nat \<Rightarrow> handle_table \<Rightarrow> handle_table" where
  "sprout_handle_release h t =
     t\<lparr>ht_in_use := (ht_in_use t)[h := False],
       ht_freelist := (ht_freelist t)[ht_freelist_top t := h],
       ht_freelist_top := ht_freelist_top t + 1\<rparr>"

section \<open>The words a root walk visits\<close>

fun root_words :: "(nat \<Rightarrow> sval) \<Rightarrow> root_node \<Rightarrow> sval list" where
  "root_words mem root =
     (case rn_kind root of
        ROOT_I64 \<Rightarrow> [mem (rn_slot root)]
      | ROOT_PTR \<Rightarrow> [mem (rn_slot root)]
      | ROOT_SCAN \<Rightarrow> map (\<lambda>i. mem (rn_slot root + i * 8)) [0..<rn_aux_words root])"

definition handle_words :: "handle_table \<Rightarrow> sval list" where
  "handle_words t = map (\<lambda>i. ht_value t ! i) (filter (\<lambda>i. ht_in_use t ! i) [0..<handle_table_size])"

definition sprout_gc_mark_roots :: "(nat \<Rightarrow> sval) \<Rightarrow> root_state \<Rightarrow> handle_table \<Rightarrow> sval list" where
  "sprout_gc_mark_roots mem st t =
     concat (map (root_words mem) (g_root_nodes st)) @
     concat (map (\<lambda>r. concat (map (root_words mem) (pool (root_ctx st r)))) (g_roots_registry st)) @
     handle_words t"

section \<open>Correctness of the handle table\<close>

text \<open>The free indices are the first \<open>top\<close> entries of the stack, each once, and are exactly the
  indices not in use.\<close>

definition handles_inv :: "handle_table \<Rightarrow> bool" where
  "handles_inv t \<longleftrightarrow>
     length (ht_value t) = handle_table_size \<and> length (ht_in_use t) = handle_table_size \<and>
     length (ht_freelist t) = handle_table_size \<and> ht_freelist_top t \<le> handle_table_size \<and>
     distinct (take (ht_freelist_top t) (ht_freelist t)) \<and>
     set (take (ht_freelist_top t) (ht_freelist t)) = {i. i < handle_table_size \<and> \<not> ht_in_use t ! i}"

definition live_handles :: "handle_table \<Rightarrow> nat set" where
  "live_handles t = {i. i < handle_table_size \<and> ht_in_use t ! i}"

lemma handles_inv_init:
  "length (ht_value t) = handle_table_size \<Longrightarrow> handles_inv (sprout_handle_table_init t)"
proof -
  have "(\<lambda>i. handle_table_size - Suc i) ` {0..<handle_table_size} = {0..<handle_table_size}"
  proof (intro equalityI subsetI)
    fix x assume "x \<in> {0..<handle_table_size}"
    then show "x \<in> (\<lambda>i. handle_table_size - Suc i) ` {0..<handle_table_size}"
      by (intro image_eqI [where x = "handle_table_size - Suc x"]) auto
  qed auto
  then show "length (ht_value t) = handle_table_size \<Longrightarrow> handles_inv (sprout_handle_table_init t)"
    by (auto simp: handles_inv_def sprout_handle_table_init_def distinct_map inj_on_def)
qed

lemma take_Suc_snoc: "0 < n \<Longrightarrow> n \<le> length xs \<Longrightarrow> take n xs = take (n - 1) xs @ [xs ! (n - 1)]"
  by (metis Suc_diff_1 Suc_le_lessD take_Suc_conv_app_nth)

lemma handles_invD:
  assumes "handles_inv t"
  shows "length (ht_value t) = handle_table_size" "length (ht_in_use t) = handle_table_size"
    "length (ht_freelist t) = handle_table_size" "ht_freelist_top t \<le> handle_table_size"
    "distinct (take (ht_freelist_top t) (ht_freelist t))"
    "set (take (ht_freelist_top t) (ht_freelist t)) = {..<handle_table_size} - live_handles t"
  using assms by (auto simp: handles_inv_def live_handles_def)

lemma handles_invI:
  assumes "length (ht_value t) = handle_table_size" "length (ht_in_use t) = handle_table_size"
    "length (ht_freelist t) = handle_table_size" "ht_freelist_top t \<le> handle_table_size"
    "distinct (take (ht_freelist_top t) (ht_freelist t))"
    "set (take (ht_freelist_top t) (ht_freelist t)) = {..<handle_table_size} - live_handles t"
  shows "handles_inv t"
  using assms by (auto simp: handles_inv_def live_handles_def)

lemma live_handles_update:
  "ht_in_use t' = (ht_in_use t)[h := True] \<Longrightarrow> length (ht_in_use t) = handle_table_size \<Longrightarrow>
     h < handle_table_size \<Longrightarrow> live_handles t' = insert h (live_handles t)"
  "ht_in_use t' = (ht_in_use t)[h := False] \<Longrightarrow> length (ht_in_use t) = handle_table_size \<Longrightarrow>
     h < handle_table_size \<Longrightarrow> live_handles t' = live_handles t - {h}"
  by (auto simp: live_handles_def nth_list_update split: if_splits)

lemma handle_table_size_pos [simp]: "0 < handle_table_size"
  by (simp add: handle_table_size_def)

lemma handle_new_props:
  assumes inv: "handles_inv t" and new: "sprout_handle_new v t = Inr (t', h)"
  shows "handles_inv t'" "h < handle_table_size" "h \<notin> live_handles t" "live_handles t' = insert h (live_handles t)"
    "sprout_handle_get h t' = v" "\<And>k. k \<noteq> h \<Longrightarrow> sprout_handle_get k t' = sprout_handle_get k t"
proof -
  note i = handles_invD [OF inv]
  let ?top = "ht_freelist_top t"
  from new have top: "?top \<noteq> 0" and h: "h = ht_freelist t ! (?top - 1)"
    and t': "t' = t\<lparr>ht_freelist_top := ?top - 1, ht_value := (ht_value t)[h := v], ht_in_use := (ht_in_use t)[h := True]\<rparr>"
    by (auto simp: sprout_handle_new_def Let_def split: if_splits)
  have tk: "take ?top (ht_freelist t) = take (?top - 1) (ht_freelist t) @ [h]"
    unfolding h using i(3,4) top by (intro take_Suc_snoc) simp_all
  note f = i(5,6) [unfolded tk]
  from f(2) show h2: "h < handle_table_size" "h \<notin> live_handles t" by auto
  show l: "live_handles t' = insert h (live_handles t)"
    by (rule live_handles_update(1)) (simp_all add: t' i h2)
  show "handles_inv t'"
    by (rule handles_invI, unfold l) (use i(1-4) f in \<open>auto simp: t'\<close>)
  show "sprout_handle_get h t' = v" "\<And>k. k \<noteq> h \<Longrightarrow> sprout_handle_get k t' = sprout_handle_get k t"
    using h2 i(1) by (simp_all add: t' sprout_handle_get_def)
qed

lemma handle_new_total:
  assumes "handles_inv t" "live_handles t \<noteq> {..<handle_table_size}"
  shows "\<exists>t' h. sprout_handle_new v t = Inr (t', h)"
proof -
  have "live_handles t \<subseteq> {..<handle_table_size}" by (auto simp: live_handles_def)
  with assms handles_invD(6) [OF assms(1)] have "ht_freelist_top t \<noteq> 0" by auto
  then show ?thesis by (simp add: sprout_handle_new_def Let_def)
qed

lemma handle_new_exhausted:
  assumes "handles_inv t" "live_handles t = {..<handle_table_size}"
  shows "sprout_handle_new v t = Inl (SproutFail ''sprout_handle_new: handle table exhausted'')"
proof -
  note i = handles_invD [OF assms(1)]
  have "take (ht_freelist_top t) (ht_freelist t) = []" using i(6) assms(2) by simp
  then have "ht_freelist_top t = 0 \<or> ht_freelist t = []" by simp
  moreover have "ht_freelist t \<noteq> []" using i(3) handle_table_size_pos by force
  ultimately show ?thesis by (simp add: sprout_handle_new_def)
qed

lemma handle_release_props:
  assumes inv: "handles_inv t" and live: "h \<in> live_handles t"
  shows "handles_inv (sprout_handle_release h t)" "live_handles (sprout_handle_release h t) = live_handles t - {h}"
proof -
  note i = handles_invD [OF inv]
  let ?top = "ht_freelist_top t"
  from live have h: "h < handle_table_size" by (simp add: live_handles_def)
  have "?top = card (set (take ?top (ht_freelist t)))"
    using i(3,4,5) by (subst distinct_card) simp_all
  also have "\<dots> \<le> card ({..<handle_table_size} - {h})"
    unfolding i(6) using live by (intro card_mono) auto
  also have "\<dots> < handle_table_size" using h by simp
  finally have lt: "?top < handle_table_size" .
  then have tk: "take (Suc ?top) ((ht_freelist t)[?top := h]) = take ?top (ht_freelist t) @ [h]"
    by (simp add: i take_Suc_conv_app_nth)
  show l: "live_handles (sprout_handle_release h t) = live_handles t - {h}"
    by (rule live_handles_update(2)) (simp_all add: sprout_handle_release_def i h)
  show "handles_inv (sprout_handle_release h t)"
    by (rule handles_invI, unfold l)
      (use i lt tk live h in \<open>auto simp: sprout_handle_release_def\<close>)
qed

lemma handle_set_props:
  assumes "handles_inv t"
  shows "handles_inv (sprout_handle_set h v t)" "live_handles (sprout_handle_set h v t) = live_handles t"
    "h < handle_table_size \<Longrightarrow> sprout_handle_get h (sprout_handle_set h v t) = v"
    "k \<noteq> h \<Longrightarrow> sprout_handle_get k (sprout_handle_set h v t) = sprout_handle_get k t"
  using assms by (auto simp: handles_inv_def live_handles_def sprout_handle_set_def sprout_handle_get_def)

text \<open>A C builtin's use of the table: scoped handles, updates through them and releases.\<close>

datatype handle_op = HNew sval | HSet nat sval | HRelease nat

text \<open>The specification: which handles are live and what they hold.\<close>

fun handle_ops :: "handle_op list \<Rightarrow> handle_table \<Rightarrow> (handle_table \<times> nat list) res" where
  "handle_ops [] t = Inr (t, [])"
| "handle_ops (HNew v # ops) t =
     res_bind (sprout_handle_new v t)
       (\<lambda>(t', h). res_bind (handle_ops ops t') (\<lambda>(t'', hs). Inr (t'', h # hs)))"
| "handle_ops (HSet h v # ops) t = handle_ops ops (sprout_handle_set h v t)"
| "handle_ops (HRelease h # ops) t = handle_ops ops (sprout_handle_release h t)"

text \<open>Only live handles are set or released.\<close>

fun disciplined :: "handle_op list \<Rightarrow> handle_table \<Rightarrow> bool" where
  "disciplined [] t \<longleftrightarrow> True"
| "disciplined (HNew v # ops) t \<longleftrightarrow>
     (case sprout_handle_new v t of Inl _ \<Rightarrow> True | Inr (t', h) \<Rightarrow> disciplined ops t')"
| "disciplined (HSet h v # ops) t \<longleftrightarrow> h \<in> live_handles t \<and> disciplined ops (sprout_handle_set h v t)"
| "disciplined (HRelease h # ops) t \<longleftrightarrow> h \<in> live_handles t \<and> disciplined ops (sprout_handle_release h t)"

definition handle_map :: "handle_table \<Rightarrow> nat \<Rightarrow> sval option" where
  "handle_map t h = (if h \<in> live_handles t then Some (sprout_handle_get h t) else None)"

fun spec_handles :: "handle_op list \<Rightarrow> nat list \<Rightarrow> (nat \<Rightarrow> sval option) \<Rightarrow> (nat \<Rightarrow> sval option)" where
  "spec_handles (HNew v # ops) (h # hs) m = spec_handles ops hs (m(h \<mapsto> v))"
| "spec_handles (HSet h v # ops) hs m = spec_handles ops hs (m(h \<mapsto> v))"
| "spec_handles (HRelease h # ops) hs m = spec_handles ops hs (m(h := None))"
| "spec_handles _ _ m = m"

lemma live_handles_bound: "h \<in> live_handles t \<Longrightarrow> h < handle_table_size"
  by (simp add: live_handles_def)

lemma handle_map_steps:
  assumes "handles_inv t"
  shows "sprout_handle_new v t = Inr (t', h) \<Longrightarrow> handle_map t' = (handle_map t)(h \<mapsto> v) \<and> handle_map t h = None"
    and "h \<in> live_handles t \<Longrightarrow> handle_map (sprout_handle_set h v t) = (handle_map t)(h \<mapsto> v)"
    and "h \<in> live_handles t \<Longrightarrow> handle_map (sprout_handle_release h t) = (handle_map t)(h := None)"
proof -
  show "handle_map t' = (handle_map t)(h \<mapsto> v) \<and> handle_map t h = None" if "sprout_handle_new v t = Inr (t', h)"
    using handle_new_props [OF assms that] by (simp add: handle_map_def fun_eq_iff)
  show "handle_map (sprout_handle_set h v t) = (handle_map t)(h \<mapsto> v)" if "h \<in> live_handles t"
    using handle_set_props [OF assms] that live_handles_bound [OF that]
    by (simp add: handle_map_def fun_eq_iff)
  show "handle_map (sprout_handle_release h t) = (handle_map t)(h := None)" if "h \<in> live_handles t"
    using handle_release_props(2) [OF assms that]
    by (simp add: handle_map_def fun_eq_iff) (simp add: sprout_handle_get_def sprout_handle_release_def)
qed

text \<open>The marker sees the value of every live handle.\<close>

lemma handle_words_live: "set (handle_words t) = ran (handle_map t)"
  by (auto simp: handle_words_def handle_map_def live_handles_def ran_def sprout_handle_get_def)

lemma handle_ops_refine:
  "handles_inv t \<Longrightarrow> disciplined ops t \<Longrightarrow> handle_ops ops t = Inr (t', hs) \<Longrightarrow>
   handles_inv t' \<and> handle_map t' = spec_handles ops hs (handle_map t)"
proof (induction ops t arbitrary: hs rule: handle_ops.induct)
  case (2 v ops t)
  then obtain t1 h hs' where n: "sprout_handle_new v t = Inr (t1, h)"
    and r: "handle_ops ops t1 = Inr (t', hs')" and hs: "hs = h # hs'"
    by (auto simp: res_bind_eq_Inr)
  from 2(3) n have "disciplined ops t1" by simp
  with 2(1) [OF n refl handle_new_props(1) [OF 2(2) n] _ r] handle_map_steps(1) [OF 2(2) n] hs
  show ?case by (simp add: fun_upd_def)
next
  case (3 h v ops t)
  then show ?case using handle_set_props(1) [of t] handle_map_steps(2) [of t] by (simp add: fun_upd_def)
next
  case (4 h ops t)
  then show ?case using handle_release_props(1) [of t] handle_map_steps(3) [of t] by (simp add: fun_upd_def)
qed simp

text \<open>C15. A run of C builtins that set and release only handles they hold refines a map from handles
  to values: a new handle is never one already in use, the table fails only when all 1024 are in use,
  and the root walk visits exactly the values of the live handles.\<close>

theorem handle_table_refines_map:
  assumes "length (ht_value t) = handle_table_size" "disciplined ops (sprout_handle_table_init t)"
    and "handle_ops ops (sprout_handle_table_init t) = Inr (t', hs)"
  shows "handle_map t' = spec_handles ops hs (\<lambda>_. None) \<and>
         set (handle_words t') = ran (spec_handles ops hs (\<lambda>_. None)) \<and>
         (\<forall>v. case sprout_handle_new v t' of
                Inr (t'', h) \<Rightarrow> handle_map t' h = None \<and> handle_map t'' = (handle_map t')(h \<mapsto> v)
              | Inl _ \<Rightarrow> dom (handle_map t') = {..<handle_table_size})"
proof -
  have e: "handle_map (sprout_handle_table_init t) = (\<lambda>_. None)"
    by (auto simp: handle_map_def live_handles_def sprout_handle_table_init_def)
  from handle_ops_refine [OF handles_inv_init [OF assms(1)] assms(2,3)]
  have inv: "handles_inv t'" and m: "handle_map t' = spec_handles ops hs (\<lambda>_. None)" by (simp_all add: e)
  have "dom (handle_map t') = {..<handle_table_size}" if "sprout_handle_new v t' = Inl x" for v x
    using handle_new_total [OF inv, of v] that by (fastforce simp: handle_map_def dom_def)
  with handle_map_steps(1) [OF inv] m handle_words_live [of t'] show ?thesis
    by (auto split: sum.split)
qed

theorem handle_table_refines_map_witness:
  "\<exists>t t' hs. handle_ops [HNew 5, HNew 6, HSet 1 9, HRelease 0] (sprout_handle_table_init t) = Inr (t', hs) \<and>
     handle_map t' = spec_handles [HNew 5, HNew 6, HSet 1 9, HRelease 0] hs (\<lambda>_. None) \<and> handle_map t' 1 = Some 9"
proof -
  define t :: handle_table where
    "t = \<lparr>ht_value = replicate handle_table_size 0, ht_in_use = [], ht_freelist = [], ht_freelist_top = 0\<rparr>"
  let ?i = "sprout_handle_table_init t"
  have l: "length (ht_value t) = handle_table_size" by (simp add: t_def)
  have free: "map (\<lambda>i. handle_table_size - 1 - i) [0..<handle_table_size] ! 1023 = 0"
    "map (\<lambda>i. handle_table_size - 1 - i) [0..<handle_table_size] ! 1022 = 1"
    by (simp_all add: handle_table_size_def)
  have inv: "handles_inv ?i" by (rule handles_inv_init [OF l])
  obtain t1 where n1: "sprout_handle_new 5 ?i = Inr (t1, 0)" and f1: "ht_freelist t1 = ht_freelist ?i" "ht_freelist_top t1 = 1023"
    using free(1) by (auto simp: sprout_handle_new_def sprout_handle_table_init_def Let_def handle_table_size_def)
  note p1 = handle_new_props [OF inv n1]
  obtain t2 where n2: "sprout_handle_new 6 t1 = Inr (t2, 1)"
    using free(2) f1 by (auto simp: sprout_handle_new_def sprout_handle_table_init_def Let_def)
  note p2 = handle_new_props [OF p1(1) n2]
  let ?t3 = "sprout_handle_set 1 9 t2"
  let ?t4 = "sprout_handle_release 0 ?t3"
  let ?ops = "[HNew 5, HNew 6, HSet 1 9, HRelease 0]"
  have d: "disciplined ?ops ?i" using n1 n2 p1(4) p2(4) handle_set_props(2) [OF p2(1)] by simp
  have r: "handle_ops ?ops ?i = Inr (?t4, [0, 1])" using n1 n2 by simp
  from handle_table_refines_map [OF l d r]
  have "handle_map ?t4 = spec_handles ?ops [0, 1] (\<lambda>_. None)" by (rule conjunct1)
  with r show ?thesis by (intro exI [of _ t] exI [of _ ?t4] exI [of _ "[0, 1]"]) simp
qed

end
