(* ===== verification/Gc_Regions.thy ===== *)
theory Gc_Regions
  imports Gc_Roots
begin

unbundle bit_operations_syntax

text \<open>
  The address-space side of the heap: the table of regions sorted by base address, the reserved arena
  whose 1-MiB chunks are resolved by a shift, and \<open>region_find\<close>, which every question \<open>is this word a
  heap pointer?\<close> goes through. Addresses are 64-bit words and the range tests use the wrap-around
  subtraction of the C code. What the operating system answers (the reservation \<^verbatim>\<open>mmap\<close> grants,
  whether \<^verbatim>\<open>mprotect\<close> commits a chunk, the block \<^verbatim>\<open>malloc\<close> returns) are arguments of the operations. The table's own
  \<^verbatim>\<open>realloc\<close> and the \<^verbatim>\<open>calloc\<close> of a region's bitmaps are taken to succeed: where the latter fails, the code gives the chunk
  back and answers that there is no region.
\<close>

type_synonym addr = "64 word"

record region =
  base :: addr
  cap :: "64 word"
  bump :: "64 word"
  live_count :: nat
  poison_count :: nat
  slotmap :: "byte list"
  is_large :: bool
  youngmap :: "64 word list"
  young_count :: nat
  old_count :: nat
  marked_young :: nat

record arena =
  g_arena_base :: addr
  g_arena_bytes :: "64 word"
  g_arena_chunks :: nat
  g_arena_next :: nat
  g_chunk_ri :: "nat option list"
  g_chunk_committed :: "bool list"
  g_chunk_free :: "nat list"

record region_table =
  g_regions :: "region list"
  g_heap_lo :: addr
  g_heap_span :: "64 word"
  g_arena :: arena
  g_open_region_hint :: nat

definition region_size :: "64 word" where "region_size = 0x100000"
definition region_shift :: nat where "region_shift = 20"
definition slot_gran :: nat where "slot_gran = 16"
definition slotmap_bytes :: nat where "slotmap_bytes = 8192"
definition arena_min_regions :: nat where "arena_min_regions = 8"

section \<open>Slot bitmaps\<close>

definition slotmap_set :: "nat \<Rightarrow> region \<Rightarrow> region" where
  "slotmap_set slot_idx r =
     r\<lparr>slotmap := (slotmap r)[slot_idx div 8 := slotmap r ! (slot_idx div 8) OR push_bit (slot_idx mod 8) 1]\<rparr>"

definition slotmap_test :: "region \<Rightarrow> nat \<Rightarrow> bool" where
  "slotmap_test r slot_idx \<longleftrightarrow> drop_bit (slot_idx mod 8) (slotmap r ! (slot_idx div 8)) AND 1 = 1"

definition youngmap_set :: "nat \<Rightarrow> region \<Rightarrow> region" where
  "youngmap_set slot_idx r =
     r\<lparr>youngmap := (youngmap r)[slot_idx div 64 := youngmap r ! (slot_idx div 64) OR push_bit (slot_idx mod 64) 1]\<rparr>"

definition youngmap_test :: "region \<Rightarrow> nat \<Rightarrow> bool" where
  "youngmap_test r slot_idx \<longleftrightarrow> drop_bit (slot_idx mod 64) (youngmap r ! (slot_idx div 64)) AND 1 = 1"

section \<open>The arena\<close>

definition arena_contains :: "arena \<Rightarrow> addr \<Rightarrow> bool" where
  "arena_contains a p \<longleftrightarrow> p - g_arena_base a < g_arena_bytes a"

text \<open>The reservation loop: halve the request until \<open>reserve\<close> grants it. \<open>no_arena\<close> is the initial state.\<close>

definition no_arena :: arena where
  "no_arena = \<lparr>g_arena_base = 0, g_arena_bytes = 0, g_arena_chunks = 0, g_arena_next = 0,
               g_chunk_ri = [], g_chunk_committed = [], g_chunk_free = []\<rparr>"

function arena_reserve :: "(nat \<Rightarrow> addr option) \<Rightarrow> nat \<Rightarrow> arena" where
  "arena_reserve reserve mb =
     (if mb \<ge> 1 then
        (case reserve (mb * 2 ^ 20) of
           None \<Rightarrow> arena_reserve reserve (mb div 2)
         | Some p \<Rightarrow>
             (let chunks = mb * 2 ^ 20 div 2 ^ region_shift in
              \<lparr>g_arena_base = p, g_arena_bytes = word_of_nat (mb * 2 ^ 20), g_arena_chunks = chunks,
               g_arena_next = 0, g_chunk_ri = replicate chunks None,
               g_chunk_committed = replicate chunks False, g_chunk_free = []\<rparr>))
      else no_arena)"
  by pat_completeness auto
termination
  by (relation "measure snd") auto

declare arena_reserve.simps [simp del]

text \<open>\<open>setting\<close> is the parsed value of \<^verbatim>\<open>SPROUT_GC_ARENA_MB\<close>: absent, unparsable, or a number.\<close>

definition arena_init_once :: "(nat \<Rightarrow> addr option) \<Rightarrow> int option option \<Rightarrow> arena res" where
  "arena_init_once reserve setting =
     (case setting of
        None \<Rightarrow> Inr (arena_reserve reserve 4096)
      | Some v \<Rightarrow>
          (case v of
             None \<Rightarrow> Inl (SproutFail ''SPROUT_GC_ARENA_MB: expected non-negative integer (0 disables the arena)'')
           | Some parsed \<Rightarrow>
               if parsed < 0
               then Inl (SproutFail ''SPROUT_GC_ARENA_MB: expected non-negative integer (0 disables the arena)'')
               else if parsed = 0 then Inr no_arena
               else Inr (arena_reserve reserve (nat parsed))))"

definition arena_chunk_alloc :: "(nat \<Rightarrow> bool) \<Rightarrow> arena \<Rightarrow> arena \<times> addr option" where
  "arena_chunk_alloc commit_ok a =
     (if g_arena_base a = 0 then (a, None)
      else
        (let pick =
           (case g_chunk_free a of
              idx # rest \<Rightarrow> Some (idx, a\<lparr>g_chunk_free := rest\<rparr>)
            | [] \<Rightarrow> if g_arena_next a < g_arena_chunks a
                     then Some (g_arena_next a, a\<lparr>g_arena_next := g_arena_next a + 1\<rparr>) else None)
         in case pick of
              None \<Rightarrow> (a, None)
            | Some (idx, a') \<Rightarrow>
                (let b = g_arena_base a + push_bit region_shift (word_of_nat idx) in
                 if g_chunk_committed a' ! idx then (a', Some b)
                 else if commit_ok idx
                 then (a'\<lparr>g_chunk_committed := (g_chunk_committed a')[idx := True]\<rparr>, Some b)
                 else (a', None))))"

definition chunk_index :: "arena \<Rightarrow> addr \<Rightarrow> nat" where
  "chunk_index a p = unat (drop_bit region_shift (p - g_arena_base a))"

definition arena_chunk_release :: "addr \<Rightarrow> arena \<Rightarrow> arena" where
  "arena_chunk_release b a =
     (let idx = chunk_index a b; a' = a\<lparr>g_chunk_ri := (g_chunk_ri a)[idx := None]\<rparr> in
      if length (g_chunk_free a) < g_arena_chunks a then a'\<lparr>g_chunk_free := idx # g_chunk_free a\<rparr> else a')"

text \<open>One step of the repair walk, then the walk over the table from \<open>start\<close>.\<close>

definition arena_reindex_entry :: "region list \<Rightarrow> nat \<Rightarrow> arena \<Rightarrow> arena" where
  "arena_reindex_entry rs i a =
     (let b = base (rs ! i) in
      if b = 0 \<or> is_large (rs ! i) then a
      else if \<not> arena_contains a b then a
      else a\<lparr>g_chunk_ri := (g_chunk_ri a)[chunk_index a b := Some i]\<rparr>)"

definition arena_reindex_from :: "nat \<Rightarrow> region_table \<Rightarrow> region_table" where
  "arena_reindex_from start t =
     (if g_arena_base (g_arena t) = 0 then t
      else t\<lparr>g_arena := fold (arena_reindex_entry (g_regions t)) [start..<length (g_regions t)] (g_arena t)\<rparr>)"

section \<open>The sorted table\<close>

function lower_bound :: "region list \<Rightarrow> addr \<Rightarrow> nat \<Rightarrow> nat \<Rightarrow> nat" where
  "lower_bound rs b lo hi =
     (if lo < hi then
        (let mid = lo + (hi - lo) div 2 in
         if base (rs ! mid) < b then lower_bound rs b (mid + 1) hi else lower_bound rs b lo mid)
      else lo)"
  by pat_completeness auto
termination
  by (relation "measure (\<lambda>(rs, b, lo, hi). hi - lo)") auto

declare lower_bound.simps [simp del]

text \<open>\<open>r\<close> has a base: the caller allocated it.\<close>

definition widen_bounds :: "region \<Rightarrow> region_table \<Rightarrow> region_table" where
  "widen_bounds r t =
     (if base r \<noteq> 0 then
        (let rlo = base r; rhi = rlo + cap r;
             cur_hi = (if g_heap_span t = 0 then 0 else g_heap_lo t + g_heap_span t) in
         if g_heap_span t = 0 then t\<lparr>g_heap_lo := rlo, g_heap_span := cap r\<rparr>
         else let lo = (if rlo < g_heap_lo t then rlo else g_heap_lo t);
                  hi = (if rhi > cur_hi then rhi else cur_hi)
              in t\<lparr>g_heap_lo := lo, g_heap_span := hi - lo\<rparr>)
      else t)"

definition region_table_insert :: "region \<Rightarrow> region_table \<Rightarrow> region_table" where
  "region_table_insert r t =
     (let lo = lower_bound (g_regions t) (base r) 0 (length (g_regions t));
          t1 = t\<lparr>g_regions := take lo (g_regions t) @ r # drop lo (g_regions t)\<rparr>
      in widen_bounds r (arena_reindex_from lo t1))"

definition region_table_remove :: "nat \<Rightarrow> region_table \<Rightarrow> region_table" where
  "region_table_remove i t =
     arena_reindex_from i (t\<lparr>g_regions := take i (g_regions t) @ drop (i + 1) (g_regions t)\<rparr>)"

definition fresh_region :: "addr \<Rightarrow> region" where
  "fresh_region b =
     \<lparr>base = b, cap = region_size, bump = 0, live_count = 0, poison_count = 0,
      slotmap = replicate slotmap_bytes 0, is_large = False,
      youngmap = replicate (slotmap_bytes div 8) 0, young_count = 0, old_count = 0, marked_young = 0\<rparr>"

definition open_new_region :: "(nat \<Rightarrow> bool) \<Rightarrow> addr option \<Rightarrow> region_table \<Rightarrow> (region_table \<times> nat) res" where
  "open_new_region commit_ok malloc_block t =
     (let (a', chunk) = arena_chunk_alloc commit_ok (g_arena t);
          t1 = t\<lparr>g_arena := a'\<rparr>;
          b = (case chunk of Some c \<Rightarrow> Some c | None \<Rightarrow> malloc_block)
      in case b of
           None \<Rightarrow> Inl (SproutFail ''open_new_region: out of memory'')
         | Some b \<Rightarrow>
             (let t2 = region_table_insert (fresh_region b) t1;
                  lo = lower_bound (g_regions t2) b 0 (length (g_regions t2))
              in Inr (t2\<lparr>g_open_region_hint := lo\<rparr>, lo)))"

function region_find_slow :: "region list \<Rightarrow> addr \<Rightarrow> nat \<Rightarrow> nat \<Rightarrow> nat option" where
  "region_find_slow rs p lo hi =
     (if lo < hi then
        (let mid = lo + (hi - lo) div 2; rbase = base (rs ! mid) in
         if rbase > p then region_find_slow rs p lo mid
         else if rbase + cap (rs ! mid) \<le> p then region_find_slow rs p (mid + 1) hi
         else Some mid)
      else None)"
  by pat_completeness auto
termination
  by (relation "measure (\<lambda>(rs, p, lo, hi). hi - lo)") auto

declare region_find_slow.simps [simp del]

definition region_find :: "region_table \<Rightarrow> addr \<Rightarrow> nat option" where
  "region_find t p =
     (if length (g_regions t) > arena_min_regions \<and> arena_contains (g_arena t) p
      then g_chunk_ri (g_arena t) ! chunk_index (g_arena t) p
      else if p - g_heap_lo t \<ge> g_heap_span t then None
      else region_find_slow (g_regions t) p 0 (length (g_regions t)))"

text \<open>The sweep's release of an empty region: an arena chunk is recycled, another block freed.\<close>

definition release_region :: "nat \<Rightarrow> region_table \<Rightarrow> region_table" where
  "release_region i t =
     (let b = base (g_regions t ! i);
          t' = (if arena_contains (g_arena t) b then t\<lparr>g_arena := arena_chunk_release b (g_arena t)\<rparr> else t)
      in region_table_remove i t')"

section \<open>Bitmap laws\<close>

lemma drop_bit_and_1: "drop_bit n w AND 1 = 1 \<longleftrightarrow> bit w n" for w :: "'a::len word"
  by (simp add: bit_iff_odd_drop_bit and_one_eq odd_iff_mod_2_eq_one)

lemma slotmap_test_set:
  "i div 8 < length (slotmap r) \<Longrightarrow> slotmap_test (slotmap_set i r) k \<longleftrightarrow> k = i \<or> slotmap_test r k"
proof -
  assume i: "i div 8 < length (slotmap r)"
  have "k = i" if "k div 8 = i div 8" "k mod 8 = i mod 8" using that by (metis div_mult_mod_eq)
  then show ?thesis
    using i unfolding slotmap_test_def slotmap_set_def drop_bit_and_1
    by (cases "k div 8 = i div 8") (auto simp: bit_simps simp del: push_bit_of_1)
qed

lemma youngmap_test_set:
  "i div 64 < length (youngmap r) \<Longrightarrow> youngmap_test (youngmap_set i r) k \<longleftrightarrow> k = i \<or> youngmap_test r k"
proof -
  assume i: "i div 64 < length (youngmap r)"
  have "k = i" if "k div 64 = i div 64" "k mod 64 = i mod 64" using that by (metis div_mult_mod_eq)
  then show ?thesis
    using i unfolding youngmap_test_def youngmap_set_def drop_bit_and_1
    by (cases "k div 64 = i div 64") (auto simp: bit_simps simp del: push_bit_of_1)
qed

section \<open>The table invariant\<close>

definition in_region :: "region \<Rightarrow> addr \<Rightarrow> bool" where
  "in_region r p \<longleftrightarrow> unat (base r) \<le> unat p \<and> unat p < unat (base r) + unat (cap r)"

definition below :: "region \<Rightarrow> region \<Rightarrow> bool" where
  "below r s \<longleftrightarrow> unat (base r) + unat (cap r) \<le> unat (base s)"

definition region_ok :: "region \<Rightarrow> bool" where
  "region_ok r \<longleftrightarrow> base r \<noteq> 0 \<and> cap r \<noteq> 0 \<and> unat (base r) + unat (cap r) < 2 ^ 64"

definition bounds_ok :: "region_table \<Rightarrow> bool" where
  "bounds_ok t \<longleftrightarrow> unat (g_heap_lo t) + unat (g_heap_span t) < 2 ^ 64 \<and>
     (\<forall>r \<in> set (g_regions t). unat (g_heap_lo t) \<le> unat (base r) \<and>
        unat (base r) + unat (cap r) \<le> unat (g_heap_lo t) + unat (g_heap_span t))"

definition chunk_base :: "arena \<Rightarrow> nat \<Rightarrow> nat" where
  "chunk_base a c = unat (g_arena_base a) + c * 2 ^ 20"

definition arena_shape :: "arena \<Rightarrow> bool" where
  "arena_shape a \<longleftrightarrow> unat (g_arena_bytes a) = g_arena_chunks a * 2 ^ 20 \<and>
     unat (g_arena_base a) + unat (g_arena_bytes a) < 2 ^ 64 \<and>
     length (g_chunk_ri a) = g_arena_chunks a \<and> length (g_chunk_committed a) = g_arena_chunks a \<and>
     g_arena_next a \<le> g_arena_chunks a \<and> (g_arena_base a = 0 \<longrightarrow> g_arena_chunks a = 0) \<and>
     distinct (g_chunk_free a) \<and> (\<forall>c \<in> set (g_chunk_free a). c < g_arena_next a)"

text \<open>A region is either one chunk of the arena or lies outside it.\<close>

definition placed :: "arena \<Rightarrow> region \<Rightarrow> bool" where
  "placed a r \<longleftrightarrow>
     (if arena_contains a (base r)
      then \<not> is_large r \<and> cap r = region_size \<and> (\<exists>c < g_arena_chunks a. unat (base r) = chunk_base a c)
      else unat (base r) + unat (cap r) \<le> unat (g_arena_base a) \<or>
           unat (g_arena_base a) + unat (g_arena_bytes a) \<le> unat (base r))"

definition chunks_ok :: "region list \<Rightarrow> arena \<Rightarrow> bool" where
  "chunks_ok rs a \<longleftrightarrow>
     (\<forall>c < g_arena_chunks a. \<forall>i. g_chunk_ri a ! c = Some i \<longleftrightarrow>
        i < length rs \<and> unat (base (rs ! i)) = chunk_base a c) \<and>
     (\<forall>c < g_arena_chunks a. c \<in> set (g_chunk_free a) \<or> g_arena_next a \<le> c \<longrightarrow> g_chunk_ri a ! c = None)"

definition table_inv :: "region_table \<Rightarrow> bool" where
  "table_inv t \<longleftrightarrow> sorted_wrt below (g_regions t) \<and> (\<forall>r \<in> set (g_regions t). region_ok r) \<and>
     bounds_ok t \<and> arena_shape (g_arena t) \<and> (\<forall>r \<in> set (g_regions t). placed (g_arena t) r) \<and>
     chunks_ok (g_regions t) (g_arena t)"

lemma sub_less_iff:
  fixes p b s :: "64 word"
  assumes "unat b + unat s \<le> 2 ^ 64"
  shows "p - b < s \<longleftrightarrow> unat b \<le> unat p \<and> unat p < unat b + unat s"
proof (cases "unat b \<le> unat p")
  case True
  then have "unat (p - b) = unat p - unat b" by (simp add: unat_sub word_le_nat_alt)
  with True show ?thesis by (auto simp: word_less_nat_alt)
next
  case False
  then have "unat (p - b) = unat p + 2 ^ 64 - unat b" by (simp add: unat_sub_if_size word_size)
  with False assms unsigned_less [of s] show ?thesis by (auto simp: word_less_nat_alt)
qed

lemma arena_contains_iff:
  "arena_shape a \<Longrightarrow> arena_contains a p \<longleftrightarrow>
     unat (g_arena_base a) \<le> unat p \<and> unat p < unat (g_arena_base a) + g_arena_chunks a * 2 ^ 20"
  unfolding arena_contains_def arena_shape_def by (subst sub_less_iff) auto

lemma chunk_index_eq:
  assumes "arena_shape a" "arena_contains a p"
  shows "chunk_index a p = (unat p - unat (g_arena_base a)) div 2 ^ 20"
  using assms arena_contains_iff [OF assms(1), of p]
  by (simp add: chunk_index_def region_shift_def unat_drop unat_sub word_le_nat_alt)

lemma chunk_index_less: "arena_shape a \<Longrightarrow> arena_contains a p \<Longrightarrow> chunk_index a p < g_arena_chunks a"
  unfolding chunk_index_eq using arena_contains_iff [of a p]
  by (subst div_less_iff_less_mult) auto

lemma chunk_index_unique:
  assumes "arena_shape a" "c < g_arena_chunks a" "chunk_base a c \<le> unat p" "unat p < chunk_base a c + 2 ^ 20"
  shows "arena_contains a p" "chunk_index a p = c"
proof -
  have "c * 2 ^ 20 + 2 ^ 20 \<le> g_arena_chunks a * 2 ^ 20" using assms(2)
    by (metis Suc_leI add.commute mult_Suc mult_le_mono1)
  with assms show c: "arena_contains a p"
    unfolding arena_contains_iff [OF assms(1)] chunk_base_def by linarith
  have "(unat p - unat (g_arena_base a)) div 2 ^ 20 = c"
    using assms(3,4) by (intro div_nat_eqI) (simp_all add: chunk_base_def)
  with chunk_index_eq [OF assms(1) c] show "chunk_index a p = c" by simp
qed

lemma chunk_base_inj: "chunk_base a c = chunk_base a d \<longleftrightarrow> c = d"
  by (simp add: chunk_base_def)

lemma unat_region_size: "unat region_size = 2 ^ 20"
  by (simp add: region_size_def)

lemma sorted_wrt_below_nth: "sorted_wrt below rs \<Longrightarrow> i < j \<Longrightarrow> j < length rs \<Longrightarrow> below (rs ! i) (rs ! j)"
  by (rule sorted_wrt_nth_less)

text \<open>At most one region contains an address.\<close>

lemma in_region_unique:
  assumes "sorted_wrt below rs" "i < length rs" "j < length rs" "in_region (rs ! i) p" "in_region (rs ! j) p"
  shows "i = j"
proof (rule ccontr)
  assume "i \<noteq> j"
  then consider "i < j" | "j < i" by linarith
  then show False
    using assms sorted_wrt_below_nth [OF assms(1), of i j] sorted_wrt_below_nth [OF assms(1), of j i]
    by cases (auto simp: below_def in_region_def)
qed

lemma region_end: "region_ok r \<Longrightarrow> unat (base r + cap r) = unat (base r) + unat (cap r)"
  by (simp add: region_ok_def unat_word_ariths)

lemma not_in_above:
  assumes "sorted_wrt below rs" "unat p < unat (base (rs ! m))" "m \<le> i" "i < length rs"
  shows "\<not> in_region (rs ! i) p"
proof (cases "m = i")
  case False
  with assms have "below (rs ! m) (rs ! i)" by (intro sorted_wrt_below_nth) simp_all
  with assms show ?thesis by (simp add: below_def in_region_def)
qed (use assms in \<open>simp add: in_region_def\<close>)

lemma not_in_below:
  assumes "sorted_wrt below rs" "unat (base (rs ! m)) + unat (cap (rs ! m)) \<le> unat p" "i \<le> m" "m < length rs"
  shows "\<not> in_region (rs ! i) p"
proof (cases "m = i")
  case False
  with assms have "below (rs ! i) (rs ! m)" by (intro sorted_wrt_below_nth) simp_all
  with assms show ?thesis by (simp add: below_def in_region_def)
qed (use assms in \<open>simp add: in_region_def\<close>)

lemma region_find_slow_iff:
  assumes "sorted_wrt below rs" "\<forall>r \<in> set rs. region_ok r" "hi \<le> length rs"
  shows "region_find_slow rs p lo hi = Some i \<longleftrightarrow> lo \<le> i \<and> i < hi \<and> in_region (rs ! i) p"
  using assms
proof (induction rs p lo hi rule: region_find_slow.induct)
  case (1 rs p lo hi)
  let ?m = "lo + (hi - lo) div 2"
  show ?case
  proof (cases "lo < hi")
    case True
    then have m: "lo \<le> ?m" "?m < hi" by auto
    with 1 have ml: "?m < length rs" by simp
    then have ok: "unat (base (rs ! ?m) + cap (rs ! ?m)) = unat (base (rs ! ?m)) + unat (cap (rs ! ?m))"
      using 1 by (intro region_end) (simp add: nth_mem)
    note step = region_find_slow.simps [of rs p lo hi] and ih = 1(1,2) [OF True refl refl]
    note na = not_in_above [OF 1(3), of p ?m] and nb = not_in_below [OF 1(3), of ?m p]
    consider (a) "base (rs ! ?m) > p" | (b) "\<not> base (rs ! ?m) > p" "base (rs ! ?m) + cap (rs ! ?m) \<le> p"
      | (c) "\<not> base (rs ! ?m) > p" "\<not> base (rs ! ?m) + cap (rs ! ?m) \<le> p" by blast
    then show ?thesis
    proof cases
      case a
      with step ih(1) 1 m True have "region_find_slow rs p lo hi = Some i \<longleftrightarrow> lo \<le> i \<and> i < ?m \<and> in_region (rs ! i) p"
        by (simp add: Let_def)
      with a m na [of i] 1(5) show ?thesis by (auto simp: word_less_nat_alt not_less)
    next
      case b
      with step ih(2) 1 m True have "region_find_slow rs p lo hi = Some i \<longleftrightarrow> ?m + 1 \<le> i \<and> i < hi \<and> in_region (rs ! i) p"
        by (simp add: Let_def)
      with b m nb [of i] ok ml show ?thesis by (auto simp: word_le_nat_alt not_less_eq_eq)
    next
      case c
      with step True have "region_find_slow rs p lo hi = Some ?m" by (simp add: Let_def)
      moreover from c ok have "in_region (rs ! ?m) p"
        by (simp add: in_region_def word_less_nat_alt word_le_nat_alt not_less not_le)
      ultimately show ?thesis
        using m ml in_region_unique [OF 1(3), of i ?m p] 1(5) by auto
    qed
  qed (simp add: region_find_slow.simps [of rs p lo hi])
qed

lemma chunk_covers:
  assumes "arena_shape a" "arena_contains a p"
  shows "chunk_base a (chunk_index a p) \<le> unat p" "unat p < chunk_base a (chunk_index a p) + 2 ^ 20"
proof -
  let ?d = "unat p - unat (g_arena_base a)"
  have "unat p = unat (g_arena_base a) + ?d" using arena_contains_iff [OF assms(1)] assms(2) by simp
  moreover have "?d div 2 ^ 20 * 2 ^ 20 \<le> ?d" by (rule div_times_less_eq_dividend)
  moreover have "?d < ?d div 2 ^ 20 * 2 ^ 20 + 2 ^ 20" using dividend_less_div_times [of "2 ^ 20" ?d] by (simp add: add.commute)
  ultimately show "chunk_base a (chunk_index a p) \<le> unat p" "unat p < chunk_base a (chunk_index a p) + 2 ^ 20"
    unfolding chunk_base_def chunk_index_eq [OF assms] by linarith+
qed

lemma in_arena_region_iff:
  assumes "arena_shape a" "arena_contains a p" "placed a r"
  shows "in_region r p \<longleftrightarrow> unat (base r) = chunk_base a (chunk_index a p)"
proof
  assume i: "in_region r p"
  then have "arena_contains a (base r)"
    using assms arena_contains_iff [OF assms(1), of p]
    by (auto simp: placed_def in_region_def arena_shape_def split: if_splits)
  with assms(3) obtain c where c: "c < g_arena_chunks a" "unat (base r) = chunk_base a c" "cap r = region_size"
    by (auto simp: placed_def)
  then have "chunk_index a p = c"
    using i by (intro chunk_index_unique(2) [OF assms(1)]) (simp_all add: in_region_def unat_region_size)
  with c show "unat (base r) = chunk_base a (chunk_index a p)" by simp
next
  assume b: "unat (base r) = chunk_base a (chunk_index a p)"
  have "arena_contains a (base r)"
    using chunk_index_unique(1) [OF assms(1) chunk_index_less [OF assms(1,2)], of "base r"] b by simp
  with assms(3) have "cap r = region_size" by (simp add: placed_def)
  with chunk_covers [OF assms(1,2)] b show "in_region r p"
    by (simp add: in_region_def unat_region_size)
qed

lemma region_find_iff:
  assumes "table_inv t"
  shows "region_find t p = Some i \<longleftrightarrow> i < length (g_regions t) \<and> in_region (g_regions t ! i) p"
proof -
  let ?rs = "g_regions t" and ?a = "g_arena t"
  from assms have s: "sorted_wrt below ?rs" and ok: "\<forall>r \<in> set ?rs. region_ok r" and b: "bounds_ok t"
    and sh: "arena_shape ?a" and pl: "\<forall>r \<in> set ?rs. placed ?a r" and ch: "chunks_ok ?rs ?a"
    by (simp_all add: table_inv_def)
  show ?thesis
  proof (cases "arena_contains ?a p \<and> arena_min_regions < length ?rs")
    case True
    then have c: "arena_contains ?a p" by simp
    let ?c = "chunk_index ?a p"
    have cl: "?c < g_arena_chunks ?a" by (rule chunk_index_less [OF sh c])
    have "g_chunk_ri ?a ! ?c = Some i \<longleftrightarrow> i < length ?rs \<and> unat (base (?rs ! i)) = chunk_base ?a ?c"
      using ch cl by (simp add: chunks_ok_def)
    also have "\<dots> \<longleftrightarrow> i < length ?rs \<and> in_region (?rs ! i) p"
      using in_arena_region_iff [OF sh c] pl by (simp cong: conj_cong)
    finally show ?thesis using True by (simp add: region_find_def)
  next
    case False
    have "p - g_heap_lo t \<ge> g_heap_span t \<Longrightarrow> \<not> (i < length ?rs \<and> in_region (?rs ! i) p)"
      using b sub_less_iff [of "g_heap_lo t" "g_heap_span t" p]
      by (fastforce simp: bounds_ok_def in_region_def not_less not_le dest: nth_mem)
    with False show ?thesis
      using region_find_slow_iff [OF s ok order_refl, of p 0 i] by (auto simp: region_find_def)
  qed
qed

section \<open>Operations keep the invariant\<close>

lemma lower_bound_props:
  assumes "sorted_wrt below rs" "\<forall>r \<in> set rs. region_ok r" "lo \<le> hi" "hi \<le> length rs"
  shows "lo \<le> lower_bound rs b lo hi \<and> lower_bound rs b lo hi \<le> hi \<and>
     (\<forall>i. lo \<le> i \<and> i < lower_bound rs b lo hi \<longrightarrow> base (rs ! i) < b) \<and>
     (\<forall>i. lower_bound rs b lo hi \<le> i \<and> i < hi \<longrightarrow> b \<le> base (rs ! i))"
  using assms
proof (induction rs b lo hi rule: lower_bound.induct)
  case (1 rs b lo hi)
  let ?m = "lo + (hi - lo) div 2"
  have mono: "base (rs ! i) \<le> base (rs ! j)" if "i \<le> j" "j < length rs" for i j
    using sorted_wrt_below_nth [OF 1(3), of i j] that
    by (cases "i = j") (auto simp: below_def word_le_nat_alt)
  show ?case
  proof (cases "lo < hi")
    case True
    then have m: "lo \<le> ?m" "?m < hi" by auto
    note step = lower_bound.simps [of rs b lo hi] and ih = 1(1,2) [OF True refl]
    show ?thesis
    proof (cases "base (rs ! ?m) < b")
      case lt: True
      have *: "base (rs ! i) < b" if "i \<le> ?m" for i
        using mono [OF that] m 1(6) lt by (meson le_less_trans less_le_trans)
      from step True lt have e: "lower_bound rs b lo hi = lower_bound rs b (?m + 1) hi" by (simp add: Let_def)
      have "base (rs ! i) < b" if "lo \<le> i" "i < lower_bound rs b (?m + 1) hi" for i
        using ih(1) [OF lt] 1(3,4,6) m * [of i] that by (cases "i \<le> ?m") simp_all
      with ih(1) [OF lt] 1(3,4,6) m show ?thesis unfolding e by simp
    next
      case ge: False
      have *: "b \<le> base (rs ! i)" if "?m \<le> i" "i < length rs" for i
        using mono [OF that] ge by simp
      from step True ge have e: "lower_bound rs b lo hi = lower_bound rs b lo ?m" by (simp add: Let_def)
      have "b \<le> base (rs ! i)" if "lower_bound rs b lo ?m \<le> i" "i < hi" for i
        using ih(2) [OF ge] 1(3,4,6) m * [of i] that by (cases "?m \<le> i") simp_all
      with ih(2) [OF ge] 1(3,4,6) m show ?thesis unfolding e by simp
    qed
  next
    case False
    then have e: "lower_bound rs b lo hi = lo" by (simp add: lower_bound.simps [of rs b lo hi])
    show ?thesis unfolding e using 1(5) False by auto
  qed
qed

text \<open>What a block handed to the table promises: it overlaps nothing the table holds.\<close>

definition apart :: "region \<Rightarrow> region \<Rightarrow> bool" where
  "apart r s \<longleftrightarrow> below r s \<or> below s r"

lemma insert_sorted:
  assumes "sorted_wrt below rs" "\<forall>s \<in> set rs. region_ok s" "region_ok r" "\<forall>s \<in> set rs. apart r s"
    and "lo = lower_bound rs (base r) 0 (length rs)"
  shows "sorted_wrt below (take lo rs @ r # drop lo rs)"
proof -
  note lb = lower_bound_props [OF assms(1,2) le0 order_refl, of "base r", folded assms(5)]
  have "below s r" if "s \<in> set (take lo rs)" for s
  proof -
    from that lb obtain i where i: "i < lo" "s = rs ! i" "i < length rs" by (auto simp: in_set_conv_nth)
    with lb have "base s < base r" by simp
    moreover have "apart r s" using i assms(4) by simp
    ultimately show ?thesis by (auto simp: apart_def below_def word_less_nat_alt)
  qed
  moreover have "below r s" if "s \<in> set (drop lo rs)" for s
  proof -
    from that lb obtain i where i: "lo \<le> i" "i < length rs" "s = rs ! i"
      by (auto simp: in_set_conv_nth) (metis add.commute le_add1 less_diff_conv)
    with lb have "base r \<le> base s" by simp
    moreover have "0 < unat (cap s)" using assms(2) i by (simp add: region_ok_def unat_gt_0)
    moreover have "apart r s" using i assms(4) by simp
    ultimately show ?thesis by (auto simp: apart_def below_def word_le_nat_alt)
  qed
  moreover have "sorted_wrt below (take lo rs @ drop lo rs)" using assms(1) by simp
  ultimately show ?thesis by (simp only: sorted_wrt_append sorted_wrt.simps) auto
qed

lemma base_eq_imp_idx:
  assumes "sorted_wrt below rs" "\<forall>s \<in> set rs. region_ok s" "i < length rs" "j < length rs"
    "unat (base (rs ! i)) = unat (base (rs ! j))"
  shows "i = j"
proof -
  have "region_ok (rs ! i)" "region_ok (rs ! j)" using assms by simp_all
  then have "in_region (rs ! i) (base (rs ! i))" "in_region (rs ! j) (base (rs ! i))"
    using assms(5) by (simp_all add: in_region_def region_ok_def unat_gt_0)
  then show ?thesis by (intro in_region_unique [OF assms(1,3,4)])
qed

lemma reindex_entry_simps [simp]:
  "g_arena_base (arena_reindex_entry rs i a) = g_arena_base a"
  "g_arena_bytes (arena_reindex_entry rs i a) = g_arena_bytes a"
  "g_arena_chunks (arena_reindex_entry rs i a) = g_arena_chunks a"
  "g_arena_next (arena_reindex_entry rs i a) = g_arena_next a"
  "g_chunk_free (arena_reindex_entry rs i a) = g_chunk_free a"
  "g_chunk_committed (arena_reindex_entry rs i a) = g_chunk_committed a"
  "length (g_chunk_ri (arena_reindex_entry rs i a)) = length (g_chunk_ri a)"
  by (simp_all add: arena_reindex_entry_def Let_def)

lemma reindex_fold_simps [simp]:
  "g_arena_base (fold (arena_reindex_entry rs) is a) = g_arena_base a"
  "g_arena_bytes (fold (arena_reindex_entry rs) is a) = g_arena_bytes a"
  "g_arena_chunks (fold (arena_reindex_entry rs) is a) = g_arena_chunks a"
  "g_arena_next (fold (arena_reindex_entry rs) is a) = g_arena_next a"
  "g_chunk_free (fold (arena_reindex_entry rs) is a) = g_chunk_free a"
  "g_chunk_committed (fold (arena_reindex_entry rs) is a) = g_chunk_committed a"
  "length (g_chunk_ri (fold (arena_reindex_entry rs) is a)) = length (g_chunk_ri a)"
  by (induction "is" arbitrary: a) simp_all

lemma same_arena_shape:
  "arena_shape (fold (arena_reindex_entry rs) is a) = arena_shape a"
  "arena_contains (fold (arena_reindex_entry rs) is a) = arena_contains a"
  "chunk_index (fold (arena_reindex_entry rs) is a) = chunk_index a"
  "chunk_base (fold (arena_reindex_entry rs) is a) = chunk_base a"
  "placed (fold (arena_reindex_entry rs) is a) = placed a"
  by (simp_all add: arena_shape_def arena_contains_def chunk_index_def chunk_base_def placed_def fun_eq_iff)

text \<open>The repair walk also runs while the table holds freed large entries, whose base is NULL.\<close>

definition entry_ok :: "arena \<Rightarrow> region \<Rightarrow> bool" where
  "entry_ok a r \<longleftrightarrow> base r = 0 \<or> region_ok r \<and> placed a r"

definition bases_distinct :: "region list \<Rightarrow> bool" where
  "bases_distinct rs \<longleftrightarrow> (\<forall>i j. i < length rs \<and> j < length rs \<and> base (rs ! i) \<noteq> 0 \<and>
     base (rs ! i) = base (rs ! j) \<longrightarrow> i = j)"

lemma sorted_bases_distinct: "sorted_wrt below rs \<Longrightarrow> \<forall>s \<in> set rs. region_ok s \<Longrightarrow> bases_distinct rs"
  unfolding bases_distinct_def using base_eq_imp_idx by auto

lemma chunk_base_pos: "arena_shape a \<Longrightarrow> c < g_arena_chunks a \<Longrightarrow> 0 < chunk_base a c"
  by (auto simp: arena_shape_def chunk_base_def unat_gt_0)

lemma bases_distinct_chunk:
  assumes "arena_shape a" "c < g_arena_chunks a" "bases_distinct rs" "i < length rs" "j < length rs"
    "unat (base (rs ! i)) = chunk_base a c" "unat (base (rs ! j)) = chunk_base a c"
  shows "i = j"
proof -
  from assms have "base (rs ! i) = base (rs ! j)" by (simp add: word_unat_eq_iff)
  moreover have "base (rs ! i) \<noteq> 0" using chunk_base_pos [OF assms(1,2)] assms(6) by (auto simp: unat_eq_zero)
  ultimately show ?thesis using assms(3-5) unfolding bases_distinct_def by blast
qed

lemma reindex_entry_ri:
  assumes "arena_shape a" "entry_ok a (rs ! i)" "c < g_arena_chunks a"
  shows "g_chunk_ri (arena_reindex_entry rs i a) ! c =
     (if unat (base (rs ! i)) = chunk_base a c then Some i else g_chunk_ri a ! c)"
proof (cases "base (rs ! i) = 0 \<or> \<not> arena_contains a (base (rs ! i))")
  case False
  then have nl: "\<not> is_large (rs ! i)" "base (rs ! i) \<noteq> 0" using assms by (simp_all add: placed_def entry_ok_def)
  let ?d = "chunk_index a (base (rs ! i))"
  from False assms(2) obtain d where d: "d < g_arena_chunks a" "unat (base (rs ! i)) = chunk_base a d"
    by (auto simp: placed_def entry_ok_def)
  then have "?d = d" by (intro chunk_index_unique(2) [OF assms(1)]) simp_all
  with d False nl assms show ?thesis
    by (simp add: arena_reindex_entry_def Let_def arena_shape_def nth_list_update chunk_base_inj)
next
  case True
  then have "unat (base (rs ! i)) \<noteq> chunk_base a c"
    using chunk_index_unique(1) [OF assms(1,3), of "base (rs ! i)"] chunk_base_pos [OF assms(1,3)] by auto
  with True show ?thesis by (auto simp: arena_reindex_entry_def Let_def)
qed

lemma reindex_fold_ri:
  assumes "arena_shape a" "\<forall>s \<in> set rs. entry_ok a s" "bases_distinct rs"
    and "c < g_arena_chunks a" "n \<le> length rs"
  shows "(\<forall>i. start \<le> i \<and> i < n \<and> unat (base (rs ! i)) = chunk_base a c \<longrightarrow>
            g_chunk_ri (fold (arena_reindex_entry rs) [start..<n] a) ! c = Some i) \<and>
         ((\<forall>i. start \<le> i \<and> i < n \<longrightarrow> unat (base (rs ! i)) \<noteq> chunk_base a c) \<longrightarrow>
            g_chunk_ri (fold (arena_reindex_entry rs) [start..<n] a) ! c = g_chunk_ri a ! c)"
  using assms(5)
proof (induction n)
  case (Suc n)
  show ?case
  proof (cases "start \<le> n")
    case True
    let ?a = "fold (arena_reindex_entry rs) [start..<n] a"
    have e: "g_chunk_ri (arena_reindex_entry rs n ?a) ! c =
        (if unat (base (rs ! n)) = chunk_base a c then Some n else g_chunk_ri ?a ! c)"
      using reindex_entry_ri [of ?a rs n c] assms Suc.prems by (simp add: same_arena_shape entry_ok_def)
    have u: "i = n" if "unat (base (rs ! i)) = chunk_base a c" "unat (base (rs ! n)) = chunk_base a c" "i \<le> n" for i
      using bases_distinct_chunk [OF assms(1,4,3), of i n] that Suc.prems by simp
    from Suc True u show ?thesis
      by (simp add: e less_Suc_eq_le) (metis le_neq_implies_less less_or_eq_imp_le)
  qed auto
qed simp

lemma reindex_from_chunks:
  assumes sh: "arena_shape (g_arena t)" and pl: "\<forall>s \<in> set (g_regions t). entry_ok (g_arena t) s"
    and so: "bases_distinct (g_regions t)"
    and lo: "\<And>c i. c < g_arena_chunks (g_arena t) \<Longrightarrow> i < start \<Longrightarrow> i < length (g_regions t) \<Longrightarrow>
          g_chunk_ri (g_arena t) ! c = Some i \<longleftrightarrow> unat (base (g_regions t ! i)) = chunk_base (g_arena t) c"
    and out: "\<And>c i. c < g_arena_chunks (g_arena t) \<Longrightarrow> g_chunk_ri (g_arena t) ! c = Some i \<Longrightarrow> start \<le> i \<Longrightarrow>
          \<exists>j. start \<le> j \<and> j < length (g_regions t) \<and> unat (base (g_regions t ! j)) = chunk_base (g_arena t) c"
    and st: "start \<le> length (g_regions t)" and c: "c < g_arena_chunks (g_arena t)"
  shows "g_chunk_ri (g_arena (arena_reindex_from start t)) ! c = Some i \<longleftrightarrow>
     i < length (g_regions t) \<and> unat (base (g_regions t ! i)) = chunk_base (g_arena t) c"
proof -
  let ?rs = "g_regions t" and ?a = "g_arena t"
  let ?a' = "fold (arena_reindex_entry ?rs) [start..<length ?rs] ?a"
  have "g_arena_base ?a \<noteq> 0" using sh c by (auto simp: arena_shape_def)
  then have e: "g_arena (arena_reindex_from start t) = ?a'" by (simp add: arena_reindex_from_def)
  note f = reindex_fold_ri [OF sh pl so c order_refl, of start]
  show ?thesis
  proof (cases "\<exists>j. start \<le> j \<and> j < length ?rs \<and> unat (base (?rs ! j)) = chunk_base ?a c")
    case True
    then obtain j where j: "start \<le> j" "j < length ?rs" "unat (base (?rs ! j)) = chunk_base ?a c" by blast
    with f have "g_chunk_ri ?a' ! c = Some j" by blast
    with j bases_distinct_chunk [OF sh c so, of i j] show ?thesis unfolding e by auto
  next
    case False
    with f have "g_chunk_ri ?a' ! c = g_chunk_ri ?a ! c" by blast
    with False lo [OF c, of i] out [OF c, of i] st show ?thesis unfolding e
      by (cases "i < start") auto
  qed
qed

lemma arena_reindex_from_simps [simp]:
  "g_regions (arena_reindex_from k t) = g_regions t"
  "g_heap_lo (arena_reindex_from k t) = g_heap_lo t"
  "g_heap_span (arena_reindex_from k t) = g_heap_span t"
  "arena_shape (g_arena (arena_reindex_from k t)) = arena_shape (g_arena t)"
  "placed (g_arena (arena_reindex_from k t)) = placed (g_arena t)"
  "chunk_base (g_arena (arena_reindex_from k t)) = chunk_base (g_arena t)"
  "g_arena_chunks (g_arena (arena_reindex_from k t)) = g_arena_chunks (g_arena t)"
  "g_arena_next (g_arena (arena_reindex_from k t)) = g_arena_next (g_arena t)"
  "g_chunk_free (g_arena (arena_reindex_from k t)) = g_chunk_free (g_arena t)"
  by (simp_all add: arena_reindex_from_def same_arena_shape)

lemma widen_bounds_simps [simp]:
  "g_regions (widen_bounds r t) = g_regions t" "g_arena (widen_bounds r t) = g_arena t"
  by (simp_all add: widen_bounds_def Let_def)

lemma widen_bounds_ok:
  assumes b: "unat (g_heap_lo t) + unat (g_heap_span t) < 2 ^ 64"
    and old: "\<And>s. s \<in> set (g_regions t) \<Longrightarrow> s \<noteq> r \<Longrightarrow> unat (g_heap_lo t) \<le> unat (base s) \<and>
        unat (base s) + unat (cap s) \<le> unat (g_heap_lo t) + unat (g_heap_span t)"
    and ok: "\<forall>s \<in> set (g_regions t). region_ok s" "region_ok r"
  shows "bounds_ok (widen_bounds r t)"
proof (cases "g_heap_span t = 0")
  case True
  have "s = r" if "s \<in> set (g_regions t)" for s
  proof (rule ccontr)
    assume "s \<noteq> r"
    moreover have "0 < unat (cap s)" using ok(1) that by (simp add: region_ok_def unat_gt_0)
    ultimately show False using old [OF that] True by simp
  qed
  with True ok(2) show ?thesis by (auto simp: bounds_ok_def widen_bounds_def region_ok_def Let_def)
next
  case False
  let ?rhi = "base r + cap r" and ?hi = "g_heap_lo t + g_heap_span t"
  have hi: "unat ?hi = unat (g_heap_lo t) + unat (g_heap_span t)" using b by (simp add: unat_word_ariths)
  have rhi: "unat ?rhi = unat (base r) + unat (cap r)" by (rule region_end [OF ok(2)])
  define lo where "lo = (if base r < g_heap_lo t then base r else g_heap_lo t)"
  define h where "h = (if ?rhi > ?hi then ?rhi else ?hi)"
  have w: "widen_bounds r t = t\<lparr>g_heap_lo := lo, g_heap_span := h - lo\<rparr>"
    using False ok(2) by (simp add: widen_bounds_def region_ok_def Let_def lo_def h_def)
  have lo: "unat lo = min (unat (base r)) (unat (g_heap_lo t))" by (simp add: lo_def word_less_nat_alt)
  have h: "unat h = max (unat ?rhi) (unat ?hi)" by (simp add: h_def word_less_nat_alt)
  have "unat (h - lo) = unat h - unat lo"
    using lo h hi by (intro unat_sub) (simp add: word_le_nat_alt)
  moreover have "unat lo \<le> unat h" using lo h hi by linarith
  ultimately have sum: "unat lo + unat (h - lo) = unat h" by simp
  have "unat lo \<le> unat (base s) \<and> unat (base s) + unat (cap s) \<le> unat h" if "s \<in> set (g_regions t)" for s
    using old [OF that] lo h hi rhi by (cases "s = r") auto
  moreover have "unat h < 2 ^ 64" using unsigned_less [of h] by simp
  ultimately show ?thesis by (simp add: bounds_ok_def w sum)
qed

lemma nth_insert:
  "k \<le> length xs \<Longrightarrow> (take k xs @ x # drop k xs) ! i = (if i < k then xs ! i else if i = k then x else xs ! (i - 1))"
  by (auto simp: nth_append nth_Cons' min_def)

lemma nth_delete:
  "k < length xs \<Longrightarrow> (take k xs @ drop (k + 1) xs) ! i = (if i < k then xs ! i else xs ! (i + 1))"
  if "i < length xs - 1"
  using that by (auto simp: nth_append min_def)

lemma table_insert_inv:
  assumes inv: "table_inv t" and r: "region_ok r" "\<forall>s \<in> set (g_regions t). apart r s" "placed (g_arena t) r"
    and ch: "\<And>c. c < g_arena_chunks (g_arena t) \<Longrightarrow> unat (base r) = chunk_base (g_arena t) c \<Longrightarrow>
           c \<notin> set (g_chunk_free (g_arena t)) \<and> c < g_arena_next (g_arena t)"
  shows "table_inv (region_table_insert r t)"
    and "set (g_regions (region_table_insert r t)) = insert r (set (g_regions t))"
proof -
  let ?rs = "g_regions t" and ?a = "g_arena t"
  define lo where "lo = lower_bound ?rs (base r) 0 (length ?rs)"
  define rs' where "rs' = take lo ?rs @ r # drop lo ?rs"
  define t1 where "t1 = t\<lparr>g_regions := rs'\<rparr>"
  define t2 where "t2 = arena_reindex_from lo t1"
  have res: "region_table_insert r t = widen_bounds r t2"
    by (simp add: region_table_insert_def Let_def t2_def t1_def rs'_def lo_def)
  from inv have s: "sorted_wrt below ?rs" and ok: "\<forall>s \<in> set ?rs. region_ok s" and b: "bounds_ok t"
    and sh: "arena_shape ?a" and pl: "\<forall>s \<in> set ?rs. placed ?a s" and ck: "chunks_ok ?rs ?a"
    by (simp_all add: table_inv_def)
  have ll: "lo \<le> length ?rs" using lower_bound_props [OF s ok le0 order_refl, of "base r"] by (simp add: lo_def)
  have "set (take lo ?rs @ drop lo ?rs) = set ?rs" by simp
  then have set': "set rs' = insert r (set ?rs)" by (auto simp: rs'_def simp del: append_take_drop_id)
  have len': "length rs' = Suc (length ?rs)" using ll by (simp add: rs'_def)
  have nth': "rs' ! i = (if i < lo then ?rs ! i else if i = lo then r else ?rs ! (i - 1))" for i
    unfolding rs'_def by (rule nth_insert [OF ll])
  have so': "sorted_wrt below rs'" unfolding rs'_def by (rule insert_sorted [OF s ok r(1,2) lo_def])
  have ok': "\<forall>s \<in> set rs'. region_ok s" and pl': "\<forall>s \<in> set rs'. placed ?a s" using ok pl r set' by auto
  have old: "g_chunk_ri ?a ! c = Some i \<longleftrightarrow> i < length ?rs \<and> unat (base (?rs ! i)) = chunk_base ?a c"
    if "c < g_arena_chunks ?a" for c i using ck that by (simp add: chunks_ok_def)
  have ri: "g_chunk_ri (g_arena t2) ! c = Some i \<longleftrightarrow> i < length rs' \<and> unat (base (rs' ! i)) = chunk_base ?a c"
    if c: "c < g_arena_chunks ?a" for c i
    unfolding t2_def
  proof (subst reindex_from_chunks)
    fix c i assume "c < g_arena_chunks (g_arena t1)" "g_chunk_ri (g_arena t1) ! c = Some i" "lo \<le> i"
    then show "\<exists>j\<ge>lo. j < length (g_regions t1) \<and> unat (base (g_regions t1 ! j)) = chunk_base (g_arena t1) c"
      using old [of c i] by (intro exI [of _ "i + 1"]) (simp add: t1_def len' nth')
  qed (use sh pl' ok' sorted_bases_distinct [OF so' ok'] ll old c in \<open>auto simp: t1_def len' nth' entry_ok_def\<close>)
  have free: "g_chunk_ri (g_arena t2) ! c = None"
    if c: "c < g_arena_chunks ?a" "c \<in> set (g_chunk_free ?a) \<or> g_arena_next ?a \<le> c" for c
  proof -
    have "g_chunk_ri ?a ! c = None" using ck c unfolding chunks_ok_def by blast
    with old [OF c(1)] have "unat (base s) \<noteq> chunk_base ?a c" if "s \<in> set ?rs" for s
      using that unfolding in_set_conv_nth by force
    moreover have "unat (base r) \<noteq> chunk_base ?a c" using ch [OF c(1)] c(2) by auto
    ultimately have "\<not> (i < length rs' \<and> unat (base (rs' ! i)) = chunk_base ?a c)" for i
      using set' nth_mem [of i rs'] by auto
    with ri [OF c(1)] show ?thesis by (cases "g_chunk_ri (g_arena t2) ! c") auto
  qed
  have t2: "g_regions t2 = rs'" "g_heap_lo t2 = g_heap_lo t" "g_heap_span t2 = g_heap_span t"
    by (simp_all add: t2_def t1_def)
  have "bounds_ok (widen_bounds r t2)"
    using b ok' r(1) by (intro widen_bounds_ok) (auto simp: bounds_ok_def t2 set')
  moreover have "chunks_ok rs' (g_arena t2)"
    unfolding chunks_ok_def using ri free by (simp add: t2_def t1_def)
  ultimately show "table_inv (region_table_insert r t)"
    unfolding res table_inv_def using so' ok' sh pl' by (simp add: t2) (simp add: t2_def t1_def)
  show "set (g_regions (region_table_insert r t)) = insert r (set ?rs)"
    by (simp add: res t2 set')
qed

text \<open>The invariant while freed large entries are still in the table.\<close>

definition alive :: "region list \<Rightarrow> region list" where
  "alive rs = filter (\<lambda>r. base r \<noteq> 0) rs"

definition loose_inv :: "region_table \<Rightarrow> bool" where
  "loose_inv t \<longleftrightarrow> sorted_wrt below (alive (g_regions t)) \<and> (\<forall>r \<in> set (g_regions t). entry_ok (g_arena t) r) \<and>
     bases_distinct (g_regions t) \<and> bounds_ok (t\<lparr>g_regions := alive (g_regions t)\<rparr>) \<and>
     arena_shape (g_arena t) \<and> chunks_ok (g_regions t) (g_arena t)"

lemma table_inv_iff_loose: "table_inv t \<longleftrightarrow> loose_inv t \<and> (\<forall>r \<in> set (g_regions t). base r \<noteq> 0)"
proof (cases "\<forall>r \<in> set (g_regions t). base r \<noteq> 0")
  case True
  then have a: "alive (g_regions t) = g_regions t" by (simp add: alive_def)
  have e: "(\<forall>r \<in> set (g_regions t). entry_ok (g_arena t) r) \<longleftrightarrow>
      (\<forall>r \<in> set (g_regions t). region_ok r) \<and> (\<forall>r \<in> set (g_regions t). placed (g_arena t) r)"
    using True by (auto simp: entry_ok_def)
  show ?thesis
    unfolding table_inv_def loose_inv_def a e using True sorted_bases_distinct by (auto simp: bounds_ok_def)
qed (auto simp: table_inv_def region_ok_def)

lemma alive_delete: "i < length rs \<Longrightarrow> alive (take i rs @ drop (i + 1) rs) =
    alive (take i rs) @ alive (drop (i + 1) rs)"
  by (simp add: alive_def)

lemma subseq_sorted: "sorted_wrt P (xs @ y # ys) \<Longrightarrow> sorted_wrt P (xs @ ys)"
  by (simp add: sorted_wrt_append)

lemma alive_split: "i < length rs \<Longrightarrow>
    alive rs = alive (take i rs) @ (if base (rs ! i) \<noteq> 0 then [rs ! i] else []) @ alive (drop (i + 1) rs)"
  by (subst id_take_nth_drop [of i rs]) (simp_all add: alive_def)

lemma sorted_alive_delete:
  "sorted_wrt below (alive rs) \<Longrightarrow> i < length rs \<Longrightarrow> sorted_wrt below (alive (take i rs @ drop (i + 1) rs))"
  by (simp only: alive_delete alive_split [of i rs]) (auto simp: sorted_wrt_append split: if_splits)

lemma set_delete_subset: "set (take i rs @ drop (i + 1) rs) \<subseteq> set rs"
  using set_take_subset [of i rs] set_drop_subset [of "i + 1" rs] by auto

lemma remove_loose:
  assumes inv: "loose_inv t" and k: "k < length (g_regions t)"
    and sh: "arena_shape a" and same: "g_arena_base a = g_arena_base (g_arena t)"
      "g_arena_bytes a = g_arena_bytes (g_arena t)" "g_arena_chunks a = g_arena_chunks (g_arena t)"
    and ri: "\<And>c i. c < g_arena_chunks a \<Longrightarrow> g_chunk_ri a ! c = Some i \<longleftrightarrow> i \<noteq> k \<and> g_chunk_ri (g_arena t) ! c = Some i"
    and fr: "\<And>c. c < g_arena_chunks a \<Longrightarrow> c \<in> set (g_chunk_free a) \<or> g_arena_next a \<le> c \<Longrightarrow> g_chunk_ri a ! c = None"
  shows "loose_inv (region_table_remove k (t\<lparr>g_arena := a\<rparr>))"
proof -
  let ?rs = "g_regions t"
  define rs' where "rs' = take k ?rs @ drop (k + 1) ?rs"
  define t1 where "t1 = t\<lparr>g_arena := a, g_regions := rs'\<rparr>"
  define t2 where "t2 = arena_reindex_from k t1"
  have res: "region_table_remove k (t\<lparr>g_arena := a\<rparr>) = t2"
    by (simp add: region_table_remove_def t2_def t1_def rs'_def)
  from inv have s: "sorted_wrt below (alive ?rs)" and ok: "\<forall>s \<in> set ?rs. entry_ok (g_arena t) s"
    and bd: "bases_distinct ?rs" and b: "bounds_ok (t\<lparr>g_regions := alive ?rs\<rparr>)" and ck: "chunks_ok ?rs (g_arena t)"
    by (simp_all add: loose_inv_def)
  have len': "length rs' = length ?rs - 1" using k by (simp add: rs'_def)
  have nth': "rs' ! i = (if i < k then ?rs ! i else ?rs ! (i + 1))" if "i < length rs'" for i
    unfolding rs'_def by (rule nth_delete) (use that k len' in simp_all)
  have sub: "set rs' \<subseteq> set ?rs" unfolding rs'_def by (rule set_delete_subset)
  have pe: "placed a = placed (g_arena t)" "chunk_base a = chunk_base (g_arena t)"
    by (simp_all add: placed_def chunk_base_def arena_contains_def same fun_eq_iff)
  have ok': "\<forall>s \<in> set rs'. entry_ok a s" using ok sub by (auto simp: entry_ok_def pe)
  have bd': "bases_distinct rs'"
    unfolding bases_distinct_def
  proof (intro allI impI, elim conjE)
    fix i j assume ij: "i < length rs'" "j < length rs'" "base (rs' ! i) \<noteq> 0" "base (rs' ! i) = base (rs' ! j)"
    let ?f = "\<lambda>i. if i < k then i else i + 1"
    have f: "?f i < length ?rs" "?f j < length ?rs" using ij(1,2) k len' by auto
    have "rs' ! i = ?rs ! ?f i" "rs' ! j = ?rs ! ?f j" using nth' ij(1,2) by simp_all
    then have "?f i = ?f j" using bd [unfolded bases_distinct_def, rule_format, of "?f i" "?f j"] ij(3,4) f by simp
    then show "i = j" by (auto split: if_splits)
  qed
  have old: "g_chunk_ri (g_arena t) ! c = Some i \<longleftrightarrow> i < length ?rs \<and> unat (base (?rs ! i)) = chunk_base a c"
    if "c < g_arena_chunks a" for c i using ck that same by (simp add: chunks_ok_def pe)
  have ri2: "g_chunk_ri (g_arena t2) ! c = Some i \<longleftrightarrow> i < length rs' \<and> unat (base (rs' ! i)) = chunk_base a c"
    if c: "c < g_arena_chunks a" for c i
    unfolding t2_def
  proof (subst reindex_from_chunks)
    fix c i assume c: "c < g_arena_chunks (g_arena t1)" and r: "g_chunk_ri (g_arena t1) ! c = Some i" and i: "k \<le> i"
    then have "i \<noteq> k" "i < length ?rs" "unat (base (?rs ! i)) = chunk_base a c"
      using ri [of c i] old [of c i] by (simp_all add: t1_def)
    with i show "\<exists>j\<ge>k. j < length (g_regions t1) \<and> unat (base (g_regions t1 ! j)) = chunk_base (g_arena t1) c"
      by (intro exI [of _ "i - 1"]) (auto simp: t1_def len' nth')
  qed (use sh ok' bd' k ri old c in \<open>auto simp: t1_def len' nth'\<close>)
  have "g_chunk_ri (g_arena t2) ! c = None"
    if c: "c < g_arena_chunks a" "c \<in> set (g_chunk_free a) \<or> g_arena_next a \<le> c" for c
  proof (cases "g_chunk_ri (g_arena t2) ! c")
    case (Some i)
    then have i: "i < length rs'" "unat (base (rs' ! i)) = chunk_base a c" using ri2 [OF c(1)] by auto
    let ?j = "if i < k then i else i + 1"
    have "g_chunk_ri (g_arena t) ! c = Some ?j" using i nth' [of i] old [OF c(1), of ?j] k len' by auto
    then have "g_chunk_ri a ! c = Some ?j" using ri [OF c(1), of ?j] by auto
    with fr [OF c] show ?thesis by simp
  qed
  with ri2 have "chunks_ok rs' (g_arena t2)" unfolding chunks_ok_def by (simp add: t2_def t1_def)
  moreover have "bounds_ok (t2\<lparr>g_regions := alive rs'\<rparr>)"
    using b sub by (auto simp: bounds_ok_def t2_def t1_def alive_def)
  ultimately show ?thesis
    unfolding res loose_inv_def using sorted_alive_delete [OF s k, folded rs'_def] ok' bd' sh
    by (simp add: t2_def t1_def entry_ok_def)
qed

lemma remove_dead_loose:
  assumes "loose_inv t" "k < length (g_regions t)" "base (g_regions t ! k) = 0"
  shows "loose_inv (region_table_remove k t)"
proof -
  have sh: "arena_shape (g_arena t)" and ck: "chunks_ok (g_regions t) (g_arena t)"
    using assms by (simp_all add: loose_inv_def)
  have "g_chunk_ri (g_arena t) ! c \<noteq> Some k" if "c < g_arena_chunks (g_arena t)" for c
    using ck chunk_base_pos [OF sh that] assms(3) that by (auto simp: chunks_ok_def)
  then have "loose_inv (region_table_remove k (t\<lparr>g_arena := g_arena t\<rparr>))"
    using ck by (intro remove_loose [OF assms(1,2) sh]) (auto simp: chunks_ok_def)
  then show ?thesis by simp
qed

lemma release_loose:
  assumes inv: "loose_inv t" and k: "k < length (g_regions t)" and nz: "base (g_regions t ! k) \<noteq> 0"
  shows "loose_inv (release_region k t)"
proof -
  let ?a = "g_arena t" and ?r = "g_regions t ! k"
  have sh: "arena_shape ?a" and ck: "chunks_ok (g_regions t) ?a" and e: "entry_ok ?a ?r"
    using assms by (simp_all add: loose_inv_def)
  have cki: "g_chunk_ri ?a ! c = Some i \<longleftrightarrow> i < length (g_regions t) \<and> unat (base (g_regions t ! i)) = chunk_base ?a c"
    and ckn: "c \<in> set (g_chunk_free ?a) \<or> g_arena_next ?a \<le> c \<Longrightarrow> g_chunk_ri ?a ! c = None"
    if "c < g_arena_chunks ?a" for c i using ck that unfolding chunks_ok_def by blast+
  show ?thesis
  proof (cases "arena_contains ?a (base ?r)")
    case False
    have "g_chunk_ri ?a ! c \<noteq> Some k" if "c < g_arena_chunks ?a" for c
    proof
      assume "g_chunk_ri ?a ! c = Some k"
      then have "unat (base ?r) = chunk_base ?a c" using cki [OF that, of k] by simp
      then have "arena_contains ?a (base ?r)" by (intro chunk_index_unique(1) [OF sh that]) simp_all
      with False show False by simp
    qed
    then have "loose_inv (region_table_remove k (t\<lparr>g_arena := ?a\<rparr>))"
      using ckn by (intro remove_loose [OF inv k sh]) auto
    with False show ?thesis by (simp add: release_region_def Let_def)
  next
    case True
    let ?c = "chunk_index ?a (base ?r)"
    let ?a' = "arena_chunk_release (base ?r) ?a"
    have cl: "?c < g_arena_chunks ?a" by (rule chunk_index_less [OF sh True])
    have cb: "unat (base ?r) = chunk_base ?a ?c"
    proof -
      from True e nz obtain d where "d < g_arena_chunks ?a" "unat (base ?r) = chunk_base ?a d"
        by (auto simp: entry_ok_def placed_def)
      then show ?thesis using chunk_index_unique(2) [OF sh, of d "base ?r"] by simp
    qed
    then have rk: "g_chunk_ri ?a ! ?c = Some k" using cki [OF cl] k by simp
    from ckn [OF cl] rk have "\<not> (?c \<in> set (g_chunk_free ?a) \<or> g_arena_next ?a \<le> ?c)" by (metis option.distinct(1))
    then have nf: "?c \<notin> set (g_chunk_free ?a)" "?c < g_arena_next ?a" by simp_all
    have a': "g_chunk_ri ?a' = (g_chunk_ri ?a)[?c := None]" "g_arena_base ?a' = g_arena_base ?a"
      "g_arena_bytes ?a' = g_arena_bytes ?a" "g_arena_chunks ?a' = g_arena_chunks ?a"
      "g_arena_next ?a' = g_arena_next ?a" "g_chunk_committed ?a' = g_chunk_committed ?a"
      "g_chunk_free ?a' = g_chunk_free ?a \<or> g_chunk_free ?a' = ?c # g_chunk_free ?a"
      by (simp_all add: arena_chunk_release_def Let_def)
    have sh': "arena_shape ?a'" using sh nf a' by (auto simp: arena_shape_def)
    have len: "length (g_chunk_ri ?a) = g_arena_chunks ?a" using sh by (simp add: arena_shape_def)
    have ri': "g_chunk_ri ?a' ! c = (if c = ?c then None else g_chunk_ri ?a ! c)" for c
      using cl len by (auto simp: a'(1) nth_list_update)
    have "loose_inv (region_table_remove k (t\<lparr>g_arena := ?a'\<rparr>))"
    proof (rule remove_loose [OF inv k sh'])
      fix c i assume "c < g_arena_chunks ?a'"
      then have c: "c < g_arena_chunks ?a" by (simp only: a')
      show "g_chunk_ri ?a' ! c = Some i \<longleftrightarrow> i \<noteq> k \<and> g_chunk_ri ?a ! c = Some i"
      proof (cases "c = ?c")
        case False
        then have "g_chunk_ri ?a ! c \<noteq> Some k" using cki [OF c, of k] cb chunk_base_inj [of ?a c ?c] by simp
        with False show ?thesis unfolding ri' by auto
      qed (use rk in \<open>auto simp: ri'\<close>)
    next
      fix c assume "c < g_arena_chunks ?a'" and f: "c \<in> set (g_chunk_free ?a') \<or> g_arena_next ?a' \<le> c"
      then have c: "c < g_arena_chunks ?a" by (simp only: a')
      show "g_chunk_ri ?a' ! c = None"
      proof (cases "c = ?c")
        case False
        with f a'(5,7) have "c \<in> set (g_chunk_free ?a) \<or> g_arena_next ?a \<le> c" by auto
        with ckn [OF c] show ?thesis unfolding ri' by simp
      qed (simp add: ri')
    qed (simp_all add: a')
    with True show ?thesis by (simp add: release_region_def Let_def)
  qed
qed

text \<open>A chunk taken from the arena is free and is no longer offered.\<close>

lemma arena_chunk_alloc_props:
  assumes sh: "arena_shape a" and r: "arena_chunk_alloc commit_ok a = (a', ch)"
  shows "arena_shape a'" "g_arena_base a' = g_arena_base a" "g_arena_bytes a' = g_arena_bytes a"
    "g_arena_chunks a' = g_arena_chunks a" "g_chunk_ri a' = g_chunk_ri a" "g_arena_next a \<le> g_arena_next a'"
    "set (g_chunk_free a') \<subseteq> set (g_chunk_free a)"
    "ch = Some b \<Longrightarrow> \<exists>c < g_arena_chunks a. b = g_arena_base a + push_bit region_shift (word_of_nat c) \<and>
        c \<notin> set (g_chunk_free a') \<and> c < g_arena_next a' \<and> (c \<in> set (g_chunk_free a) \<or> g_arena_next a \<le> c)"
proof -
  have "arena_shape a' \<and> g_arena_base a' = g_arena_base a \<and> g_arena_bytes a' = g_arena_bytes a \<and>
    g_arena_chunks a' = g_arena_chunks a \<and> g_chunk_ri a' = g_chunk_ri a \<and> g_arena_next a \<le> g_arena_next a' \<and>
    set (g_chunk_free a') \<subseteq> set (g_chunk_free a) \<and>
    (ch = Some b \<longrightarrow> (\<exists>c < g_arena_chunks a. b = g_arena_base a + push_bit region_shift (word_of_nat c) \<and>
        c \<notin> set (g_chunk_free a') \<and> c < g_arena_next a' \<and> (c \<in> set (g_chunk_free a) \<or> g_arena_next a \<le> c)))"
  proof (cases "g_chunk_free a")
    case Nil
    then show ?thesis
      using sh r by (auto simp: arena_chunk_alloc_def arena_shape_def Let_def split: if_splits)
  next
    case (Cons c cs)
    then have "c < g_arena_chunks a" "c < g_arena_next a" using sh by (auto simp: arena_shape_def)
    with Cons sh r show ?thesis
      by (auto simp: arena_chunk_alloc_def arena_shape_def Let_def split: if_splits intro!: exI [of _ c])
  qed
  then show "arena_shape a'" "g_arena_base a' = g_arena_base a" "g_arena_bytes a' = g_arena_bytes a"
    "g_arena_chunks a' = g_arena_chunks a" "g_chunk_ri a' = g_chunk_ri a" "g_arena_next a \<le> g_arena_next a'"
    "set (g_chunk_free a') \<subseteq> set (g_chunk_free a)"
    "ch = Some b \<Longrightarrow> \<exists>c < g_arena_chunks a. b = g_arena_base a + push_bit region_shift (word_of_nat c) \<and>
        c \<notin> set (g_chunk_free a') \<and> c < g_arena_next a' \<and> (c \<in> set (g_chunk_free a) \<or> g_arena_next a \<le> c)"
    by blast+
qed

lemma chunk_addr:
  assumes "arena_shape a" "c < g_arena_chunks a"
  shows "unat (g_arena_base a + push_bit region_shift (word_of_nat c)) = chunk_base a c"
    and "chunk_base a c + 2 ^ 20 < 2 ^ 64"
proof -
  have m: "c * 2 ^ 20 + 2 ^ 20 \<le> g_arena_chunks a * 2 ^ 20" using assms(2)
    by (metis Suc_leI add.commute mult_Suc mult_le_mono1)
  with assms(1) show b: "chunk_base a c + 2 ^ 20 < 2 ^ 64" by (simp add: arena_shape_def chunk_base_def)
  then have "unat (push_bit region_shift (word_of_nat c) :: 64 word) = c * 2 ^ 20"
    by (simp add: region_shift_def push_bit_eq_mult chunk_base_def unat_word_ariths(2) unat_of_nat)
  with b show "unat (g_arena_base a + push_bit region_shift (word_of_nat c)) = chunk_base a c"
    by (simp add: unat_word_ariths(1) chunk_base_def)
qed

text \<open>What \<^verbatim>\<open>malloc\<close> promises of a block: it lies apart from every region and from the reservation.\<close>

definition malloc_fresh :: "region_table \<Rightarrow> addr \<Rightarrow> 64 word \<Rightarrow> bool" where
  "malloc_fresh t b n \<longleftrightarrow> b \<noteq> 0 \<and> n \<noteq> 0 \<and> unat b + unat n < 2 ^ 64 \<and>
     (\<forall>s \<in> set (g_regions t). unat b + unat n \<le> unat (base s) \<or> unat (base s) + unat (cap s) \<le> unat b) \<and>
     (unat b + unat n \<le> unat (g_arena_base (g_arena t)) \<or>
      unat (g_arena_base (g_arena t)) + unat (g_arena_bytes (g_arena t)) \<le> unat b)"

lemma malloc_block_insert_inv:
  assumes inv: "table_inv t" and m: "malloc_fresh t (base r) (cap r)"
  shows "table_inv (region_table_insert r t)"
proof -
  from inv have sh: "arena_shape (g_arena t)" by (simp add: table_inv_def)
  then have nc: "\<not> arena_contains (g_arena t) (base r)"
    using m unat_gt_0 [of "cap r"] by (auto simp: arena_contains_iff malloc_fresh_def arena_shape_def)
  show ?thesis
  proof (rule table_insert_inv(1) [OF inv])
    show "region_ok r" "\<forall>s \<in> set (g_regions t). apart r s"
      using m by (auto simp: malloc_fresh_def region_ok_def apart_def below_def)
    show "placed (g_arena t) r" using nc m by (simp add: placed_def malloc_fresh_def)
    fix c assume "c < g_arena_chunks (g_arena t)" "unat (base r) = chunk_base (g_arena t) c"
    then have "arena_contains (g_arena t) (base r)" using chunk_index_unique(1) [OF sh, of c "base r"] by simp
    with nc show "c \<notin> set (g_chunk_free (g_arena t)) \<and> c < g_arena_next (g_arena t)" by simp
  qed
qed

lemma chunk_region_apart:
  assumes inv: "table_inv t" and c: "c < g_arena_chunks (g_arena t)"
    and free: "g_chunk_ri (g_arena t) ! c = None" and s: "s \<in> set (g_regions t)"
    and r: "unat (base r) = chunk_base (g_arena t) c" "cap r = region_size"
  shows "apart r s"
proof (rule ccontr)
  assume n: "\<not> apart r s"
  let ?a = "g_arena t"
  from inv s have sh: "arena_shape ?a" and pl: "placed ?a s" and ok: "region_ok s" and ck: "chunks_ok (g_regions t) ?a"
    by (simp_all add: table_inv_def)
  have end1: "chunk_base ?a c + 2 ^ 20 \<le> unat (g_arena_base ?a) + unat (g_arena_bytes ?a)"
  proof -
    have "c * 2 ^ 20 + 2 ^ 20 \<le> g_arena_chunks ?a * 2 ^ 20" using c by (metis Suc_leI add.commute mult_Suc mult_le_mono1)
    with sh show ?thesis by (simp add: arena_shape_def chunk_base_def)
  qed
  have "arena_contains ?a (base s)"
  proof (rule ccontr)
    assume "\<not> arena_contains ?a (base s)"
    with pl n r end1 show False
      by (auto simp: placed_def apart_def below_def unat_region_size chunk_base_def)
  qed
  with pl obtain d where d: "d < g_arena_chunks ?a" "unat (base s) = chunk_base ?a d" "cap s = region_size"
    by (auto simp: placed_def)
  have "c = d"
  proof (rule ccontr)
    assume "c \<noteq> d"
    then have "c * 2 ^ 20 + 2 ^ 20 \<le> d * 2 ^ 20 \<or> d * 2 ^ 20 + 2 ^ 20 \<le> c * 2 ^ 20"
      by (metis Suc_leI add.commute linorder_neqE_nat mult_Suc mult_le_mono1)
    with n r d show False by (simp add: apart_def below_def unat_region_size chunk_base_def)
  qed
  moreover from s obtain i where "i < length (g_regions t)" "g_regions t ! i = s" by (auto simp: in_set_conv_nth)
  ultimately have "g_chunk_ri ?a ! c = Some i" using ck c d unfolding chunks_ok_def by blast
  with free show False by simp
qed

lemma table_inv_arena_swap:
  assumes inv: "table_inv t" and sh: "arena_shape a'" and same: "g_arena_base a' = g_arena_base (g_arena t)"
    "g_arena_bytes a' = g_arena_bytes (g_arena t)" "g_arena_chunks a' = g_arena_chunks (g_arena t)"
    "g_chunk_ri a' = g_chunk_ri (g_arena t)" "g_arena_next (g_arena t) \<le> g_arena_next a'"
    "set (g_chunk_free a') \<subseteq> set (g_chunk_free (g_arena t))"
  shows "table_inv (t\<lparr>g_arena := a'\<rparr>)"
proof -
  have e: "placed a' = placed (g_arena t)" "chunk_base a' = chunk_base (g_arena t)"
    by (simp_all add: placed_def chunk_base_def arena_contains_def same fun_eq_iff)
  from inv have ck: "chunks_ok (g_regions t) (g_arena t)" by (simp add: table_inv_def)
  then have "chunks_ok (g_regions t) a'"
    using same by (auto simp: chunks_ok_def e)
  with inv sh show ?thesis by (simp add: table_inv_def e bounds_ok_def)
qed

lemma open_new_region_inv:
  assumes inv: "table_inv t" and r: "open_new_region commit_ok m t = Inr (t', i)"
    and m: "\<And>b. m = Some b \<Longrightarrow> malloc_fresh t b region_size"
  shows "table_inv t'"
proof -
  let ?a = "g_arena t"
  from inv have sh: "arena_shape ?a" by (simp add: table_inv_def)
  obtain a' ch where a: "arena_chunk_alloc commit_ok ?a = (a', ch)" by fastforce
  note p = arena_chunk_alloc_props [OF sh a]
  let ?t1 = "t\<lparr>g_arena := a'\<rparr>"
  have inv1: "table_inv ?t1" by (rule table_inv_arena_swap [OF inv p(1-7)])
  from r a obtain b where b: "(case ch of Some c \<Rightarrow> Some c | None \<Rightarrow> m) = Some b"
    and t': "t' = (region_table_insert (fresh_region b) ?t1)\<lparr>g_open_region_hint := i\<rparr>"
    by (auto simp: open_new_region_def Let_def split: option.splits)
  have hint: "table_inv (u\<lparr>g_open_region_hint := i\<rparr>) \<longleftrightarrow> table_inv u" for u
    by (simp add: table_inv_def bounds_ok_def)
  have "table_inv (region_table_insert (fresh_region b) ?t1)"
  proof (cases ch)
    case None
    with b m have "malloc_fresh t b region_size" by simp
    then have "malloc_fresh ?t1 b region_size" by (simp add: malloc_fresh_def p)
    then show ?thesis by (intro malloc_block_insert_inv [OF inv1]) (simp add: fresh_region_def)
  next
    case (Some b')
    with b p(8) [of b] obtain c where c: "c < g_arena_chunks ?a"
      "b = g_arena_base ?a + push_bit region_shift (word_of_nat c)"
      "c \<notin> set (g_chunk_free a')" "c < g_arena_next a'" "c \<in> set (g_chunk_free ?a) \<or> g_arena_next ?a \<le> c"
      by auto
    have cb: "chunk_base a' = chunk_base ?a" by (simp add: chunk_base_def p fun_eq_iff)
    have ub: "unat b = chunk_base a' c" using chunk_addr(1) [OF sh c(1)] c(2) by (simp add: cb)
    have free: "g_chunk_ri a' ! c = None" using inv c(1,5) p(5) by (auto simp: table_inv_def chunks_ok_def)
    have cont: "arena_contains a' b"
      using chunk_index_unique(1) [OF p(1), of c b] c(1) ub by (simp add: p)
    show ?thesis
    proof (rule table_insert_inv(1) [OF inv1])
      show "region_ok (fresh_region b)"
        using chunk_base_pos [OF p(1), of c] chunk_addr(2) [OF p(1), of c] c(1) ub
        by (auto simp: region_ok_def fresh_region_def unat_region_size p) (simp add: region_size_def)
      show "\<forall>s \<in> set (g_regions ?t1). apart (fresh_region b) s"
        using chunk_region_apart [OF inv1, of c] free c(1) ub by (simp add: fresh_region_def p)
      show "placed (g_arena ?t1) (fresh_region b)"
        using cont c(1) ub by (auto simp: placed_def fresh_region_def p)
      fix d assume "d < g_arena_chunks (g_arena ?t1)" "unat (base (fresh_region b)) = chunk_base (g_arena ?t1) d"
      then show "d \<notin> set (g_chunk_free (g_arena ?t1)) \<and> d < g_arena_next (g_arena ?t1)"
        using ub c by (simp add: fresh_region_def chunk_base_inj)
    qed
  qed
  with t' hint show ?thesis by simp
qed

section \<open>Runs of the table\<close>

definition init_table :: "arena \<Rightarrow> region_table" where
  "init_table a = \<lparr>g_regions = [], g_heap_lo = - 1, g_heap_span = 0, g_arena = a, g_open_region_hint = 0\<rparr>"

text \<open>What a granted reservation promises: a non-null address range that does not wrap.\<close>

definition reserve_ok :: "(nat \<Rightarrow> addr option) \<Rightarrow> bool" where
  "reserve_ok reserve \<longleftrightarrow> (\<forall>n p. reserve n = Some p \<longrightarrow> p \<noteq> 0 \<and> unat p + n < 2 ^ 64)"

lemma arena_reserve_shape: "reserve_ok reserve \<Longrightarrow> arena_shape (arena_reserve reserve mb)"
proof (induction reserve mb rule: arena_reserve.induct)
  case (1 reserve mb)
  show ?case
  proof (cases "mb \<ge> 1")
    case True
    show ?thesis
    proof (cases "reserve (mb * 2 ^ 20)")
      case None
      with 1(1) [OF True None 1(2)] True show ?thesis by (simp add: arena_reserve.simps [of reserve mb])
    next
      case (Some p)
      with 1(2) have p: "p \<noteq> 0" "unat p + mb * 2 ^ 20 < 2 ^ 64" unfolding reserve_ok_def by blast+
      then have "unat (word_of_nat (mb * 2 ^ 20) :: 64 word) = mb * 2 ^ 20" by (simp only: unat_of_nat) simp
      with Some True p show ?thesis
        by (simp add: arena_reserve.simps [of reserve mb] arena_shape_def Let_def region_shift_def)
    qed
  qed (simp add: arena_reserve.simps [of reserve mb] arena_shape_def no_arena_def)
qed

lemma init_table_inv:
  assumes "reserve_ok reserve" "arena_init_once reserve setting = Inr a"
  shows "table_inv (init_table a)"
proof -
  have n: "a = no_arena \<or> (\<exists>mb. a = arena_reserve reserve mb)"
    using assms(2) by (auto simp: arena_init_once_def split: option.splits if_splits)
  moreover have "arena_shape no_arena" by (simp add: arena_shape_def no_arena_def)
  ultimately have sh: "arena_shape a" using arena_reserve_shape [OF assms(1)] by auto
  have fresh: "g_chunk_ri (arena_reserve reserve mb) = replicate (g_arena_chunks (arena_reserve reserve mb)) None" for mb
    by (induction reserve mb rule: arena_reserve.induct)
      (subst (1 2) arena_reserve.simps, simp add: Let_def no_arena_def split: option.split)
  have "g_chunk_ri a = replicate (g_arena_chunks a) None"
    using n fresh by (auto simp: no_arena_def)
  then have "chunks_ok [] a" by (simp add: chunks_ok_def)
  moreover have "unat w < 2 ^ 64" for w :: "64 word" using unsigned_less [of w] by simp
  ultimately show ?thesis using sh by (simp add: table_inv_def init_table_def bounds_ok_def)
qed

definition large_region :: "addr \<Rightarrow> 64 word \<Rightarrow> nat \<Rightarrow> region" where
  "large_region b n young =
     \<lparr>base = b, cap = n, bump = n, live_count = 0, poison_count = 0, slotmap = [], is_large = True,
      youngmap = [], young_count = young, old_count = 0, marked_young = 0\<rparr>"

inductive table_step :: "region_table \<Rightarrow> region_table \<Rightarrow> bool" where
  open_region: "open_new_region commit_ok m t = Inr (t', i) \<Longrightarrow>
     (\<And>b. m = Some b \<Longrightarrow> malloc_fresh t b region_size) \<Longrightarrow> table_step t t'"
| add_large: "malloc_fresh t b n \<Longrightarrow> table_step t (region_table_insert (large_region b n y) t)"
| release: "i < length (g_regions t) \<Longrightarrow> table_step t (release_region i t)"

lemma release_region_regions:
  "g_regions (release_region i t) = take i (g_regions t) @ drop (i + 1) (g_regions t)"
  by (simp add: release_region_def region_table_remove_def Let_def)

lemma table_step_inv: "table_step t t' \<Longrightarrow> table_inv t \<Longrightarrow> table_inv t'"
proof (induction rule: table_step.induct)
  case (open_region commit_ok m t t' i)
  then show ?case by (intro open_new_region_inv [of t commit_ok m t' i]) auto
next
  case (add_large t b n y)
  then show ?case by (intro malloc_block_insert_inv) (simp_all add: large_region_def)
next
  case (release i t)
  then have nz: "\<forall>r \<in> set (g_regions t). base r \<noteq> 0" and l: "loose_inv t" by (simp_all add: table_inv_iff_loose)
  have "loose_inv (release_region i t)" using release nz by (intro release_loose [OF l]) simp_all
  moreover have "\<forall>r \<in> set (g_regions (release_region i t)). base r \<noteq> 0"
    using nz set_delete_subset [of i "g_regions t"] unfolding release_region_regions by blast
  ultimately show ?case by (simp add: table_inv_iff_loose)
qed

lemma table_run_inv: "table_step\<^sup>*\<^sup>* t t' \<Longrightarrow> table_inv t \<Longrightarrow> table_inv t'"
  by (induction rule: rtranclp_induct) (auto intro: table_step_inv)

text \<open>C14. Whatever regions have been opened, added for large objects and released, and whether the
  arena could be reserved or not, \<open>region_find\<close> answers an address with the one region that contains
  it and any other address with NULL: the shift into the arena, the bounds pre-check with its
  wrap-around subtraction and the binary search all agree.\<close>

theorem region_find_exact:
  assumes "reserve_ok reserve" "arena_init_once reserve setting = Inr a" "table_step\<^sup>*\<^sup>* (init_table a) t"
  shows "(region_find t p = Some i \<longleftrightarrow> i < length (g_regions t) \<and> in_region (g_regions t ! i) p) \<and>
         (region_find t p = None \<longleftrightarrow> (\<forall>r \<in> set (g_regions t). \<not> in_region r p))"
proof -
  note f = region_find_iff [OF table_run_inv [OF assms(3) init_table_inv [OF assms(1,2)]], of p]
  moreover have "region_find t p = None \<longleftrightarrow> (\<forall>i. region_find t p \<noteq> Some i)" by (cases "region_find t p") auto
  ultimately show ?thesis by (auto simp: all_set_conv_all_nth)
qed

theorem region_find_exact_witness:
  "\<exists>t. table_step\<^sup>*\<^sup>* (init_table (arena_reserve (\<lambda>_. Some 0x200000000000) 1)) t \<and>
       region_find t 0x200000000010 = Some 0 \<and> region_find t 7 = None"
proof -
  let ?res = "\<lambda>n. if n = 1048576 then Some 0x200000000000 else None :: addr option"
  let ?res' = "\<lambda>_. Some 0x200000000000 :: addr option"
  let ?a = "arena_reserve ?res 1"
  have aeq: "arena_reserve ?res' 1 = ?a" 
    by (simp add: arena_reserve.simps [of ?res' "Suc 0"] arena_reserve.simps [of ?res "Suc 0"])
  have ro: "reserve_ok ?res" by (auto simp: reserve_ok_def split: if_splits)
  have ai: "arena_init_once ?res (Some (Some 1)) = Inr ?a" by (simp add: arena_init_once_def)
  have av: "g_arena_base ?a = 0x200000000000" "g_chunk_free ?a = []" "g_arena_next ?a = 0" "g_arena_chunks ?a = 1"
    "g_chunk_committed ?a = [False]"
    by (simp_all add: arena_reserve.simps [of ?res "Suc 0"] region_shift_def Let_def)
  obtain t where o: "open_new_region (\<lambda>_. True) None (init_table ?a) = Inr (t, 0)"
    and rs: "g_regions t = [fresh_region 0x200000000000]"
    using av by (auto simp: open_new_region_def arena_chunk_alloc_def region_table_insert_def init_table_def
        lower_bound.simps fresh_region_def Let_def)
  have "table_step (init_table ?a) t" by (rule table_step.open_region [OF o]) simp
  then have st: "table_step\<^sup>*\<^sup>* (init_table ?a) t" by blast
  have "region_find t 0x200000000010 = Some 0"
    using region_find_exact [OF ro ai st, of "0x200000000010" 0]
    by (simp add: rs in_region_def fresh_region_def region_size_def)
  moreover have "region_find t 7 = None"
    using region_find_exact [OF ro ai st, of 7 0] by (simp add: rs in_region_def fresh_region_def)
  ultimately show ?thesis using st unfolding aeq by blast
qed

end
