(* ===== verification/Gc_Sweep.thy ===== *)
theory Gc_Sweep
  imports Gc_Regions Heap_Word
begin

unbundle bit_operations_syntax

text \<open>
  The sweep: class free lists threaded through the first payload word of free slots, the walk over the
  slots of a region, the staging that takes back the entries of a region that is about to be released, and
  the second pass that releases empty regions. Memory is a store of 64-bit cells; \<^verbatim>\<open>free\<close> calls are
  recorded in \<open>sw_freed\<close>, newest first. The counters and checks of the diagnostic modes (census, age
  profile, header check, free-list verifier) are left out, except for lineage mode, which changes
  what the heap looks like: \<open>frames\<close> is the block and the length that \<^verbatim>\<open>malloc\<close> and \<^verbatim>\<open>backtrace\<close> give for
  a slot.
\<close>

section \<open>Free lists\<close>

definition FREELIST_CLASSES :: nat where
  "FREELIST_CLASSES = 257"

record sweep =
  sw_mem :: "addr \<Rightarrow> 64 word"
  g_freelist :: "nat \<Rightarrow> addr"
  g_gc_freelist_len :: int
  g_fl_saved :: "nat \<Rightarrow> addr"
  g_fl_touched :: "nat \<Rightarrow> bool"
  g_fl_touched_list :: "nat list"
  g_fl_region_pushed :: int
  sw_singleton :: "64 word \<Rightarrow> addr option"
  sw_freed :: "addr list"
  g_managed_heap_count :: int
  g_managed_alloc_since_gc :: int

definition fl_push_live :: "nat \<Rightarrow> addr \<Rightarrow> sweep \<Rightarrow> sweep" where
  "fl_push_live cls payload s =
     (if cls < 1 \<or> cls \<ge> FREELIST_CLASSES then s
      else s\<lparr>sw_mem := (sw_mem s)(payload := g_freelist s cls), g_freelist := (g_freelist s)(cls := payload),
             g_gc_freelist_len := g_gc_freelist_len s + 1\<rparr>)"

definition fl_pop :: "nat \<Rightarrow> sweep \<Rightarrow> addr \<times> sweep" where
  "fl_pop cls s =
     (let payload = g_freelist s cls in
      (payload, s\<lparr>g_freelist := (g_freelist s)(cls := sw_mem s payload), g_gc_freelist_len := g_gc_freelist_len s - 1\<rparr>))"

definition fl_push_staged :: "nat \<Rightarrow> addr \<Rightarrow> sweep \<Rightarrow> sweep" where
  "fl_push_staged cls payload s =
     (if cls < 1 \<or> cls \<ge> FREELIST_CLASSES then s
      else let s1 = (if \<not> g_fl_touched s cls
                     then s\<lparr>g_fl_touched := (g_fl_touched s)(cls := True), g_fl_saved := (g_fl_saved s)(cls := g_freelist s cls),
                            g_fl_touched_list := g_fl_touched_list s @ [cls]\<rparr>
                     else s)
           in s1\<lparr>sw_mem := (sw_mem s1)(payload := g_freelist s1 cls), g_freelist := (g_freelist s1)(cls := payload),
                 g_fl_region_pushed := g_fl_region_pushed s1 + 1\<rparr>)"

definition fl_region_begin :: "sweep \<Rightarrow> sweep" where
  "fl_region_begin s = s\<lparr>g_fl_touched_list := [], g_fl_region_pushed := 0\<rparr>"

definition fl_region_commit :: "sweep \<Rightarrow> sweep" where
  "fl_region_commit s =
     s\<lparr>g_fl_touched := fold (\<lambda>c t. t(c := False)) (g_fl_touched_list s) (g_fl_touched s), g_fl_touched_list := [],
       g_gc_freelist_len := g_gc_freelist_len s + g_fl_region_pushed s, g_fl_region_pushed := 0\<rparr>"

definition fl_region_rollback :: "sweep \<Rightarrow> sweep" where
  "fl_region_rollback s =
     (let (h, t) = fold (\<lambda>c (h, t). (h(c := g_fl_saved s c), t(c := False))) (g_fl_touched_list s) (g_freelist s, g_fl_touched s)
      in s\<lparr>g_freelist := h, g_fl_touched := t, g_fl_touched_list := [], g_fl_region_pushed := 0\<rparr>)"

section \<open>Dead slots\<close>

definition vec_data_is_inline :: "(addr \<Rightarrow> 64 word) \<Rightarrow> addr \<Rightarrow> bool" where
  "vec_data_is_inline m v \<longleftrightarrow> m (v + 16) \<noteq> 0 \<and> m (v + 16) = v + 24"

definition sprout_release_payload_extras :: "addr \<Rightarrow> heap_kind \<Rightarrow> sweep \<Rightarrow> sweep" where
  "sprout_release_payload_extras payload kind s =
     (case kind of
        HEAP_VECTOR \<Rightarrow> if \<not> vec_data_is_inline (sw_mem s) payload
                        then s\<lparr>sw_freed := sw_mem s (payload + 16) # sw_freed s\<rparr> else s
      | HEAP_BYTES \<Rightarrow> s\<lparr>sw_freed := sw_mem s (payload + 8) # sw_freed s\<rparr>
      | HEAP_BUILDER \<Rightarrow> s\<lparr>sw_freed := sw_mem s (payload + 16) # sw_freed s\<rparr>
      | _ \<Rightarrow> s)"

text \<open>\<open>sw_singleton s tag\<close> is the interned object of a constructor: \<open>None\<close> when the constructor is not registered,
  address 0 when nothing is cached.\<close>

definition sprout_gc_invalidate_singleton :: "64 word \<Rightarrow> addr \<Rightarrow> sweep \<Rightarrow> sweep" where
  "sprout_gc_invalidate_singleton h payload s =
     (if sprout_hdr_kind h \<noteq> HEAP_OBJ then s
      else let aux = sprout_hdr_aux h in
        if aux AND 0xFF \<noteq> 0 then s
        else case sw_singleton s (drop_bit 8 aux) of
               None \<Rightarrow> s
             | Some p \<Rightarrow> if p = payload then s\<lparr>sw_singleton := (sw_singleton s)(drop_bit 8 aux \<mapsto> 0)\<rparr> else s)"

definition free_hdr :: "64 word \<Rightarrow> 64 word" where
  "free_hdr ssize = kind_code HEAP_FREE OR push_bit 14 ssize"

definition poison_hdr :: "64 word \<Rightarrow> 64 word" where
  "poison_hdr ssize = kind_code HEAP_POISON OR push_bit 14 ssize"

definition sprout_gc_free_dead_slot ::
  "bool \<Rightarrow> (addr \<Rightarrow> addr \<times> 64 word) \<Rightarrow> addr \<Rightarrow> 64 word \<Rightarrow> heap_kind \<Rightarrow> 64 word \<Rightarrow> sweep \<Rightarrow> bool \<times> sweep" where
  "sprout_gc_free_dead_slot lineage frames slot h kind ssize s =
     (let payload = slot + 8; s1 = sprout_gc_invalidate_singleton h payload s in
      if lineage \<and> kind = HEAP_OBJ
      then (False, s1\<lparr>sw_mem := (sw_mem s1)(slot := poison_hdr ssize, payload := fst (frames slot), payload + 8 := snd (frames slot)),
                      g_managed_heap_count := g_managed_heap_count s1 - 1\<rparr>)
      else let s2 = sprout_release_payload_extras payload kind s1 in
        (True, s2\<lparr>sw_mem := (sw_mem s2)(slot := free_hdr ssize), g_managed_heap_count := g_managed_heap_count s2 - 1\<rparr>))"

section \<open>The walk over a region\<close>

definition survivor_hdr :: "bool \<Rightarrow> 64 word \<Rightarrow> 64 word" where
  "survivor_hdr keep_color h = sprout_hdr_age_bump (if keep_color then h else h AND NOT gc_color_bit)"

definition slot_class :: "64 word \<Rightarrow> nat" where
  "slot_class ssize = unat ssize div slot_gran"

text \<open>The body of the loop for the slot at address \<open>a\<close>; the counts are of live and of poisoned slots.\<close>

definition sweep_slot ::
  "bool \<Rightarrow> bool \<Rightarrow> (addr \<Rightarrow> addr \<times> 64 word) \<Rightarrow> addr \<Rightarrow> sweep \<times> nat \<times> nat \<Rightarrow> sweep \<times> nat \<times> nat" where
  "sweep_slot keep_color lineage frames a = (\<lambda>(s, live, poison).
     let h = sw_mem s a; ssize = sprout_slot_step lineage h; kind = sprout_hdr_kind h in
     if kind = HEAP_FREE then (fl_push_staged (slot_class ssize) (a + 8) s, live, poison)
     else if kind = HEAP_POISON then (s, live, poison + 1)
     else if hdr_color h then (s\<lparr>sw_mem := (sw_mem s)(a := survivor_hdr keep_color h)\<rparr>, live + 1, poison)
     else let (listed, s1) = sprout_gc_free_dead_slot lineage frames a h kind ssize s in
       if listed then (fl_push_staged (slot_class ssize) (a + 8) s1, live, poison) else (s1, live, poison + 1))"

lemma slot_step_bounds: "16 \<le> unat (sprout_slot_step lineage h)" "unat (sprout_slot_step lineage h) < 2 ^ 62"
proof -
  have aux: "unat (drop_bit 14 h) < 2 ^ 50" using unat_bound [of h] by (simp add: unat_drop less_mult_imp_div_less)
  have "16 \<le> unat (sprout_slot_step lineage h) \<and> unat (sprout_slot_step lineage h) < 2 ^ 62"
  proof (cases "sprout_hdr_kind h = HEAP_FREE \<or> sprout_hdr_kind h = HEAP_POISON")
    case True
    then show ?thesis using aux by (auto simp: sprout_slot_step_def Let_def word_less_nat_alt)
  next
    case False
    then have e: "unat (sprout_slot_step lineage h) =
        (max 8 (unat (slot_payload_bytes lineage (sprout_hdr_kind h) (drop_bit 14 h))) + 23) div 16 * 16"
      using unat_slot_bytes [OF aux] by (simp add: sprout_slot_step_def)
    show ?thesis
      unfolding e using slot_payload_bound [OF aux, of lineage "sprout_hdr_kind h"] by auto
  qed
  then show "16 \<le> unat (sprout_slot_step lineage h)" "unat (sprout_slot_step lineage h) < 2 ^ 62" by auto
qed

lemma slot_step_pos [simp]: "0 < unat (sprout_slot_step lineage h)"
  using slot_step_bounds(1) [of lineage h] by simp

definition at :: "addr \<Rightarrow> nat \<Rightarrow> addr" where
  "at b off = b + word_of_nat off"

function sweep_slots ::
  "bool \<Rightarrow> bool \<Rightarrow> (addr \<Rightarrow> addr \<times> 64 word) \<Rightarrow> addr \<Rightarrow> nat \<Rightarrow> nat \<Rightarrow> sweep \<times> nat \<times> nat \<Rightarrow> sweep \<times> nat \<times> nat" where
  "sweep_slots keep_color lineage frames b bmp off st =
     (if off < bmp
      then sweep_slots keep_color lineage frames b bmp (off + unat (sprout_slot_step lineage (sw_mem (fst st) (at b off))))
             (sweep_slot keep_color lineage frames (at b off) st)
      else st)"
  by pat_completeness auto
termination
  by (relation "measure (\<lambda>(k, l, f, b, bmp, off, st). bmp - off)") (auto intro!: diff_less_mono2)

declare sweep_slots.simps [simp del]

definition sweep_region :: "bool \<Rightarrow> bool \<Rightarrow> (addr \<Rightarrow> addr \<times> 64 word) \<Rightarrow> bool \<Rightarrow> region \<Rightarrow> sweep \<Rightarrow> region \<times> sweep" where
  "sweep_region keep_color lineage frames gen_on r s =
     (let (s1, live, poison) = sweep_slots keep_color lineage frames (base r) (unat (bump r)) 0 (fl_region_begin s, 0, 0) in
      (r\<lparr>live_count := live, poison_count := poison, old_count := (if keep_color then live else 0), young_count := 0,
         youngmap := (if gen_on then replicate (length (youngmap r)) 0 else youngmap r)\<rparr>,
       if live = 0 \<and> poison = 0 then fl_region_rollback s1 else fl_region_commit s1))"

definition sprout_gc_sweep_large :: "bool \<Rightarrow> region \<Rightarrow> sweep \<Rightarrow> bool \<times> region \<times> sweep" where
  "sprout_gc_sweep_large keep_color r s =
     (let h = sw_mem s (base r); payload = base r + 8 in
      if hdr_color h
      then (True, r\<lparr>live_count := 1\<rparr>, s\<lparr>sw_mem := (sw_mem s)(base r := survivor_hdr keep_color h)\<rparr>)
      else let s1 = sprout_release_payload_extras payload (sprout_hdr_kind h) (sprout_gc_invalidate_singleton h payload s)
           in (False, r\<lparr>base := 0, live_count := 0\<rparr>,
               s1\<lparr>sw_freed := base r # sw_freed s1, g_managed_heap_count := g_managed_heap_count s1 - 1\<rparr>))"

section \<open>The whole sweep\<close>

text \<open>Pass 1.\<close>

fun sweep_pass1 :: "bool \<Rightarrow> bool \<Rightarrow> (addr \<Rightarrow> addr \<times> 64 word) \<Rightarrow> bool \<Rightarrow> region list \<Rightarrow> sweep \<Rightarrow> region list \<times> sweep" where
  "sweep_pass1 keep_color lineage frames gen_on [] s = ([], s)"
| "sweep_pass1 keep_color lineage frames gen_on (r # rs) s =
     (let (r1, s1) =
        (if is_large r
         then (let (survived, r1, s1) = sprout_gc_sweep_large keep_color r s in
               (r1\<lparr>old_count := (if survived \<and> keep_color then 1 else 0), young_count := 0\<rparr>, s1))
         else sweep_region keep_color lineage frames gen_on r s);
          (rs', s') = sweep_pass1 keep_color lineage frames gen_on rs s1
      in (r1 # rs', s'))"

text \<open>Pass 2, from the last region to the first.\<close>

primrec sweep_pass2 :: "nat \<Rightarrow> region_table \<Rightarrow> sweep \<Rightarrow> region_table \<times> sweep" where
  "sweep_pass2 0 t s = (t, s)"
| "sweep_pass2 (Suc ri) t s =
     (let r = g_regions t ! ri in
      if is_large r then sweep_pass2 ri (if base r = 0 then region_table_remove ri t else t) s
      else if live_count r = 0 \<and> poison_count r = 0
      then sweep_pass2 ri (release_region ri t)
             (if arena_contains (g_arena t) (base r) then s else s\<lparr>sw_freed := base r # sw_freed s\<rparr>)
      else sweep_pass2 ri t s)"

definition sweep_passes ::
  "bool \<Rightarrow> bool \<Rightarrow> (addr \<Rightarrow> addr \<times> 64 word) \<Rightarrow> bool \<Rightarrow> region_table \<Rightarrow> sweep \<Rightarrow> region_table \<times> sweep" where
  "sweep_passes keep_color lineage frames gen_on t s =
     (let s0 = s\<lparr>g_freelist := (\<lambda>_. 0), g_gc_freelist_len := 0\<rparr>;
          (rs, s1) = sweep_pass1 keep_color lineage frames gen_on (g_regions t) s0
      in sweep_pass2 (length rs) (t\<lparr>g_regions := rs\<rparr>) s1)"

text \<open>After the passes a table without an ordinary region gets a new one.\<close>

definition sprout_gc_sweep ::
  "bool \<Rightarrow> bool \<Rightarrow> (addr \<Rightarrow> addr \<times> 64 word) \<Rightarrow> bool \<Rightarrow> (nat \<Rightarrow> bool) \<Rightarrow> addr option \<Rightarrow> region_table \<Rightarrow> sweep \<Rightarrow> (region_table \<times> sweep) res" where
  "sprout_gc_sweep keep_color lineage frames gen_on commit_ok malloc_block t s =
     (let (t2, s2) = sweep_passes keep_color lineage frames gen_on t s in
      if \<forall>r \<in> set (g_regions t2). is_large r
      then res_map (\<lambda>(t3, _). (t3, s2)) (open_new_region commit_ok malloc_block t2)
      else Inr (t2, s2))"

section \<open>The slots of a region\<close>

function slot_offs :: "bool \<Rightarrow> (addr \<Rightarrow> 64 word) \<Rightarrow> addr \<Rightarrow> nat \<Rightarrow> nat \<Rightarrow> nat list" where
  "slot_offs lineage m b bmp off =
     (if off < bmp then off # slot_offs lineage m b bmp (off + unat (sprout_slot_step lineage (m (at b off)))) else [])"
  by pat_completeness auto
termination
  by (relation "measure (\<lambda>(l, m, b, bmp, off). bmp - off)") (auto intro!: diff_less_mono2)

declare slot_offs.simps [simp del]

abbreviation step_at :: "bool \<Rightarrow> (addr \<Rightarrow> 64 word) \<Rightarrow> addr \<Rightarrow> nat \<Rightarrow> nat" where
  "step_at lineage m b off \<equiv> unat (sprout_slot_step lineage (m (at b off)))"

text \<open>The walk tiles the region up to the bump pointer.\<close>

definition tiled :: "bool \<Rightarrow> (addr \<Rightarrow> 64 word) \<Rightarrow> addr \<Rightarrow> nat \<Rightarrow> bool" where
  "tiled lineage m b bmp \<longleftrightarrow> unat b + bmp < 2 ^ 64 \<and>
     (\<forall>off \<in> set (slot_offs lineage m b bmp 0). off + step_at lineage m b off \<le> bmp)"

definition in_block :: "addr \<Rightarrow> nat \<Rightarrow> nat \<Rightarrow> addr \<Rightarrow> bool" where
  "in_block b off n x \<longleftrightarrow> unat b + off \<le> unat x \<and> unat x < unat b + off + n"

lemma unat_at: "unat b + off < 2 ^ 64 \<Longrightarrow> unat (at b off) = unat b + off"
  by (simp add: at_def unat_word_ariths(1) unat_of_nat take_bit_nat_eq_self)

lemma at_add: "at b off + 8 = at b (off + 8)" "at b off + 8 + 8 = at b (off + 16)"
  by (simp_all add: at_def)

text \<open>What becomes of a slot.\<close>

datatype fate = Listed | Corpse | Old_corpse | Survives

definition fate_of :: "bool \<Rightarrow> 64 word \<Rightarrow> fate" where
  "fate_of lineage h =
     (if sprout_hdr_kind h = HEAP_FREE then Listed
      else if sprout_hdr_kind h = HEAP_POISON then Old_corpse
      else if hdr_color h then Survives
      else if lineage \<and> sprout_hdr_kind h = HEAP_OBJ then Corpse else Listed)"

definition new_hdr :: "bool \<Rightarrow> bool \<Rightarrow> 64 word \<Rightarrow> 64 word" where
  "new_hdr keep_color lineage h =
     (case fate_of lineage h of
        Listed \<Rightarrow> if sprout_hdr_kind h = HEAP_FREE then h else free_hdr (sprout_slot_step lineage h)
      | Corpse \<Rightarrow> poison_hdr (sprout_slot_step lineage h)
      | Old_corpse \<Rightarrow> h
      | Survives \<Rightarrow> survivor_hdr keep_color h)"

definition class_of :: "bool \<Rightarrow> 64 word \<Rightarrow> nat" where
  "class_of lineage h = slot_class (sprout_slot_step lineage h)"

definition listed_in :: "bool \<Rightarrow> nat \<Rightarrow> 64 word \<Rightarrow> bool" where
  "listed_in lineage c h \<longleftrightarrow> fate_of lineage h = Listed \<and> class_of lineage h = c \<and> 1 \<le> c \<and> c < FREELIST_CLASSES"

text \<open>The effect of one slot on memory and lists.\<close>

lemma keep_mem [simp]:
  "sw_mem (sprout_gc_invalidate_singleton h p s) = sw_mem s" "sw_mem (sprout_release_payload_extras p k s) = sw_mem s"
  "g_freelist (sprout_gc_invalidate_singleton h p s) = g_freelist s" "g_freelist (sprout_release_payload_extras p k s) = g_freelist s"
  "g_fl_touched (sprout_gc_invalidate_singleton h p s) = g_fl_touched s" "g_fl_touched (sprout_release_payload_extras p k s) = g_fl_touched s"
  "g_fl_saved (sprout_gc_invalidate_singleton h p s) = g_fl_saved s" "g_fl_saved (sprout_release_payload_extras p k s) = g_fl_saved s"
  "g_fl_touched_list (sprout_gc_invalidate_singleton h p s) = g_fl_touched_list s"
  "g_fl_touched_list (sprout_release_payload_extras p k s) = g_fl_touched_list s"
  by (auto simp: sprout_gc_invalidate_singleton_def sprout_release_payload_extras_def Let_def split: option.splits heap_kind.splits)

definition staged_ok :: "(nat \<Rightarrow> addr) \<Rightarrow> sweep \<Rightarrow> bool" where
  "staged_ok H s \<longleftrightarrow> (\<forall>c. g_fl_touched s c \<longrightarrow> g_fl_saved s c = H c) \<and> (\<forall>c. \<not> g_fl_touched s c \<longrightarrow> g_freelist s c = H c) \<and>
     set (g_fl_touched_list s) = {c. g_fl_touched s c}"

lemma push_staged_ok: "staged_ok H s \<Longrightarrow> staged_ok H (fl_push_staged c p s)"
  by (auto simp: staged_ok_def fl_push_staged_def Let_def)

lemma sweep_slot_staged: "staged_ok H s \<Longrightarrow> staged_ok H (fst (sweep_slot k lineage frames a (s, l, p)))"
  by (auto simp: sweep_slot_def sprout_gc_free_dead_slot_def Let_def staged_ok_def intro!: push_staged_ok [unfolded staged_ok_def])

lemma sweep_slot_counts:
  "snd (sweep_slot k lineage frames a (s, l, p)) =
     (l + (if fate_of lineage (sw_mem s a) = Survives then 1 else 0),
      p + (if fate_of lineage (sw_mem s a) \<in> {Corpse, Old_corpse} then 1 else 0))"
  by (auto simp: sweep_slot_def fate_of_def sprout_gc_free_dead_slot_def Let_def)

lemma sweep_slot_lists:
  "g_freelist (fst (sweep_slot k lineage frames a (s, l, p))) c =
     (if listed_in lineage c (sw_mem s a) then a + 8 else g_freelist s c)"
  by (auto simp: sweep_slot_def fate_of_def sprout_gc_free_dead_slot_def Let_def listed_in_def class_of_def fl_push_staged_def)

lemma sweep_slot_mem:
  "sw_mem (fst (sweep_slot k lineage frames a (s, l, p))) a = new_hdr k lineage (sw_mem s a)"
  "listed_in lineage c (sw_mem s a) \<Longrightarrow> sw_mem (fst (sweep_slot k lineage frames a (s, l, p))) (a + 8) = g_freelist s c"
  "x \<noteq> a \<Longrightarrow> x \<noteq> a + 8 \<Longrightarrow> x \<noteq> a + 16 \<or> fate_of lineage (sw_mem s a) \<noteq> Corpse \<Longrightarrow>
   sw_mem (fst (sweep_slot k lineage frames a (s, l, p))) x = sw_mem s x"
  by (auto simp: sweep_slot_def fate_of_def sprout_gc_free_dead_slot_def Let_def listed_in_def class_of_def fl_push_staged_def new_hdr_def)

lemma sweep_slot_survivor:
  "fate_of lineage (sw_mem s a) = Survives \<Longrightarrow> x \<noteq> a \<Longrightarrow> sw_mem (fst (sweep_slot k lineage frames a (s, l, p))) x = sw_mem s x"
  by (auto simp: sweep_slot_def fate_of_def Let_def split: if_splits)

lemma corpse_step:
  assumes "fate_of lineage h = Corpse"
  shows "24 \<le> unat (sprout_slot_step lineage h)"
proof -
  have k: "lineage" "sprout_hdr_kind h = HEAP_OBJ" using assms by (auto simp: fate_of_def split: if_splits)
  let ?aux = "drop_bit 14 h" and ?n = "sprout_obj_alloc_arity True (drop_bit 14 h AND 0xFF)"
  have aux: "unat ?aux < 2 ^ 50" using unat_bound [of h] by (simp add: unat_drop less_mult_imp_div_less)
  have "unat (?aux AND 0xFF) < 256" using unat_and_mask [of 8 ?aux] by simp
  then have n: "2 \<le> unat ?n" "unat ?n < 256" by (auto simp: sprout_obj_alloc_arity_def word_less_nat_alt)
  then have "unat (?n * 8) = unat ?n * 8" by (simp add: unat_word_ariths(2))
  then have "16 \<le> unat (slot_payload_bytes True HEAP_OBJ ?aux)" using n(1) by (simp add: slot_payload_bytes_def)
  then show ?thesis using k unat_slot_bytes [OF aux, of True HEAP_OBJ] by (simp add: sprout_slot_step_def)
qed

lemma sweep_slot_frame:
  assumes b: "unat b + off + step_at lineage m b off < 2 ^ 64" and h: "sw_mem s (at b off) = m (at b off)"
    and x: "\<not> in_block b off (step_at lineage m b off) x"
  shows "sw_mem (fst (sweep_slot k lineage frames (at b off) (s, l, p))) x = sw_mem s x"
proof -
  let ?n = "step_at lineage m b off"
  have n: "16 \<le> ?n" by (rule slot_step_bounds)
  have ne: "x \<noteq> at b (off + j)" if "j < ?n" for j
  proof
    assume "x = at b (off + j)"
    then have "unat x = unat b + (off + j)" using that b unat_at [of b "off + j"] by simp
    then show False using x that by (simp add: in_block_def)
  qed
  have "x \<noteq> at b off" "x \<noteq> at b off + 8" using ne [of 0] ne [of 8] n by (simp_all add: at_add)
  moreover have "x \<noteq> at b off + 16" if "fate_of lineage (sw_mem s (at b off)) = Corpse"
    using ne [of 16] corpse_step [OF that] h at_add(2) [of b off] by (simp add: add.assoc)
  ultimately show ?thesis by (intro sweep_slot_mem(3)) auto
qed

fun spaced :: "bool \<Rightarrow> (addr \<Rightarrow> 64 word) \<Rightarrow> addr \<Rightarrow> nat list \<Rightarrow> bool" where
  "spaced lineage m b [] = True"
| "spaced lineage m b (o1 # os) = ((\<forall>o2 \<in> set os. o1 + step_at lineage m b o1 \<le> o2) \<and> spaced lineage m b os)"

lemma slot_offs_ge: "o1 \<in> set (slot_offs lineage m b bmp off) \<Longrightarrow> off \<le> o1 \<and> o1 < bmp"
proof (induction lineage m b bmp off rule: slot_offs.induct)
  case (1 lineage m b bmp off)
  then show ?case by (subst (asm) (2) slot_offs.simps) (fastforce split: if_splits)
qed

lemma slot_offs_spaced: "spaced lineage m b (slot_offs lineage m b bmp off)"
proof (induction lineage m b bmp off rule: slot_offs.induct)
  case (1 lineage m b bmp off)
  then show ?case by (subst slot_offs.simps) (auto dest: slot_offs_ge)
qed

fun fl_chain :: "(addr \<Rightarrow> 64 word) \<Rightarrow> addr \<Rightarrow> addr list \<Rightarrow> bool" where
  "fl_chain m h [] = (h = 0)"
| "fl_chain m h (x # xs) = (h = x \<and> x \<noteq> 0 \<and> fl_chain m (m x) xs)"

lemma fl_chain_cong: "(\<And>x. x \<in> set xs \<Longrightarrow> m' x = m x) \<Longrightarrow> fl_chain m' h xs = fl_chain m h xs"
  by (induction xs arbitrary: h) auto

definition listed_payloads :: "bool \<Rightarrow> (addr \<Rightarrow> 64 word) \<Rightarrow> addr \<Rightarrow> nat \<Rightarrow> nat list \<Rightarrow> addr list" where
  "listed_payloads lineage m b c os = map (\<lambda>off. at b off + 8) (filter (\<lambda>off. listed_in lineage c (m (at b off))) os)"

abbreviation sweep_all :: "bool \<Rightarrow> bool \<Rightarrow> (addr \<Rightarrow> addr \<times> 64 word) \<Rightarrow> addr \<Rightarrow> nat list \<Rightarrow> sweep \<times> nat \<times> nat \<Rightarrow> sweep \<times> nat \<times> nat" where
  "sweep_all k lineage frames b os \<equiv> fold (\<lambda>off. sweep_slot k lineage frames (at b off)) os"

lemma sweep_slots_fold:
  assumes "\<forall>o1 \<in> set (slot_offs lineage m b bmp off). unat b + o1 + step_at lineage m b o1 < 2 ^ 64"
    "\<forall>o1. off \<le> o1 \<longrightarrow> o1 < bmp \<longrightarrow> sw_mem (fst st) (at b o1) = m (at b o1)" "unat b + bmp < 2 ^ 64"
  shows "sweep_slots k lineage frames b bmp off st = sweep_all k lineage frames b (slot_offs lineage m b bmp off) st"
  using assms
proof (induction lineage m b bmp off arbitrary: st rule: slot_offs.induct)
  case (1 lineage m b bmp off)
  show ?case
  proof (cases "off < bmp")
    case False
    then show ?thesis by (subst sweep_slots.simps, subst slot_offs.simps) simp
  next
    case True
    let ?n = "step_at lineage m b off" and ?st = "sweep_slot k lineage frames (at b off) st"
    have offs: "slot_offs lineage m b bmp off = off # slot_offs lineage m b bmp (off + ?n)"
      using True by (subst slot_offs.simps) simp
    have h: "sw_mem (fst st) (at b off) = m (at b off)" using 1(3) True by simp
    obtain s l p where st: "st = (s, l, p)" by (cases st)
    have bd: "unat b + off + ?n < 2 ^ 64" using 1(2) by (simp add: offs)
    have "sw_mem (fst ?st) (at b o1) = m (at b o1)" if o1: "off + ?n \<le> o1" "o1 < bmp" for o1
    proof -
      have "\<not> in_block b off ?n (at b o1)" using o1 1(4) by (simp add: in_block_def unat_at)
      then have "sw_mem (fst ?st) (at b o1) = sw_mem s (at b o1)"
        using sweep_slot_frame [where m = m and b = b and off = off and s = s] bd h by (simp add: st)
      then show ?thesis using 1(3) o1 by (simp add: st)
    qed
    then have "sweep_slots k lineage frames b bmp (off + ?n) ?st = sweep_all k lineage frames b (slot_offs lineage m b bmp (off + ?n)) ?st"
      using 1(1) [OF True, of ?st] 1(2,4) by (simp add: offs)
    moreover have "sweep_slots k lineage frames b bmp off st = sweep_slots k lineage frames b bmp (off + ?n) ?st"
      using True h by (subst sweep_slots.simps) simp
    ultimately show ?thesis by (simp add: offs)
  qed
qed

text \<open>The payload of a slot that survives is left alone.\<close>

definition intact :: "bool \<Rightarrow> (addr \<Rightarrow> 64 word) \<Rightarrow> addr \<Rightarrow> nat list \<Rightarrow> sweep \<Rightarrow> sweep \<Rightarrow> bool" where
  "intact lineage m b os s s' \<longleftrightarrow> (\<forall>off \<in> set os. fate_of lineage (m (at b off)) = Survives \<longrightarrow>
     (\<forall>x. in_block b off (step_at lineage m b off) x \<longrightarrow> x \<noteq> at b off \<longrightarrow> sw_mem s' x = sw_mem s x))"

text \<open>All slots of a list, in order: what it does to memory, to the free lists and to the counts.\<close>

definition swept ::
  "bool \<Rightarrow> bool \<Rightarrow> (addr \<Rightarrow> 64 word) \<Rightarrow> addr \<Rightarrow> nat list \<Rightarrow> sweep \<Rightarrow> sweep \<Rightarrow> (nat \<Rightarrow> addr list) \<Rightarrow> bool" where
  "swept k lineage m b os s s' F \<longleftrightarrow>
     (\<forall>off \<in> set os. sw_mem s' (at b off) = new_hdr k lineage (m (at b off))) \<and>
     (\<forall>x. (\<forall>off \<in> set os. \<not> in_block b off (step_at lineage m b off) x) \<longrightarrow> sw_mem s' x = sw_mem s x) \<and>
     (\<forall>c. fl_chain (sw_mem s') (g_freelist s' c) (rev (listed_payloads lineage m b c os) @ F c)) \<and> intact lineage m b os s s'"

lemma in_block_at:
  assumes "unat b + off + n < 2 ^ 64" "j < n"
  shows "in_block b off n (at b (off + j))" "at b (off + j) = 0 \<longleftrightarrow> unat b + off + j = 0"
  using assms unat_at [of b "off + j"] by (auto simp: in_block_def unat_eq_0 [symmetric] simp del: unat_eq_0)

lemma sweep_all_swept:
  assumes "spaced lineage m b os" "\<forall>off \<in> set os. unat b + off + step_at lineage m b off < 2 ^ 64"
    "\<forall>off \<in> set os. sw_mem s (at b off) = m (at b off)"
    "\<forall>c. fl_chain (sw_mem s) (g_freelist s c) (F c)"
    "\<forall>c. \<forall>x \<in> set (F c). \<forall>off \<in> set os. \<not> in_block b off (step_at lineage m b off) x"
  shows "swept k lineage m b os s (fst (sweep_all k lineage frames b os (s, l, p))) F \<and>
    snd (sweep_all k lineage frames b os (s, l, p)) =
      (l + length (filter (\<lambda>off. fate_of lineage (m (at b off)) = Survives) os),
       p + length (filter (\<lambda>off. fate_of lineage (m (at b off)) \<in> {Corpse, Old_corpse}) os))"
  using assms
proof (induction os arbitrary: s l p F)
  case Nil
  then show ?case by (simp add: swept_def listed_payloads_def intact_def)
next
  case (Cons off os)
  let ?n = "step_at lineage m b off" and ?h = "m (at b off)"
  obtain s1 l1 p1 where st1: "sweep_slot k lineage frames (at b off) (s, l, p) = (s1, l1, p1)" by (rule prod_cases3)
  have h: "sw_mem s (at b off) = ?h" and bd: "unat b + off + ?n < 2 ^ 64" and n: "16 \<le> ?n"
    using Cons.prems(2,3) slot_step_bounds(1) by auto
  have cnt: "l1 = l + (if fate_of lineage ?h = Survives then 1 else 0)" "p1 = p + (if fate_of lineage ?h \<in> {Corpse, Old_corpse} then 1 else 0)"
    using sweep_slot_counts [where k = k and lineage = lineage and frames = frames and a = "at b off" and s = s and l = l and p = p] by (simp_all add: st1 h)
  have hd: "g_freelist s1 c = (if listed_in lineage c ?h then at b off + 8 else g_freelist s c)" for c
    using sweep_slot_lists [where k = k and lineage = lineage and frames = frames and a = "at b off" and s = s and l = l and p = p and c = c] by (simp add: st1 h)
  have m1: "sw_mem s1 (at b off) = new_hdr k lineage ?h" "listed_in lineage c ?h \<Longrightarrow> sw_mem s1 (at b off + 8) = g_freelist s c" for c
    using sweep_slot_mem(1,2) [where k = k and lineage = lineage and frames = frames and a = "at b off" and s = s and l = l and p = p] by (simp_all add: st1 h)
  have fr: "sw_mem s1 x = sw_mem s x" if "\<not> in_block b off ?n x" for x
    using sweep_slot_frame [where m = m and b = b and off = off and s = s and x = x and k = k and frames = frames and l = l and p = p
        and lineage = lineage] bd h that
    by (simp add: st1)
  have apart: "\<not> in_block b off ?n x" if "off2 \<in> set os" "in_block b off2 j x" for off2 j x
    using Cons.prems(1) that by (fastforce simp: in_block_def)
  define F1 where "F1 c = (if listed_in lineage c ?h then [at b off + 8] else []) @ F c" for c
  have pl: "in_block b off ?n (at b off + 8)" "at b off + 8 \<noteq> 0" "in_block b off ?n (at b off)"
    using in_block_at [OF bd, of 8] in_block_at [OF bd, of 0] n by (simp_all add: at_add)
  have mF: "sw_mem s1 x = sw_mem s x" if "x \<in> set (F c)" for x c
    using fr Cons.prems(5) that by simp
  have c1: "fl_chain (sw_mem s1) (g_freelist s1 c) (F1 c)" for c
    using Cons.prems(4) fl_chain_cong [of "F c" "sw_mem s1" "sw_mem s" "g_freelist s c"] mF [of _ c] m1(2) pl(2) by (simp add: F1_def hd)
  have hdrs: "sw_mem s1 (at b off2) = m (at b off2)" if "off2 \<in> set os" for off2
  proof -
    have "unat b + off2 + step_at lineage m b off2 < 2 ^ 64" using Cons.prems(2) that by simp
    then have "in_block b off2 (step_at lineage m b off2) (at b off2)" using in_block_at(1) [of b off2 _ 0] by simp
    then show ?thesis using apart that fr Cons.prems(3) by simp
  qed
  have F1o: "\<forall>c. \<forall>x \<in> set (F1 c). \<forall>o2 \<in> set os. \<not> in_block b o2 (step_at lineage m b o2) x"
    using Cons.prems(5) apart pl(1) by (fastforce simp: F1_def)
  note ih = Cons.IH [of s1 F1 l1 p1]
  have IH: "swept k lineage m b os s1 (fst (sweep_all k lineage frames b os (s1, l1, p1))) F1"
    "snd (sweep_all k lineage frames b os (s1, l1, p1)) =
      (l1 + length (filter (\<lambda>off. fate_of lineage (m (at b off)) = Survives) os),
       p1 + length (filter (\<lambda>off. fate_of lineage (m (at b off)) \<in> {Corpse, Old_corpse}) os))"
    using ih Cons.prems(1,2) hdrs c1 F1o by simp_all
  let ?s' = "fst (sweep_all k lineage frames b os (s1, l1, p1))"
  have "sw_mem ?s' (at b off) = sw_mem s1 (at b off)"
    using IH(1) apart pl(3) unfolding swept_def by blast
  moreover have "rev (listed_payloads lineage m b c (off # os)) @ F c = rev (listed_payloads lineage m b c os) @ F1 c" for c
    by (simp add: listed_payloads_def F1_def)
  moreover have "intact lineage m b (off # os) s ?s'"
    unfolding intact_def
  proof (intro ballI impI allI)
    fix o2 x assume o2: "o2 \<in> set (off # os)" "fate_of lineage (m (at b o2)) = Survives" "in_block b o2 (step_at lineage m b o2) x" "x \<noteq> at b o2"
    show "sw_mem ?s' x = sw_mem s x"
    proof (cases "o2 \<in> set os")
      case True
      then have "sw_mem ?s' x = sw_mem s1 x" using IH(1) o2 unfolding swept_def intact_def by blast
      then show ?thesis using fr apart [OF True o2(3)] by simp
    next
      case False
      then have e: "o2 = off" using o2(1) by simp
      have "sw_mem ?s' x = sw_mem s1 x" using IH(1) apart o2(3) unfolding swept_def e by blast
      moreover have "sw_mem s1 x = sw_mem s x"
        using sweep_slot_survivor [where k = k and lineage = lineage and frames = frames and a = "at b off" and s = s and l = l and p = p and x = x]
          o2(2,4) by (simp add: st1 h e)
      ultimately show ?thesis by simp
    qed
  qed
  ultimately have "swept k lineage m b (off # os) s ?s' F"
    using IH(1) m1(1) fr unfolding swept_def by simp
  then show ?case using IH(2) cnt by (simp add: st1)
qed

lemma sweep_all_staged: "staged_ok H s \<Longrightarrow> staged_ok H (fst (sweep_all k lineage frames b os (s, l, p)))"
proof (induction os arbitrary: s l p)
  case (Cons off os)
  obtain s1 l1 p1 where e: "sweep_slot k lineage frames (at b off) (s, l, p) = (s1, l1, p1)" by (rule prod_cases3)
  then have "staged_ok H s1" using sweep_slot_staged [OF Cons.prems, of k lineage frames "at b off" l p] by simp
  then show ?case using Cons.IH by (simp add: e)
qed simp

text \<open>Between regions no class is marked as touched.\<close>

definition fl_clean :: "sweep \<Rightarrow> bool" where
  "fl_clean s \<longleftrightarrow> (\<forall>c. \<not> g_fl_touched s c)"

lemma fold_clear: "fold (\<lambda>c t. t(c := False)) cs t = (\<lambda>c. if c \<in> set cs then False else t c)"
  by (induction cs arbitrary: t) (auto simp: fun_eq_iff)

lemma commit_ok: "staged_ok H s \<Longrightarrow> fl_clean (fl_region_commit s) \<and> g_freelist (fl_region_commit s) = g_freelist s \<and>
    sw_mem (fl_region_commit s) = sw_mem s"
  by (auto simp: staged_ok_def fl_clean_def fl_region_commit_def fold_clear)

lemma fold_restore:
  "fold (\<lambda>c (h, t). (h(c := sv c), t(c := False))) cs (h, t) =
   ((\<lambda>c. if c \<in> set cs then sv c else h c), (\<lambda>c. if c \<in> set cs then False else t c))"
  by (induction cs arbitrary: h t) (auto simp: fun_eq_iff)

text \<open>Rolling back restores every list head of before the region.\<close>

lemma rollback_ok: "staged_ok H s \<Longrightarrow> fl_clean (fl_region_rollback s) \<and> g_freelist (fl_region_rollback s) = H \<and>
    sw_mem (fl_region_rollback s) = sw_mem s"
  by (auto simp: staged_ok_def fl_clean_def fl_region_rollback_def fold_restore fun_eq_iff)

definition kept :: "region \<Rightarrow> bool" where
  "kept r \<longleftrightarrow> live_count r \<noteq> 0 \<or> poison_count r \<noteq> 0"

definition region_slots :: "bool \<Rightarrow> (addr \<Rightarrow> 64 word) \<Rightarrow> region \<Rightarrow> nat list" where
  "region_slots lineage m r = slot_offs lineage m (base r) (unat (bump r)) 0"

definition in_used :: "region \<Rightarrow> addr \<Rightarrow> bool" where
  "in_used r x \<longleftrightarrow> in_block (base r) 0 (unat (bump r)) x"

lemma sweep_region_spec:
  assumes t: "tiled lineage (sw_mem s) (base r) (unat (bump r))" and cl: "fl_clean s"
    and ch: "\<forall>c. fl_chain (sw_mem s) (g_freelist s c) (F c)" and out: "\<forall>c. \<forall>x \<in> set (F c). \<not> in_used r x"
    and r: "sweep_region k lineage frames gen_on r s = (r', s')"
  shows "fl_clean s' \<and> base r' = base r \<and> bump r' = bump r \<and> is_large r' = is_large r \<and>
    live_count r' = length (filter (\<lambda>off. fate_of lineage (sw_mem s (at (base r) off)) = Survives) (region_slots lineage (sw_mem s) r)) \<and>
    poison_count r' = length (filter (\<lambda>off. fate_of lineage (sw_mem s (at (base r) off)) \<in> {Corpse, Old_corpse})
      (region_slots lineage (sw_mem s) r)) \<and>
    (\<forall>off \<in> set (region_slots lineage (sw_mem s) r). sw_mem s' (at (base r) off) = new_hdr k lineage (sw_mem s (at (base r) off))) \<and>
    (\<forall>x. \<not> in_used r x \<longrightarrow> sw_mem s' x = sw_mem s x) \<and>
    (\<forall>c. fl_chain (sw_mem s') (g_freelist s' c)
       ((if kept r' then rev (listed_payloads lineage (sw_mem s) (base r) c (region_slots lineage (sw_mem s) r)) else []) @ F c)) \<and>
    intact lineage (sw_mem s) (base r) (region_slots lineage (sw_mem s) r) s s'"
proof -
  let ?m = "sw_mem s" and ?b = "base r" and ?os = "region_slots lineage (sw_mem s) r" and ?n = "unat (bump r)"
  have bd: "unat ?b + ?n < 2 ^ 64" and fit: "\<forall>off \<in> set ?os. off + step_at lineage ?m ?b off \<le> ?n"
    using t by (auto simp: tiled_def region_slots_def)
  have bd2: "\<forall>off \<in> set ?os. unat ?b + off + step_at lineage ?m ?b off < 2 ^ 64" using bd fit by fastforce
  let ?s0 = "fl_region_begin s"
  have s0: "sw_mem ?s0 = ?m" "g_freelist ?s0 = g_freelist s" by (simp_all add: fl_region_begin_def)
  have st0: "staged_ok (g_freelist s) ?s0" using cl by (auto simp: staged_ok_def fl_clean_def fl_region_begin_def)
  define st where "st = sweep_all k lineage frames ?b ?os (?s0, 0, 0)"
  obtain s1 live poison where s1: "st = (s1, live, poison)" by (rule prod_cases3)
  have walk: "sweep_slots k lineage frames ?b ?n 0 (?s0, 0, 0) = st"
    unfolding st_def region_slots_def by (rule sweep_slots_fold) (use bd bd2 in \<open>simp_all add: s0 region_slots_def\<close>)
  have blk: "in_used r x" if "off \<in> set ?os" "in_block ?b off (step_at lineage ?m ?b off) x" for off x
    using that fit by (fastforce simp: in_used_def in_block_def)
  have sp: "spaced lineage ?m ?b ?os" by (simp add: region_slots_def slot_offs_spaced)
  have out2: "\<forall>c. \<forall>x \<in> set (F c). \<forall>off \<in> set ?os. \<not> in_block ?b off (step_at lineage ?m ?b off) x" using out blk by blast
  have sw: "swept k lineage ?m ?b ?os ?s0 s1 F"
    and cnt: "live = length (filter (\<lambda>off. fate_of lineage (?m (at ?b off)) = Survives) ?os)"
      "poison = length (filter (\<lambda>off. fate_of lineage (?m (at ?b off)) \<in> {Corpse, Old_corpse}) ?os)"
    using sweep_all_swept [OF sp bd2, where s = ?s0 and F = F and k = k and frames = frames and l = 0 and p = 0] ch out2
    by (simp_all add: s0 s1 st_def [symmetric])
  have stg: "staged_ok (g_freelist s) s1"
    using sweep_all_staged [OF st0, of k lineage frames ?b ?os 0 0] by (simp add: st_def [symmetric] s1)
  have r': "r' = r\<lparr>live_count := live, poison_count := poison, old_count := (if k then live else 0), young_count := 0,
         youngmap := (if gen_on then replicate (length (youngmap r)) 0 else youngmap r)\<rparr>"
    and s': "s' = (if live = 0 \<and> poison = 0 then fl_region_rollback s1 else fl_region_commit s1)"
    using r by (simp_all add: sweep_region_def walk s1)
  have mem: "sw_mem s' = sw_mem s1" and clean: "fl_clean s'"
    and heads: "g_freelist s' = (if kept r' then g_freelist s1 else g_freelist s)"
    using commit_ok [OF stg] rollback_ok [OF stg] by (auto simp: s' r' kept_def)
  have frame: "sw_mem s1 x = ?m x" if "\<not> in_used r x" for x
    using sw blk that s0(1) unfolding swept_def by metis
  have "fl_chain (sw_mem s') (g_freelist s' c) ((if kept r' then rev (listed_payloads lineage ?m ?b c ?os) else []) @ F c)" for c
  proof (cases "kept r'")
    case True
    then show ?thesis using sw by (simp add: swept_def heads mem)
  next
    case False
    have "fl_chain (sw_mem s1) (g_freelist s c) (F c) = fl_chain ?m (g_freelist s c) (F c)"
      by (rule fl_chain_cong) (use frame out in blast)
    then show ?thesis using False ch by (simp add: heads mem)
  qed
  moreover have "\<forall>off \<in> set ?os. sw_mem s' (at ?b off) = new_hdr k lineage (?m (at ?b off))"
    using sw unfolding swept_def mem by blast
  moreover have "base r' = base r" "bump r' = bump r" "is_large r' = is_large r" "live_count r' = live" "poison_count r' = poison"
    by (simp_all add: r')
  moreover have "intact lineage ?m ?b ?os s s'"
    using sw s0(1) unfolding swept_def intact_def mem by simp
  ultimately show ?thesis using clean frame mem cnt by simp
qed

section \<open>The layout survives\<close>

lemma corpse_hdrs: "free_hdr n = sprout_hdr_make HEAP_FREE n" "poison_hdr n = sprout_hdr_make HEAP_POISON n"
  by (simp_all add: free_hdr_def poison_hdr_def sprout_hdr_make_def)

lemma step_identity: "same_identity h h' \<Longrightarrow> sprout_slot_step lineage h' = sprout_slot_step lineage h"
  by (simp add: same_identity_def sprout_slot_step_def sprout_hdr_aux_def)

lemma survivor_identity: "same_identity h (survivor_hdr k h)"
  unfolding survivor_hdr_def using same_identity_trans [OF clear_color(1) age_bump_keeps(1)] age_bump_keeps(1) by auto

lemma dead_hdr_step:
  assumes "16 \<le> n" "unat n < 2 ^ 50" "k = HEAP_FREE \<or> k = HEAP_POISON"
  shows "sprout_slot_step lineage (sprout_hdr_make k n) = n"
proof -
  have "drop_bit 14 (sprout_hdr_make k n) = n" using hdr_make_aux [of k n] assms(2) by (simp add: sprout_hdr_aux_def take_bit_small)
  then show ?thesis using assms(1,3) by (auto simp: sprout_slot_step_def hdr_make_kind)
qed

lemma new_hdr_step:
  assumes "unat (sprout_slot_step lineage h) < 2 ^ 50"
  shows "sprout_slot_step lineage (new_hdr k lineage h) = sprout_slot_step lineage h"
proof -
  let ?n = "sprout_slot_step lineage h"
  have "16 \<le> ?n" using slot_step_bounds(1) [of lineage h] by (simp add: word_le_nat_alt)
  then have "sprout_slot_step lineage (free_hdr ?n) = ?n" "sprout_slot_step lineage (poison_hdr ?n) = ?n"
    using assms unfolding corpse_hdrs by (simp_all add: dead_hdr_step)
  moreover have "sprout_slot_step lineage (survivor_hdr k h) = ?n" by (rule step_identity [OF survivor_identity])
  ultimately show ?thesis by (auto simp: new_hdr_def split: fate.split)
qed

lemma slot_offs_cong:
  "(\<And>o1. o1 \<in> set (slot_offs lineage m b bmp off) \<Longrightarrow> step_at lineage m' b o1 = step_at lineage m b o1) \<Longrightarrow>
   slot_offs lineage m' b bmp off = slot_offs lineage m b bmp off"
proof (induction lineage m b bmp off rule: slot_offs.induct)
  case (1 lineage m b bmp off)
  show ?case
  proof (cases "off < bmp")
    case True
    have offs: "slot_offs lineage m b bmp off = off # slot_offs lineage m b bmp (off + step_at lineage m b off)"
      using True by (subst slot_offs.simps) simp
    then have "step_at lineage m' b off = step_at lineage m b off" using 1(2) by simp
    moreover have "slot_offs lineage m' b bmp (off + step_at lineage m b off) = slot_offs lineage m b bmp (off + step_at lineage m b off)"
      by (rule 1(1) [OF True]) (use 1(2) offs in simp)
    ultimately show ?thesis unfolding offs using True by (subst slot_offs.simps) simp
  qed (subst slot_offs.simps, subst slot_offs.simps, simp)
qed

lemma sweep_region_layout:
  assumes "tiled lineage (sw_mem s) (base r) (unat (bump r))" "unat (bump r) < 2 ^ 50"
    "\<forall>off \<in> set (region_slots lineage (sw_mem s) r). sw_mem s' (at (base r) off) = new_hdr k lineage (sw_mem s (at (base r) off))"
  shows "region_slots lineage (sw_mem s') r = region_slots lineage (sw_mem s) r"
  unfolding region_slots_def
proof (rule slot_offs_cong)
  fix off assume o: "off \<in> set (slot_offs lineage (sw_mem s) (base r) (unat (bump r)) 0)"
  then have "step_at lineage (sw_mem s) (base r) off < 2 ^ 50" using assms(1,2) by (fastforce simp: tiled_def)
  then show "step_at lineage (sw_mem s') (base r) off = step_at lineage (sw_mem s) (base r) off"
    using assms(3) o new_hdr_step by (simp add: region_slots_def)
qed

section \<open>Both passes\<close>

definition will_keep :: "bool \<Rightarrow> (addr \<Rightarrow> 64 word) \<Rightarrow> region \<Rightarrow> bool" where
  "will_keep lineage m r \<longleftrightarrow> (\<exists>off \<in> set (region_slots lineage m r). fate_of lineage (m (at (base r) off)) \<noteq> Listed)"

fun pass_free :: "bool \<Rightarrow> (addr \<Rightarrow> 64 word) \<Rightarrow> nat \<Rightarrow> region list \<Rightarrow> addr list" where
  "pass_free lineage m c [] = []"
| "pass_free lineage m c (r # rs) = pass_free lineage m c rs @
     (if \<not> is_large r \<and> will_keep lineage m r then rev (listed_payloads lineage m (base r) c (region_slots lineage m r)) else [])"

definition area :: "region \<Rightarrow> addr \<Rightarrow> bool" where
  "area r x \<longleftrightarrow> in_block (base r) 0 (unat (cap r)) x"

definition heap_region_ok :: "bool \<Rightarrow> (addr \<Rightarrow> 64 word) \<Rightarrow> region \<Rightarrow> bool" where
  "heap_region_ok lineage m r \<longleftrightarrow> region_ok r \<and>
     (\<not> is_large r \<longrightarrow> unat (bump r) \<le> unat (cap r) \<and> tiled lineage m (base r) (unat (bump r)))"

lemma kept_iff:
  assumes "live_count r' = length (filter (\<lambda>off. fate_of lineage (m (at (base r) off)) = Survives) (region_slots lineage m r))"
    "poison_count r' = length (filter (\<lambda>off. fate_of lineage (m (at (base r) off)) \<in> {Corpse, Old_corpse}) (region_slots lineage m r))"
  shows "kept r' \<longleftrightarrow> will_keep lineage m r"
proof -
  have "f \<noteq> Listed \<longleftrightarrow> f = Survives \<or> f \<in> {Corpse, Old_corpse}" for f by (cases f) auto
  then show ?thesis unfolding kept_def will_keep_def assms length_0_conv filter_empty_conv by blast
qed

lemma slot_offs_mem_cong:
  "(\<And>o1. o1 \<in> set (slot_offs lineage m b bmp 0) \<Longrightarrow> m' (at b o1) = m (at b o1)) \<Longrightarrow> slot_offs lineage m' b bmp 0 = slot_offs lineage m b bmp 0"
  by (rule slot_offs_cong) simp

lemma region_same:
  assumes ok: "heap_region_ok lineage m r" and l: "\<not> is_large r" and eq: "\<forall>x. area r x \<longrightarrow> m' x = m x"
  shows "region_slots lineage m' r = region_slots lineage m r" "tiled lineage m' (base r) (unat (bump r))"
    "\<And>off. off \<in> set (region_slots lineage m r) \<Longrightarrow> m' (at (base r) off) = m (at (base r) off)"
proof -
  have t: "tiled lineage m (base r) (unat (bump r))" "unat (bump r) \<le> unat (cap r)" using ok l by (auto simp: heap_region_ok_def)
  show h: "m' (at (base r) off) = m (at (base r) off)" if "off \<in> set (region_slots lineage m r)" for off
  proof -
    have o: "off < unat (bump r)" "unat (base r) + off < 2 ^ 64"
      using that t slot_offs_ge [of off lineage m "base r" "unat (bump r)" 0] by (auto simp: region_slots_def tiled_def)
    then have "area r (at (base r) off)" using t(2) unat_at [OF o(2)] by (simp add: area_def in_block_def)
    then show ?thesis using eq by blast
  qed
  show e: "region_slots lineage m' r = region_slots lineage m r"
    unfolding region_slots_def by (rule slot_offs_mem_cong) (use h in \<open>simp add: region_slots_def\<close>)
  have "off + step_at lineage m' (base r) off \<le> unat (bump r)" if "off \<in> set (region_slots lineage m r)" for off
    using h [OF that] t(1) that unfolding tiled_def region_slots_def by simp
  then show "tiled lineage m' (base r) (unat (bump r))"
    using t(1) e unfolding tiled_def region_slots_def by simp
qed

lemma listed_cong:
  "(\<And>off. off \<in> set os \<Longrightarrow> m' (at b off) = m (at b off)) \<Longrightarrow> listed_payloads lineage m' b c os = listed_payloads lineage m b c os"
  unfolding listed_payloads_def by (rule arg_cong [of _ _ "map (\<lambda>off. at b off + 8)"], rule filter_cong) simp_all

text \<open>What pass 1 does to the record of a region.\<close>

definition region_result :: "bool \<Rightarrow> (addr \<Rightarrow> 64 word) \<Rightarrow> region \<Rightarrow> region \<Rightarrow> bool" where
  "region_result lineage m r r' \<longleftrightarrow> is_large r' = is_large r \<and> cap r' = cap r \<and> slotmap r' = slotmap r \<and>
     (if is_large r then base r' = (if hdr_color (m (base r)) then base r else 0)
      else base r' = base r \<and> bump r' = bump r \<and> (kept r' \<longleftrightarrow> will_keep lineage m r))"

definition region_intact :: "bool \<Rightarrow> (addr \<Rightarrow> 64 word) \<Rightarrow> region \<Rightarrow> sweep \<Rightarrow> sweep \<Rightarrow> bool" where
  "region_intact lineage m r s s' \<longleftrightarrow>
     (if is_large r then \<forall>x. area r x \<longrightarrow> x \<noteq> base r \<longrightarrow> sw_mem s' x = sw_mem s x
      else intact lineage m (base r) (region_slots lineage m r) s s')"

lemma slot_in_area:
  assumes ok: "heap_region_ok lineage m r" "\<not> is_large r" "off \<in> set (region_slots lineage m r)"
    and x: "in_block (base r) off (step_at lineage m (base r) off) x"
  shows "area r x"
proof -
  have "off + step_at lineage m (base r) off \<le> unat (bump r)" "unat (bump r) \<le> unat (cap r)"
    using ok by (auto simp: heap_region_ok_def tiled_def region_slots_def)
  then show ?thesis using x by (simp add: area_def in_block_def)
qed

lemma region_intact_trans:
  assumes "heap_region_ok lineage m r"
    "region_intact lineage m r s s1 \<and> (\<forall>x. area r x \<longrightarrow> sw_mem s2 x = sw_mem s1 x) \<or>
     region_intact lineage m r s1 s2 \<and> (\<forall>x. area r x \<longrightarrow> sw_mem s1 x = sw_mem s x)"
  shows "region_intact lineage m r s s2"
  using assms(2)
proof
  assume a: "region_intact lineage m r s s1 \<and> (\<forall>x. area r x \<longrightarrow> sw_mem s2 x = sw_mem s1 x)"
  show ?thesis
  proof (cases "is_large r")
    case False
    then show ?thesis using a slot_in_area [OF assms(1) False] unfolding region_intact_def intact_def by simp
  qed (use a in \<open>simp add: region_intact_def\<close>)
next
  assume a: "region_intact lineage m r s1 s2 \<and> (\<forall>x. area r x \<longrightarrow> sw_mem s1 x = sw_mem s x)"
  show ?thesis
  proof (cases "is_large r")
    case False
    then show ?thesis using a slot_in_area [OF assms(1) False] unfolding region_intact_def intact_def by simp
  qed (use a in \<open>simp add: region_intact_def\<close>)
qed

definition pass1_ok ::
  "bool \<Rightarrow> bool \<Rightarrow> (addr \<Rightarrow> 64 word) \<Rightarrow> (nat \<Rightarrow> addr list) \<Rightarrow> region list \<Rightarrow> sweep \<Rightarrow> region list \<Rightarrow> sweep \<Rightarrow> bool" where
  "pass1_ok k lineage m F rs s rs' s' \<longleftrightarrow> fl_clean s' \<and>
     (\<forall>c. fl_chain (sw_mem s') (g_freelist s' c) (pass_free lineage m c rs @ F c)) \<and>
     (\<forall>x. (\<forall>r \<in> set rs. \<not> area r x) \<longrightarrow> sw_mem s' x = sw_mem s x) \<and>
     list_all2 (region_result lineage m) rs rs' \<and>
     (\<forall>r \<in> set rs. \<not> is_large r \<longrightarrow>
        (\<forall>off \<in> set (region_slots lineage m r). sw_mem s' (at (base r) off) = new_hdr k lineage (m (at (base r) off)))) \<and>
     (\<forall>r \<in> set rs. is_large r \<longrightarrow> hdr_color (m (base r)) \<longrightarrow> sw_mem s' (base r) = survivor_hdr k (m (base r))) \<and>
     (\<forall>r \<in> set rs. region_intact lineage m r s s')"

lemma sweep_large_step:
  assumes "sprout_gc_sweep_large k r s = (survived, r', s')"
  shows "is_large r' = is_large r \<and> cap r' = cap r \<and> slotmap r' = slotmap r" "base r' = (if hdr_color (sw_mem s (base r)) then base r else 0)"
    "g_freelist s' = g_freelist s" "g_fl_touched s' = g_fl_touched s" "x \<noteq> base r \<Longrightarrow> sw_mem s' x = sw_mem s x"
    "hdr_color (sw_mem s (base r)) \<Longrightarrow> sw_mem s' (base r) = survivor_hdr k (sw_mem s (base r))"
  using assms by (auto simp: sprout_gc_sweep_large_def Let_def split: if_splits)

lemma listed_in_area:
  assumes ok: "heap_region_ok lineage m r" "\<not> is_large r" and x: "x \<in> set (listed_payloads lineage m (base r) c (region_slots lineage m r))"
  shows "in_used r x" "area r x"
proof -
  obtain off where o: "off \<in> set (region_slots lineage m r)" "x = at (base r) (off + 8)"
    using x by (auto simp: listed_payloads_def at_add)
  have t: "unat (base r) + unat (bump r) < 2 ^ 64" "off + step_at lineage m (base r) off \<le> unat (bump r)" "unat (bump r) \<le> unat (cap r)"
    using ok o(1) by (auto simp: heap_region_ok_def tiled_def region_slots_def)
  have "off + 8 < unat (bump r)" using t(2) slot_step_bounds(1) [of lineage "m (at (base r) off)"] by simp
  then show "in_used r x" using t(1) unat_at [of "base r" "off + 8"] by (simp add: in_used_def in_block_def o(2))
  then show "area r x" using t(3) by (simp add: in_used_def area_def in_block_def)
qed

lemma below_disjoint: "below r q \<Longrightarrow> area r x \<Longrightarrow> \<not> area q x"
  by (auto simp: below_def area_def in_block_def)

lemma sweep_region_cap: "sweep_region k lineage frames gen_on r s = (r', s') \<Longrightarrow> cap r' = cap r \<and> slotmap r' = slotmap r"
  by (auto simp: sweep_region_def Let_def split: prod.splits)

lemma pass1_region:
  assumes ok: "heap_region_ok lineage m r" and agree: "\<forall>x. area r x \<longrightarrow> sw_mem s x = m x" and cl: "fl_clean s"
    and ch: "\<forall>c. fl_chain (sw_mem s) (g_freelist s c) (F c)" and out: "\<forall>c. \<forall>x \<in> set (F c). \<not> area r x"
    and r1: "sweep_pass1 k lineage frames gen_on [r] s = ([r'], s')"
  shows "pass1_ok k lineage m F [r] s [r'] s'"
proof (cases "is_large r")
  case True
  obtain sv r1 s1 where e: "sprout_gc_sweep_large k r s = (sv, r1, s1)" by (rule prod_cases3)
  note L = sweep_large_step [OF e]
  have s': "s' = s1" and r': "r' = r1\<lparr>old_count := (if sv \<and> k then 1 else 0), young_count := 0\<rparr>"
    using r1 True e by simp_all
  have ar: "area r (base r)" using ok by (auto simp: area_def in_block_def heap_region_ok_def region_ok_def unat_gt_0)
  have "fl_chain (sw_mem s1) (g_freelist s1 c) (F c)" for c
    using ch L(3) fl_chain_cong [of "F c" "sw_mem s1" "sw_mem s"] L(5) out ar by (metis (no_types, lifting))
  moreover have "sw_mem s1 x = sw_mem s x" if "\<not> area r x" for x
    by (rule L(5)) (use ar that in blast)
  ultimately show ?thesis
    using True L cl agree ar by (auto simp: pass1_ok_def s' r' region_result_def fl_clean_def region_intact_def)
next
  case False
  have e: "sweep_region k lineage frames gen_on r s = (r', s')" using r1 False by (auto split: prod.splits)
  note R = region_same [OF ok False agree]
  have used: "in_used r x \<Longrightarrow> area r x" for x
    using ok False by (auto simp: in_used_def area_def in_block_def heap_region_ok_def)
  have fate: "fate_of lineage (sw_mem s (at (base r) off)) = fate_of lineage (m (at (base r) off))"
    if "off \<in> set (region_slots lineage m r)" for off using R(3) [OF that] by simp
  have S: "fl_clean s'" "base r' = base r" "bump r' = bump r" "is_large r' = is_large r"
    "live_count r' = length (filter (\<lambda>off. fate_of lineage (sw_mem s (at (base r) off)) = Survives) (region_slots lineage m r))"
    "poison_count r' = length (filter (\<lambda>off. fate_of lineage (sw_mem s (at (base r) off)) \<in> {Corpse, Old_corpse}) (region_slots lineage m r))"
    "\<forall>off \<in> set (region_slots lineage m r). sw_mem s' (at (base r) off) = new_hdr k lineage (sw_mem s (at (base r) off))"
    "\<forall>x. \<not> in_used r x \<longrightarrow> sw_mem s' x = sw_mem s x"
    "\<forall>c. fl_chain (sw_mem s') (g_freelist s' c)
       ((if kept r' then rev (listed_payloads lineage (sw_mem s) (base r) c (region_slots lineage m r)) else []) @ F c)"
    "intact lineage (sw_mem s) (base r) (region_slots lineage m r) s s'"
    using sweep_region_spec [OF R(2) cl ch _ e] out used unfolding R(1) by blast+
  have kp: "kept r' \<longleftrightarrow> will_keep lineage m r"
    by (rule kept_iff) (use S(5,6) fate in \<open>auto intro!: arg_cong [of _ _ length] filter_cong\<close>)
  have lp: "listed_payloads lineage (sw_mem s) (base r) c (region_slots lineage m r) = listed_payloads lineage m (base r) c (region_slots lineage m r)" for c
    by (rule listed_cong) (rule R(3))
  have "pass_free lineage m c [r] @ F c =
      (if kept r' then rev (listed_payloads lineage (sw_mem s) (base r) c (region_slots lineage m r)) else []) @ F c" for c
    using False kp by (simp add: lp)
  moreover have "region_intact lineage m r s s'"
    using S(10) False R(3) by (simp add: region_intact_def intact_def)
  ultimately show ?thesis
    using S(1-9) sweep_region_cap [OF e] False kp R(3) used unfolding pass1_ok_def by (simp add: region_result_def) blast
qed

lemma pass1_Cons:
  "sweep_pass1 k lineage frames gen_on (r # rs) s =
     (let (r1, s1) = sweep_pass1 k lineage frames gen_on [r] s; (rs', s') = sweep_pass1 k lineage frames gen_on rs s1 in (r1 @ rs', s'))"
  by (simp add: Let_def split: prod.split)

lemma pass1_single: "\<exists>r'. fst (sweep_pass1 k lineage frames gen_on [r] s) = [r']"
  by (simp split: prod.split)

lemma pass1_spec:
  assumes "sorted_wrt below rs" "\<forall>r \<in> set rs. heap_region_ok lineage m r" "\<forall>r \<in> set rs. \<forall>x. area r x \<longrightarrow> sw_mem s x = m x"
    "fl_clean s" "\<forall>c. fl_chain (sw_mem s) (g_freelist s c) (F c)" "\<forall>c. \<forall>x \<in> set (F c). \<forall>r \<in> set rs. \<not> area r x"
    "sweep_pass1 k lineage frames gen_on rs s = (rs', s')"
  shows "pass1_ok k lineage m F rs s rs' s'"
  using assms
proof (induction rs arbitrary: s F rs')
  case Nil
  then show ?case by (simp add: pass1_ok_def)
next
  case (Cons r rs)
  obtain r1 s1 where e1: "sweep_pass1 k lineage frames gen_on [r] s = ([r1], s1)"
    using pass1_single [of k lineage frames gen_on r s] by (metis prod.collapse)
  obtain rs2 where e2: "sweep_pass1 k lineage frames gen_on rs s1 = (rs2, s')" and rs': "rs' = r1 # rs2"
    using Cons.prems(7) pass1_Cons [of k lineage frames gen_on r rs s] e1
    by (auto simp: Let_def simp del: sweep_pass1.simps split: prod.splits)
  have dis: "\<not> area q x" if "q \<in> set rs" "area r x" for q x
    using Cons.prems(1) that by (auto dest: below_disjoint)
  have A: "pass1_ok k lineage m F [r] s [r1] s1"
    by (rule pass1_region [OF _ _ _ _ _ e1]) (use Cons.prems in auto)
  define F1 where "F1 c = pass_free lineage m c [r] @ F c" for c
  have inA: "area r x" if "x \<in> set (pass_free lineage m c [r])" for c x
    using that listed_in_area [of lineage m r x c] Cons.prems(2) by (auto split: if_splits)
  have fr: "sw_mem s1 x = sw_mem s x" if "\<not> area r x" for x using A that by (simp add: pass1_ok_def)
  have agree: "\<forall>q \<in> set rs. \<forall>x. area q x \<longrightarrow> sw_mem s1 x = m x" using fr dis Cons.prems(3) by fastforce
  have outF: "\<forall>c. \<forall>x \<in> set (F1 c). \<forall>q \<in> set rs. \<not> area q x"
    using inA dis Cons.prems(6) by (auto simp: F1_def)
  have B: "pass1_ok k lineage m F1 rs s1 rs2 s'"
    by (rule Cons.IH [OF _ _ agree _ _ outF e2]) (use Cons.prems A in \<open>auto simp: pass1_ok_def F1_def\<close>)
  have hdrs: "sw_mem s' (at (base r) off) = new_hdr k lineage (m (at (base r) off))"
    if "\<not> is_large r" "off \<in> set (region_slots lineage m r)" for off
  proof -
    have ok: "heap_region_ok lineage m r" using Cons.prems(2) by simp
    have o: "off < unat (bump r)" "unat (base r) + off < 2 ^ 64"
      using that ok slot_offs_ge [of off lineage m "base r" "unat (bump r)" 0] by (auto simp: region_slots_def tiled_def heap_region_ok_def)
    have "area r (at (base r) off)" using ok that(1) o unat_at [OF o(2)] by (simp add: area_def in_block_def heap_region_ok_def)
    then have "sw_mem s' (at (base r) off) = sw_mem s1 (at (base r) off)" using B dis by (auto simp: pass1_ok_def)
    then show ?thesis using A that by (simp add: pass1_ok_def)
  qed
  have large: "sw_mem s' (base r) = survivor_hdr k (m (base r))" if "is_large r" "hdr_color (m (base r))"
  proof -
    have "region_ok r" using Cons.prems(2) by (simp add: heap_region_ok_def)
    then have "area r (base r)" by (auto simp: area_def in_block_def region_ok_def unat_gt_0)
    then have "sw_mem s' (base r) = sw_mem s1 (base r)" using B dis by (auto simp: pass1_ok_def)
    then show ?thesis using A that by (simp add: pass1_ok_def)
  qed
  have "fl_chain (sw_mem s') (g_freelist s' c) (pass_free lineage m c (r # rs) @ F c)" for c
    using B by (simp add: pass1_ok_def F1_def)
  moreover have "sw_mem s' x = sw_mem s x" if "\<forall>q \<in> set (r # rs). \<not> area q x" for x
    using that fr [of x] B by (simp add: pass1_ok_def)
  moreover have "region_intact lineage m q s s'" if "q \<in> set (r # rs)" for q
  proof (rule region_intact_trans)
    show "heap_region_ok lineage m q" using Cons.prems(2) that by blast
    show "region_intact lineage m q s s1 \<and> (\<forall>x. area q x \<longrightarrow> sw_mem s' x = sw_mem s1 x) \<or>
      region_intact lineage m q s1 s' \<and> (\<forall>x. area q x \<longrightarrow> sw_mem s1 x = sw_mem s x)"
    proof (cases "q \<in> set rs")
      case True
      then have "\<forall>x. area q x \<longrightarrow> sw_mem s1 x = sw_mem s x" using fr dis by blast
      then show ?thesis using B True by (simp add: pass1_ok_def)
    next
      case False
      then have "q = r" using that by simp
      then show ?thesis using A B dis by (simp add: pass1_ok_def)
    qed
  qed
  ultimately show ?case
    using A B hdrs large unfolding pass1_ok_def rs' by simp
qed

definition stays :: "region \<Rightarrow> bool" where
  "stays r \<longleftrightarrow> (if is_large r then base r \<noteq> 0 else kept r)"

lemma regions_removed [simp]:
  "g_regions (region_table_remove i t) = take i (g_regions t) @ drop (i + 1) (g_regions t)"
  "g_regions (release_region i t) = take i (g_regions t) @ drop (i + 1) (g_regions t)"
  by (simp_all add: region_table_remove_def release_region_def arena_reindex_from_def Let_def)

lemma pass2_regions:
  "n \<le> length (g_regions t) \<Longrightarrow>
   g_regions (fst (sweep_pass2 n t s)) = filter stays (take n (g_regions t)) @ drop n (g_regions t) \<and>
   sw_mem (snd (sweep_pass2 n t s)) = sw_mem s \<and> g_freelist (snd (sweep_pass2 n t s)) = g_freelist s"
proof (induction n arbitrary: t s)
  case (Suc n)
  let ?r = "g_regions t ! n"
  have tk: "take (Suc n) (g_regions t) = take n (g_regions t) @ [?r]" "drop n (g_regions t) = ?r # drop (Suc n) (g_regions t)"
    using Suc.prems by (simp_all add: take_Suc_conv_app_nth Cons_nth_drop_Suc)
  show ?case
  proof (cases "stays ?r")
    case True
    then have "sweep_pass2 (Suc n) t s = sweep_pass2 n t s" by (auto simp: stays_def kept_def Let_def)
    then show ?thesis using Suc.IH [of t s] Suc.prems True tk by simp
  next
    case False
    then obtain t1 s1 where e: "sweep_pass2 (Suc n) t s = sweep_pass2 n t1 s1" "sw_mem s1 = sw_mem s" "g_freelist s1 = g_freelist s"
      and t1: "g_regions t1 = take n (g_regions t) @ drop (Suc n) (g_regions t)"
      by (cases "is_large ?r"; cases "arena_contains (g_arena t) (base ?r)") (auto simp: stays_def kept_def Let_def)
    then show ?thesis using Suc.IH [of t1 s1] Suc.prems False tk by simp
  qed
qed simp

end
