(* ===== verification/Gc_Reclaim.thy ===== *)
theory Gc_Reclaim
  imports Gc_Sweep
begin

unbundle bit_operations_syntax

text \<open>
  What a full sweep gives the allocator and the program: which slots are on which free list, which objects
  survive, and which regions are left.
\<close>

section \<open>The entries of a free list\<close>

definition is_object :: "64 word \<Rightarrow> bool" where
  "is_object h \<longleftrightarrow> sprout_hdr_kind h \<noteq> HEAP_FREE \<and> sprout_hdr_kind h \<noteq> HEAP_POISON"

text \<open>The payloads of the FREE slots of class \<open>c\<close> in the ordinary regions of a table.\<close>

definition free_slots :: "bool \<Rightarrow> (addr \<Rightarrow> 64 word) \<Rightarrow> nat \<Rightarrow> region list \<Rightarrow> addr set" where
  "free_slots lineage m c rs =
     {at (base r) off + 8 | r off. r \<in> set rs \<and> \<not> is_large r \<and> off \<in> set (region_slots lineage m r) \<and>
        sprout_hdr_kind (m (at (base r) off)) = HEAP_FREE \<and> class_of lineage (m (at (base r) off)) = c \<and> 1 \<le> c \<and> c < FREELIST_CLASSES}"

lemma survivor_kind: "sprout_hdr_kind (survivor_hdr k h) = sprout_hdr_kind h"
  using survivor_identity [of h k] by (simp add: same_identity_def)

lemma survivor_color: "hdr_color h \<Longrightarrow> hdr_color (survivor_hdr k h) = k"
  using age_bump_keeps clear_color by (simp add: survivor_hdr_def)

lemma new_hdr_kind:
  "sprout_hdr_kind (new_hdr k lineage h) = HEAP_FREE \<longleftrightarrow> fate_of lineage h = Listed"
  "is_object (new_hdr k lineage h) \<longleftrightarrow> fate_of lineage h = Survives"
  "fate_of lineage h = Survives \<longleftrightarrow> is_object h \<and> hdr_color h"
  by (auto simp: new_hdr_def fate_of_def is_object_def corpse_hdrs hdr_make_kind survivor_kind)

lemma new_hdr_listed:
  "unat (sprout_slot_step lineage h) < 2 ^ 50 \<Longrightarrow>
   (sprout_hdr_kind (new_hdr k lineage h) = HEAP_FREE \<and> class_of lineage (new_hdr k lineage h) = c \<and> 1 \<le> c \<and> c < FREELIST_CLASSES) = listed_in lineage c h"
  using new_hdr_step [of lineage h k] by (auto simp: new_hdr_kind listed_in_def class_of_def)

lemma pass_free_set:
  "set (pass_free lineage m c rs) =
     {at (base r) off + 8 | r off. r \<in> set rs \<and> \<not> is_large r \<and> will_keep lineage m r \<and> off \<in> set (region_slots lineage m r) \<and>
        listed_in lineage c (m (at (base r) off))}"
  by (induction rs) (auto simp: listed_payloads_def)

lemma spaced_sorted: "spaced lineage m b os \<Longrightarrow> distinct os"
proof (induction os)
  case (Cons o1 os)
  have "o1 \<notin> set os"
  proof
    assume "o1 \<in> set os"
    then have "o1 + step_at lineage m b o1 \<le> o1" using Cons.prems by (auto dest: bspec)
    then show False using slot_step_pos [of lineage "m (at b o1)"] by simp
  qed
  then show ?case using Cons by simp
qed simp

lemma listed_distinct:
  assumes ok: "heap_region_ok lineage m r" "\<not> is_large r"
  shows "distinct (listed_payloads lineage m (base r) c (region_slots lineage m r))"
proof -
  have bd: "unat (base r) + (off + 8) < 2 ^ 64" if "off \<in> set (region_slots lineage m r)" for off
  proof -
    have "unat (base r) + unat (bump r) < 2 ^ 64" "off + step_at lineage m (base r) off \<le> unat (bump r)"
      using ok that by (auto simp: heap_region_ok_def tiled_def region_slots_def)
    then show ?thesis using slot_step_bounds(1) [of lineage "m (at (base r) off)"] by simp
  qed
  have "inj_on (\<lambda>off. at (base r) off + 8) (set (region_slots lineage m r))"
  proof (rule inj_onI)
    fix x y assume xy: "x \<in> set (region_slots lineage m r)" "y \<in> set (region_slots lineage m r)" "at (base r) x + 8 = at (base r) y + 8"
    have "unat (at (base r) (x + 8)) = unat (at (base r) (y + 8))" using xy(3) by (simp add: at_add)
    then show "x = y" using unat_at [OF bd [OF xy(1)]] unat_at [OF bd [OF xy(2)]] by simp
  qed
  moreover have "distinct (region_slots lineage m r)"
    unfolding region_slots_def by (rule spaced_sorted [OF slot_offs_spaced])
  ultimately show ?thesis unfolding listed_payloads_def by (simp add: distinct_map inj_on_subset)
qed

lemma pass_free_area:
  "\<forall>r \<in> set rs. heap_region_ok lineage m r \<Longrightarrow> x \<in> set (pass_free lineage m c rs) \<Longrightarrow> \<exists>r \<in> set rs. area r x"
proof (induction rs)
  case (Cons r rs)
  then show ?case using listed_in_area(2) [of lineage m r x c] by (auto split: if_splits)
qed simp

lemma pass_free_distinct:
  "sorted_wrt below rs \<Longrightarrow> \<forall>r \<in> set rs. heap_region_ok lineage m r \<Longrightarrow> distinct (pass_free lineage m c rs)"
proof (induction rs)
  case (Cons r rs)
  have "\<not> (x \<in> set (pass_free lineage m c rs) \<and> x \<in> set (listed_payloads lineage m (base r) c (region_slots lineage m r)) \<and> \<not> is_large r)" for x
  proof
    assume a: "x \<in> set (pass_free lineage m c rs) \<and> x \<in> set (listed_payloads lineage m (base r) c (region_slots lineage m r)) \<and> \<not> is_large r"
    then obtain q where "q \<in> set rs" "area q x" using pass_free_area [of rs lineage m x c] Cons.prems(2) by auto
    moreover have "area r x" using a listed_in_area(2) [of lineage m r x c] Cons.prems(2) by simp
    ultimately show False using Cons.prems(1) below_disjoint by auto
  qed
  then show ?case using Cons listed_distinct [of lineage m r c] by auto
qed simp

section \<open>The whole sweep\<close>

definition sweep_ready :: "bool \<Rightarrow> region_table \<Rightarrow> sweep \<Rightarrow> bool" where
  "sweep_ready lineage t s \<longleftrightarrow> table_inv t \<and> fl_clean s \<and>
     (\<forall>r \<in> set (g_regions t). heap_region_ok lineage (sw_mem s) r \<and> (\<not> is_large r \<longrightarrow> unat (bump r) < 2 ^ 50))"

lemma list_all2_filter_mem:
  assumes "list_all2 P xs ys" "\<And>x y. P x y \<Longrightarrow> Q y = R x"
  shows "list_all2 P (filter R xs) (filter Q ys)"
  using assms(1) by (induction rule: list_all2_induct) (use assms(2) in auto)

definition will_stay :: "bool \<Rightarrow> (addr \<Rightarrow> 64 word) \<Rightarrow> region \<Rightarrow> bool" where
  "will_stay lineage m r \<longleftrightarrow> (if is_large r then hdr_color (m (base r)) else will_keep lineage m r)"

lemma result_stays: "region_ok r \<Longrightarrow> region_result lineage m r r' \<Longrightarrow> stays r' = will_stay lineage m r"
  by (auto simp: stays_def will_stay_def region_result_def region_ok_def)

lemma insert_regions: "set (g_regions (region_table_insert r t)) = insert r (set (g_regions t))"
proof -
  have set_split: "set (take n xs) \<union> set (drop n xs) = set xs" for n and xs :: "region list"
    by (metis append_take_drop_id set_append)
  have "g_regions (widen_bounds r q) = g_regions q" "g_regions (arena_reindex_from n q) = g_regions q" for r q n
    by (simp_all add: widen_bounds_def arena_reindex_from_def Let_def)
  then show ?thesis using set_split by (auto simp: region_table_insert_def Let_def)
qed

lemma open_new_regions:
  assumes "open_new_region commit_ok mb t = Inr (t', i)"
  obtains b where "set (g_regions t') = insert (fresh_region b) (set (g_regions t))" "i = lower_bound (g_regions t') b 0 (length (g_regions t'))"
  using assms by (auto simp: open_new_region_def Let_def insert_regions split: prod.splits option.splits)

text \<open>The tables and the memory after a full sweep, in terms of the first pass.\<close>

lemma sweep_result:
  assumes rdy: "sweep_ready lineage t s" and sw: "sprout_gc_sweep k lineage frames gen_on commit_ok mb t s = Inr (t', s')"
  obtains rs s1 where "pass1_ok k lineage (sw_mem s) (\<lambda>_. []) (g_regions t) (s\<lparr>g_freelist := (\<lambda>_. 0), g_gc_freelist_len := 0\<rparr>) rs s1"
    "sw_mem s' = sw_mem s1" "g_freelist s' = g_freelist s1"
    "set (g_regions t') = set (filter stays rs) \<or> (\<exists>b. set (g_regions t') = insert (fresh_region b) (set (filter stays rs)))"
    "sweep_pass2 (length rs) (t\<lparr>g_regions := rs\<rparr>) s1 = (fst (sweep_passes k lineage frames gen_on t s), s')"
    "g_regions (fst (sweep_passes k lineage frames gen_on t s)) = filter stays rs"
    "t' = fst (sweep_passes k lineage frames gen_on t s) \<or> (\<exists>i. open_new_region commit_ok mb (fst (sweep_passes k lineage frames gen_on t s)) = Inr (t', i))"
proof -
  let ?s0 = "s\<lparr>g_freelist := (\<lambda>_. 0), g_gc_freelist_len := 0\<rparr>"
  obtain rs s1 where e1: "sweep_pass1 k lineage frames gen_on (g_regions t) ?s0 = (rs, s1)" by (rule prod.exhaust)
  obtain t2 s2 where e2: "sweep_pass2 (length rs) (t\<lparr>g_regions := rs\<rparr>) s1 = (t2, s2)" by (rule prod.exhaust)
  have ps: "sweep_passes k lineage frames gen_on t s = (t2, s2)" by (simp add: sweep_passes_def Let_def e1 e2)
  have ok: "pass1_ok k lineage (sw_mem s) (\<lambda>_. []) (g_regions t) ?s0 rs s1"
    by (rule pass1_spec [OF _ _ _ _ _ _ e1]) (use rdy in \<open>auto simp: sweep_ready_def table_inv_def fl_clean_def\<close>)
  have p2: "g_regions t2 = filter stays rs" "sw_mem s2 = sw_mem s1" "g_freelist s2 = g_freelist s1"
    using pass2_regions [of "length rs" "t\<lparr>g_regions := rs\<rparr>" s1] by (simp_all add: e2)
  show thesis
  proof (cases "\<forall>r \<in> set (g_regions t2). is_large r")
    case False
    then have "t' = t2" "s' = s2" using sw by (auto simp: sprout_gc_sweep_def ps split: if_splits)
    then show thesis using that [OF ok] p2 e2 ps by simp
  next
    case True
    then have "res_map (\<lambda>(t3, _). (t3, s2)) (open_new_region commit_ok mb t2) = Inr (t', s')"
      using sw by (simp add: sprout_gc_sweep_def ps)
    then obtain i where i: "open_new_region commit_ok mb t2 = Inr (t', i)" "s' = s2"
      by (cases "open_new_region commit_ok mb t2") (auto split: prod.splits)
    obtain b where "set (g_regions t') = insert (fresh_region b) (set (g_regions t2))" by (rule open_new_regions [OF i(1)])
    then show thesis using that [OF ok] p2 e2 ps i by auto
  qed
qed

lemma slot_offs_0: "slot_offs lineage m b 0 off = []"
  by (subst slot_offs.simps) simp

lemma free_slots_fresh:
  assumes "set rs' = insert (fresh_region b) (set rs)"
  shows "free_slots lineage m c rs' = free_slots lineage m c rs"
proof -
  have "region_slots lineage m (fresh_region b) = []" by (simp add: region_slots_def fresh_region_def slot_offs_0)
  then have "(r \<in> set rs' \<and> \<not> is_large r \<and> off \<in> set (region_slots lineage m r) \<and> P) =
      (r \<in> set rs \<and> \<not> is_large r \<and> off \<in> set (region_slots lineage m r) \<and> P)" for r off P
    using assms by auto
  then show ?thesis unfolding free_slots_def by simp
qed

lemma step_small:
  assumes "sweep_ready lineage t s" "r \<in> set (g_regions t)" "\<not> is_large r" "off \<in> set (region_slots lineage (sw_mem s) r)"
  shows "step_at lineage (sw_mem s) (base r) off < 2 ^ 50"
  using assms by (fastforce simp: sweep_ready_def heap_region_ok_def tiled_def region_slots_def)

lemma result_region:
  assumes rdy: "sweep_ready lineage t s" and ok: "pass1_ok k lineage (sw_mem s) F (g_regions t) s0 rs s1"
    and r: "r \<in> set (g_regions t)" "region_result lineage (sw_mem s) r r'" "\<not> is_large r"
  shows "region_slots lineage (sw_mem s1) r' = region_slots lineage (sw_mem s) r" "base r' = base r" "\<not> is_large r'"
    "\<forall>off \<in> set (region_slots lineage (sw_mem s) r). sw_mem s1 (at (base r) off) = new_hdr k lineage (sw_mem s (at (base r) off))"
proof -
  show b: "base r' = base r" and "\<not> is_large r'" using r(2,3) by (auto simp: region_result_def)
  have u: "bump r' = bump r" using r(2,3) by (simp add: region_result_def)
  show h: "\<forall>off \<in> set (region_slots lineage (sw_mem s) r). sw_mem s1 (at (base r) off) = new_hdr k lineage (sw_mem s (at (base r) off))"
    using ok r(1,3) by (simp add: pass1_ok_def)
  have "region_slots lineage (sw_mem s1) r = region_slots lineage (sw_mem s) r"
    by (rule sweep_region_layout [OF _ _ h]) (use rdy r(1,3) in \<open>auto simp: sweep_ready_def heap_region_ok_def\<close>)
  then show "region_slots lineage (sw_mem s1) r' = region_slots lineage (sw_mem s) r" by (simp add: region_slots_def b u)
qed

lemma result_pairs:
  assumes "list_all2 P xs ys"
  shows "y \<in> set ys \<Longrightarrow> \<exists>x \<in> set xs. P x y" "x \<in> set xs \<Longrightarrow> \<exists>y \<in> set ys. P x y"
  using assms by (metis in_set_conv_nth list_all2_conv_all_nth)+

lemma pass1_results:
  "pass1_ok k lineage m F rs s0 rs' s1 \<Longrightarrow> list_all2 (region_result lineage m) rs rs'"
  by (simp add: pass1_ok_def)

lemma pass1_free_slots:
  assumes rdy: "sweep_ready lineage t s" and ok: "pass1_ok k lineage (sw_mem s) F (g_regions t) s0 rs s1"
  shows "set (pass_free lineage (sw_mem s) c (g_regions t)) = free_slots lineage (sw_mem s1) c (filter stays rs)"
proof (rule set_eqI)
  fix x
  let ?m = "sw_mem s" and ?m1 = "sw_mem s1"
  note pairs = result_pairs [OF pass1_results [OF ok]]
  have here: "stays r' = will_keep lineage ?m r" "base r' = base r" "\<not> is_large r'"
    "(off \<in> set (region_slots lineage ?m1 r') \<and> sprout_hdr_kind (?m1 (at (base r') off)) = HEAP_FREE \<and>
       class_of lineage (?m1 (at (base r') off)) = c \<and> 1 \<le> c \<and> c < FREELIST_CLASSES) =
     (off \<in> set (region_slots lineage ?m r) \<and> listed_in lineage c (?m (at (base r) off)))"
    if r: "r \<in> set (g_regions t)" "region_result lineage ?m r r'" "\<not> is_large r" for r r' off
  proof -
    note R = result_region [OF rdy ok r]
    have "region_ok r" using rdy r(1) by (simp add: sweep_ready_def heap_region_ok_def)
    then show "stays r' = will_keep lineage ?m r" using result_stays [OF _ r(2)] r(3) by (simp add: will_stay_def)
    show "base r' = base r" "\<not> is_large r'" by (rule R)+
    show "(off \<in> set (region_slots lineage ?m1 r') \<and> sprout_hdr_kind (?m1 (at (base r') off)) = HEAP_FREE \<and>
       class_of lineage (?m1 (at (base r') off)) = c \<and> 1 \<le> c \<and> c < FREELIST_CLASSES) =
     (off \<in> set (region_slots lineage ?m r) \<and> listed_in lineage c (?m (at (base r) off)))"
      unfolding R(1,2)
    proof (rule conj_cong [OF refl])
      assume o: "off \<in> set (region_slots lineage ?m r)"
      have "?m1 (at (base r) off) = new_hdr k lineage (?m (at (base r) off))" using R(4) o by blast
      then show "(sprout_hdr_kind (?m1 (at (base r) off)) = HEAP_FREE \<and> class_of lineage (?m1 (at (base r) off)) = c \<and> 1 \<le> c \<and> c < FREELIST_CLASSES) =
          listed_in lineage c (?m (at (base r) off))"
        using new_hdr_listed [OF step_small [OF rdy r(1,3) o]] by simp
    qed
  qed
  show "x \<in> set (pass_free lineage ?m c (g_regions t)) \<longleftrightarrow> x \<in> free_slots lineage ?m1 c (filter stays rs)"
  proof
    assume "x \<in> set (pass_free lineage ?m c (g_regions t))"
    then obtain r off where r: "r \<in> set (g_regions t)" "\<not> is_large r" "will_keep lineage ?m r" "off \<in> set (region_slots lineage ?m r)"
      "listed_in lineage c (?m (at (base r) off))" "x = at (base r) off + 8"
      by (auto simp: pass_free_set)
    obtain r' where r': "r' \<in> set rs" "region_result lineage ?m r r'" using pairs(2) r(1) by blast
    note H = here(1-3) [OF r(1) r'(2) r(2)] here(4) [OF r(1) r'(2) r(2), of off]
    show "x \<in> free_slots lineage ?m1 c (filter stays rs)"
      unfolding free_slots_def
      by (rule CollectI, rule exI [of _ r'], rule exI [of _ off]) (use H r r'(1) in \<open>simp add: H(2)\<close>)
  next
    assume "x \<in> free_slots lineage ?m1 c (filter stays rs)"
    then obtain r' off where r': "r' \<in> set rs" "stays r'" "\<not> is_large r'" "x = at (base r') off + 8"
      and o: "off \<in> set (region_slots lineage ?m1 r') \<and> sprout_hdr_kind (?m1 (at (base r') off)) = HEAP_FREE \<and>
       class_of lineage (?m1 (at (base r') off)) = c \<and> 1 \<le> c \<and> c < FREELIST_CLASSES"
      by (auto simp: free_slots_def)
    obtain r where r: "r \<in> set (g_regions t)" "region_result lineage ?m r r'" using pairs(1) r'(1) by blast
    have l: "\<not> is_large r" using r(2) r'(3) by (simp add: region_result_def)
    note H = here(1-3) [OF r l] here(4) [OF r l, of off]
    show "x \<in> set (pass_free lineage ?m c (g_regions t))"
      unfolding pass_free_set
      by (rule CollectI, rule exI [of _ r], rule exI [of _ off]) (use H r(1) l r' o in simp)
  qed
qed

lemma sweep_lists:
  assumes rdy: "sweep_ready lineage t s" and sw: "sprout_gc_sweep k lineage frames gen_on commit_ok mb t s = Inr (t', s')"
  shows "\<exists>L. \<forall>c. fl_chain (sw_mem s') (g_freelist s' c) (L c) \<and> distinct (L c) \<and>
    set (L c) = free_slots lineage (sw_mem s') c (g_regions t')"
proof -
  let ?m = "sw_mem s"
  obtain rs s1 where ok: "pass1_ok k lineage ?m (\<lambda>_. []) (g_regions t) (s\<lparr>g_freelist := (\<lambda>_. 0), g_gc_freelist_len := 0\<rparr>) rs s1"
    and m: "sw_mem s' = sw_mem s1" "g_freelist s' = g_freelist s1"
    and t': "set (g_regions t') = set (filter stays rs) \<or> (\<exists>b. set (g_regions t') = insert (fresh_region b) (set (filter stays rs)))"
    by (rule sweep_result [OF rdy sw])
  have "set (pass_free lineage ?m c (g_regions t)) = free_slots lineage (sw_mem s') c (filter stays rs)" for c
    by (rule pass1_free_slots [OF rdy ok, folded m(1)])
  moreover have "free_slots lineage (sw_mem s') c (g_regions t') = free_slots lineage (sw_mem s') c (filter stays rs)" for c
    using t' free_slots_fresh [of "g_regions t'" _ "filter stays rs"] by (elim disjE exE) (simp_all add: free_slots_def)
  moreover have "distinct (pass_free lineage ?m c (g_regions t))" for c
    by (rule pass_free_distinct) (use rdy in \<open>auto simp: sweep_ready_def table_inv_def\<close>)
  ultimately show ?thesis
    using ok m by (intro exI [of _ "\<lambda>c. pass_free lineage ?m c (g_regions t)"]) (simp add: pass1_ok_def)
qed

text \<open>C10. A full sweep leaves exact free lists: for every size class the list threaded through memory from its
  head holds, without repetition, exactly the payloads of the FREE slots of that class in the regions that
  are left. A slot of a released region is on no list, and no free slot of a listed class is lost.\<close>

theorem sweep_lists_exact:
  assumes rdy: "sweep_ready lineage t s" and sw: "sprout_gc_sweep k lineage frames gen_on commit_ok mb t s = Inr (t', s')"
  shows "\<exists>L. \<forall>c. fl_chain (sw_mem s') (g_freelist s' c) (L c) \<and> distinct (L c) \<and>
    set (L c) = free_slots lineage (sw_mem s') c (g_regions t')"
  by (rule sweep_lists [OF rdy sw])

section \<open>A heap to sweep\<close>

text \<open>Two regions of 16-byte strings: in the first the object at offset 0 is marked and the one at 16 is not; the
  only object of the second is unmarked.\<close>

definition sample_region :: "addr \<Rightarrow> 64 word \<Rightarrow> region" where
  "sample_region b n =
     \<lparr>base = b, cap = region_size, bump = n, live_count = 0, poison_count = 0, slotmap = [], is_large = False,
      youngmap = [], young_count = 0, old_count = 0, marked_young = 0\<rparr>"

lemma sample_region_sel [simp]: "base (sample_region b n) = b" "\<not> is_large (sample_region b n)" "bump (sample_region b n) = n"
  by (simp_all add: sample_region_def)

definition sample_table :: region_table where
  "sample_table =
     \<lparr>g_regions = [sample_region 0x100000 32, sample_region 0x200000 16], g_heap_lo = 0x100000,
      g_heap_span = 0x200000, g_arena = no_arena, g_open_region_hint = 0\<rparr>"

definition sample_heap :: sweep where
  "sample_heap =
     \<lparr>sw_mem = (\<lambda>_. 0)(0x100000 := sprout_hdr_make HEAP_CSTR 3 OR gc_color_bit, 0x100010 := sprout_hdr_make HEAP_CSTR 3,
        0x200000 := sprout_hdr_make HEAP_CSTR 3),
      g_freelist = (\<lambda>_. 0), g_gc_freelist_len = 0, g_fl_saved = (\<lambda>_. 0), g_fl_touched = (\<lambda>_. False), g_fl_touched_list = [],
      g_fl_region_pushed = 0, sw_singleton = (\<lambda>_. None), sw_freed = [], g_managed_heap_count = 3, g_managed_alloc_since_gc = 0\<rparr>"

lemma sample_slots:
  "map (region_slots False (sw_mem sample_heap)) (g_regions sample_table) = [[0, 16], [0]]"
  "\<forall>r \<in> set (g_regions sample_table). \<forall>off \<in> set (region_slots False (sw_mem sample_heap) r).
     off + step_at False (sw_mem sample_heap) (base r) off \<le> unat (bump r)"
  by code_simp+

lemma sample_ready: "sweep_ready False sample_table sample_heap"
proof -
  have "table_inv sample_table"
    by (simp add: table_inv_def sample_table_def sample_region_def below_def region_ok_def bounds_ok_def arena_shape_def no_arena_def
        placed_def chunks_ok_def arena_contains_def region_size_def)
  moreover have "heap_region_ok False (sw_mem sample_heap) r \<and> unat (bump r) < 2 ^ 50" if "r \<in> set (g_regions sample_table)" for r
    using that sample_slots(2)
    by (auto simp: heap_region_ok_def tiled_def region_slots_def sample_table_def sample_region_def region_ok_def region_size_def)
  ultimately show ?thesis by (simp add: sweep_ready_def fl_clean_def sample_heap_def)
qed

abbreviation sample_sweep :: "(region_table \<times> sweep) res" where
  "sample_sweep \<equiv> sprout_gc_sweep False False (\<lambda>_. (0, 0)) False (\<lambda>_. True) None sample_table sample_heap"

lemma sample_run:
  "case sample_sweep of Inl _ \<Rightarrow> False
   | Inr (t', s') \<Rightarrow> map base (g_regions t') = [0x100000] \<and> map is_large (g_regions t') = [False] \<and>
       map bump (g_regions t') = [32] \<and> g_freelist s' 1 = 0x100018 \<and> g_freelist s' 2 = 0 \<and>
       sw_mem s' 0x100018 = 0 \<and> g_gc_freelist_len s' = 1 \<and> sw_freed s' = [0x200000] \<and> g_managed_heap_count s' = 1"
  by code_simp

theorem sweep_lists_exact_witness:
  "\<exists>t' s'. sample_sweep = Inr (t', s') \<and> free_slots False (sw_mem s') 1 (g_regions t') = {0x100018}"
proof -
  obtain t' s' where e: "sample_sweep = Inr (t', s')" and h: "g_freelist s' 1 = 0x100018" "sw_mem s' 0x100018 = 0"
    using sample_run by (auto split: sum.splits)
  obtain L where LL: "\<forall>c. fl_chain (sw_mem s') (g_freelist s' c) (L c) \<and> distinct (L c) \<and>
      set (L c) = free_slots False (sw_mem s') c (g_regions t')"
    using sweep_lists_exact [OF sample_ready e] by (elim exE)
  note L = LL [rule_format, of 1, THEN conjunct1] LL [rule_format, of 1, THEN conjunct2, THEN conjunct2]
  have "L 1 = [0x100018]"
    using L(1) h by (cases "L (Suc 0)"; cases "tl (L (Suc 0))") auto
  then show ?thesis using L(2) e by auto
qed

lemma sweep_keeps:
  assumes rdy: "sweep_ready lineage t s" and sw: "sprout_gc_sweep k lineage frames gen_on commit_ok mb t s = Inr (t', s')"
    and r: "r \<in> set (g_regions t)"
  shows "is_large r \<Longrightarrow> (\<exists>r' \<in> set (g_regions t'). is_large r' \<and> base r' = base r) \<longleftrightarrow> hdr_color (sw_mem s (base r))"
    and "\<not> is_large r \<Longrightarrow> off \<in> set (region_slots lineage (sw_mem s) r) \<Longrightarrow>
      is_object (sw_mem s' (at (base r) off)) \<longleftrightarrow> is_object (sw_mem s (at (base r) off)) \<and> hdr_color (sw_mem s (at (base r) off))"
    and "\<not> is_large r \<Longrightarrow> off \<in> set (region_slots lineage (sw_mem s) r) \<Longrightarrow> is_object (sw_mem s' (at (base r) off)) \<Longrightarrow>
      same_identity (sw_mem s (at (base r) off)) (sw_mem s' (at (base r) off)) \<and> hdr_color (sw_mem s' (at (base r) off)) = k \<and>
      (\<forall>x. in_block (base r) off (step_at lineage (sw_mem s) (base r) off) x \<longrightarrow> x \<noteq> at (base r) off \<longrightarrow> sw_mem s' x = sw_mem s x) \<and>
      (\<exists>r' \<in> set (g_regions t'). \<not> is_large r' \<and> base r' = base r \<and> region_slots lineage (sw_mem s') r' = region_slots lineage (sw_mem s) r)"
proof -
  let ?m = "sw_mem s"
  obtain rs s1 where ok: "pass1_ok k lineage ?m (\<lambda>_. []) (g_regions t) (s\<lparr>g_freelist := (\<lambda>_. 0), g_gc_freelist_len := 0\<rparr>) rs s1"
    and m: "sw_mem s' = sw_mem s1" "g_freelist s' = g_freelist s1"
    and t': "set (g_regions t') = set (filter stays rs) \<or> (\<exists>b. set (g_regions t') = insert (fresh_region b) (set (filter stays rs)))"
    by (rule sweep_result [OF rdy sw])
  note pairs = result_pairs [OF pass1_results [OF ok]]
  obtain r' where r': "r' \<in> set rs" "region_result lineage ?m r r'" using pairs(2) r by blast
  have rok: "\<forall>q \<in> set (g_regions t). region_ok q" using rdy by (simp add: sweep_ready_def heap_region_ok_def)
  have st: "stays r' = will_stay lineage ?m r" using result_stays rok r r'(2) by blast
  have inT: "r' \<in> set (g_regions t')" if "stays r'" using t' r'(1) that by auto
  show "(\<exists>r' \<in> set (g_regions t'). is_large r' \<and> base r' = base r) \<longleftrightarrow> hdr_color (?m (base r))" if l: "is_large r"
  proof
    assume "hdr_color (?m (base r))"
    then have "stays r'" "is_large r'" "base r' = base r" using l st r'(2) by (auto simp: will_stay_def region_result_def)
    then show "\<exists>r' \<in> set (g_regions t'). is_large r' \<and> base r' = base r" using inT by blast
  next
    assume "\<exists>r' \<in> set (g_regions t'). is_large r' \<and> base r' = base r"
    then obtain q' where i: "q' \<in> set (g_regions t')" and ql: "is_large q'" "base q' = base r" by blast
    have "q' \<noteq> fresh_region b" for b using ql(1) by (auto simp: fresh_region_def)
    then have "q' \<in> set (filter stays rs)" using i t' by blast
    then have q': "q' \<in> set rs" "stays q'" "is_large q'" "base q' = base r" using ql by simp_all
    obtain q where q: "q \<in> set (g_regions t)" "region_result lineage ?m q q'" using pairs(1) q'(1) by blast
    have lq: "is_large q" "base q' = (if hdr_color (?m (base q)) then base q else 0)"
      using q(2) q'(3) by (simp_all add: region_result_def)
    moreover have "base q' \<noteq> 0" using q'(2,3) by (simp add: stays_def)
    ultimately have c: "hdr_color (?m (base q))" "base q' = base q" by (simp_all split: if_splits)
    then show "hdr_color (?m (base r))" using q'(4) by simp
  qed
  show obj: "is_object (sw_mem s' (at (base r) off)) \<longleftrightarrow> is_object (?m (at (base r) off)) \<and> hdr_color (?m (at (base r) off))"
    if l: "\<not> is_large r" and o: "off \<in> set (region_slots lineage ?m r)"
    using result_region(4) [OF rdy ok r r'(2) l] o by (simp add: m new_hdr_kind)
  show "same_identity (?m (at (base r) off)) (sw_mem s' (at (base r) off)) \<and> hdr_color (sw_mem s' (at (base r) off)) = k \<and>
      (\<forall>x. in_block (base r) off (step_at lineage ?m (base r) off) x \<longrightarrow> x \<noteq> at (base r) off \<longrightarrow> sw_mem s' x = ?m x) \<and>
      (\<exists>r' \<in> set (g_regions t'). \<not> is_large r' \<and> base r' = base r \<and> region_slots lineage (sw_mem s') r' = region_slots lineage ?m r)"
    if l: "\<not> is_large r" and o: "off \<in> set (region_slots lineage ?m r)" and ob: "is_object (sw_mem s' (at (base r) off))"
  proof -
    have sv: "fate_of lineage (?m (at (base r) off)) = Survives" using obj [OF l o] ob by (simp add: new_hdr_kind)
    then have h: "sw_mem s' (at (base r) off) = survivor_hdr k (?m (at (base r) off))"
      using result_region(4) [OF rdy ok r r'(2) l] o by (simp add: m new_hdr_def)
    have "region_intact lineage ?m r (s\<lparr>g_freelist := (\<lambda>_. 0), g_gc_freelist_len := 0\<rparr>) s1" using ok r by (simp add: pass1_ok_def)
    then have pay: "\<forall>x. in_block (base r) off (step_at lineage ?m (base r) off) x \<longrightarrow> x \<noteq> at (base r) off \<longrightarrow> sw_mem s' x = ?m x"
      using l o sv by (simp add: region_intact_def intact_def m)
    have "will_keep lineage ?m r" using o sv by (force simp: will_keep_def)
    then have "r' \<in> set (g_regions t')" using st inT l by (simp add: will_stay_def)
    then show ?thesis
      using result_region(1-3) [OF rdy ok r r'(2) l] pay survivor_identity survivor_color [of "?m (at (base r) off)" k] sv
      unfolding m h [unfolded m] new_hdr_kind by blast
  qed
qed

text \<open>C9. A full sweep keeps exactly the marked objects. Slot by slot, what is an object afterwards is what was a marked
  object before; such an object keeps its kind, its auxiliary word and every word of its payload, has its colour exactly when the
  sweep keeps colours, and lies in a region that is still there with the same slots. A large region is left exactly when
  its object is marked.\<close>

theorem sweep_keeps_marked:
  assumes rdy: "sweep_ready lineage t s" and sw: "sprout_gc_sweep k lineage frames gen_on commit_ok mb t s = Inr (t', s')"
    and r: "r \<in> set (g_regions t)"
  shows "if is_large r then (\<exists>r' \<in> set (g_regions t'). is_large r' \<and> base r' = base r) \<longleftrightarrow> hdr_color (sw_mem s (base r))
    else \<forall>off \<in> set (region_slots lineage (sw_mem s) r).
      let h = sw_mem s (at (base r) off); h' = sw_mem s' (at (base r) off) in
      (is_object h' \<longleftrightarrow> is_object h \<and> hdr_color h) \<and>
      (is_object h' \<longrightarrow> same_identity h h' \<and> hdr_color h' = k \<and>
        (\<forall>x. in_block (base r) off (step_at lineage (sw_mem s) (base r) off) x \<longrightarrow> x \<noteq> at (base r) off \<longrightarrow> sw_mem s' x = sw_mem s x) \<and>
        (\<exists>r' \<in> set (g_regions t'). \<not> is_large r' \<and> base r' = base r \<and> region_slots lineage (sw_mem s') r' = region_slots lineage (sw_mem s) r))"
proof (cases "is_large r")
  case True
  show ?thesis unfolding if_P [OF True] by (rule sweep_keeps(1) [OF rdy sw r True])
next
  case False
  show ?thesis
    unfolding if_not_P [OF False] Let_def
    using sweep_keeps(2,3) [OF rdy sw r False] by (intro ballI conjI impI) (assumption | blast)+
qed

theorem sweep_keeps_marked_witness:
  "\<exists>t' s'. sample_sweep = Inr (t', s') \<and> is_object (sw_mem s' 0x100000) \<and> \<not> is_object (sw_mem s' 0x100010) \<and>
     \<not> is_object (sw_mem s' 0x200000)"
proof -
  obtain t' s' where e: "sample_sweep = Inr (t', s')" using sample_run by (auto split: sum.splits)
  have r: "sample_region 0x100000 32 \<in> set (g_regions sample_table)" "sample_region 0x200000 16 \<in> set (g_regions sample_table)"
    by (simp_all add: sample_table_def)
  have sl: "region_slots False (sw_mem sample_heap) (sample_region 0x100000 32) = [0, 16]"
    "region_slots False (sw_mem sample_heap) (sample_region 0x200000 16) = [0]"
    using sample_slots(1) by (simp_all add: sample_table_def)
  have h: "is_object (sw_mem sample_heap 0x100000) \<and> hdr_color (sw_mem sample_heap 0x100000)" "\<not> hdr_color (sw_mem sample_heap 0x100010)"
    "\<not> hdr_color (sw_mem sample_heap 0x200000)" by code_simp+
  note sw = sweep_keeps_marked [OF sample_ready e r(1), unfolded if_not_P [OF sample_region_sel(2)] sl sample_region_sel(1) Let_def]
    sweep_keeps_marked [OF sample_ready e r(2), unfolded if_not_P [OF sample_region_sel(2)] sl sample_region_sel(1) Let_def]
  have "is_object (sw_mem s' 0x100000)" "\<not> is_object (sw_mem s' 0x100010)" "\<not> is_object (sw_mem s' 0x200000)"
    using bspec [OF sw(1), of 0, THEN conjunct1] bspec [OF sw(1), of 16, THEN conjunct1] bspec [OF sw(2), of 0, THEN conjunct1] h
    by (simp_all add: at_def)
  then show ?thesis using e by blast
qed

end
