(* ===== verification/Gc_Alloc.thy ===== *)
theory Gc_Alloc
  imports Gc_Reclaim
begin

unbundle bit_operations_syntax

text \<open>
  The slot allocator: a class free list, the bump pointer of an open region, a new region, or a block of its
  own for a large object. \<open>malloc_block\<close> is the answer of the one \<^verbatim>\<open>malloc\<close> call a run can make (the large block, or the
  region when the arena has no chunk), \<open>commit_ok\<close> whether a chunk of the arena can be committed.
  The \<^verbatim>\<open>calloc\<close> of a region's bitmaps and the \<^verbatim>\<open>realloc\<close> of the region table are taken to succeed.
\<close>

section \<open>The allocator\<close>

definition sprout_hdr_write :: "addr \<Rightarrow> heap_kind \<Rightarrow> 64 word \<Rightarrow> sweep \<Rightarrow> sweep" where
  "sprout_hdr_write payload kind aux s = s\<lparr>sw_mem := (sw_mem s)(payload - 8 := sprout_hdr_make kind aux)\<rparr>"

definition count_alloc :: "sweep \<Rightarrow> sweep" where
  "count_alloc s = s\<lparr>g_managed_heap_count := g_managed_heap_count s + 1, g_managed_alloc_since_gc := g_managed_alloc_since_gc s + 1\<rparr>"

definition alloc_large ::
  "bool \<Rightarrow> addr option \<Rightarrow> heap_kind \<Rightarrow> 64 word \<Rightarrow> 64 word \<Rightarrow> string \<Rightarrow> region_table \<Rightarrow> sweep \<Rightarrow> (addr \<times> region_table \<times> sweep) res" where
  "alloc_large gen_on malloc_block kind aux needed_slot ctx t s =
     (case malloc_block of
        None \<Rightarrow> Inl (SproutFail ctx)
      | Some block \<Rightarrow>
          Inr (block + 8, region_table_insert (large_region block needed_slot (if gen_on then 1 else 0)) t,
               count_alloc (sprout_hdr_write (block + 8) kind aux s)))"

definition mark_young :: "nat \<Rightarrow> region \<Rightarrow> region" where
  "mark_young slot_idx r = (youngmap_set slot_idx r)\<lparr>young_count := young_count r + 1\<rparr>"

definition alloc_listed ::
  "bool \<Rightarrow> nat \<Rightarrow> heap_kind \<Rightarrow> 64 word \<Rightarrow> region_table \<Rightarrow> sweep \<Rightarrow> (addr \<times> region_table \<times> sweep) res" where
  "alloc_listed gen_on cls kind aux t s =
     (let (payload, s1) = fl_pop cls s; s2 = sprout_hdr_write payload kind aux s1 in
      if gen_on
      then (case region_find t payload of
              None \<Rightarrow> Inl NullDeref
            | Some i \<Rightarrow>
                (let fr = g_regions t ! i in
                 Inr (payload, t\<lparr>g_regions := (g_regions t)[i := mark_young (unat (payload - 8 - base fr) div slot_gran) fr]\<rparr>, count_alloc s2)))
      else Inr (payload, t, count_alloc s2))"

definition has_room :: "64 word \<Rightarrow> region \<Rightarrow> bool" where
  "has_room needed_slot r \<longleftrightarrow> \<not> is_large r \<and> bump r + needed_slot \<le> cap r"

text \<open>The scan from the last region to the first.\<close>

primrec scan_open :: "region list \<Rightarrow> 64 word \<Rightarrow> nat \<Rightarrow> nat option" where
  "scan_open rs needed_slot 0 = None"
| "scan_open rs needed_slot (Suc i) = (if has_room needed_slot (rs ! i) then Some i else scan_open rs needed_slot i)"

definition pick_region :: "(nat \<Rightarrow> bool) \<Rightarrow> addr option \<Rightarrow> 64 word \<Rightarrow> region_table \<Rightarrow> (region_table \<times> nat) res" where
  "pick_region commit_ok malloc_block needed_slot t =
     (if g_open_region_hint t < length (g_regions t) \<and> has_room needed_slot (g_regions t ! g_open_region_hint t)
      then Inr (t, g_open_region_hint t)
      else case scan_open (g_regions t) needed_slot (length (g_regions t)) of
             Some i \<Rightarrow> Inr (t\<lparr>g_open_region_hint := i\<rparr>, i)
           | None \<Rightarrow> open_new_region commit_ok malloc_block t)"

definition alloc_bump ::
  "bool \<Rightarrow> heap_kind \<Rightarrow> 64 word \<Rightarrow> 64 word \<Rightarrow> nat \<Rightarrow> region_table \<Rightarrow> sweep \<Rightarrow> addr \<times> region_table \<times> sweep" where
  "alloc_bump gen_on kind aux needed_slot i t s =
     (let r = g_regions t ! i; off = bump r; slot_base = base r + off; idx = unat off div slot_gran;
          r1 = slotmap_set idx (r\<lparr>bump := bump r + needed_slot\<rparr>);
          r2 = (if gen_on then mark_young idx r1 else r1)
      in (slot_base + 8, t\<lparr>g_regions := (g_regions t)[i := r2]\<rparr>, count_alloc (sprout_hdr_write (slot_base + 8) kind aux s)))"

definition sprout_gc_alloc_block ::
  "bool \<Rightarrow> (nat \<Rightarrow> bool) \<Rightarrow> addr option \<Rightarrow> heap_kind \<Rightarrow> 64 word \<Rightarrow> 64 word \<Rightarrow> string \<Rightarrow> region_table \<Rightarrow> sweep \<Rightarrow>
   (addr \<times> region_table \<times> sweep) res" where
  "sprout_gc_alloc_block gen_on commit_ok malloc_block kind aux payload_bytes ctx t s =
     (let needed_slot = alloc_slot payload_bytes in
      if sprout_slot_is_large needed_slot then alloc_large gen_on malloc_block kind aux needed_slot ctx t s
      else let cls = (if unat needed_slot div slot_gran < 1 then 1 else unat needed_slot div slot_gran) in
        if g_freelist s cls \<noteq> 0 then alloc_listed gen_on cls kind aux t s
        else res_map (\<lambda>(t1, i). alloc_bump gen_on kind aux needed_slot i t1 s) (pick_region commit_ok malloc_block needed_slot t))"

section \<open>The heap between collections\<close>

text \<open>A slot of an ordinary region: its address and its size.\<close>

definition slot_in :: "bool \<Rightarrow> (addr \<Rightarrow> 64 word) \<Rightarrow> region \<Rightarrow> addr \<Rightarrow> nat \<Rightarrow> bool" where
  "slot_in lineage m r a n \<longleftrightarrow> \<not> is_large r \<and> (\<exists>off \<in> set (region_slots lineage m r). a = at (base r) off \<and> n = step_at lineage m (base r) off)"

text \<open>An object: an allocated slot, or a large block.\<close>

definition object_at :: "bool \<Rightarrow> (addr \<Rightarrow> 64 word) \<Rightarrow> region list \<Rightarrow> addr \<Rightarrow> nat \<Rightarrow> bool" where
  "object_at lineage m rs a n \<longleftrightarrow>
     (\<exists>r \<in> set rs. slot_in lineage m r a n \<and> is_object (m a) \<or> is_large r \<and> a = base r \<and> n = unat (cap r))"

definition lists_ok :: "bool \<Rightarrow> region list \<Rightarrow> sweep \<Rightarrow> bool" where
  "lists_ok lineage rs s \<longleftrightarrow> (\<exists>L. \<forall>c. fl_chain (sw_mem s) (g_freelist s c) (L c) \<and> distinct (L c) \<and> set (L c) = free_slots lineage (sw_mem s) c rs)"

definition heap_inv :: "bool \<Rightarrow> region_table \<Rightarrow> sweep \<Rightarrow> bool" where
  "heap_inv lineage t s \<longleftrightarrow> table_inv t \<and> fl_clean s \<and> lists_ok lineage (g_regions t) s \<and>
     (\<forall>r \<in> set (g_regions t). heap_region_ok lineage (sw_mem s) r \<and> (\<not> is_large r \<longrightarrow> cap r = region_size) \<and>
        (\<forall>a n. slot_in lineage (sw_mem s) r a n \<longrightarrow> 16 dvd n))"

lemma heap_inv_ready: "heap_inv lineage t s \<Longrightarrow> sweep_ready lineage t s"
  by (auto simp: heap_inv_def sweep_ready_def heap_region_ok_def region_size_def dest!: bspec)

section \<open>Slots do not overlap\<close>

lemma slot_in_bounds:
  assumes "heap_region_ok lineage m r" "slot_in lineage m r a n"
  obtains off where "off \<in> set (region_slots lineage m r)" "a = at (base r) off" "n = step_at lineage m (base r) off"
    "unat a = unat (base r) + off" "16 \<le> n" "off + n \<le> unat (bump r)" "unat (bump r) \<le> unat (cap r)" "unat (base r) + unat (bump r) < 2 ^ 64"
proof -
  obtain off where o: "off \<in> set (region_slots lineage m r)" "a = at (base r) off" "n = step_at lineage m (base r) off" and l: "\<not> is_large r"
    using assms(2) by (auto simp: slot_in_def)
  have t: "unat (base r) + unat (bump r) < 2 ^ 64" "off + n \<le> unat (bump r)" "unat (bump r) \<le> unat (cap r)"
    using assms(1) o l by (auto simp: heap_region_ok_def tiled_def region_slots_def)
  have "16 \<le> n" using o(3) slot_step_bounds(1) by simp
  then show thesis using that [OF o] t unat_at [of "base r" off] o(2) by simp
qed

lemma slots_in_region_apart:
  assumes "slot_in lineage m r a n" "slot_in lineage m r a' n'" "a \<noteq> a'" "heap_region_ok lineage m r"
  shows "unat a + n \<le> unat a' \<or> unat a' + n' \<le> unat a"
proof -
  have sp: "x \<in> set os \<Longrightarrow> y \<in> set os \<Longrightarrow> spaced lineage m b os \<Longrightarrow> x \<noteq> y \<Longrightarrow> x + step_at lineage m b x \<le> y \<or> y + step_at lineage m b y \<le> x"
    for x y b os by (induction os) auto
  obtain off where o: "off \<in> set (region_slots lineage m r)" "a = at (base r) off" "n = step_at lineage m (base r) off" "unat a = unat (base r) + off"
    by (rule slot_in_bounds [OF assms(4,1)])
  obtain off' where o': "off' \<in> set (region_slots lineage m r)" "a' = at (base r) off'" "n' = step_at lineage m (base r) off'" "unat a' = unat (base r) + off'"
    by (rule slot_in_bounds [OF assms(4,2)])
  have "off \<noteq> off'" using assms(3) o o' by auto
  then show ?thesis
    using sp [OF o(1) o'(1), of "base r"] slot_offs_spaced [of lineage m "base r" "unat (bump r)" 0] o(3,4) o'(3,4)
    by (auto simp: region_slots_def)
qed

lemma regions_apart:
  assumes "sorted_wrt below rs" "r \<in> set rs" "q \<in> set rs" "r \<noteq> q"
  shows "below r q \<or> below q r"
  using assms by (induction rs) auto

lemma slots_apart:
  assumes "sorted_wrt below rs" "r \<in> set rs" "q \<in> set rs" "slot_in lineage m r a n" "slot_in lineage m q a' n'" "a \<noteq> a'"
    "\<forall>r \<in> set rs. heap_region_ok lineage m r"
  shows "unat a + n \<le> unat a' \<or> unat a' + n' \<le> unat a"
proof (cases "r = q")
  case True
  then show ?thesis using slots_in_region_apart assms by blast
next
  case False
  obtain off where o: "unat a = unat (base r) + off" "off + n \<le> unat (bump r)" "unat (bump r) \<le> unat (cap r)"
    by (rule slot_in_bounds [of lineage m r a n]) (use assms in auto)
  obtain off' where o': "unat a' = unat (base q) + off'" "off' + n' \<le> unat (bump q)" "unat (bump q) \<le> unat (cap q)"
    by (rule slot_in_bounds [of lineage m q a' n']) (use assms in auto)
  show ?thesis using regions_apart [OF assms(1-3) False] o o' by (auto simp: below_def)
qed

lemma payload_addr:
  assumes "heap_region_ok lineage m r" "slot_in lineage m r a n"
  shows "unat (a + 8) = unat a + 8" "16 \<le> n" "unat a + n < 2 ^ 64" "n = unat (sprout_slot_step lineage (m a))"
    "area r a" "unat a + n \<le> unat (base r) + unat (bump r)"
proof -
  obtain off where o: "a = at (base r) off" "n = step_at lineage m (base r) off" "unat a = unat (base r) + off" "16 \<le> n"
    "off + n \<le> unat (bump r)" "unat (bump r) \<le> unat (cap r)" "unat (base r) + unat (bump r) < 2 ^ 64"
    by (rule slot_in_bounds [OF assms])
  then show b: "16 \<le> n" "unat a + n < 2 ^ 64" "n = unat (sprout_slot_step lineage (m a))" "unat a + n \<le> unat (base r) + unat (bump r)"
    by simp_all
  then show "unat (a + 8) = unat a + 8" by (simp add: unat_word_ariths(1))
  show "area r a" using o by (simp add: area_def in_block_def)
qed

text \<open>The word a free list is threaded through is never the header of a slot.\<close>

lemma payload_not_header:
  assumes "sorted_wrt below rs" "\<forall>r \<in> set rs. heap_region_ok lineage m r" "r \<in> set rs" "slot_in lineage m r a n" "q \<in> set rs" "slot_in lineage m q a' n'"
  shows "a + 8 \<noteq> a'"
proof (cases "a = a'")
  case False
  have ok: "heap_region_ok lineage m r" "heap_region_ok lineage m q" using assms(2,3,5) by blast+
  have "unat (a + 8) = unat a + 8" "16 \<le> n" "16 \<le> n'"
    using payload_addr(1,2) [OF ok(1) assms(4)] payload_addr(2) [OF ok(2) assms(6)] by blast+
  then show ?thesis using slots_apart [OF assms(1,3,5,4,6) False assms(2)] by auto
qed simp

lemma free_slots_alt:
  "free_slots lineage m c rs =
     {a + 8 | a n r. r \<in> set rs \<and> slot_in lineage m r a n \<and> sprout_hdr_kind (m a) = HEAP_FREE \<and> n div slot_gran = c \<and> 1 \<le> c \<and> c < FREELIST_CLASSES}"
  unfolding free_slots_def slot_in_def class_of_def slot_class_def by blast

section \<open>Writing one header\<close>

lemma same_steps:
  assumes ok: "heap_region_ok lineage m q"
    and st: "\<And>a n. slot_in lineage m q a n \<Longrightarrow> sprout_slot_step lineage (m' a) = sprout_slot_step lineage (m a)"
  shows "slot_in lineage m' q a n = slot_in lineage m q a n" "heap_region_ok lineage m' q"
proof -
  have *: "region_slots lineage m' q = region_slots lineage m q \<and>
      (\<forall>off \<in> set (region_slots lineage m q). step_at lineage m' (base q) off = step_at lineage m (base q) off)" if "\<not> is_large q"
  proof -
    have e: "step_at lineage m' (base q) off = step_at lineage m (base q) off" if "off \<in> set (region_slots lineage m q)" for off
      by (rule arg_cong [of _ _ unat], rule st [of _ "step_at lineage m (base q) off"]) (use that \<open>\<not> is_large q\<close> in \<open>auto simp: slot_in_def\<close>)
    have "region_slots lineage m' q = region_slots lineage m q"
      unfolding region_slots_def by (rule slot_offs_cong) (use e in \<open>simp add: region_slots_def\<close>)
    then show ?thesis using e by blast
  qed
  then show "slot_in lineage m' q a n = slot_in lineage m q a n" unfolding slot_in_def by auto
  show "heap_region_ok lineage m' q"
    using ok * unfolding heap_region_ok_def tiled_def region_slots_def by auto
qed

text \<open>Regions that differ in their bitmaps and counts only.\<close>

definition same_place :: "region \<Rightarrow> region \<Rightarrow> bool" where
  "same_place r r' \<longleftrightarrow> base r' = base r \<and> cap r' = cap r \<and> bump r' = bump r \<and> is_large r' = is_large r"

lemma same_place_simps:
  assumes "same_place r r'"
  shows "slot_in lineage m r' a n = slot_in lineage m r a n" "heap_region_ok lineage m r' = heap_region_ok lineage m r"
  using assms by (simp_all add: same_place_def slot_in_def region_slots_def heap_region_ok_def region_ok_def)

definition same_span :: "region \<Rightarrow> region \<Rightarrow> bool" where
  "same_span r r' \<longleftrightarrow> base r' = base r \<and> cap r' = cap r \<and> is_large r' = is_large r"

lemma table_inv_span:
  assumes "list_all2 same_span (g_regions t) rs"
  shows "table_inv (t\<lparr>g_regions := rs, g_open_region_hint := h\<rparr>) = table_inv t"
proof -
  let ?rs = "g_regions t"
  have len: "length rs = length ?rs" and nth: "\<And>i. i < length ?rs \<Longrightarrow> same_span (?rs ! i) (rs ! i)"
    using assms by (auto simp: list_all2_conv_all_nth)
  have set_all: "(\<forall>r \<in> set rs. P r) = (\<forall>r \<in> set ?rs. P r)" if "\<And>r r'. same_span r r' \<Longrightarrow> P r' = P r" for P
  proof -
    have "P (rs ! i) = P (?rs ! i)" if "i < length ?rs" for i using \<open>\<And>r r'. same_span r r' \<Longrightarrow> P r' = P r\<close> nth [OF that] by blast
    then show ?thesis using len by (simp add: all_set_conv_all_nth)
  qed
  have "sorted_wrt below rs = sorted_wrt below ?rs"
    using nth len by (simp add: sorted_wrt_iff_nth_less below_def same_span_def)
  moreover have "bounds_ok (t\<lparr>g_regions := rs, g_open_region_hint := h\<rparr>) = bounds_ok t"
    using set_all [of "\<lambda>r. unat (g_heap_lo t) \<le> unat (base r) \<and> unat (base r) + unat (cap r) \<le> unat (g_heap_lo t) + unat (g_heap_span t)"]
    by (simp add: bounds_ok_def same_span_def)
  moreover have "(\<forall>r \<in> set rs. region_ok r) = (\<forall>r \<in> set ?rs. region_ok r)" "(\<forall>r \<in> set rs. placed (g_arena t) r) = (\<forall>r \<in> set ?rs. placed (g_arena t) r)"
    by (rule set_all; simp add: same_span_def region_ok_def placed_def)+
  moreover have "chunks_ok rs (g_arena t) = chunks_ok ?rs (g_arena t)"
    using nth len unfolding chunks_ok_def by (auto simp: same_span_def)
  ultimately show ?thesis unfolding table_inv_def by simp
qed

section \<open>The slots of the heap\<close>

definition heap_slot :: "bool \<Rightarrow> (addr \<Rightarrow> 64 word) \<Rightarrow> region list \<Rightarrow> addr \<Rightarrow> nat \<Rightarrow> bool" where
  "heap_slot lineage m rs a n \<longleftrightarrow> (\<exists>r \<in> set rs. slot_in lineage m r a n)"

definition large_at :: "region list \<Rightarrow> addr \<Rightarrow> nat \<Rightarrow> bool" where
  "large_at rs a n \<longleftrightarrow> (\<exists>r \<in> set rs. is_large r \<and> a = base r \<and> n = unat (cap r))"

definition regions_ok :: "bool \<Rightarrow> (addr \<Rightarrow> 64 word) \<Rightarrow> region list \<Rightarrow> bool" where
  "regions_ok lineage m rs \<longleftrightarrow> sorted_wrt below rs \<and>
     (\<forall>r \<in> set rs. heap_region_ok lineage m r \<and> (\<not> is_large r \<longrightarrow> cap r = region_size)) \<and> (\<forall>a n. heap_slot lineage m rs a n \<longrightarrow> 16 dvd n)"

lemma heap_inv_alt:
  "heap_inv lineage t s \<longleftrightarrow> table_inv t \<and> fl_clean s \<and> lists_ok lineage (g_regions t) s \<and> regions_ok lineage (sw_mem s) (g_regions t)"
  unfolding heap_inv_def regions_ok_def heap_slot_def table_inv_def by blast

lemma object_at_alt: "object_at lineage m rs a n \<longleftrightarrow> heap_slot lineage m rs a n \<and> is_object (m a) \<or> large_at rs a n"
  unfolding object_at_def heap_slot_def large_at_def by blast

lemma free_slots_heap:
  "free_slots lineage m c rs =
     {a + 8 | a n. heap_slot lineage m rs a n \<and> sprout_hdr_kind (m a) = HEAP_FREE \<and> n div slot_gran = c \<and> 1 \<le> c \<and> c < FREELIST_CLASSES}"
  unfolding free_slots_alt heap_slot_def by blast

lemma heap_slot_step: "heap_slot lineage m rs a n \<Longrightarrow> n = unat (sprout_slot_step lineage (m a))"
  unfolding heap_slot_def slot_in_def by blast

lemma heap_slots_apart:
  assumes "regions_ok lineage m rs" "heap_slot lineage m rs a n" "heap_slot lineage m rs a' n'" "a \<noteq> a'"
  shows "unat a + n \<le> unat a' \<or> unat a' + n' \<le> unat a"
proof -
  obtain r q where "r \<in> set rs" "q \<in> set rs" "slot_in lineage m r a n" "slot_in lineage m q a' n'"
    using assms(2,3) by (auto simp: heap_slot_def)
  then show ?thesis
    using assms(1) by (intro slots_apart [where m = m and r = r and q = q]) (auto simp: regions_ok_def assms(4))
qed

lemma heap_payload_not_header:
  assumes "regions_ok lineage m rs" "heap_slot lineage m rs a n" "heap_slot lineage m rs a' n'"
  shows "a + 8 \<noteq> a'"
proof -
  obtain r q where "r \<in> set rs" "q \<in> set rs" "slot_in lineage m r a n" "slot_in lineage m q a' n'"
    using assms(2,3) by (auto simp: heap_slot_def)
  then show ?thesis
    using assms(1) by (intro payload_not_header [where m = m and r = r and q = q]) (auto simp: regions_ok_def)
qed

text \<open>An object that is written at \<open>a\<close>: over a free slot, or where no slot was.\<close>

lemma free_slots_write:
  assumes slots: "\<And>b k. heap_slot lineage (m(a := w)) rs' b k \<longleftrightarrow> heap_slot lineage m rs b k \<or> new \<and> b = a \<and> k = n" and w: "is_object w"
  shows "free_slots lineage (m(a := w)) c rs' = free_slots lineage m c rs - {a + 8}"
proof -
  have wf: "sprout_hdr_kind w \<noteq> HEAP_FREE" using w by (simp add: is_object_def)
  have "(heap_slot lineage (m(a := w)) rs' b k \<and> sprout_hdr_kind ((m(a := w)) b) = HEAP_FREE \<and> P) =
      (b \<noteq> a \<and> heap_slot lineage m rs b k \<and> sprout_hdr_kind (m b) = HEAP_FREE \<and> P)" for b k P
    unfolding slots using wf by auto
  then show ?thesis unfolding free_slots_heap by auto
qed

lemma lists_write:
  assumes ok: "lists_ok lineage rs s" and slots: "\<And>b k. heap_slot lineage ((sw_mem s)(a := w)) rs' b k \<longleftrightarrow> heap_slot lineage (sw_mem s) rs b k \<or> new \<and> b = a \<and> k = n"
    and w: "is_object w" and apart: "\<And>b k. heap_slot lineage (sw_mem s) rs b k \<Longrightarrow> b + 8 \<noteq> a"
    and s': "sw_mem s' = (sw_mem s)(a := w)"
    and heads: "\<And>L. fl_chain (sw_mem s) (g_freelist s c) L \<Longrightarrow> distinct L \<Longrightarrow> fl_chain (sw_mem s) (g_freelist s' c) (removeAll (a + 8) L)"
    "\<And>c'. c' \<noteq> c \<Longrightarrow> g_freelist s' c' = g_freelist s c'" "\<And>c'. c' \<noteq> c \<Longrightarrow> a + 8 \<notin> free_slots lineage (sw_mem s) c' rs"
  shows "lists_ok lineage rs' s'"
proof -
  obtain L where L: "\<And>c. fl_chain (sw_mem s) (g_freelist s c) (L c)" "\<And>c. distinct (L c)" "\<And>c. set (L c) = free_slots lineage (sw_mem s) c rs"
    using ok by (auto simp: lists_ok_def)
  have na: "a \<notin> set (L c)" for c using apart unfolding L(3) free_slots_heap by blast
  have "fl_chain (sw_mem s') (g_freelist s' c') (removeAll (a + 8) (L c'))" for c'
  proof -
    have "fl_chain (sw_mem s) (g_freelist s' c') (removeAll (a + 8) (L c'))"
    proof (cases "c' = c")
      case True
      then show ?thesis using heads(1) [OF L(1,2)] by simp
    next
      case False
      then have "removeAll (a + 8) (L c') = L c'" using heads(3) L(3) by simp
      then show ?thesis using heads(2) [OF False] L(1) by simp
    qed
    moreover have "fl_chain (sw_mem s') h (removeAll (a + 8) (L c')) = fl_chain (sw_mem s) h (removeAll (a + 8) (L c'))" for h
      by (rule fl_chain_cong) (use na in \<open>auto simp: s'\<close>)
    ultimately show ?thesis by simp
  qed
  then show ?thesis
    unfolding lists_ok_def s'
    by (intro exI [of _ "\<lambda>c. removeAll (a + 8) (L c)"]) (auto simp: L(2,3) s' [symmetric] free_slots_write [OF slots w, folded s'] distinct_removeAll)
qed

lemma lists_write_fresh:
  assumes ok: "lists_ok lineage rs s" and slots: "\<And>b k. heap_slot lineage ((sw_mem s)(a := w)) rs' b k \<longleftrightarrow> heap_slot lineage (sw_mem s) rs b k \<or> new \<and> b = a \<and> k = n"
    and w: "is_object w" and apart: "\<And>b k. heap_slot lineage (sw_mem s) rs b k \<Longrightarrow> b + 8 \<noteq> a" and fresh: "\<And>k. \<not> heap_slot lineage (sw_mem s) rs a k"
    and s': "sw_mem s' = (sw_mem s)(a := w)" "g_freelist s' = g_freelist s"
  shows "lists_ok lineage rs' s'"
proof (rule lists_write [OF ok slots w apart s'(1), where c = 0])
  show "a + 8 \<notin> free_slots lineage (sw_mem s) c' rs" for c' using fresh unfolding free_slots_heap by auto
  obtain L where L: "\<And>c. fl_chain (sw_mem s) (g_freelist s c) (L c)" "\<And>c. set (L c) = free_slots lineage (sw_mem s) c rs"
    using ok by (auto simp: lists_ok_def)
  have "free_slots lineage (sw_mem s) 0 rs = {}" unfolding free_slots_heap by simp
  then have "g_freelist s 0 = 0" using L(1) [of 0] L(2) [of 0] by (cases "L 0") auto
  then show "fl_chain (sw_mem s) (g_freelist s' 0) (removeAll (a + 8) K)" if "fl_chain (sw_mem s) (g_freelist s 0) K" for K
    using that s'(2) by (cases K) auto
  show "g_freelist s' c' = g_freelist s c'" for c' by (simp only: s'(2))
qed

lemma objects_write:
  assumes slots: "\<And>b k. heap_slot lineage (m(a := w)) rs' b k \<longleftrightarrow> heap_slot lineage m rs b k \<or> new \<and> b = a \<and> k = n"
    and large: "\<And>b k. large_at rs' b k = large_at rs b k" and w: "is_object w" and n: "heap_slot lineage (m(a := w)) rs' a n"
  shows "object_at lineage (m(a := w)) rs' b k \<longleftrightarrow> object_at lineage m rs b k \<or> b = a \<and> k = n"
proof (cases "b = a")
  case True
  have "heap_slot lineage (m(a := w)) rs' a k \<longleftrightarrow> k = n"
    using n heap_slot_step [of lineage "m(a := w)" rs' a] by metis
  then show ?thesis using True w slots [of a k] unfolding object_at_alt by (auto simp: large)
next
  case False
  then show ?thesis unfolding object_at_alt slots by (simp add: large)
qed

section \<open>Reusing a free slot\<close>

lemma write_over_slot:
  assumes ok: "regions_ok lineage m rs" and a: "heap_slot lineage m rs a n" and w: "unat (sprout_slot_step lineage w) = n"
    and same: "list_all2 same_place rs rs'"
  shows "heap_slot lineage (m(a := w)) rs' b k = heap_slot lineage m rs b k" "regions_ok lineage (m(a := w)) rs'" "large_at rs' b k = large_at rs b k"
proof -
  have "sprout_slot_step lineage w = sprout_slot_step lineage (m a)" using heap_slot_step [OF a] w by (simp add: word_unat_eq_iff)
  then have st: "sprout_slot_step lineage ((m(a := w)) b) = sprout_slot_step lineage (m b)" for b by simp
  have S: "slot_in lineage (m(a := w)) q b k = slot_in lineage m q b k" "heap_region_ok lineage (m(a := w)) q" if "q \<in> set rs" for q b k
    using same_steps [of lineage m q "m(a := w)"] st ok that by (simp_all add: regions_ok_def)
  have len: "length rs' = length rs" and nth: "\<And>i. i < length rs \<Longrightarrow> same_place (rs ! i) (rs' ! i)"
    using same by (auto simp: list_all2_conv_all_nth)
  have S': "slot_in lineage (m(a := w)) (rs' ! i) b k = slot_in lineage m (rs ! i) b k" "heap_region_ok lineage (m(a := w)) (rs' ! i)" if "i < length rs" for i b k
    using S [of "rs ! i"] same_place_simps [OF nth [OF that]] that by simp_all
  show hs: "heap_slot lineage (m(a := w)) rs' b k = heap_slot lineage m rs b k" for b k
    unfolding heap_slot_def Bex_def in_set_conv_nth len using S'(1) by metis
  have "sorted_wrt below rs'" using ok nth len by (simp add: regions_ok_def sorted_wrt_iff_nth_less below_def same_place_def)
  moreover have "heap_region_ok lineage (m(a := w)) r \<and> (\<not> is_large r \<longrightarrow> cap r = region_size)" if r: "r \<in> set rs'" for r
  proof -
    obtain i where i: "i < length rs" "r = rs' ! i" using r len by (auto simp: in_set_conv_nth)
    have "\<not> is_large (rs ! i) \<longrightarrow> cap (rs ! i) = region_size" using ok i(1) by (simp add: regions_ok_def)
    then show ?thesis using S'(2) [OF i(1)] nth [OF i(1)] i(2) by (simp add: same_place_def)
  qed
  ultimately show "regions_ok lineage (m(a := w)) rs'" using ok hs by (simp add: regions_ok_def)
  have "(is_large (rs' ! i) \<and> b = base (rs' ! i) \<and> k = unat (cap (rs' ! i))) = (is_large (rs ! i) \<and> b = base (rs ! i) \<and> k = unat (cap (rs ! i)))"
    if "i < length rs" for i using nth [OF that] by (simp add: same_place_def)
  then show "large_at rs' b k = large_at rs b k" unfolding large_at_def Bex_def in_set_conv_nth len by metis
qed

text \<open>What an allocation does to a heap that is well formed: the object of \<open>n\<close> bytes at \<open>a\<close> is new.\<close>

definition alloc_result :: "bool \<Rightarrow> region_table \<Rightarrow> sweep \<Rightarrow> addr \<Rightarrow> nat \<Rightarrow> 64 word \<Rightarrow> region_table \<Rightarrow> sweep \<Rightarrow> bool" where
  "alloc_result lineage t s a n w t' s' \<longleftrightarrow> heap_inv lineage t' s' \<and> sw_mem s' = (sw_mem s)(a := w) \<and>
     (\<forall>b k. object_at lineage (sw_mem s') (g_regions t') b k \<longleftrightarrow> object_at lineage (sw_mem s) (g_regions t) b k \<or> b = a \<and> k = n) \<and>
     (\<forall>k. \<not> object_at lineage (sw_mem s) (g_regions t) a k)"

lemma slot_not_large:
  assumes ok: "regions_ok lineage m rs" and a: "heap_slot lineage m rs a n"
  shows "\<not> large_at rs a k"
proof
  assume "large_at rs a k"
  then obtain q where q: "q \<in> set rs" "is_large q" "a = base q" by (auto simp: large_at_def)
  obtain r where r: "r \<in> set rs" "slot_in lineage m r a n" using a by (auto simp: heap_slot_def)
  have okr: "heap_region_ok lineage m r" "heap_region_ok lineage m q" using ok q r by (auto simp: regions_ok_def)
  have "area r a" using payload_addr(5) [OF okr(1) r(2)] .
  moreover have "area q a" using okr(2) q(3) by (auto simp: area_def in_block_def heap_region_ok_def region_ok_def unat_gt_0)
  moreover have "r \<noteq> q" using r(2) q(2) by (auto simp: slot_in_def)
  ultimately show False using regions_apart [of rs r q] ok r(1) q(1) below_disjoint by (auto simp: regions_ok_def)
qed

lemma alloc_over_free:
  assumes inv: "heap_inv lineage t s" and p: "g_freelist s c \<noteq> 0" and w: "is_object w" "unat (sprout_slot_step lineage w) = 16 * c"
    and t': "list_all2 same_place (g_regions t) rs'"
    and s': "sw_mem s' = (sw_mem s)(g_freelist s c - 8 := w)" "g_freelist s' = (g_freelist s)(c := sw_mem s (g_freelist s c))" "g_fl_touched s' = g_fl_touched s"
  shows "alloc_result lineage t s (g_freelist s c - 8) (16 * c) w (t\<lparr>g_regions := rs'\<rparr>) s'"
proof -
  let ?m = "sw_mem s" and ?rs = "g_regions t" and ?a = "g_freelist s c - 8"
  have T: "table_inv t" "fl_clean s" "lists_ok lineage ?rs s" "regions_ok lineage ?m ?rs" using inv by (auto simp: heap_inv_alt)
  obtain L where L: "fl_chain ?m (g_freelist s c) (L c)" "distinct (L c)" "set (L c) = free_slots lineage ?m c ?rs"
    using T(3) unfolding lists_ok_def by blast
  then obtain xs where xs: "L c = g_freelist s c # xs" using p by (cases "L c") auto
  have "g_freelist s c \<in> free_slots lineage ?m c ?rs" using L(3) xs by (metis list.set_intros(1))
  then obtain b n where b: "g_freelist s c = b + 8" "heap_slot lineage ?m ?rs b n" "sprout_hdr_kind (?m b) = HEAP_FREE" "n div slot_gran = c"
    unfolding free_slots_heap by blast
  have a: "?a = b" using b(1) by simp
  have "16 dvd n" using T(4) b(2) by (simp add: regions_ok_def)
  then have n: "n = 16 * c" using b(4) by (auto simp: slot_gran_def)
  note W = write_over_slot [OF T(4) b(2) w(2) [folded n] t']
  have hs: "heap_slot lineage (?m(b := w)) rs' x k \<longleftrightarrow> heap_slot lineage ?m ?rs x k \<or> False \<and> x = b \<and> k = n" for x k using W(1) by simp
  have m': "sw_mem s' = ?m(b := w)" using s'(1) a by simp
  have lists: "lists_ok lineage rs' s'"
  proof (rule lists_write [OF T(3) hs w(1) _ m'])
    show "x + 8 \<noteq> b" if "heap_slot lineage ?m ?rs x k" for x k using heap_payload_not_header [OF T(4) that b(2)] .
    show "fl_chain ?m (g_freelist s' c) (removeAll (b + 8) K)" if K: "fl_chain ?m (g_freelist s c) K" "distinct K" for K
      using K p s'(2) b(1) by (cases K) auto
    show "g_freelist s' c' = g_freelist s c'" if "c' \<noteq> c" for c' using s'(2) that by simp
    show "b + 8 \<notin> free_slots lineage ?m c' ?rs" if "c' \<noteq> c" for c'
      using heap_slot_step [OF b(2)] heap_slot_step b(4) that unfolding free_slots_heap by auto
  qed
  have span: "list_all2 same_span ?rs rs'" using t' by (rule list_all2_mono) (simp add: same_place_def same_span_def)
  have "table_inv (t\<lparr>g_regions := rs'\<rparr>)" using table_inv_span [OF span, of "g_open_region_hint t"] T(1) by simp
  then have "heap_inv lineage (t\<lparr>g_regions := rs'\<rparr>) s'" using lists W(2) T(2) s'(3) m' by (simp add: heap_inv_alt fl_clean_def)
  moreover have "object_at lineage (?m(b := w)) rs' x k \<longleftrightarrow> object_at lineage ?m ?rs x k \<or> x = b \<and> k = n" for x k
    by (rule objects_write [OF hs W(3) w(1)]) (use W(1) b(2) in simp)
  moreover have "\<not> object_at lineage ?m ?rs b k" for k
    using b(3) slot_not_large [OF T(4) b(2)] by (simp add: object_at_alt is_object_def)
  ultimately show ?thesis by (simp add: alloc_result_def m' a n)
qed

section \<open>The bump pointer\<close>

lemma slot_offs_append:
  assumes "\<forall>o1 \<in> set (slot_offs lineage m b bmp off). o1 + step_at lineage m b o1 \<le> bmp" "off \<le> bmp"
    "\<forall>o1 \<in> set (slot_offs lineage m b bmp off). m' (at b o1) = m (at b o1)" "bmp < bmp'" "step_at lineage m' b bmp = bmp' - bmp"
  shows "slot_offs lineage m' b bmp' off = slot_offs lineage m b bmp off @ [bmp]"
  using assms
proof (induction lineage m b bmp off rule: slot_offs.induct)
  case (1 lineage m b bmp off)
  show ?case
  proof (cases "off < bmp")
    case True
    let ?n = "step_at lineage m b off"
    have offs: "slot_offs lineage m b bmp off = off # slot_offs lineage m b bmp (off + ?n)" using True by (subst slot_offs.simps) simp
    have e: "m' (at b off) = m (at b off)" "off + ?n \<le> bmp" using 1(2,4) by (simp_all add: offs)
    have "slot_offs lineage m' b bmp' (off + ?n) = slot_offs lineage m b bmp (off + ?n) @ [bmp]"
      by (rule 1(1) [OF True]) (use 1(2-6) e in \<open>simp_all add: offs\<close>)
    then show ?thesis unfolding offs using True 1(5) e by (subst slot_offs.simps) simp
  next
    case False
    then have "off = bmp" using 1(3) by simp
    then have "slot_offs lineage m' b bmp' off = bmp # slot_offs lineage m' b bmp' bmp'" using 1(5,6) by (subst slot_offs.simps) simp
    moreover have "slot_offs lineage m' b bmp' bmp' = []" "slot_offs lineage m b bmp off = []"
      using False by (subst slot_offs.simps, simp)+
    ultimately show ?thesis by simp
  qed
qed

text \<open>A slot at the bump pointer of the region \<open>r\<close>, which becomes \<open>r'\<close>.\<close>

lemma bump_region:
  assumes ok: "heap_region_ok lineage m r" "\<not> is_large r" and n: "unat (sprout_slot_step lineage w) = n" "unat (bump r) + n \<le> unat (cap r)"
    and r': "base r' = base r" "cap r' = cap r" "is_large r' = is_large r" "unat (bump r') = unat (bump r) + n"
    and a: "a = at (base r) (unat (bump r))"
  shows "slot_in lineage (m(a := w)) r' b k \<longleftrightarrow> slot_in lineage m r b k \<or> b = a \<and> k = n" "heap_region_ok lineage (m(a := w)) r'"
    "\<not> slot_in lineage m r a k" "area r a"
proof -
  let ?m = "m(a := w)" and ?u = "unat (bump r)" and ?os = "region_slots lineage m r"
  have n0: "0 < n" using n(1) slot_step_pos [of lineage w] by simp
  have bd: "unat (base r) + unat (cap r) < 2 ^ 64" and t: "\<forall>off \<in> set ?os. off + step_at lineage m (base r) off \<le> ?u"
    using ok by (auto simp: heap_region_ok_def region_ok_def tiled_def region_slots_def)
  have ua: "unat a = unat (base r) + ?u" using unat_at [of "base r" ?u] n(2) n0 bd a by simp
  have ne: "at (base r) off \<noteq> a" if "off \<in> set ?os" for off
  proof -
    have "off < ?u" using bspec [OF t that] slot_step_pos [of lineage "m (at (base r) off)"] by linarith
    then show ?thesis using ua unat_at [of "base r" off] n(2) bd by auto
  qed
  have slots: "region_slots lineage ?m r' = ?os @ [?u]"
    unfolding region_slots_def r'(1,4)
    by (rule slot_offs_append) (use t ne n n0 in \<open>auto simp: region_slots_def a [symmetric]\<close>)
  have st: "step_at lineage ?m (base r) off = step_at lineage m (base r) off" if "off \<in> set ?os" for off using ne [OF that] by simp
  have sa: "step_at lineage ?m (base r) ?u = n" using n(1) a by simp
  have "(\<exists>off \<in> set (?os @ [?u]). b = at (base r) off \<and> k = step_at lineage ?m (base r) off) \<longleftrightarrow>
      (\<exists>off \<in> set ?os. b = at (base r) off \<and> k = step_at lineage m (base r) off) \<or> b = a \<and> k = n"
    using st sa a by auto
  then show "slot_in lineage ?m r' b k \<longleftrightarrow> slot_in lineage m r b k \<or> b = a \<and> k = n"
    using ok(2) unfolding slot_in_def slots r'(1,3) by simp
  have "off + step_at lineage ?m (base r) off \<le> ?u + n" if "off \<in> set (?os @ [?u])" for off
  proof (cases "off \<in> set ?os")
    case True
    then show ?thesis using st [OF True] t by (simp add: trans_le_add1)
  next
    case False
    then show ?thesis using that sa by simp
  qed
  then show "heap_region_ok lineage ?m r'"
    using ok r' n(2) bd slots unfolding heap_region_ok_def tiled_def region_slots_def region_ok_def by simp
  show "\<not> slot_in lineage m r a k" using ne unfolding slot_in_def by metis
  show "area r a" using ua n(2) n0 by (simp add: area_def in_block_def)
qed

lemma other_region:
  assumes "heap_region_ok lineage m q" "\<not> area q a"
  shows "slot_in lineage (m(a := w)) q b k = slot_in lineage m q b k" "heap_region_ok lineage (m(a := w)) q"
proof -
  have st: "sprout_slot_step lineage ((m(a := w)) x) = sprout_slot_step lineage (m x)" if "slot_in lineage m q x j" for x j
    using payload_addr(5) [OF assms(1) that] assms(2) by auto
  show "slot_in lineage (m(a := w)) q b k = slot_in lineage m q b k" by (rule same_steps(1) [OF assms(1) st])
  show "heap_region_ok lineage (m(a := w)) q" by (rule same_steps(2) [OF assms(1) st])
qed

lemma alloc_at_bump:
  assumes inv: "heap_inv lineage t s" and i: "i < length (g_regions t)" and l: "\<not> is_large (g_regions t ! i)"
    and w: "is_object w" "unat (sprout_slot_step lineage w) = n" "16 dvd n" and room: "unat (bump (g_regions t ! i)) + n \<le> unat (cap (g_regions t ! i))"
    and r': "base r' = base (g_regions t ! i)" "cap r' = cap (g_regions t ! i)" "is_large r' = is_large (g_regions t ! i)"
      "unat (bump r') = unat (bump (g_regions t ! i)) + n"
    and a: "a = at (base (g_regions t ! i)) (unat (bump (g_regions t ! i)))"
    and s': "sw_mem s' = (sw_mem s)(a := w)" "g_freelist s' = g_freelist s" "g_fl_touched s' = g_fl_touched s"
  shows "alloc_result lineage t s a n w (t\<lparr>g_regions := (g_regions t)[i := r']\<rparr>) s'"
proof -
  let ?m = "sw_mem s" and ?rs = "g_regions t" and ?r = "g_regions t ! i" and ?rs' = "(g_regions t)[i := r']"
  have T: "table_inv t" "fl_clean s" "lists_ok lineage ?rs s" "regions_ok lineage ?m ?rs" using inv by (auto simp: heap_inv_alt)
  have srt: "sorted_wrt below ?rs" and okr: "\<forall>q \<in> set ?rs. heap_region_ok lineage ?m q" and ok0: "\<forall>q \<in> set ?rs. region_ok q"
    using T(1,4) by (auto simp: regions_ok_def table_inv_def)
  have dst: "distinct ?rs"
    unfolding distinct_conv_nth using base_eq_imp_idx [OF srt ok0] by (metis (no_types, lifting))
  have set': "set ?rs' = insert r' (set ?rs - {?r})" using set_update_distinct [OF dst i] .
  have inr: "?r \<in> set ?rs" using i by simp
  note B = bump_region [OF bspec [OF okr inr] l w(2) room r' a]
  have na: "\<not> area q a" if "q \<in> set ?rs" "q \<noteq> ?r" for q
    using regions_apart [OF srt inr that(1)] that(2) B(4) below_disjoint by blast
  note O = other_region [OF _ na, where m = ?m and lineage = lineage and w = w]
  have hs: "heap_slot lineage (?m(a := w)) ?rs' b k \<longleftrightarrow> heap_slot lineage ?m ?rs b k \<or> True \<and> b = a \<and> k = n" for b k
  proof -
    have "heap_slot lineage (?m(a := w)) ?rs' b k \<longleftrightarrow> slot_in lineage ?m ?r b k \<or> b = a \<and> k = n \<or> (\<exists>q \<in> set ?rs - {?r}. slot_in lineage ?m q b k)"
      unfolding heap_slot_def set' using B(1) O(1) okr by auto
    then show ?thesis unfolding heap_slot_def using inr by auto
  qed
  have fresh: "\<not> heap_slot lineage ?m ?rs a k" for k
  proof
    assume "heap_slot lineage ?m ?rs a k"
    then obtain q where q: "q \<in> set ?rs" "slot_in lineage ?m q a k" by (auto simp: heap_slot_def)
    then show False using na B(3) payload_addr(5) [OF bspec [OF okr q(1)] q(2)] by blast
  qed
  have apart: "b + 8 \<noteq> a" if "heap_slot lineage ?m ?rs b k" for b k
  proof -
    obtain q where q: "q \<in> set ?rs" "slot_in lineage ?m q b k" using \<open>heap_slot lineage ?m ?rs b k\<close> by (auto simp: heap_slot_def)
    note P = payload_addr [OF bspec [OF okr q(1)] q(2)]
    have uc: "unat (bump q) \<le> unat (cap q)" using okr q by (auto simp: heap_region_ok_def slot_in_def)
    have u: "unat (b + 8) < unat (base q) + unat (bump q)" "unat (base q) \<le> unat (b + 8)"
      using P(1,2,5,6) by (auto simp: area_def in_block_def)
    show ?thesis
    proof (cases "q = ?r")
      case True
      have "unat a = unat (base ?r) + unat (bump ?r)"
        using a unat_at [of "base ?r" "unat (bump ?r)"] okr inr l by (auto simp: heap_region_ok_def tiled_def)
      then show ?thesis using u True by auto
    next
      case False
      have "area q (b + 8)" using u uc by (simp add: area_def in_block_def)
      then show ?thesis using na [OF q(1) False] by auto
    qed
  qed
  have lists: "lists_ok lineage ?rs' s'" by (rule lists_write_fresh [OF T(3) hs w(1) apart fresh s'(1,2)])
  have span: "list_all2 same_span ?rs ?rs'"
    unfolding list_all2_conv_all_nth
  proof (intro conjI allI impI)
    fix j assume "j < length ?rs"
    then show "same_span (?rs ! j) (?rs' ! j)" using r' by (cases "j = i") (simp_all add: same_span_def)
  qed simp
  have tb: "table_inv (t\<lparr>g_regions := ?rs'\<rparr>)" using table_inv_span [OF span, of "g_open_region_hint t"] T(1) by simp
  have "heap_region_ok lineage (?m(a := w)) q \<and> (\<not> is_large q \<longrightarrow> cap q = region_size)" if "q \<in> set ?rs'" for q
    using that B(2) O(2) okr T(4) r'(2,3) inr unfolding set' by (auto simp: regions_ok_def)
  then have "regions_ok lineage (?m(a := w)) ?rs'"
    using tb T(4) hs w(3) by (auto simp: regions_ok_def table_inv_def)
  then have "heap_inv lineage (t\<lparr>g_regions := ?rs'\<rparr>) s'"
    using tb lists T(2) s'(1,3) by (simp add: heap_inv_alt fl_clean_def)
  moreover have lg: "large_at ?rs' b k = large_at ?rs b k" for b k
    unfolding large_at_def set' using l r'(3) inr by auto
  moreover have "object_at lineage (?m(a := w)) ?rs' b k \<longleftrightarrow> object_at lineage ?m ?rs b k \<or> b = a \<and> k = n" for b k
    by (rule objects_write [OF hs lg w(1)]) (simp add: hs)
  moreover have "\<not> large_at ?rs a k" for k
  proof
    assume "large_at ?rs a k"
    then obtain q where q: "q \<in> set ?rs" "is_large q" "a = base q" by (auto simp: large_at_def)
    then have "area q a" using ok0 by (auto simp: area_def in_block_def region_ok_def unat_gt_0)
    then show False using na [OF q(1)] q(2) l by blast
  qed
  ultimately show ?thesis using fresh by (simp add: alloc_result_def s'(1) object_at_alt)
qed

section \<open>A new region and a large block\<close>

lemma fresh_no_slots: "\<not> slot_in lineage m (fresh_region b) a n"
  by (simp add: slot_in_def region_slots_def fresh_region_def slot_offs_0)

lemma open_region_heap:
  assumes inv: "heap_inv lineage t s" and o: "open_new_region commit_ok mb t = Inr (t', i)" and mb: "\<And>b. mb = Some b \<Longrightarrow> malloc_fresh t b region_size"
  shows "heap_inv lineage t' s" "i < length (g_regions t')" "\<exists>b. g_regions t' ! i = fresh_region b"
    "object_at lineage (sw_mem s) (g_regions t') a n = object_at lineage (sw_mem s) (g_regions t) a n"
proof -
  obtain b where b: "set (g_regions t') = insert (fresh_region b) (set (g_regions t))" and i: "i = lower_bound (g_regions t') b 0 (length (g_regions t'))"
    by (rule open_new_regions [OF o])
  have T: "table_inv t" "fl_clean s" "lists_ok lineage (g_regions t) s" "regions_ok lineage (sw_mem s) (g_regions t)" using inv by (auto simp: heap_inv_alt)
  have T': "table_inv t'" by (rule open_new_region_inv [OF T(1) o mb])
  have so: "sorted_wrt below (g_regions t')" and ok: "\<forall>q \<in> set (g_regions t'). region_ok q" using T' by (auto simp: table_inv_def)
  have hs: "heap_slot lineage (sw_mem s) (g_regions t') x k = heap_slot lineage (sw_mem s) (g_regions t) x k" for x k
    unfolding heap_slot_def b using fresh_no_slots by simp
  have fs: "free_slots lineage (sw_mem s) c (g_regions t') = free_slots lineage (sw_mem s) c (g_regions t)" for c by (rule free_slots_fresh [OF b])
  have bl: "unat b < 2 ^ 64" using unsigned_less [of b] by simp
  have "heap_region_ok lineage (sw_mem s) (fresh_region b)"
    using ok b bl by (simp add: heap_region_ok_def tiled_def slot_offs_0 fresh_region_def)
  then have "regions_ok lineage (sw_mem s) (g_regions t')"
    using T(4) so hs unfolding regions_ok_def b by (auto simp: fresh_region_def)
  then show "heap_inv lineage t' s" using T T' fs by (simp add: heap_inv_alt lists_ok_def)
  show "object_at lineage (sw_mem s) (g_regions t') a n = object_at lineage (sw_mem s) (g_regions t) a n"
    unfolding object_at_alt hs large_at_def b by (auto simp: fresh_region_def)
  obtain j where j: "j < length (g_regions t')" "g_regions t' ! j = fresh_region b" using b by (metis in_set_conv_nth insertI1)
  note lb = lower_bound_props [OF so ok le0 order_refl, of b, folded i]
  have bj: "base (g_regions t' ! j) = b" using j(2) by (simp add: fresh_region_def)
  have ij: "i \<le> j" using lb bj by (meson le0 less_irrefl not_le)
  then have il: "i < length (g_regions t')" using j(1) by simp
  have "b \<le> base (g_regions t' ! i)" using lb il by blast
  moreover have "base (g_regions t' ! i) \<le> b"
    using ij sorted_wrt_below_nth [OF so, of i j] j(1) bj by (cases "i = j") (auto simp: below_def word_le_nat_alt)
  ultimately have "i = j" using base_eq_imp_idx [OF so ok il j(1)] bj by simp
  then show "i < length (g_regions t')" "\<exists>b. g_regions t' ! i = fresh_region b" using j by auto
qed

lemma alloc_large_block:
  assumes inv: "heap_inv lineage t s" and mb: "malloc_fresh t b needed" and w: "is_object w"
    and s': "sw_mem s' = (sw_mem s)(b := w)" "g_freelist s' = g_freelist s" "g_fl_touched s' = g_fl_touched s"
  shows "alloc_result lineage t s b (unat needed) w (region_table_insert (large_region b needed y) t) s'"
proof -
  let ?m = "sw_mem s" and ?rs = "g_regions t" and ?l = "large_region b needed y"
  let ?t' = "region_table_insert ?l t"
  have T: "table_inv t" "fl_clean s" "lists_ok lineage ?rs s" "regions_ok lineage ?m ?rs" using inv by (auto simp: heap_inv_alt)
  have T': "table_inv ?t'" by (rule malloc_block_insert_inv [OF T(1)]) (use mb in \<open>simp add: large_region_def\<close>)
  note set' = insert_regions [of ?l t]
  have okr: "\<forall>q \<in> set ?rs. heap_region_ok lineage ?m q" using T(4) by (simp add: regions_ok_def)
  have na: "\<not> area q x" if "q \<in> set ?rs" "unat b \<le> unat x" "unat x < unat b + unat needed" for q x
    using mb that unat_gt_0 [of needed] by (auto simp: malloc_fresh_def area_def in_block_def)
  have nb: "\<not> area q b" if "q \<in> set ?rs" for q using na [OF that, of b] mb unat_gt_0 [of needed] by (simp add: malloc_fresh_def)
  note O = other_region [OF _ nb, where m = ?m and lineage = lineage and w = w]
  have nl: "\<not> slot_in lineage m ?l x k" for m x k by (simp add: slot_in_def large_region_def)
  have hs: "heap_slot lineage (?m(b := w)) (g_regions ?t') x k \<longleftrightarrow> heap_slot lineage ?m ?rs x k \<or> False \<and> x = b \<and> k = 0" for x k
    unfolding heap_slot_def set' using nl O(1) okr by auto
  have slot_area: "\<exists>q \<in> set ?rs. area q x \<and> area q (x + 8)" if sl: "heap_slot lineage ?m ?rs x k" for x k
  proof -
    obtain q where q: "q \<in> set ?rs" "slot_in lineage ?m q x k" using sl by (auto simp: heap_slot_def)
    note P = payload_addr [OF bspec [OF okr q(1)] q(2)]
    have "unat (bump q) \<le> unat (cap q)" using okr q by (auto simp: heap_region_ok_def slot_in_def)
    then have "area q (x + 8)" using P by (auto simp: area_def in_block_def)
    then show ?thesis using q(1) P(5) by blast
  qed
  have fresh: "\<not> heap_slot lineage ?m ?rs b k" for k using slot_area nb by blast
  have apart: "x + 8 \<noteq> b" if "heap_slot lineage ?m ?rs x k" for x k using slot_area [OF that] nb by blast
  have lists: "lists_ok lineage (g_regions ?t') s'" by (rule lists_write_fresh [OF T(3) hs w apart fresh s'(1,2)])
  have "heap_region_ok lineage (?m(b := w)) ?l" using mb by (simp add: heap_region_ok_def region_ok_def large_region_def malloc_fresh_def)
  then have "heap_region_ok lineage (?m(b := w)) q \<and> (\<not> is_large q \<longrightarrow> cap q = region_size)" if "q \<in> set (g_regions ?t')" for q
    using that T(4) O(2) unfolding set' by (auto simp: regions_ok_def large_region_def)
  then have "regions_ok lineage (?m(b := w)) (g_regions ?t')" using T' T(4) hs by (auto simp: regions_ok_def table_inv_def)
  then have "heap_inv lineage ?t' s'" using T' lists T(2) s'(1,3) by (simp add: heap_inv_alt fl_clean_def)
  moreover have "large_at (g_regions ?t') x k \<longleftrightarrow> large_at ?rs x k \<or> x = b \<and> k = unat needed" for x k
    unfolding large_at_def set' by (auto simp: large_region_def)
  moreover have "\<not> large_at ?rs b k" for k
  proof
    assume "large_at ?rs b k"
    then obtain q where q: "q \<in> set ?rs" "b = base q" by (auto simp: large_at_def)
    then have "area q b" using okr by (auto simp: area_def in_block_def region_ok_def heap_region_ok_def unat_gt_0)
    then show False using nb q(1) by blast
  qed
  moreover have "heap_slot lineage ?m ?rs x k \<Longrightarrow> x \<noteq> b" for x k using fresh by blast
  ultimately show ?thesis
    using fresh hs unfolding alloc_result_def object_at_alt s'(1) by auto
qed

section \<open>Allocation\<close>

lemma round16_dvd: "16 dvd unat (round16 n)"
proof -
  have "(n + 15) AND NOT 15 = push_bit 4 (drop_bit 4 (n + 15))"
    unfolding mask_numerals(4) by (rule bit_eqI) (auto simp: bit_simps dest: bit_imp_le_length)
  then show ?thesis by (simp add: round16_def push_bit_eq_mult unat_word_ariths(2) dvd_mod)
qed

lemma objects_apart:
  assumes inv: "heap_inv lineage t s" and o: "object_at lineage (sw_mem s) (g_regions t) a n" "object_at lineage (sw_mem s) (g_regions t) a' n'" "a \<noteq> a'"
  shows "unat a + n \<le> unat a' \<or> unat a' + n' \<le> unat a"
proof -
  let ?m = "sw_mem s" and ?rs = "g_regions t"
  have ok: "regions_ok lineage ?m ?rs" using inv by (simp add: heap_inv_alt)
  then have so: "sorted_wrt below ?rs" by (simp add: regions_ok_def)
  have span: "\<exists>r \<in> set ?rs. unat (base r) \<le> unat x \<and> unat x + k \<le> unat (base r) + unat (cap r) \<and> (is_large r \<longrightarrow> x = base r \<and> k = unat (cap r)) \<and>
      (\<not> is_large r \<longrightarrow> heap_slot lineage ?m ?rs x k)" if ob: "object_at lineage ?m ?rs x k" for x k
  proof (cases "large_at ?rs x k")
    case True
    then show ?thesis by (auto simp: large_at_def)
  next
    case False
    then have "heap_slot lineage ?m ?rs x k" using ob by (simp add: object_at_alt)
    then obtain r where r: "r \<in> set ?rs" "slot_in lineage ?m r x k" by (auto simp: heap_slot_def)
    have okr: "heap_region_ok lineage ?m r" using ok r(1) by (simp add: regions_ok_def)
    have "\<not> is_large r" "unat (bump r) \<le> unat (cap r)" using okr r(2) by (auto simp: slot_in_def heap_region_ok_def)
    then show ?thesis
      using payload_addr(5,6) [OF okr r(2)] r \<open>heap_slot lineage ?m ?rs x k\<close> by (intro bexI [of _ r]) (auto simp: area_def in_block_def)
  qed
  obtain r where r: "r \<in> set ?rs" "unat (base r) \<le> unat a" "unat a + n \<le> unat (base r) + unat (cap r)" "is_large r \<longrightarrow> a = base r"
    "\<not> is_large r \<longrightarrow> heap_slot lineage ?m ?rs a n" using span [OF o(1)] by blast
  obtain q where q: "q \<in> set ?rs" "unat (base q) \<le> unat a'" "unat a' + n' \<le> unat (base q) + unat (cap q)" "is_large q \<longrightarrow> a' = base q"
    "\<not> is_large q \<longrightarrow> heap_slot lineage ?m ?rs a' n'" using span [OF o(2)] by blast
  show ?thesis
  proof (cases "r = q")
    case True
    then have "\<not> is_large r" using r(4) q(4) o(3) by blast
    then show ?thesis using heap_slots_apart [OF ok _ _ o(3)] r(5) q(5) True by blast
  next
    case False
    then show ?thesis using regions_apart [OF so r(1) q(1)] r(2,3) q(2,3) by (auto simp: below_def)
  qed
qed

lemma scan_open_some: "scan_open rs needed k = Some i \<Longrightarrow> i < k \<and> has_room needed (rs ! i)"
  by (induction k) (auto split: if_splits)

lemma pick_region_heap:
  assumes inv: "heap_inv lineage t s" and p: "pick_region commit_ok mb needed t = Inr (t', i)" and mb: "\<And>b. mb = Some b \<Longrightarrow> malloc_fresh t b region_size"
    and n: "unat needed \<le> 4096"
  shows "heap_inv lineage t' s" "i < length (g_regions t')" "\<not> is_large (g_regions t' ! i)"
    "unat (bump (g_regions t' ! i)) + unat needed \<le> unat (cap (g_regions t' ! i))"
    "\<And>a n. object_at lineage (sw_mem s) (g_regions t') a n = object_at lineage (sw_mem s) (g_regions t) a n"
proof -
  have old: "\<not> is_large (g_regions t ! j) \<and> unat (bump (g_regions t ! j)) + unat needed \<le> unat (cap (g_regions t ! j))"
    if j: "j < length (g_regions t)" "has_room needed (g_regions t ! j)" for j
  proof -
    have l: "\<not> is_large (g_regions t ! j)" and r: "bump (g_regions t ! j) + needed \<le> cap (g_regions t ! j)" using j(2) by (auto simp: has_room_def)
    have "unat (bump (g_regions t ! j)) \<le> unat (cap (g_regions t ! j))" "cap (g_regions t ! j) = region_size"
      using inv j(1) l by (auto simp: heap_inv_def heap_region_ok_def)
    then have "unat (bump (g_regions t ! j) + needed) = unat (bump (g_regions t ! j)) + unat needed"
      using n by (simp add: unat_word_ariths(1) region_size_def)
    then show ?thesis using l r by (simp add: word_le_nat_alt)
  qed
  have "heap_inv lineage t' s \<and> i < length (g_regions t') \<and> \<not> is_large (g_regions t' ! i) \<and>
    unat (bump (g_regions t' ! i)) + unat needed \<le> unat (cap (g_regions t' ! i)) \<and>
    (\<forall>a n. object_at lineage (sw_mem s) (g_regions t') a n = object_at lineage (sw_mem s) (g_regions t) a n)"
  proof (cases "g_open_region_hint t < length (g_regions t) \<and> has_room needed (g_regions t ! g_open_region_hint t)")
    case True
    then show ?thesis using p inv old by (auto simp: pick_region_def)
  next
    case no_hint: False
    show ?thesis
    proof (cases "scan_open (g_regions t) needed (length (g_regions t))")
      case None
      then have o: "open_new_region commit_ok mb t = Inr (t', i)" using p no_hint by (simp add: pick_region_def)
      note R = open_region_heap [OF inv o mb]
      then show ?thesis using n by (auto simp: fresh_region_def region_size_def)
    next
      case (Some j)
      then have j: "t' = t\<lparr>g_open_region_hint := j\<rparr>" "i = j" using p no_hint by (auto simp: pick_region_def)
      have "table_inv t' = table_inv t"
        using table_inv_span [of t "g_regions t" j] by (simp add: j list_all2_refl same_span_def)
      then show ?thesis using inv old scan_open_some [OF Some] by (auto simp: j heap_inv_alt)
    qed
  qed
  then show "heap_inv lineage t' s" "i < length (g_regions t')" "\<not> is_large (g_regions t' ! i)"
    "unat (bump (g_regions t' ! i)) + unat needed \<le> unat (cap (g_regions t' ! i))"
    "\<And>a n. object_at lineage (sw_mem s) (g_regions t') a n = object_at lineage (sw_mem s) (g_regions t) a n" by auto
qed

lemma mark_young_place: "same_place r (mark_young j r)"
  by (simp add: same_place_def mark_young_def youngmap_set_def)

lemma update_place: "same_place (rs ! i) r \<Longrightarrow> list_all2 same_place rs (rs[i := r])"
  unfolding list_all2_conv_all_nth
proof (intro conjI allI impI)
  fix j assume "same_place (rs ! i) r" "j < length rs"
  then show "same_place (rs ! j) (rs[i := r] ! j)" by (cases "j = i") (simp_all add: same_place_def)
qed simp

lemma alloc_listed_result:
  assumes inv: "heap_inv lineage t s" and p: "g_freelist s c \<noteq> 0" and w: "is_object (sprout_hdr_make kind aux)"
    "unat (sprout_slot_step lineage (sprout_hdr_make kind aux)) = 16 * c"
  shows "\<exists>t' s'. alloc_listed gen_on c kind aux t s = Inr (g_freelist s c, t', s') \<and>
    alloc_result lineage t s (g_freelist s c - 8) (16 * c) (sprout_hdr_make kind aux) t' s'"
proof -
  let ?p = "g_freelist s c"
  let ?s' = "count_alloc (sprout_hdr_write ?p kind aux (s\<lparr>g_freelist := (g_freelist s)(c := sw_mem s ?p), g_gc_freelist_len := g_gc_freelist_len s - 1\<rparr>))"
  have R: "alloc_result lineage t s (?p - 8) (16 * c) (sprout_hdr_make kind aux) (t\<lparr>g_regions := rs'\<rparr>) ?s'"
    if "list_all2 same_place (g_regions t) rs'" for rs'
    by (rule alloc_over_free [OF inv p w that]) (simp_all add: count_alloc_def sprout_hdr_write_def)
  show ?thesis
  proof (cases gen_on)
    case False
    then show ?thesis using R [of "g_regions t"] by (simp add: alloc_listed_def fl_pop_def Let_def list_all2_refl same_place_def)
  next
    case True
    have T: "table_inv t" "lists_ok lineage (g_regions t) s" "regions_ok lineage (sw_mem s) (g_regions t)" using inv by (auto simp: heap_inv_alt)
    obtain L where L: "\<And>c. fl_chain (sw_mem s) (g_freelist s c) (L c)" "\<And>c. set (L c) = free_slots lineage (sw_mem s) c (g_regions t)"
      using T(2) by (auto simp: lists_ok_def)
    have "?p \<in> set (L c)" using L(1) [of c] p by (cases "L c") auto
    then obtain b n r where b: "?p = b + 8" "r \<in> set (g_regions t)" "slot_in lineage (sw_mem s) r b n"
      unfolding L(2) free_slots_alt by blast
    have okr: "heap_region_ok lineage (sw_mem s) r" using T(3) b(2) by (simp add: regions_ok_def)
    have "unat (bump r) \<le> unat (cap r)" using okr b(3) by (auto simp: heap_region_ok_def slot_in_def)
    then have "in_region r ?p" using payload_addr [OF okr b(3)] b(1) by (auto simp: in_region_def area_def in_block_def)
    then obtain i where i: "region_find t ?p = Some i" using region_find_iff [OF T(1)] b(2) by (metis in_set_conv_nth)
    show ?thesis
      using True i R [OF update_place [OF mark_young_place]] by (auto simp: alloc_listed_def fl_pop_def Let_def)
  qed
qed

lemma alloc_bump_result:
  assumes inv: "heap_inv lineage t s" and i: "i < length (g_regions t)" "\<not> is_large (g_regions t ! i)"
    and w: "is_object (sprout_hdr_make kind aux)" "sprout_slot_step lineage (sprout_hdr_make kind aux) = needed" "16 dvd unat needed"
    and room: "unat (bump (g_regions t ! i)) + unat needed \<le> unat (cap (g_regions t ! i))"
    and e: "alloc_bump gen_on kind aux needed i t s = (p, t', s')"
  shows "alloc_result lineage t s (p - 8) (unat needed) (sprout_hdr_make kind aux) t' s'"
proof -
  let ?r = "g_regions t ! i"
  define idx where "idx = unat (bump ?r) div slot_gran"
  define r1 where "r1 = slotmap_set idx (?r\<lparr>bump := bump ?r + needed\<rparr>)"
  define r2 where "r2 = (if gen_on then mark_young idx r1 else r1)"
  have p: "p - 8 = base ?r + bump ?r" and t': "t' = t\<lparr>g_regions := (g_regions t)[i := r2]\<rparr>"
    and s': "s' = count_alloc (sprout_hdr_write p kind aux s)"
    using e by (auto simp: alloc_bump_def Let_def r2_def r1_def idx_def)
  have "unat (base ?r) + unat (cap ?r) < 2 ^ 64" using inv i(1) by (simp add: heap_inv_def heap_region_ok_def region_ok_def)
  then have u: "unat (bump ?r + needed) = unat (bump ?r) + unat needed" using room by (simp add: unat_word_ariths(1))
  have r2: "base r2 = base ?r" "cap r2 = cap ?r" "is_large r2 = is_large ?r" "unat (bump r2) = unat (bump ?r) + unat needed"
    using u by (simp_all add: r2_def r1_def mark_young_def youngmap_set_def slotmap_set_def)
  have a: "p - 8 = at (base ?r) (unat (bump ?r))" by (simp add: p at_def)
  show ?thesis
    unfolding t' by (rule alloc_at_bump [OF inv i w(1) _ w(3) room r2 a]) (simp_all add: w(2) s' count_alloc_def sprout_hdr_write_def)
qed

lemma hdr_make_object: "kind \<noteq> HEAP_FREE \<Longrightarrow> kind \<noteq> HEAP_POISON \<Longrightarrow> is_object (sprout_hdr_make kind aux)"
  by (simp add: is_object_def hdr_make_kind)

lemma open_new_region_fails: "open_new_region commit_ok mb t = Inl e \<Longrightarrow> mb = None \<and> (\<exists>msg. e = SproutFail msg)"
  by (auto simp: open_new_region_def Let_def split: prod.splits option.splits)

lemma alloc_block_ok:
  assumes inv: "heap_inv lineage t s" and k: "kind \<noteq> HEAP_FREE" "kind \<noteq> HEAP_POISON"
    and sz: "sprout_slot_step lineage (sprout_hdr_make kind aux) = alloc_slot payload_bytes"
    and mb: "\<And>b. malloc_block = Some b \<Longrightarrow> malloc_fresh t b (if sprout_slot_is_large (alloc_slot payload_bytes) then alloc_slot payload_bytes else region_size)"
  shows "case sprout_gc_alloc_block gen_on commit_ok malloc_block kind aux payload_bytes ctx t s of
      Inl e \<Rightarrow> malloc_block = None \<and> (\<exists>msg. e = SproutFail msg)
    | Inr (p, t', s') \<Rightarrow>
        alloc_result lineage t s (p - 8) (unat (alloc_slot payload_bytes)) (sprout_hdr_make kind aux) t' s' \<and>
        (\<forall>a n. object_at lineage (sw_mem s) (g_regions t) a n \<longrightarrow>
           unat a + n \<le> unat (p - 8) \<or> unat (p - 8) + unat (alloc_slot payload_bytes) \<le> unat a)"
proof -
  let ?n = "alloc_slot payload_bytes" and ?w = "sprout_hdr_make kind aux"
  let ?run = "sprout_gc_alloc_block gen_on commit_ok malloc_block kind aux payload_bytes ctx t s"
  have w: "is_object ?w" by (rule hdr_make_object [OF k])
  have n16: "16 \<le> unat ?n" using slot_step_bounds(1) [of lineage ?w] sz by simp
  have dv: "16 dvd unat ?n" unfolding alloc_slot_def by (rule round16_dvd)
  have "case ?run of Inl e \<Rightarrow> malloc_block = None \<and> (\<exists>msg. e = SproutFail msg)
    | Inr (p, t', s') \<Rightarrow> alloc_result lineage t s (p - 8) (unat ?n) ?w t' s'"
  proof (cases "sprout_slot_is_large ?n")
    case True
    show ?thesis
    proof (cases malloc_block)
      case None
      then show ?thesis using True by (simp add: sprout_gc_alloc_block_def alloc_large_def Let_def)
    next
      case (Some b)
      have "alloc_result lineage t s b (unat ?n) ?w (region_table_insert (large_region b ?n (if gen_on then 1 else 0)) t)
          (count_alloc (sprout_hdr_write (b + 8) kind aux s))"
        by (rule alloc_large_block [OF inv _ w]) (use mb [OF Some] True in \<open>simp_all add: count_alloc_def sprout_hdr_write_def\<close>)
      then show ?thesis using True Some by (simp add: sprout_gc_alloc_block_def alloc_large_def Let_def)
    qed
  next
    case False
    let ?c = "unat ?n div slot_gran"
    have c: "1 \<le> ?c" "unat ?n = 16 * ?c" "unat ?n \<le> 4096" using n16 dv False by (auto simp: slot_gran_def sprout_slot_is_large_def word_less_nat_alt)
    then have run: "?run = (if g_freelist s ?c \<noteq> 0 then alloc_listed gen_on ?c kind aux t s
        else res_map (\<lambda>(t1, i). alloc_bump gen_on kind aux ?n i t1 s) (pick_region commit_ok malloc_block ?n t))"
      using False by (simp add: sprout_gc_alloc_block_def Let_def)
    have mb1: "malloc_fresh t b region_size" if "malloc_block = Some b" for b using mb [OF that] False by simp
    show ?thesis
    proof (cases "g_freelist s ?c = 0")
      case False
      obtain t' s' where r: "alloc_listed gen_on ?c kind aux t s = Inr (g_freelist s ?c, t', s')"
        "alloc_result lineage t s (g_freelist s ?c - 8) (16 * ?c) ?w t' s'"
        using alloc_listed_result [OF inv False w, of gen_on] sz c(2) by auto
      then show ?thesis using run False c(2) by simp
    next
      case True
      show ?thesis
      proof (cases "pick_region commit_ok malloc_block ?n t")
        case (Inl e)
        then have "open_new_region commit_ok malloc_block t = Inl e" by (auto simp: pick_region_def split: if_splits option.splits)
        then show ?thesis using run True Inl open_new_region_fails by simp
      next
        case (Inr ti)
        obtain t1 i where ti: "ti = (t1, i)" by (rule prod.exhaust)
        note P = pick_region_heap [OF inv Inr [unfolded ti] mb1 c(3)]
        obtain p t' s' where b: "alloc_bump gen_on kind aux ?n i t1 s = (p, t', s')" by (rule prod_cases3)
        have ob: "object_at lineage (sw_mem s) (g_regions t1) = object_at lineage (sw_mem s) (g_regions t)" by (intro ext) (rule P(5))
        have "alloc_result lineage t1 s (p - 8) (unat ?n) ?w t' s'" by (rule alloc_bump_result [OF P(1-3) w sz dv P(4) b])
        then have "alloc_result lineage t s (p - 8) (unat ?n) ?w t' s'" unfolding alloc_result_def ob .
        then show ?thesis using run True Inr by (simp add: ti b)
      qed
    qed
  qed
  moreover have "unat a + k \<le> unat b \<or> unat b + unat ?n \<le> unat a"
    if r: "alloc_result lineage t s b (unat ?n) ?w t' s'" and o: "object_at lineage (sw_mem s) (g_regions t) a k" for b t' s' a k
  proof (rule objects_apart)
    show "heap_inv lineage t' s'" using r by (simp add: alloc_result_def)
    show "object_at lineage (sw_mem s') (g_regions t') a k" "object_at lineage (sw_mem s') (g_regions t') b (unat ?n)" "a \<noteq> b"
      using r o by (auto simp: alloc_result_def)
  qed
  ultimately show ?thesis by (auto split: sum.splits prod.splits)
qed

text \<open>C11. On a well-formed heap the allocator returns a slot of exactly the requested size that overlaps no object, or
  stops with a message when \<^verbatim>\<open>malloc\<close> fails. It writes the header and nothing else, the new object joins
  the objects of the heap, and the heap stays well formed: regions tiled by their slots, free lists exact.\<close>

theorem alloc_block_sound:
  assumes inv: "heap_inv lineage t s" and k: "kind \<noteq> HEAP_FREE" "kind \<noteq> HEAP_POISON"
    and sz: "sprout_slot_step lineage (sprout_hdr_make kind aux) = alloc_slot payload_bytes"
    and mb: "\<And>b. malloc_block = Some b \<Longrightarrow> malloc_fresh t b (if sprout_slot_is_large (alloc_slot payload_bytes) then alloc_slot payload_bytes else region_size)"
  shows "case sprout_gc_alloc_block gen_on commit_ok malloc_block kind aux payload_bytes ctx t s of
      Inl e \<Rightarrow> malloc_block = None \<and> (\<exists>msg. e = SproutFail msg)
    | Inr (p, t', s') \<Rightarrow>
        alloc_result lineage t s (p - 8) (unat (alloc_slot payload_bytes)) (sprout_hdr_make kind aux) t' s' \<and>
        (\<forall>a n. object_at lineage (sw_mem s) (g_regions t) a n \<longrightarrow>
           unat a + n \<le> unat (p - 8) \<or> unat (p - 8) + unat (alloc_slot payload_bytes) \<le> unat a)"
  by (rule alloc_block_ok [OF inv k sz mb])

lemma sample_inv: "heap_inv False sample_table sample_heap"
proof -
  have al: "\<forall>r \<in> set (g_regions sample_table). \<forall>off \<in> set (region_slots False (sw_mem sample_heap) r).
      step_at False (sw_mem sample_heap) (base r) off mod 16 = 0 \<and> sprout_hdr_kind (sw_mem sample_heap (at (base r) off)) \<noteq> HEAP_FREE"
    by code_simp
  have "free_slots False (sw_mem sample_heap) c (g_regions sample_table) = {}" for c
    unfolding free_slots_def using al by blast
  then have "lists_ok False (g_regions sample_table) sample_heap"
    unfolding lists_ok_def by (intro exI [of _ "\<lambda>_. []"]) (simp add: sample_heap_def)
  moreover have "16 dvd n" if r: "r \<in> set (g_regions sample_table)" and sl: "slot_in False (sw_mem sample_heap) r a n" for r a n
  proof -
    obtain off where "off \<in> set (region_slots False (sw_mem sample_heap) r)" "n = step_at False (sw_mem sample_heap) (base r) off"
      using sl unfolding slot_in_def by blast
    then show ?thesis using al r by (simp add: mod_eq_0_iff_dvd)
  qed
  moreover have "cap r = region_size" if "r \<in> set (g_regions sample_table)" for r
    using that by (auto simp: sample_table_def sample_region_def)
  ultimately show ?thesis using sample_ready unfolding heap_inv_def sweep_ready_def by blast
qed

theorem alloc_block_sound_witness:
  "case sprout_gc_alloc_block False (\<lambda>_. False) (Some 0x900000) HEAP_CSTR 3 4 ''oom'' sample_table sample_heap of
     Inl _ \<Rightarrow> False
   | Inr (p, t', s') \<Rightarrow> p = 0x100028 \<and> heap_inv False t' s' \<and> object_at False (sw_mem s') (g_regions t') 0x100020 16"
proof -
  have sz: "sprout_slot_step False (sprout_hdr_make HEAP_CSTR 3) = alloc_slot 4" "alloc_slot 4 = 16" "\<not> sprout_slot_is_large 16" by code_simp+
  have mb: "malloc_fresh sample_table b (if sprout_slot_is_large (alloc_slot 4) then alloc_slot 4 else region_size)" if "Some 0x900000 = Some b" for b
    using that sz by (auto simp: malloc_fresh_def sample_table_def sample_region_def region_size_def no_arena_def)
  have run: "case sprout_gc_alloc_block False (\<lambda>_. False) (Some 0x900000) HEAP_CSTR 3 4 ''oom'' sample_table sample_heap of
      Inl _ \<Rightarrow> False | Inr (p, t', s') \<Rightarrow> p = 0x100028" by code_simp
  show ?thesis
    using alloc_block_sound [where malloc_block = "Some 0x900000" and gen_on = False and commit_ok = "\<lambda>_. False" and ctx = "''oom''",
        OF sample_inv _ _ sz(1) mb] run
    by (auto simp: alloc_result_def sz(2) split: sum.splits)
qed

end
