(* ===== verification/Gc_Cycle.thy ===== *)
theory Gc_Cycle
  imports Gc_Alloc
begin

unbundle bit_operations_syntax

text \<open>
  Allocation, mutation, marking and sweeping together: the heap stays well formed through any sequence of them. Header
  writes are those that keep kind and size number: the release of the inline tail of a vector
  (\<^verbatim>\<open>sprout_vec_release_inline_tail\<close>), which splits a live slot, and the marking of a vector as unscanned are not among the steps.
\<close>

section \<open>The table after a sweep\<close>

lemma nulled_loose:
  assumes inv: "table_inv t" and rel: "list_all2 (\<lambda>r r'. is_large r' = is_large r \<and> cap r' = cap r \<and> (base r' = base r \<or> is_large r \<and> base r' = 0)) (g_regions t) rs"
  shows "loose_inv (t\<lparr>g_regions := rs\<rparr>)"
proof -
  let ?rs = "g_regions t" and ?a = "g_arena t"
  have len: "length rs = length ?rs" and nth: "\<And>i. i < length ?rs \<Longrightarrow> is_large (rs ! i) = is_large (?rs ! i) \<and> cap (rs ! i) = cap (?rs ! i) \<and>
      (base (rs ! i) = base (?rs ! i) \<or> is_large (?rs ! i) \<and> base (rs ! i) = 0)"
    using rel by (auto simp: list_all2_conv_all_nth)
  have T: "sorted_wrt below ?rs" "\<forall>r \<in> set ?rs. region_ok r" "bounds_ok t" "arena_shape ?a" "\<forall>r \<in> set ?rs. placed ?a r" "chunks_ok ?rs ?a"
    using inv by (auto simp: table_inv_def)
  have old: "\<exists>i < length ?rs. r = rs ! i \<and> (base r \<noteq> 0 \<longrightarrow> base r = base (?rs ! i)) \<and> cap r = cap (?rs ! i) \<and> is_large r = is_large (?rs ! i)" if "r \<in> set rs" for r
    using that nth len unfolding in_set_conv_nth by metis
  have "sorted_wrt below (alive xs)" if "list_all2 (\<lambda>r r'. cap r' = cap r \<and> (base r' = base r \<or> base r' = 0)) ys xs" "sorted_wrt below ys" for xs ys
    using that
  proof (induction rule: list_all2_induct)
    case (Cons y ys x xs)
    have "below x z" if "base x \<noteq> 0" "z \<in> set (alive xs)" for z
    proof -
      have z: "z \<in> set xs" "base z \<noteq> 0" using that by (auto simp: alive_def)
      obtain j where j: "j < length xs" "z = xs ! j" using z(1) by (auto simp: in_set_conv_nth)
      have "cap z = cap (ys ! j) \<and> base z = base (ys ! j)" "ys ! j \<in> set ys" using Cons.hyps(2) j z(2) by (auto simp: list_all2_conv_all_nth)
      then show ?thesis using Cons.prems Cons.hyps(1) that(1) by (auto simp: below_def)
    qed
    then show ?case using Cons by (auto simp: alive_def)
  qed (simp add: alive_def)
  moreover have "list_all2 (\<lambda>r r'. cap r' = cap r \<and> (base r' = base r \<or> base r' = 0)) ?rs rs"
    by (rule list_all2_mono [OF rel]) blast
  ultimately have "sorted_wrt below (alive rs)" using T(1) by blast
  moreover have "entry_ok ?a r" if r: "r \<in> set rs" for r
  proof -
    obtain i where i: "i < length ?rs" "base r \<noteq> 0 \<longrightarrow> base r = base (?rs ! i)" "cap r = cap (?rs ! i)" "is_large r = is_large (?rs ! i)" using old [OF r] by blast
    have "region_ok (?rs ! i)" "placed ?a (?rs ! i)" using T(2,5) i(1) by simp_all
    then have "base r \<noteq> 0 \<Longrightarrow> region_ok r \<and> placed ?a r" using i(2-4) by (simp add: region_ok_def placed_def)
    then show ?thesis by (auto simp: entry_ok_def)
  qed
  moreover have "bases_distinct rs"
    unfolding bases_distinct_def
  proof (intro allI impI)
    fix i j assume ij: "i < length rs \<and> j < length rs \<and> base (rs ! i) \<noteq> 0 \<and> base (rs ! i) = base (rs ! j)"
    then have "base (?rs ! i) = base (?rs ! j)" using nth len by metis
    then show "i = j" using base_eq_imp_idx [OF T(1,2)] ij len by simp
  qed
  moreover have "bounds_ok (t\<lparr>g_regions := alive rs\<rparr>)"
  proof -
    have "unat (g_heap_lo t) \<le> unat (base r) \<and> unat (base r) + unat (cap r) \<le> unat (g_heap_lo t) + unat (g_heap_span t)" if "r \<in> set (alive rs)" for r
      using that old [of r] T(3) by (auto simp: alive_def bounds_ok_def)
    then show ?thesis using T(3) by (simp add: bounds_ok_def)
  qed
  moreover have "chunks_ok rs ?a"
  proof -
    have "(unat (base (rs ! i)) = chunk_base ?a c) = (unat (base (?rs ! i)) = chunk_base ?a c)" if "i < length ?rs" "c < g_arena_chunks ?a" for i c
    proof (cases "base (rs ! i) = base (?rs ! i)")
      case False
      then have l: "is_large (?rs ! i)" "base (rs ! i) = 0" using nth [OF that(1)] by auto
      have "\<not> arena_contains ?a (base (?rs ! i))" using T(5) that(1) l(1) by (metis nth_mem placed_def)
      then have "unat (base (?rs ! i)) \<noteq> chunk_base ?a c"
        using chunk_index_unique(1) [OF T(4) that(2), of "base (?rs ! i)"] by auto
      then show ?thesis using l(2) chunk_base_pos [OF T(4) that(2)] by simp
    qed simp
    then show ?thesis using T(6) unfolding chunks_ok_def len by blast
  qed
  ultimately show ?thesis using T(4) by (simp add: loose_inv_def)
qed

lemma pass2_loose:
  "n \<le> length (g_regions t) \<Longrightarrow> loose_inv t \<Longrightarrow> \<forall>r \<in> set (g_regions t). \<not> is_large r \<longrightarrow> base r \<noteq> 0 \<Longrightarrow> loose_inv (fst (sweep_pass2 n t s))"
proof (induction n arbitrary: t s)
  case (Suc n)
  let ?r = "g_regions t ! n"
  have n: "n < length (g_regions t)" using Suc.prems(1) by simp
  show ?case
  proof (cases "stays ?r")
    case True
    then have "sweep_pass2 (Suc n) t s = sweep_pass2 n t s" by (auto simp: stays_def kept_def Let_def)
    then show ?thesis using Suc.IH [of t s] Suc.prems by simp
  next
    case False
    define t1 where "t1 = (if is_large ?r then region_table_remove n t else release_region n t)"
    obtain s1 where e: "sweep_pass2 (Suc n) t s = sweep_pass2 n t1 s1"
      using False by (cases "is_large ?r") (auto simp: stays_def kept_def Let_def t1_def)
    have l1: "loose_inv t1"
      using False remove_dead_loose [OF Suc.prems(2) n] release_loose [OF Suc.prems(2) n] Suc.prems(3) n by (auto simp: t1_def stays_def)
    have rs: "g_regions t1 = take n (g_regions t) @ drop (n + 1) (g_regions t)" by (simp add: t1_def)
    have "set (g_regions t1) \<subseteq> set (g_regions t)" unfolding rs by (rule set_delete_subset)
    moreover have "n \<le> length (g_regions t1)" using n by (simp add: rs)
    ultimately show ?thesis using Suc.IH [of t1 s1] l1 Suc.prems(3) unfolding e by blast
  qed
qed simp

section \<open>The heap after a sweep\<close>

lemma sweep_table_inv:
  assumes rdy: "sweep_ready lineage t s" and sw: "sprout_gc_sweep k lineage frames gen_on commit_ok mb t s = Inr (t', s')"
    and mb: "\<And>b. mb = Some b \<Longrightarrow> malloc_fresh (fst (sweep_passes k lineage frames gen_on t s)) b region_size"
  shows "table_inv t'"
proof -
  let ?t2 = "fst (sweep_passes k lineage frames gen_on t s)"
  obtain rs s1 where ok: "pass1_ok k lineage (sw_mem s) (\<lambda>_. []) (g_regions t) (s\<lparr>g_freelist := (\<lambda>_. 0), g_gc_freelist_len := 0\<rparr>) rs s1"
    and e: "sweep_pass2 (length rs) (t\<lparr>g_regions := rs\<rparr>) s1 = (?t2, s')" "g_regions ?t2 = filter stays rs"
    and t': "t' = ?t2 \<or> (\<exists>i. open_new_region commit_ok mb ?t2 = Inr (t', i))"
    by (rule sweep_result [OF rdy sw])
  have T: "table_inv t" using rdy by (simp add: sweep_ready_def)
  have rok: "\<forall>q \<in> set (g_regions t). region_ok q" using T by (simp add: table_inv_def)
  have lo: "loose_inv (t\<lparr>g_regions := rs\<rparr>)"
    by (rule nulled_loose [OF T], rule list_all2_mono [OF pass1_results [OF ok]]) (auto simp: region_result_def split: if_splits)
  have nz: "\<not> is_large r \<longrightarrow> base r \<noteq> 0" if r: "r \<in> set rs" for r
  proof -
    obtain q where "q \<in> set (g_regions t)" "region_result lineage (sw_mem s) q r" using result_pairs(1) [OF pass1_results [OF ok] r] by blast
    then show ?thesis using rok by (auto simp: region_result_def region_ok_def)
  qed
  have "loose_inv ?t2" using pass2_loose [of "length rs" "t\<lparr>g_regions := rs\<rparr>" s1] lo nz by (simp add: e(1))
  moreover have "\<forall>r \<in> set (g_regions ?t2). base r \<noteq> 0" using nz by (auto simp: e(2) stays_def)
  ultimately have t2: "table_inv ?t2" by (simp add: table_inv_iff_loose)
  then show ?thesis using t' open_new_region_inv [OF t2 _ mb] by blast
qed

text \<open>The slots of the heap after a sweep are those of before that lie in regions that stay.\<close>

lemma sweep_heap_slots:
  assumes rdy: "sweep_ready lineage t s" and sw: "sprout_gc_sweep k lineage frames gen_on commit_ok mb t s = Inr (t', s')"
  shows "heap_slot lineage (sw_mem s') (g_regions t') a n \<longleftrightarrow> (\<exists>r \<in> set (g_regions t). slot_in lineage (sw_mem s) r a n \<and> will_keep lineage (sw_mem s) r)"
    "heap_slot lineage (sw_mem s') (g_regions t') a n \<Longrightarrow> sw_mem s' a = new_hdr k lineage (sw_mem s a)"
    "large_at (g_regions t') a n \<longleftrightarrow> large_at (g_regions t) a n \<and> hdr_color (sw_mem s a)"
    "r' \<in> set (g_regions t') \<Longrightarrow> table_inv t' \<Longrightarrow> (\<forall>q \<in> set (g_regions t). \<not> is_large q \<longrightarrow> cap q = region_size) \<Longrightarrow>
       heap_region_ok lineage (sw_mem s') r' \<and> (\<not> is_large r' \<longrightarrow> cap r' = region_size)"
proof -
  let ?m = "sw_mem s" and ?m' = "sw_mem s'"
  obtain rs s1 where ok: "pass1_ok k lineage ?m (\<lambda>_. []) (g_regions t) (s\<lparr>g_freelist := (\<lambda>_. 0), g_gc_freelist_len := 0\<rparr>) rs s1"
    and m: "?m' = sw_mem s1" "g_freelist s' = g_freelist s1"
    and t': "set (g_regions t') = set (filter stays rs) \<or> (\<exists>b. set (g_regions t') = insert (fresh_region b) (set (filter stays rs)))"
    by (rule sweep_result [OF rdy sw])
  note pairs = result_pairs [OF pass1_results [OF ok]]
  have rok: "\<forall>q \<in> set (g_regions t). region_ok q" and hok: "\<forall>q \<in> set (g_regions t). heap_region_ok lineage ?m q"
    using rdy by (auto simp: sweep_ready_def heap_region_ok_def)
  have st: "stays r' = will_stay lineage ?m r" if "r \<in> set (g_regions t)" "region_result lineage ?m r r'" for r r' using result_stays rok that by blast
  have slots: "slot_in lineage ?m' r' a n = slot_in lineage ?m r a n" "\<And>a n. slot_in lineage ?m r a n \<Longrightarrow> ?m' a = new_hdr k lineage (?m a)"
    if r: "r \<in> set (g_regions t)" "region_result lineage ?m r r'" for r r' a n
  proof -
    have l: "is_large r' = is_large r" using r(2) by (simp add: region_result_def)
    note R = result_region [OF rdy ok r]
    show hd: "?m' a = new_hdr k lineage (?m a)" if "slot_in lineage ?m r a n" for a n
      using that R(4) unfolding slot_in_def m by blast
    have "step_at lineage ?m' (base r) off = step_at lineage ?m (base r) off" if "\<not> is_large r" "off \<in> set (region_slots lineage ?m r)" for off
      using R(4) [OF that(1)] that new_hdr_step [OF step_small [OF rdy r(1) that]] by (simp add: m)
    then show "slot_in lineage ?m' r' a n = slot_in lineage ?m r a n"
      unfolding slot_in_def l using R(1,2) [folded m] by auto
  qed
  have kept: "q \<in> set (g_regions t') \<longleftrightarrow> q \<in> set rs \<and> stays q \<or> q \<in> set (g_regions t') \<and> (\<exists>b. q = fresh_region b)" for q
    using t' by auto
  have slots_iff: "heap_slot lineage ?m' (g_regions t') a n \<longleftrightarrow> (\<exists>q \<in> set rs. stays q \<and> slot_in lineage ?m' q a n)" for a n
    unfolding heap_slot_def using kept fresh_no_slots by metis
  show hs: "heap_slot lineage ?m' (g_regions t') a n \<longleftrightarrow> (\<exists>r \<in> set (g_regions t). slot_in lineage ?m r a n \<and> will_keep lineage ?m r)" for a n
  proof
    assume "heap_slot lineage ?m' (g_regions t') a n"
    then obtain q where q: "q \<in> set rs" "stays q" "slot_in lineage ?m' q a n" using slots_iff by blast
    obtain r where r: "r \<in> set (g_regions t)" "region_result lineage ?m r q" using pairs(1) q(1) by blast
    have "\<not> is_large r" using q(3) r(2) by (auto simp: slot_in_def region_result_def)
    then show "\<exists>r \<in> set (g_regions t). slot_in lineage ?m r a n \<and> will_keep lineage ?m r"
      using slots(1) [OF r] q(2,3) st [OF r] r(1) by (auto simp: will_stay_def)
  next
    assume "\<exists>r \<in> set (g_regions t). slot_in lineage ?m r a n \<and> will_keep lineage ?m r"
    then obtain r where r: "r \<in> set (g_regions t)" "slot_in lineage ?m r a n" "will_keep lineage ?m r" by blast
    obtain q where q: "q \<in> set rs" "region_result lineage ?m r q" using pairs(2) r(1) by blast
    have "\<not> is_large r" using r(2) by (simp add: slot_in_def)
    then have "stays q" using st [OF r(1) q(2)] r(3) by (simp add: will_stay_def)
    then show "heap_slot lineage ?m' (g_regions t') a n" using slots_iff slots(1) [OF r(1) q(2)] r(2) q(1) by blast
  qed
  show "heap_slot lineage ?m' (g_regions t') a n \<Longrightarrow> ?m' a = new_hdr k lineage (?m a)"
    using hs slots(2) pairs(2) by blast
  show "large_at (g_regions t') a n \<longleftrightarrow> large_at (g_regions t) a n \<and> hdr_color (?m a)"
  proof
    assume "large_at (g_regions t') a n"
    then obtain q where q: "q \<in> set (g_regions t')" "is_large q" "a = base q" "n = unat (cap q)" by (auto simp: large_at_def)
    have "q \<in> set rs \<and> stays q" using kept [of q] q(1,2) by (auto simp: fresh_region_def)
    moreover obtain r where r: "r \<in> set (g_regions t)" "region_result lineage ?m r q" using pairs(1) calculation by blast
    ultimately have "hdr_color (?m (base r)) \<and> base q = base r \<and> cap q = cap r \<and> is_large r"
      using q(2) by (auto simp: region_result_def stays_def split: if_splits)
    then show "large_at (g_regions t) a n \<and> hdr_color (?m a)" using r(1) q(3,4) by (auto simp: large_at_def)
  next
    assume "large_at (g_regions t) a n \<and> hdr_color (?m a)"
    then obtain r where r: "r \<in> set (g_regions t)" "is_large r" "a = base r" "n = unat (cap r)" "hdr_color (?m (base r))" by (auto simp: large_at_def)
    obtain q where q: "q \<in> set rs" "region_result lineage ?m r q" using pairs(2) r(1) by blast
    have "stays q" using st [OF r(1) q(2)] r(2,5) by (simp add: will_stay_def)
    then have "q \<in> set (g_regions t')" using t' q(1) by auto
    then show "large_at (g_regions t') a n" using q(2) r by (auto simp: large_at_def region_result_def)
  qed
  show "heap_region_ok lineage ?m' r' \<and> (\<not> is_large r' \<longrightarrow> cap r' = region_size)"
    if i: "r' \<in> set (g_regions t')" and T': "table_inv t'" and cp: "\<forall>q \<in> set (g_regions t). \<not> is_large q \<longrightarrow> cap q = region_size"
  proof (cases "\<exists>b. r' = fresh_region b")
    case True
    have "unat b < 2 ^ 64" for b :: addr using unsigned_less [of b] by simp
    then show ?thesis using True i T' by (auto simp: table_inv_def heap_region_ok_def tiled_def slot_offs_0 fresh_region_def)
  next
    case False
    then have "r' \<in> set rs" using kept [of r'] i by blast
    then obtain r where r: "r \<in> set (g_regions t)" "region_result lineage ?m r r'" using pairs(1) by blast
    have ro: "region_ok r'" using i T' by (simp add: table_inv_def)
    show ?thesis
    proof (cases "is_large r")
      case True
      then show ?thesis using r(2) ro by (simp add: heap_region_ok_def region_result_def)
    next
      case l: False
      note R = result_region [OF rdy ok r l]
      have e: "bump r' = bump r" "cap r' = cap r" using r(2) l by (auto simp: region_result_def)
      have "step_at lineage ?m' (base r) off = step_at lineage ?m (base r) off" if "off \<in> set (region_slots lineage ?m r)" for off
        using R(4) that new_hdr_step [OF step_small [OF rdy r(1) l that]] by (simp add: m)
      then have "tiled lineage ?m' (base r') (unat (bump r'))"
        using hok r(1) l R(1,2) e unfolding heap_region_ok_def tiled_def region_slots_def m by auto
      then show ?thesis using ro hok r(1) l R(3) e cp by (simp add: heap_region_ok_def)
    qed
  qed
qed

lemma pass2_touched: "g_fl_touched (snd (sweep_pass2 n t s)) = g_fl_touched s"
  by (induction n arbitrary: t s) (auto simp: Let_def)

lemma sweep_heap:
  assumes inv: "heap_inv lineage t s" and sw: "sprout_gc_sweep k lineage frames gen_on commit_ok mb t s = Inr (t', s')"
    and mb: "\<And>b. mb = Some b \<Longrightarrow> malloc_fresh (fst (sweep_passes k lineage frames gen_on t s)) b region_size"
  shows "heap_inv lineage t' s'"
    "object_at lineage (sw_mem s') (g_regions t') a n \<longleftrightarrow> object_at lineage (sw_mem s) (g_regions t) a n \<and> hdr_color (sw_mem s a)"
proof -
  let ?m = "sw_mem s" and ?m' = "sw_mem s'"
  have rdy: "sweep_ready lineage t s" by (rule heap_inv_ready [OF inv])
  have T': "table_inv t'" by (rule sweep_table_inv [OF rdy sw mb])
  note S = sweep_heap_slots [OF rdy sw]
  have lists: "lists_ok lineage (g_regions t') s'" unfolding lists_ok_def by (rule sweep_lists [OF rdy sw])
  obtain rs s1 where ok: "pass1_ok k lineage ?m (\<lambda>_. []) (g_regions t) (s\<lparr>g_freelist := (\<lambda>_. 0), g_gc_freelist_len := 0\<rparr>) rs s1"
    and m: "?m' = sw_mem s1" "g_freelist s' = g_freelist s1"
    and t': "set (g_regions t') = set (filter stays rs) \<or> (\<exists>b. set (g_regions t') = insert (fresh_region b) (set (filter stays rs)))"
    and p2: "sweep_pass2 (length rs) (t\<lparr>g_regions := rs\<rparr>) s1 = (fst (sweep_passes k lineage frames gen_on t s), s')"
    by (rule sweep_result [OF rdy sw])
  have "fl_clean s'" using ok pass2_touched [of "length rs" "t\<lparr>g_regions := rs\<rparr>" s1] by (simp add: p2 pass1_ok_def fl_clean_def)
  moreover have "16 dvd n" if "heap_slot lineage ?m' (g_regions t') a n" for a n
    using that inv unfolding S(1) heap_inv_def by blast
  moreover have "heap_region_ok lineage ?m' r' \<and> (\<not> is_large r' \<longrightarrow> cap r' = region_size)" if "r' \<in> set (g_regions t')" for r'
    using S(4) [OF that T'] inv unfolding heap_inv_def by blast
  ultimately show "heap_inv lineage t' s'" using T' lists by (auto simp: heap_inv_alt regions_ok_def table_inv_def)
  have obj: "heap_slot lineage ?m' (g_regions t') a n \<and> is_object (?m' a) \<longleftrightarrow> heap_slot lineage ?m (g_regions t) a n \<and> is_object (?m a) \<and> hdr_color (?m a)" for a n
  proof
    assume l: "heap_slot lineage ?m' (g_regions t') a n \<and> is_object (?m' a)"
    then have "is_object (new_hdr k lineage (?m a))" using S(2) by metis
    then have "fate_of lineage (?m a) = Survives" by (simp add: new_hdr_kind)
    then show "heap_slot lineage ?m (g_regions t) a n \<and> is_object (?m a) \<and> hdr_color (?m a)"
      using l S(1) unfolding heap_slot_def by (auto simp: new_hdr_kind)
  next
    assume r: "heap_slot lineage ?m (g_regions t) a n \<and> is_object (?m a) \<and> hdr_color (?m a)"
    then have sv: "fate_of lineage (?m a) = Survives" by (simp add: new_hdr_kind)
    obtain r where r: "r \<in> set (g_regions t)" "slot_in lineage ?m r a n" using r by (auto simp: heap_slot_def)
    then have "will_keep lineage ?m r" using sv by (force simp: slot_in_def will_keep_def)
    then have h: "heap_slot lineage ?m' (g_regions t') a n" using S(1) r by blast
    then show "heap_slot lineage ?m' (g_regions t') a n \<and> is_object (?m' a)" using S(2) sv by (simp add: new_hdr_kind)
  qed
  show "object_at lineage ?m' (g_regions t') a n \<longleftrightarrow> object_at lineage ?m (g_regions t) a n \<and> hdr_color (?m a)"
    unfolding object_at_alt obj S(3) by blast
qed

section \<open>Stores of the program and of the collector\<close>

lemma heap_inv_mem:
  assumes inv: "heap_inv lineage t s"
    and hdr: "\<And>b k. heap_slot lineage (sw_mem s) (g_regions t) b k \<Longrightarrow>
      sprout_slot_step lineage (m' b) = sprout_slot_step lineage (sw_mem s b) \<and> (sprout_hdr_kind (m' b) = HEAP_FREE \<longleftrightarrow> sprout_hdr_kind (sw_mem s b) = HEAP_FREE)"
    and cells: "\<And>b k. heap_slot lineage (sw_mem s) (g_regions t) b k \<Longrightarrow> sprout_hdr_kind (sw_mem s b) = HEAP_FREE \<Longrightarrow> m' (b + 8) = sw_mem s (b + 8)"
  shows "heap_slot lineage m' (g_regions t) = heap_slot lineage (sw_mem s) (g_regions t)" "heap_inv lineage t (s\<lparr>sw_mem := m'\<rparr>)"
proof -
  let ?m = "sw_mem s" and ?rs = "g_regions t"
  have T: "table_inv t" "fl_clean s" "lists_ok lineage ?rs s" "regions_ok lineage ?m ?rs" using inv by (auto simp: heap_inv_alt)
  have R: "slot_in lineage m' q a n = slot_in lineage ?m q a n" "heap_region_ok lineage m' q" if q: "q \<in> set ?rs" for q a n
  proof -
    have ok: "heap_region_ok lineage ?m q" using T(4) q by (simp add: regions_ok_def)
    have st: "sprout_slot_step lineage (m' a) = sprout_slot_step lineage (?m a)" if "slot_in lineage ?m q a n" for a n
      using hdr [of a n] that q unfolding heap_slot_def by blast
    show "slot_in lineage m' q a n = slot_in lineage ?m q a n" by (rule same_steps(1) [OF ok st])
    show "heap_region_ok lineage m' q" by (rule same_steps(2) [OF ok st])
  qed
  show hs: "heap_slot lineage m' ?rs = heap_slot lineage ?m ?rs" unfolding heap_slot_def using R(1) by (intro ext) auto
  have fs: "free_slots lineage m' c ?rs = free_slots lineage ?m c ?rs" for c unfolding free_slots_heap hs using hdr by blast
  obtain L where L: "\<And>c. fl_chain ?m (g_freelist s c) (L c)" "\<And>c. distinct (L c)" "\<And>c. set (L c) = free_slots lineage ?m c ?rs"
    using T(3) by (auto simp: lists_ok_def)
  have "fl_chain m' (g_freelist s c) (L c) = fl_chain ?m (g_freelist s c) (L c)" for c
  proof (rule fl_chain_cong)
    fix x assume "x \<in> set (L c)"
    then show "m' x = ?m x" using cells unfolding L(3) free_slots_heap by blast
  qed
  then have "lists_ok lineage ?rs (s\<lparr>sw_mem := m'\<rparr>)" unfolding lists_ok_def using L fs by (intro exI [of _ L]) simp
  then show "heap_inv lineage t (s\<lparr>sw_mem := m'\<rparr>)" using T R(2) hs by (simp add: heap_inv_alt regions_ok_def fl_clean_def)
qed

text \<open>A header that keeps kind and auxiliary number: marking, ageing, remembering.\<close>

lemma header_write_heap:
  assumes inv: "heap_inv lineage t s" and o: "object_at lineage (sw_mem s) (g_regions t) a n" and h: "same_identity (sw_mem s a) h"
  shows "heap_inv lineage t (s\<lparr>sw_mem := (sw_mem s)(a := h)\<rparr>)"
    "object_at lineage ((sw_mem s)(a := h)) (g_regions t) b k = object_at lineage (sw_mem s) (g_regions t) b k"
proof -
  let ?m = "sw_mem s" and ?m' = "(sw_mem s)(a := h)" and ?rs = "g_regions t"
  have ok: "regions_ok lineage ?m ?rs" using inv by (simp add: heap_inv_alt)
  have kd: "sprout_slot_step lineage (?m' b) = sprout_slot_step lineage (?m b) \<and> sprout_hdr_kind (?m' b) = sprout_hdr_kind (?m b)" for b
    using step_identity [OF h] h by (simp add: same_identity_def)
  have ap: "b + 8 \<noteq> a" if b: "heap_slot lineage ?m ?rs b k" for b k
  proof (cases "large_at ?rs a n")
    case False
    then show ?thesis using heap_payload_not_header [OF ok b] o by (auto simp: object_at_alt)
  next
    case True
    then obtain q where q: "q \<in> set ?rs" "is_large q" "a = base q" by (auto simp: large_at_def)
    obtain r where r: "r \<in> set ?rs" "slot_in lineage ?m r b k" using b by (auto simp: heap_slot_def)
    have okr: "heap_region_ok lineage ?m r" "heap_region_ok lineage ?m q" using ok r(1) q(1) by (auto simp: regions_ok_def)
    have "unat (bump r) \<le> unat (cap r)" using okr(1) r(2) by (auto simp: heap_region_ok_def slot_in_def)
    then have "area r (b + 8)" using payload_addr [OF okr(1) r(2)] by (auto simp: area_def in_block_def)
    moreover have "area q a" using okr(2) q(3) by (auto simp: area_def in_block_def heap_region_ok_def region_ok_def unat_gt_0)
    moreover have "r \<noteq> q" using r(2) q(2) by (auto simp: slot_in_def)
    ultimately show ?thesis using regions_apart [of ?rs r q] ok r(1) q(1) below_disjoint by (auto simp: regions_ok_def)
  qed
  have M: "heap_slot lineage ?m' ?rs = heap_slot lineage ?m ?rs" "heap_inv lineage t (s\<lparr>sw_mem := ?m'\<rparr>)"
    by (rule heap_inv_mem [OF inv]; use kd ap in simp)+
  show "heap_inv lineage t (s\<lparr>sw_mem := ?m'\<rparr>)" by (rule M(2))
  show "object_at lineage ?m' ?rs b k = object_at lineage ?m ?rs b k"
    unfolding object_at_alt M(1) using kd by (simp add: is_object_def)
qed

text \<open>A store into the payload of an object.\<close>

lemma payload_write_heap:
  assumes inv: "heap_inv lineage t s" and o: "object_at lineage (sw_mem s) (g_regions t) a n" and x: "unat a < unat x" "unat x < unat a + n"
  shows "heap_inv lineage t (s\<lparr>sw_mem := (sw_mem s)(x := v)\<rparr>)"
    "object_at lineage ((sw_mem s)(x := v)) (g_regions t) b k = object_at lineage (sw_mem s) (g_regions t) b k"
proof -
  let ?m = "sw_mem s" and ?m' = "(sw_mem s)(x := v)" and ?rs = "g_regions t"
  have ok: "regions_ok lineage ?m ?rs" using inv by (simp add: heap_inv_alt)
  have so: "sorted_wrt below ?rs" using ok by (simp add: regions_ok_def)
  have sep: "x \<noteq> b \<and> (sprout_hdr_kind (?m b) = HEAP_FREE \<longrightarrow> x \<noteq> b + 8)" if b: "heap_slot lineage ?m ?rs b k" for b k
  proof -
    obtain r where r: "r \<in> set ?rs" "slot_in lineage ?m r b k" using b by (auto simp: heap_slot_def)
    have okr: "heap_region_ok lineage ?m r" using ok r(1) by (simp add: regions_ok_def)
    note P = payload_addr [OF okr r(2)]
    have uc: "unat (bump r) \<le> unat (cap r)" using okr r(2) by (auto simp: heap_region_ok_def slot_in_def)
    show ?thesis
    proof (cases "large_at ?rs a n")
      case False
      then have sa: "heap_slot lineage ?m ?rs a n" "is_object (?m a)" using o by (auto simp: object_at_alt)
      show ?thesis
      proof (cases "a = b")
        case True
        then show ?thesis using x sa(2) by (auto simp: is_object_def)
      next
        case ne: False
        then show ?thesis using heap_slots_apart [OF ok sa(1) b ne] x P(1,2) by auto
      qed
    next
      case True
      then obtain q where q: "q \<in> set ?rs" "is_large q" "a = base q" "n = unat (cap q)" by (auto simp: large_at_def)
      have "r \<noteq> q" using r(2) q(2) by (auto simp: slot_in_def)
      then have "below r q \<or> below q r" using regions_apart [OF so r(1) q(1)] by blast
      then show ?thesis using x q(3,4) P uc by (auto simp: below_def area_def in_block_def)
    qed
  qed
  have M: "heap_slot lineage ?m' ?rs = heap_slot lineage ?m ?rs" "heap_inv lineage t (s\<lparr>sw_mem := ?m'\<rparr>)"
    by (rule heap_inv_mem [OF inv]; use sep in auto)+
  show "heap_inv lineage t (s\<lparr>sw_mem := ?m'\<rparr>)" by (rule M(2))
  have "is_object (?m' b) = is_object (?m b)" if "heap_slot lineage ?m ?rs b k" for b k using sep [OF that] by auto
  then show "object_at lineage ?m' ?rs b k = object_at lineage ?m ?rs b k" unfolding object_at_alt M(1) by blast
qed

section \<open>The heap as a transition system\<close>

text \<open>
  The contract between the allocator, the collector and the program: objects are blocks; allocation adds one
  that was not there, a store keeps them, a collection may only take some away; a well-formed heap has disjoint objects.
\<close>

locale managed_heap =
  fixes wf :: "'h \<Rightarrow> bool" and objs :: "'h \<Rightarrow> (addr \<times> nat) set"
    and alloc :: "'h \<Rightarrow> addr \<times> nat \<Rightarrow> 'h \<Rightarrow> bool" and store :: "'h \<Rightarrow> 'h \<Rightarrow> bool" and collect :: "'h \<Rightarrow> 'h \<Rightarrow> bool"
  assumes alloc_wf: "wf h \<Longrightarrow> alloc h x h' \<Longrightarrow> wf h' \<and> objs h' = insert x (objs h) \<and> x \<notin> objs h"
    and store_wf: "wf h \<Longrightarrow> store h h' \<Longrightarrow> wf h' \<and> objs h' = objs h"
    and collect_wf: "wf h \<Longrightarrow> collect h h' \<Longrightarrow> wf h' \<and> objs h' \<subseteq> objs h"
    and disjoint: "wf h \<Longrightarrow> (a, n) \<in> objs h \<Longrightarrow> (b, k) \<in> objs h \<Longrightarrow> a \<noteq> b \<Longrightarrow> unat a + n \<le> unat b \<or> unat b + k \<le> unat a"
begin

lemma mutator_keeps: "wf h \<Longrightarrow> (\<exists>x. alloc h x h') \<or> store h h' \<Longrightarrow> wf h' \<and> objs h \<subseteq> objs h'"
  using alloc_wf store_wf by (metis insertCI order_refl subsetI)

lemma run_wf: "(\<lambda>h h'. (\<exists>x. alloc h x h') \<or> store h h' \<or> collect h h')\<^sup>*\<^sup>* h h' \<Longrightarrow> wf h \<Longrightarrow> wf h'"
  by (induction rule: rtranclp_induct) (use mutator_keeps collect_wf in blast)+

lemma mutator_run: "(\<lambda>h h'. (\<exists>x. alloc h x h') \<or> store h h')\<^sup>*\<^sup>* h h' \<Longrightarrow> wf h \<Longrightarrow> wf h' \<and> objs h \<subseteq> objs h'"
  by (induction rule: rtranclp_induct) (use mutator_keeps in blast)+

lemma run_disjoint:
  "(\<lambda>h h'. (\<exists>x. alloc h x h') \<or> store h h' \<or> collect h h')\<^sup>*\<^sup>* h h' \<Longrightarrow> wf h \<Longrightarrow> (a, n) \<in> objs h' \<Longrightarrow> (b, k) \<in> objs h' \<Longrightarrow> a \<noteq> b \<Longrightarrow>
   unat a + n \<le> unat b \<or> unat b + k \<le> unat a"
  using run_wf disjoint by blast

end

type_synonym heap = "region_table \<times> sweep"

definition heap_wf :: "bool \<Rightarrow> heap \<Rightarrow> bool" where
  "heap_wf lineage h \<longleftrightarrow> heap_inv lineage (fst h) (snd h)"

definition heap_objs :: "bool \<Rightarrow> heap \<Rightarrow> (addr \<times> nat) set" where
  "heap_objs lineage h = {(a, n). object_at lineage (sw_mem (snd h)) (g_regions (fst h)) a n}"

text \<open>A request whose header gives the size it asks for, as every allocating function makes it; \<^verbatim>\<open>malloc\<close> gives a block
  that overlaps no region.\<close>

inductive heap_alloc :: "bool \<Rightarrow> heap \<Rightarrow> addr \<times> nat \<Rightarrow> heap \<Rightarrow> bool" for lineage where
  alloc: "sprout_gc_alloc_block gen_on commit_ok mb kind aux bytes ctx t s = Inr (p, t', s') \<Longrightarrow> kind \<noteq> HEAP_FREE \<Longrightarrow> kind \<noteq> HEAP_POISON \<Longrightarrow>
     sprout_slot_step lineage (sprout_hdr_make kind aux) = alloc_slot bytes \<Longrightarrow>
     (\<And>b. mb = Some b \<Longrightarrow> malloc_fresh t b (if sprout_slot_is_large (alloc_slot bytes) then alloc_slot bytes else region_size)) \<Longrightarrow>
     heap_alloc lineage (t, s) (p - 8, unat (alloc_slot bytes)) (t', s')"

text \<open>Stores into payloads, and header updates that keep kind and auxiliary number.\<close>

inductive heap_store :: "bool \<Rightarrow> heap \<Rightarrow> heap \<Rightarrow> bool" for lineage where
  payload: "object_at lineage (sw_mem s) (g_regions t) a n \<Longrightarrow> unat a < unat x \<Longrightarrow> unat x < unat a + n \<Longrightarrow>
     heap_store lineage (t, s) (t, s\<lparr>sw_mem := (sw_mem s)(x := v)\<rparr>)"
| header: "object_at lineage (sw_mem s) (g_regions t) a n \<Longrightarrow> same_identity (sw_mem s a) h \<Longrightarrow>
     heap_store lineage (t, s) (t, s\<lparr>sw_mem := (sw_mem s)(a := h)\<rparr>)"

inductive heap_sweep :: "bool \<Rightarrow> heap \<Rightarrow> heap \<Rightarrow> bool" for lineage where
  sweep: "sprout_gc_sweep k lineage frames gen_on commit_ok mb t s = Inr (t', s') \<Longrightarrow>
     (\<And>b. mb = Some b \<Longrightarrow> malloc_fresh (fst (sweep_passes k lineage frames gen_on t s)) b region_size) \<Longrightarrow> heap_sweep lineage (t, s) (t', s')"

inductive_cases heap_allocE: "heap_alloc lineage h x h'"
inductive_cases heap_storeE: "heap_store lineage h h'"
inductive_cases heap_sweepE: "heap_sweep lineage h h'"

interpretation rt_cycle: managed_heap "heap_wf lineage" "heap_objs lineage" "heap_alloc lineage" "heap_store lineage" "heap_sweep lineage"
  for lineage
proof
  fix h h' :: heap and x
  show "heap_wf lineage h' \<and> heap_objs lineage h' = insert x (heap_objs lineage h) \<and> x \<notin> heap_objs lineage h"
    if wf: "heap_wf lineage h" and al: "heap_alloc lineage h x h'"
  proof (rule heap_allocE [OF al])
    fix gen_on commit_ok mb kind aux bytes ctx t s p t' s'
    assume e: "h = (t, s)" "x = (p - 8, unat (alloc_slot bytes))" "h' = (t', s')"
      and run: "sprout_gc_alloc_block gen_on commit_ok mb kind aux bytes ctx t s = Inr (p, t', s')" "kind \<noteq> HEAP_FREE" "kind \<noteq> HEAP_POISON"
        "sprout_slot_step lineage (sprout_hdr_make kind aux) = alloc_slot bytes"
        "\<And>b. mb = Some b \<Longrightarrow> malloc_fresh t b (if sprout_slot_is_large (alloc_slot bytes) then alloc_slot bytes else region_size)"
    have "heap_inv lineage t s" using wf e(1) by (simp add: heap_wf_def)
    note A = alloc_block_ok [where malloc_block = mb and gen_on = gen_on and commit_ok = commit_ok and ctx = ctx, OF this run(2-5), unfolded run(1)]
    then have "alloc_result lineage t s (p - 8) (unat (alloc_slot bytes)) (sprout_hdr_make kind aux) t' s'" by simp
    then show ?thesis unfolding e alloc_result_def heap_wf_def heap_objs_def by auto
  qed
  show "heap_wf lineage h' \<and> heap_objs lineage h' = heap_objs lineage h" if wf: "heap_wf lineage h" and st: "heap_store lineage h h'"
    using st wf by (cases rule: heap_store.cases) (auto simp: heap_wf_def heap_objs_def payload_write_heap header_write_heap)
  show "heap_wf lineage h' \<and> heap_objs lineage h' \<subseteq> heap_objs lineage h" if wf: "heap_wf lineage h" and sw: "heap_sweep lineage h h'"
    using sw
  proof cases
    case (sweep k frames gen_on commit_ok mb t s t' s')
    have "heap_inv lineage t s" using wf sweep(1) by (simp add: heap_wf_def)
    then show ?thesis using sweep_heap [OF _ sweep(3,4)] sweep(1,2) by (auto simp: heap_wf_def heap_objs_def)
  qed
next
  fix h :: heap and a n b k
  show "unat a + n \<le> unat b \<or> unat b + k \<le> unat a" if "heap_wf lineage h" "(a, n) \<in> heap_objs lineage h" "(b, k) \<in> heap_objs lineage h" "a \<noteq> b"
    using objects_apart [of lineage "fst h" "snd h" a n b k] that by (simp add: heap_wf_def heap_objs_def)
qed

definition heap_step :: "bool \<Rightarrow> heap \<Rightarrow> heap \<Rightarrow> bool" where
  "heap_step lineage h h' \<longleftrightarrow> (\<exists>x. heap_alloc lineage h x h') \<or> heap_store lineage h h' \<or> heap_sweep lineage h h'"

text \<open>The heap of a program that starts: no regions, empty free lists.\<close>

definition start_heap :: "(addr \<Rightarrow> 64 word) \<Rightarrow> sweep" where
  "start_heap m =
     \<lparr>sw_mem = m, g_freelist = (\<lambda>_. 0), g_gc_freelist_len = 0, g_fl_saved = (\<lambda>_. 0), g_fl_touched = (\<lambda>_. False), g_fl_touched_list = [],
      g_fl_region_pushed = 0, sw_singleton = (\<lambda>_. None), sw_freed = [], g_managed_heap_count = 0, g_managed_alloc_since_gc = 0\<rparr>"

lemma start_inv:
  assumes "reserve_ok reserve" "arena_init_once reserve setting = Inr a"
  shows "heap_wf lineage (init_table a, start_heap m)"
  using init_table_inv [OF assms]
  by (simp add: heap_wf_def heap_inv_def fl_clean_def lists_ok_def free_slots_def start_heap_def init_table_def exI [of _ "\<lambda>_. []"])

lemma reached_wf:
  assumes "reserve_ok reserve" "arena_init_once reserve setting = Inr a" "(heap_step lineage)\<^sup>*\<^sup>* (init_table a, start_heap m) h"
  shows "heap_wf lineage h"
  using rt_cycle.run_wf [of lineage "(init_table a, start_heap m)" h] start_inv [OF assms(1,2)] assms(3) by (simp add: heap_step_def [abs_def])

lemma sweep_objs:
  assumes "heap_wf lineage h" "heap_sweep lineage h h'"
  shows "heap_objs lineage h' = {(b, n) \<in> heap_objs lineage h. hdr_color (sw_mem (snd h) b)}"
  using assms(2)
proof cases
  case (sweep k frames gen_on commit_ok mb t s t' s')
  have "heap_inv lineage t s" using assms(1) sweep(1) by (simp add: heap_wf_def)
  then show ?thesis using sweep_heap(2) [OF _ sweep(3,4)] sweep(1,2) by (auto simp: heap_objs_def)
qed

text \<open>C12. From the start of a program, whatever it allocates and stores, whichever header bits the collector sets and
  whenever it sweeps: the regions are tiled by their slots, the free lists hold exactly the free slots, no two
  objects overlap, a sweep leaves exactly the objects whose colour is set, and no step other than a sweep takes an object away.\<close>

theorem heap_cycle_safe:
  assumes r: "reserve_ok reserve" "arena_init_once reserve setting = Inr a" and run: "(heap_step lineage)\<^sup>*\<^sup>* (init_table a, start_heap m) h"
  shows "heap_inv lineage (fst h) (snd h) \<and>
    (\<forall>b n c k. (b, n) \<in> heap_objs lineage h \<longrightarrow> (c, k) \<in> heap_objs lineage h \<longrightarrow> b \<noteq> c \<longrightarrow> unat b + n \<le> unat c \<or> unat c + k \<le> unat b) \<and>
    (\<forall>h'. heap_sweep lineage h h' \<longrightarrow> heap_objs lineage h' = {(b, n) \<in> heap_objs lineage h. hdr_color (sw_mem (snd h) b)}) \<and>
    (\<forall>h'. (\<exists>x. heap_alloc lineage h x h') \<or> heap_store lineage h h' \<longrightarrow> heap_objs lineage h \<subseteq> heap_objs lineage h')"
proof (intro conjI allI impI)
  have wf: "heap_wf lineage h" by (rule reached_wf [OF r run])
  then show "heap_inv lineage (fst h) (snd h)" by (simp add: heap_wf_def)
  show "unat b + n \<le> unat c \<or> unat c + k \<le> unat b" if "(b, n) \<in> heap_objs lineage h" "(c, k) \<in> heap_objs lineage h" "b \<noteq> c" for b n c k
    by (rule rt_cycle.disjoint [OF wf that])
  show "heap_objs lineage h' = {(b, n) \<in> heap_objs lineage h. hdr_color (sw_mem (snd h) b)}" if "heap_sweep lineage h h'" for h'
    by (rule sweep_objs [OF wf that])
  show "heap_objs lineage h \<subseteq> heap_objs lineage h'" if "(\<exists>x. heap_alloc lineage h x h') \<or> heap_store lineage h h'" for h'
    using rt_cycle.mutator_keeps [OF wf that] by blast
qed

theorem heap_cycle_safe_witness:
  "\<exists>t s b. (heap_step False)\<^sup>*\<^sup>* (init_table no_arena, start_heap (\<lambda>_. 0)) (t, s) \<and> heap_inv False t s \<and> object_at False (sw_mem s) (g_regions t) b 16"
proof -
  let ?t0 = "init_table no_arena" and ?s0 = "start_heap (\<lambda>_. 0)"
  have a: "reserve_ok (\<lambda>_. None)" "arena_init_once (\<lambda>_. None) (Some (Some 0)) = Inr no_arena"
    by (simp_all add: reserve_ok_def arena_init_once_def)
  have inv: "heap_inv False ?t0 ?s0" using start_inv [OF a] by (simp add: heap_wf_def)
  have sz: "sprout_slot_step False (sprout_hdr_make HEAP_CSTR 3) = alloc_slot 4" "alloc_slot 4 = 16" "\<not> sprout_slot_is_large 16" by code_simp+
  have mb: "malloc_fresh ?t0 b (if sprout_slot_is_large (alloc_slot 4) then alloc_slot 4 else region_size)" if "Some 0x100000 = Some b" for b
    using that sz by (auto simp: malloc_fresh_def init_table_def region_size_def no_arena_def)
  note A = alloc_block_ok [where malloc_block = "Some 0x100000" and gen_on = False and commit_ok = "\<lambda>_. False" and ctx = "[]", OF inv _ _ sz(1) mb]
  obtain p t s where run: "sprout_gc_alloc_block False (\<lambda>_. False) (Some 0x100000) HEAP_CSTR 3 4 [] ?t0 ?s0 = Inr (p, t, s)"
    and res: "alloc_result False ?t0 ?s0 (p - 8) (unat (alloc_slot 4)) (sprout_hdr_make HEAP_CSTR 3) t s"
    using A by (auto split: sum.splits)
  have "heap_alloc False (?t0, ?s0) (p - 8, unat (alloc_slot 4)) (t, s)" by (rule heap_alloc.alloc [OF run _ _ sz(1) mb]) simp_all
  then have "heap_step False (?t0, ?s0) (t, s)" by (auto simp: heap_step_def)
  then have reach: "(heap_step False)\<^sup>*\<^sup>* (?t0, ?s0) (t, s)" by (rule r_into_rtranclp)
  have "heap_inv False t s" using heap_cycle_safe [OF a reach] by simp
  moreover have "object_at False (sw_mem s) (g_regions t) (p - 8) 16" using res unfolding alloc_result_def sz(2) by auto
  ultimately show ?thesis using reach by blast
qed

end
