(* ===== verification/Gc_Heap.thy ===== *)
theory Gc_Heap
  imports Gc_Regions
begin

unbundle bit_operations_syntax

text \<open>
  The heap the collector walks. Memory is a function from byte addresses to 64-bit cells (every access
  of the runtime below is to an aligned cell): an object's header is the cell at \<open>payload - 8\<close>, its
  fields follow the payload address, and the out-of-line buffers of vectors and builders are cells
  elsewhere. \<open>sprout_heap_lookup_region\<close> decides which words are payloads of live objects, and
  \<open>sprout_heap_child_value_payload\<close> enumerates the words the collector follows. The worklists are the
  C arrays with their lengths; the mark stack lists its top first, the remembered set its oldest entry first.
\<close>

record gen_state =
  gen_on :: bool
  gen_check :: bool
  major_every :: int
  baseline :: nat
  last_live :: nat
  colorless :: bool
  minors_since_major :: nat
  n_minor :: nat
  n_major :: nat

record gc =
  mem :: "addr \<Rightarrow> 64 word"
  table :: region_table
  mark_wl :: "addr list"
  remembered :: "addr list"
  gen :: gen_state
  marked_count :: nat

definition g_gen_init :: gen_state where
  "g_gen_init = \<lparr>gen_on = False, gen_check = False, major_every = 19, baseline = 0, last_live = 0,
                 colorless = True, minors_since_major = 0, n_minor = 0, n_major = 0\<rparr>"

text \<open>The generational switches, from the three environment strings (\<open>None\<close>: unset) and the parser of
  decimal numbers \<^verbatim>\<open>strtoll\<close> with its end-of-input test (\<open>None\<close>: not a number to the end).\<close>

definition sprout_gc_gen_init ::
  "(string \<Rightarrow> int option) \<Rightarrow> string option \<Rightarrow> string option \<Rightarrow> string option \<Rightarrow> gen_state \<Rightarrow> gen_state res" where
  "sprout_gc_gen_init strtoll m c every g =
     (let on = (case m of None \<Rightarrow> Inr True
                | Some s \<Rightarrow> if s = '''' \<or> s = ''1'' then Inr True else if s = ''0'' then Inr False
                            else Inl (SproutFail ''SPROUT_GC_MINOR: expected 0 or 1''))
      in res_bind on (\<lambda>b.
        if \<not> b then Inr (g\<lparr>gen_on := False\<rparr>)
        else
          (let g1 = g\<lparr>gen_on := True, gen_check := (case c of Some (ch # _) \<Rightarrow> ch = CHR ''1'' | _ \<Rightarrow> False)\<rparr> in
           case every of
             None \<Rightarrow> Inr g1
           | Some s \<Rightarrow> if s = '''' then Inr g1
               else (case strtoll s of
                       Some parsed \<Rightarrow> if parsed < 0
                         then Inl (SproutFail ''SPROUT_GC_MAJOR_EVERY: expected non-negative integer'')
                         else Inr (g1\<lparr>major_every := parsed\<rparr>)
                     | None \<Rightarrow> Inl (SproutFail ''SPROUT_GC_MAJOR_EVERY: expected non-negative integer'')))))"

section \<open>Membership\<close>

definition sprout_heap_lookup_region :: "gc \<Rightarrow> addr \<Rightarrow> addr option \<times> nat option" where
  "sprout_heap_lookup_region g p =
     (case region_find (table g) p of
        None \<Rightarrow> (None, None)
      | Some i \<Rightarrow>
          (let r = g_regions (table g) ! i in
           (if is_large r then (if p = base r + 8 then Some (base r) else None)
            else let off = unat (p - base r) in
              if off < 8 \<or> (off - 8) mod slot_gran \<noteq> 0 then None
              else let slot = (off - 8) div slot_gran in
                if \<not> slotmap_test r slot then None
                else let h = mem g (p - 8) in
                  if h AND 0xFF = 0 then None else Some (p - 8),
            Some i)))"

definition sprout_heap_lookup :: "gc \<Rightarrow> addr \<Rightarrow> addr option" where
  "sprout_heap_lookup g p = fst (sprout_heap_lookup_region g p)"

definition sprout_heap_kind_at :: "gc \<Rightarrow> addr \<Rightarrow> heap_kind option" where
  "sprout_heap_kind_at g p =
     (case sprout_heap_lookup g p of None \<Rightarrow> None | Some hdr \<Rightarrow> Some (sprout_hdr_kind (mem g hdr)))"

definition is_obj_handle :: "gc \<Rightarrow> sval \<Rightarrow> bool" where
  "is_obj_handle g h \<longleftrightarrow> sprout_heap_kind_at g h = Some HEAP_OBJ"

section \<open>Children\<close>

definition sprout_hdr_of :: "gc \<Rightarrow> addr \<Rightarrow> 64 word" where
  "sprout_hdr_of g payload = mem g (payload - 8)"

definition sprout_heap_child_count_payload :: "gc \<Rightarrow> addr \<Rightarrow> nat" where
  "sprout_heap_child_count_payload g payload =
     (if payload = 0 then 0
      else let h = sprout_hdr_of g payload; aux = sprout_hdr_aux h in
        (case sprout_hdr_kind h of
           HEAP_OBJ \<Rightarrow> unat (aux AND 0xFF)
         | HEAP_CLOSURE \<Rightarrow> unat (sprout_closure_ncaps aux)
         | HEAP_VECTOR \<Rightarrow> if sprout_vec_is_noscan h then 0 else unat (mem g payload)
         | HEAP_MAP \<Rightarrow> 4
         | HEAP_BYTES \<Rightarrow> 0
         | HEAP_BUILDER \<Rightarrow> unat (mem g (payload + 8))
         | HEAP_TUPLE \<Rightarrow> unat aux
         | HEAP_REF \<Rightarrow> 1
         | HEAP_CSTR \<Rightarrow> 0
         | _ \<Rightarrow> 0))"

definition cell :: "addr \<Rightarrow> nat \<Rightarrow> addr" where
  "cell p i = p + 8 * word_of_nat i"

definition sprout_heap_child_value_payload :: "gc \<Rightarrow> addr \<Rightarrow> nat \<Rightarrow> sval res" where
  "sprout_heap_child_value_payload g payload index =
     (if payload = 0 then Inl (SproutFail ''sprout_heap_child_value: null payload'')
      else
        (case sprout_hdr_kind (sprout_hdr_of g payload) of
           HEAP_OBJ \<Rightarrow> Inr (mem g (cell payload index))
         | HEAP_CLOSURE \<Rightarrow> Inr (mem g (cell payload (index + 1)))
         | HEAP_VECTOR \<Rightarrow> Inr (mem g (cell (mem g (payload + 16)) index))
         | HEAP_MAP \<Rightarrow>
             if index = 0 then Inr (mem g (payload + 8))
             else if index = 1 then Inr (mem g (payload + 16))
             else if index = 2 then Inr (mem g (payload + 24))
             else if index = 3 then Inr (mem g payload)
             else Inl (SproutFail ''sprout_heap_child_value: index out of range'')
         | HEAP_BUILDER \<Rightarrow> Inr (mem g (cell (mem g (payload + 16)) index))
         | HEAP_TUPLE \<Rightarrow> Inr (mem g (cell payload index))
         | HEAP_REF \<Rightarrow> if index = 0 then Inr (mem g payload)
             else Inl (SproutFail ''sprout_heap_child_value: index out of range'')
         | _ \<Rightarrow> Inl (SproutFail ''sprout_heap_child_value: index out of range'')))"

section \<open>The write barrier\<close>

definition sprout_gc_remember_slow :: "addr \<Rightarrow> 64 word \<Rightarrow> gc \<Rightarrow> gc" where
  "sprout_gc_remember_slow payload h g =
     g\<lparr>mem := (mem g)(payload - 8 := h OR gc_remembered_bit), remembered := remembered g @ [payload]\<rparr>"

definition sprout_gc_barrier :: "addr \<Rightarrow> gc \<Rightarrow> gc" where
  "sprout_gc_barrier payload g =
     (let h = mem g (payload - 8) in
      if h AND (gc_color_bit OR gc_remembered_bit) = gc_color_bit then sprout_gc_remember_slow payload h g else g)"

definition sprout_gc_write_barrier :: "addr \<Rightarrow> gc \<Rightarrow> gc" where
  "sprout_gc_write_barrier payload g = sprout_gc_barrier payload g"

definition sprout_gc_on_store :: "addr \<Rightarrow> sval \<Rightarrow> gc \<Rightarrow> gc" where
  "sprout_gc_on_store target value g = sprout_gc_barrier target g"

definition sprout_gc_on_vec_store :: "addr \<Rightarrow> sval \<Rightarrow> gc \<Rightarrow> gc" where
  "sprout_gc_on_vec_store vec value g =
     (if \<not> sprout_vec_is_noscan (sprout_hdr_of g vec) then sprout_gc_barrier vec g else g)"

definition ref_read :: "addr \<Rightarrow> gc \<Rightarrow> sval res" where
  "ref_read ref g =
     (if sprout_heap_kind_at g ref \<noteq> Some HEAP_REF then Inl (SproutFail ''ref_read: not a Ref'')
      else Inr (mem g ref))"

definition ref_write :: "addr \<Rightarrow> sval \<Rightarrow> gc \<Rightarrow> gc res" where
  "ref_write ref value g =
     (if sprout_heap_kind_at g ref \<noteq> Some HEAP_REF then Inl (SproutFail ''ref_write: not a Ref'')
      else let g1 = sprout_gc_on_store ref value g in Inr (g1\<lparr>mem := (mem g1)(ref := value)\<rparr>))"

section \<open>The object graph\<close>

definition member :: "gc \<Rightarrow> addr \<Rightarrow> bool" where
  "member g p \<longleftrightarrow> sprout_heap_lookup g p \<noteq> None"

definition child_words :: "gc \<Rightarrow> addr \<Rightarrow> sval list" where
  "child_words g p =
     map (\<lambda>i. case sprout_heap_child_value_payload g p i of Inr w \<Rightarrow> w | Inl _ \<Rightarrow> 0)
       [0..<sprout_heap_child_count_payload g p]"

definition succs :: "gc \<Rightarrow> addr \<Rightarrow> addr list" where
  "succs g p = filter (member g) (child_words g p)"

definition colored :: "gc \<Rightarrow> addr set" where
  "colored g = {p. member g p \<and> hdr_color (sprout_hdr_of g p)}"

lemma lookup_header: "sprout_heap_lookup g p = Some hdr \<Longrightarrow> hdr = p - 8"
  by (auto simp: sprout_heap_lookup_def sprout_heap_lookup_region_def Let_def split: option.splits if_splits)

lemma child_value_total:
  "p \<noteq> 0 \<Longrightarrow> i < sprout_heap_child_count_payload g p \<Longrightarrow> \<exists>w. sprout_heap_child_value_payload g p i = Inr w"
  by (auto simp: sprout_heap_child_count_payload_def sprout_heap_child_value_payload_def Let_def
      split: heap_kind.splits if_splits)

text \<open>The cells read to enumerate an object's children: they must not be header cells.\<close>

definition content_cells :: "gc \<Rightarrow> addr \<Rightarrow> addr set" where
  "content_cells g p =
     (case sprout_hdr_kind (sprout_hdr_of g p) of
        HEAP_OBJ \<Rightarrow> cell p ` {..<sprout_heap_child_count_payload g p}
      | HEAP_CLOSURE \<Rightarrow> cell p ` {1..sprout_heap_child_count_payload g p}
      | HEAP_VECTOR \<Rightarrow> {p, p + 16} \<union> cell (mem g (p + 16)) ` {..<sprout_heap_child_count_payload g p}
      | HEAP_MAP \<Rightarrow> {p, p + 8, p + 16, p + 24}
      | HEAP_BUILDER \<Rightarrow> {p + 8, p + 16} \<union> cell (mem g (p + 16)) ` {..<sprout_heap_child_count_payload g p}
      | HEAP_TUPLE \<Rightarrow> cell p ` {..<sprout_heap_child_count_payload g p}
      | HEAP_REF \<Rightarrow> {p}
      | _ \<Rightarrow> {})"

definition slot_at :: "gc \<Rightarrow> addr \<Rightarrow> bool" where
  "slot_at g p \<longleftrightarrow>
     (case region_find (table g) p of
        None \<Rightarrow> False
      | Some i \<Rightarrow>
          (let r = g_regions (table g) ! i; off = unat (p - base r) in
           if is_large r then p = base r + 8
           else 8 \<le> off \<and> (off - 8) mod slot_gran = 0 \<and> slotmap_test r ((off - 8) div slot_gran)))"

lemma member_slot: "member g p \<Longrightarrow> slot_at g p"
  by (auto simp: member_def sprout_heap_lookup_def sprout_heap_lookup_region_def slot_at_def Let_def
      split: option.splits if_splits)

definition heap_wf :: "gc \<Rightarrow> bool" where
  "heap_wf g \<longleftrightarrow> \<not> member g 0 \<and> (\<forall>p q. slot_at g p \<longrightarrow> member g q \<longrightarrow> p - 8 \<notin> content_cells g q)"

text \<open>States that differ only in collector bits of the headers of objects.\<close>

definition same_heap :: "gc \<Rightarrow> gc \<Rightarrow> bool" where
  "same_heap g g' \<longleftrightarrow>
     (\<forall>p. region_find (table g') p = region_find (table g) p) \<and>
     (\<forall>i. is_large (g_regions (table g') ! i) = is_large (g_regions (table g) ! i) \<and>
        base (g_regions (table g') ! i) = base (g_regions (table g) ! i) \<and>
        slotmap (g_regions (table g') ! i) = slotmap (g_regions (table g) ! i)) \<and>
     (\<forall>a. mem g' a \<noteq> mem g a \<longrightarrow> member g (a + 8) \<and> same_identity (mem g a) (mem g' a))"

lemma same_heap_refl [simp]: "same_heap g g"
  by (simp add: same_heap_def)

lemma hdr_kind_free: "sprout_hdr_kind h = HEAP_FREE \<longleftrightarrow> h AND 0xFF = 0"
  by (auto simp: sprout_hdr_kind_def Let_def split: if_splits)

lemma same_heap_identity: "same_heap g g' \<Longrightarrow> same_identity (mem g a) (mem g' a)"
  by (cases "mem g' a = mem g a") (auto simp: same_heap_def)

lemma same_heap_lookup:
  assumes "same_heap g g'"
  shows "sprout_heap_lookup_region g' p = sprout_heap_lookup_region g p"
proof -
  have r: "region_find (table g') p = region_find (table g) p"
    and f: "is_large (g_regions (table g') ! i) = is_large (g_regions (table g) ! i)"
      "base (g_regions (table g') ! i) = base (g_regions (table g) ! i)"
      "slotmap (g_regions (table g') ! i) = slotmap (g_regions (table g) ! i)" for i
    using assms by (simp_all add: same_heap_def)
  have t: "slotmap_test (g_regions (table g') ! i) = slotmap_test (g_regions (table g) ! i)" for i
    by (simp add: slotmap_test_def f fun_eq_iff)
  have k: "mem g' a AND 0xFF = 0 \<longleftrightarrow> mem g a AND 0xFF = 0" for a
    using same_heap_identity [OF assms, of a] by (simp add: same_identity_def flip: hdr_kind_free)
  show ?thesis unfolding sprout_heap_lookup_region_def r f t Let_def k ..
qed

lemma same_heap_member: "same_heap g g' \<Longrightarrow> member g' = member g"
  by (simp add: member_def sprout_heap_lookup_def same_heap_lookup fun_eq_iff)

text \<open>The children of an object are determined by its identity and its content cells.\<close>

lemma children_cong:
  assumes id: "sprout_hdr_kind (sprout_hdr_of g' p) = sprout_hdr_kind (sprout_hdr_of g p)"
      "sprout_hdr_aux (sprout_hdr_of g' p) = sprout_hdr_aux (sprout_hdr_of g p)"
    and same: "\<And>a. a \<in> content_cells g p \<Longrightarrow> mem g' a = mem g a"
  shows "sprout_heap_child_count_payload g' p = sprout_heap_child_count_payload g p"
    and "i < sprout_heap_child_count_payload g p \<Longrightarrow>
      sprout_heap_child_value_payload g' p i = sprout_heap_child_value_payload g p i"
    and "content_cells g' p = content_cells g p"
proof -
  have ns: "sprout_vec_is_noscan h \<longleftrightarrow> bit (sprout_hdr_aux h) 49" for h
    by (simp add: hdr_flag_bits sprout_hdr_aux_def bit_simps)
  let ?k = "sprout_hdr_kind (sprout_hdr_of g p)"
  have len: "mem g' p = mem g p" if "?k = HEAP_VECTOR" using that by (intro same) (simp add: content_cells_def)
  have cnt: "mem g' (p + 8) = mem g (p + 8)" if "?k = HEAP_BUILDER" using that by (intro same) (simp add: content_cells_def)
  show c: "sprout_heap_child_count_payload g' p = sprout_heap_child_count_payload g p"
    unfolding sprout_heap_child_count_payload_def Let_def id ns by (cases ?k) (simp_all add: len cnt)
  have buf: "mem g' (p + 16) = mem g (p + 16)" if "?k = HEAP_VECTOR \<or> ?k = HEAP_BUILDER"
    using that by (intro same) (auto simp: content_cells_def)
  show "content_cells g' p = content_cells g p"
    unfolding content_cells_def id c by (cases ?k) (simp_all add: buf)
  assume i: "i < sprout_heap_child_count_payload g p"
  have dat: "mem g' (cell (mem g (p + 16)) i) = mem g (cell (mem g (p + 16)) i)" if "?k = HEAP_VECTOR \<or> ?k = HEAP_BUILDER"
    using that i by (intro same) (auto simp: content_cells_def)
  have fld: "mem g' (cell p i) = mem g (cell p i)" if "?k = HEAP_OBJ \<or> ?k = HEAP_TUPLE"
    using that i by (intro same) (auto simp: content_cells_def)
  have cap: "mem g' (cell p (i + 1)) = mem g (cell p (i + 1))" if "?k = HEAP_CLOSURE"
    using that i by (intro same) (auto simp: content_cells_def)
  have m4: "mem g' p = mem g p" "mem g' (p + 8) = mem g (p + 8)" "mem g' (p + 16) = mem g (p + 16)"
    "mem g' (p + 24) = mem g (p + 24)" if "?k = HEAP_MAP" using that by (auto simp: content_cells_def intro!: same)
  have r1: "mem g' p = mem g p" if "?k = HEAP_REF" using that by (intro same) (simp add: content_cells_def)
  show "sprout_heap_child_value_payload g' p i = sprout_heap_child_value_payload g p i"
    unfolding sprout_heap_child_value_payload_def id
    by (cases ?k) (simp_all add: buf dat fld cap [simplified] m4 r1)
qed

lemma child_words_cong:
  assumes "sprout_hdr_kind (sprout_hdr_of g' p) = sprout_hdr_kind (sprout_hdr_of g p)"
      "sprout_hdr_aux (sprout_hdr_of g' p) = sprout_hdr_aux (sprout_hdr_of g p)"
    and "\<And>a. a \<in> content_cells g p \<Longrightarrow> mem g' a = mem g a"
  shows "child_words g' p = child_words g p"
proof -
  have "sprout_heap_child_count_payload g' p = sprout_heap_child_count_payload g p"
    using assms by (rule children_cong(1))
  moreover have "sprout_heap_child_value_payload g' p i = sprout_heap_child_value_payload g p i"
    if "i < sprout_heap_child_count_payload g p" for i using assms that by (rule children_cong(2))
  ultimately show ?thesis by (simp add: child_words_def)
qed

lemma same_heap_content:
  assumes s: "same_heap g g'" and wf: "heap_wf g" and p: "member g p"
  shows "a \<in> content_cells g p \<Longrightarrow> mem g' a = mem g a"
    and "sprout_hdr_kind (sprout_hdr_of g' p) = sprout_hdr_kind (sprout_hdr_of g p)"
    and "sprout_hdr_aux (sprout_hdr_of g' p) = sprout_hdr_aux (sprout_hdr_of g p)"
proof -
  show "sprout_hdr_kind (sprout_hdr_of g' p) = sprout_hdr_kind (sprout_hdr_of g p)"
    "sprout_hdr_aux (sprout_hdr_of g' p) = sprout_hdr_aux (sprout_hdr_of g p)"
    using same_heap_identity [OF s, of "p - 8"] by (simp_all add: same_identity_def sprout_hdr_of_def)
  assume a: "a \<in> content_cells g p"
  show "mem g' a = mem g a"
  proof (rule ccontr)
    assume "mem g' a \<noteq> mem g a"
    then have "member g (a + 8)" using s by (simp add: same_heap_def)
    from member_slot [OF this] wf p a show False by (fastforce simp: heap_wf_def)
  qed
qed

lemma same_heap_succs:
  assumes "same_heap g g'" "heap_wf g" "member g p"
  shows "child_words g' p = child_words g p" "succs g' p = succs g p" "content_cells g' p = content_cells g p"
    "i < sprout_heap_child_count_payload g p \<Longrightarrow>
      sprout_heap_child_value_payload g' p i = sprout_heap_child_value_payload g p i"
proof -
  note c = same_heap_content [OF assms]
  show w: "child_words g' p = child_words g p" by (rule child_words_cong [OF c(2,3,1)])
  then show "succs g' p = succs g p" by (simp add: succs_def same_heap_member [OF assms(1)])
  show "content_cells g' p = content_cells g p" by (rule children_cong(3) [OF c(2,3,1)])
  show "i < sprout_heap_child_count_payload g p \<Longrightarrow>
      sprout_heap_child_value_payload g' p i = sprout_heap_child_value_payload g p i"
    by (rule children_cong(2) [OF c(2,3,1)])
qed

lemma same_heap_slot: "same_heap g g' \<Longrightarrow> slot_at g' p = slot_at g p"
  by (simp add: slot_at_def same_heap_def slotmap_test_def Let_def cong: option.case_cong)

lemma same_heap_wf: "same_heap g g' \<Longrightarrow> heap_wf g \<Longrightarrow> heap_wf g'"
  using same_heap_succs(3) [of g g'] by (simp add: heap_wf_def same_heap_member same_heap_slot)

lemma same_heap_trans: "same_heap g g' \<Longrightarrow> same_heap g' g'' \<Longrightarrow> same_heap g g''"
proof -
  assume s: "same_heap g g'" "same_heap g' g''"
  have "member g (a + 8) \<and> same_identity (mem g a) (mem g'' a)" if "mem g'' a \<noteq> mem g a" for a
  proof
    show "same_identity (mem g a) (mem g'' a)"
      using same_heap_identity [OF s(1), of a] same_heap_identity [OF s(2), of a] by (rule same_identity_trans)
    show "member g (a + 8)"
      using s that same_heap_member [OF s(1)] by (cases "mem g' a = mem g a") (auto simp: same_heap_def)
  qed
  with s show ?thesis by (simp add: same_heap_def)
qed

end
