(* ===== verification/Gc_Mark.thy ===== *)
theory Gc_Mark
  imports Gc_Heap
begin

unbundle bit_operations_syntax

text \<open>
  The mark phase: enqueueing grey objects, draining the explicit worklist, the remembered set of a minor
  collection, the generational policy and the write barrier. The marks of the last cycle, which a major
  collection clears before it marks, are assumed clear where that matters (\<open>colored g = {}\<close>).
\<close>

definition bump_marked_young :: "nat \<Rightarrow> region_table \<Rightarrow> region_table" where
  "bump_marked_young i t =
     t\<lparr>g_regions := (g_regions t)[i := (g_regions t ! i)\<lparr>marked_young := marked_young (g_regions t ! i) + 1\<rparr>]\<rparr>"

definition gc_mark_enqueue :: "addr \<Rightarrow> nat \<Rightarrow> gc \<Rightarrow> gc" where
  "gc_mark_enqueue payload r g =
     (if payload = 0 then g
      else let h = mem g (payload - 8) in
        if hdr_color h then g
        else g\<lparr>mem := (mem g)(payload - 8 := h OR gc_color_bit), marked_count := marked_count g + 1,
               table := bump_marked_young r (table g), mark_wl := payload # mark_wl g\<rparr>)"

definition sprout_gc_mark_ptr :: "addr \<Rightarrow> gc \<Rightarrow> gc" where
  "sprout_gc_mark_ptr ptr g =
     (case sprout_heap_lookup_region g ptr of
        (Some hdr, Some r) \<Rightarrow> gc_mark_enqueue (hdr + 8) r g
      | _ \<Rightarrow> g)"

text \<open>The drain's inner loop over the children \<open>i, i + 1, ..., n - 1\<close> of one object.\<close>

fun gc_drain_children :: "nat list \<Rightarrow> addr \<Rightarrow> gc \<Rightarrow> gc res" where
  "gc_drain_children [] payload g = Inr g"
| "gc_drain_children (i # is) payload g =
     res_bind (sprout_heap_child_value_payload g payload i)
       (\<lambda>child_val. gc_drain_children is payload (sprout_gc_mark_ptr child_val g))"

definition unmarked_cells :: "gc \<Rightarrow> addr set" where
  "unmarked_cells g = {a. \<not> hdr_color (mem g a)}"

definition drain_measure :: "gc \<Rightarrow> nat" where
  "drain_measure g = 2 * card (unmarked_cells g) + length (mark_wl g)"

lemma enqueue_measure: "drain_measure (gc_mark_enqueue p r g) \<le> drain_measure g"
proof (cases "p = 0 \<or> hdr_color (mem g (p - 8))")
  case False
  have "unmarked_cells (gc_mark_enqueue p r g) = unmarked_cells g - {p - 8}"
    using False by (auto simp: unmarked_cells_def gc_mark_enqueue_def Let_def hdr_simps(19-))
      (auto simp: set_color)
  moreover have "p - 8 \<in> unmarked_cells g" using False by (simp add: unmarked_cells_def)
  moreover have "finite (unmarked_cells g)" by simp
  ultimately have "card (unmarked_cells (gc_mark_enqueue p r g)) = card (unmarked_cells g) - 1"
    "card (unmarked_cells g) > 0" by (auto simp: card_gt_0_iff)
  with False show ?thesis by (simp add: drain_measure_def gc_mark_enqueue_def Let_def)
qed (auto simp: gc_mark_enqueue_def Let_def)

lemma mark_ptr_measure: "drain_measure (sprout_gc_mark_ptr p g) \<le> drain_measure g"
  using enqueue_measure by (simp add: sprout_gc_mark_ptr_def split: option.split prod.split)

lemma drain_children_measure:
  "gc_drain_children is payload g = Inr g' \<Longrightarrow> drain_measure g' \<le> drain_measure g"
proof (induction "is" arbitrary: g)
  case (Cons i "is")
  then obtain w where "gc_drain_children is payload (sprout_gc_mark_ptr w g) = Inr g'"
    by (auto simp: res_bind_eq_Inr)
  from Cons.IH [OF this] mark_ptr_measure show ?case by (rule order_trans)
qed simp

function (sequential) sprout_gc_drain_marks :: "gc \<Rightarrow> gc res" where
  "sprout_gc_drain_marks g =
     (case mark_wl g of
        [] \<Rightarrow> Inr g
      | payload # rest \<Rightarrow>
          (let g1 = g\<lparr>mark_wl := rest\<rparr>; child_count = sprout_heap_child_count_payload g1 payload in
           res_bind (gc_drain_children [0..<child_count] payload g1) sprout_gc_drain_marks))"
  by pat_completeness auto
termination
proof (relation "measure drain_measure", goal_cases)
  case (2 g payload rest g1 n g')
  then have "drain_measure g' \<le> drain_measure g1" by (intro drain_children_measure) auto
  also have "\<dots> < drain_measure g" using 2 by (simp add: drain_measure_def unmarked_cells_def)
  finally show ?case by simp
qed simp

declare sprout_gc_drain_marks.simps [simp del]

section \<open>Generations\<close>

definition sprout_gc_mark_remembered :: "gc \<Rightarrow> gc" where
  "sprout_gc_mark_remembered g =
     (fold (\<lambda>payload g. g\<lparr>mem := (mem g)(payload - 8 := sprout_hdr_of g payload AND NOT gc_remembered_bit),
                          mark_wl := payload # mark_wl g\<rparr>) (remembered g) g)\<lparr>remembered := []\<rparr>"

definition sprout_gc_gen_choose_minor :: "string \<Rightarrow> gen_state \<Rightarrow> bool" where
  "sprout_gc_gen_choose_minor reason g \<longleftrightarrow> reason = ''threshold'' \<and> \<not> colorless g"

definition sprout_gc_gen_record :: "bool \<Rightarrow> nat \<Rightarrow> gen_state \<Rightarrow> gen_state" where
  "sprout_gc_gen_record minor marked g =
     (let g1 = (if minor
                then g\<lparr>last_live := last_live g + marked, minors_since_major := minors_since_major g + 1,
                       n_minor := n_minor g + 1\<rparr>
                else g\<lparr>last_live := marked, baseline := marked, minors_since_major := 0, n_major := n_major g + 1\<rparr>)
      in g1\<lparr>colorless := last_live g1 > 2 * baseline g1 \<or> int (minors_since_major g1) \<ge> major_every g1\<rparr>)"

text \<open>The marking half of a collection: roots, the remembered set in a minor, then the drain.\<close>

definition gc_mark_phase :: "bool \<Rightarrow> sval list \<Rightarrow> gc \<Rightarrow> gc res" where
  "gc_mark_phase minor ws g =
     (let g1 = fold sprout_gc_mark_ptr ws (g\<lparr>marked_count := 0\<rparr>);
          g2 = (if minor then sprout_gc_mark_remembered g1 else g1)
      in sprout_gc_drain_marks g2)"

section \<open>Marking as graph search\<close>

text \<open>
  The interface between a heap and its marker: \<open>visit\<close> colours an object and pushes it if it was not
  coloured, ignores a word that is no object, and leaves the object graph as it is.
\<close>

locale tracing_heap =
  fixes wf :: "'s \<Rightarrow> bool" and is_obj :: "'s \<Rightarrow> 'a \<Rightarrow> bool" and next_objs :: "'s \<Rightarrow> 'a \<Rightarrow> 'a list"
    and marked :: "'s \<Rightarrow> 'a set" and stack :: "'s \<Rightarrow> 'a list" and visit :: "'a \<Rightarrow> 's \<Rightarrow> 's"
  assumes visit_wf: "wf s \<Longrightarrow> wf (visit p s)"
    and visit_obj: "wf s \<Longrightarrow> is_obj (visit p s) = is_obj s"
    and visit_next: "wf s \<Longrightarrow> is_obj s q \<Longrightarrow> next_objs (visit p s) q = next_objs s q"
    and visit_marked: "wf s \<Longrightarrow> marked (visit p s) = (if is_obj s p then insert p (marked s) else marked s)"
    and visit_stack: "wf s \<Longrightarrow> stack (visit p s) =
          (if is_obj s p \<and> p \<notin> marked s then p # stack s else stack s)"
begin

lemma visits:
  assumes "wf s"
  shows "wf (fold visit ws s)" "is_obj (fold visit ws s) = is_obj s"
    and "is_obj s q \<Longrightarrow> next_objs (fold visit ws s) q = next_objs s q"
    and "marked (fold visit ws s) = marked s \<union> {w \<in> set ws. is_obj s w}"
    and "set (stack (fold visit ws s)) = set (stack s) \<union> ({w \<in> set ws. is_obj s w} - marked s)"
proof -
  have "wf (fold visit ws s) \<and> is_obj (fold visit ws s) = is_obj s \<and>
    (\<forall>q. is_obj s q \<longrightarrow> next_objs (fold visit ws s) q = next_objs s q) \<and>
    marked (fold visit ws s) = marked s \<union> {w \<in> set ws. is_obj s w} \<and>
    set (stack (fold visit ws s)) = set (stack s) \<union> ({w \<in> set ws. is_obj s w} - marked s)"
    using assms
  proof (induction ws arbitrary: s)
    case (Cons w ws)
    from Cons.IH [OF visit_wf [OF Cons.prems], of w] Cons.prems show ?case
      by (auto simp: visit_obj visit_next visit_marked visit_stack split: if_splits)
  qed simp
  then show "wf (fold visit ws s)" "is_obj (fold visit ws s) = is_obj s"
    "is_obj s q \<Longrightarrow> next_objs (fold visit ws s) q = next_objs s q"
    "marked (fold visit ws s) = marked s \<union> {w \<in> set ws. is_obj s w}"
    "set (stack (fold visit ws s)) = set (stack s) \<union> ({w \<in> set ws. is_obj s w} - marked s)" by blast+
qed

text \<open>Only objects on the stack may have an unmarked successor; this survives expanding one of them.\<close>

lemma expand_closed:
  assumes wf: "wf s" and inv: "\<And>q. q \<in> marked s - insert p (set (stack s)) \<Longrightarrow> set (next_objs s q) \<subseteq> marked s"
    and objs: "\<And>q. q \<in> marked s \<Longrightarrow> is_obj s q" and p: "is_obj s p"
    and ws: "{w \<in> set ws. is_obj s w} = set (next_objs s p)"
    and q: "q \<in> marked (fold visit ws s) - set (stack (fold visit ws s))"
  shows "set (next_objs (fold visit ws s) q) \<subseteq> marked (fold visit ws s)"
proof -
  note v = visits [OF wf, where ws = ws]
  have q': "q \<in> marked s" "q \<notin> set (stack s)" using q by (auto simp: v)
  then have "next_objs (fold visit ws s) q = next_objs s q" using objs by (auto simp: v)
  moreover have "set (next_objs s q) \<subseteq> marked s \<union> {w \<in> set ws. is_obj s w}"
    using inv [of q] q' ws by (cases "q = p") auto
  ultimately show ?thesis by (simp add: v)
qed

end

section \<open>The runtime's heap is a tracing heap\<close>

lemma region_find_slow_bump:
  "region_find_slow (rs[i := (rs ! i)\<lparr>marked_young := n\<rparr>]) p lo hi = region_find_slow rs p lo hi"
proof (induction rs p lo hi rule: region_find_slow.induct)
  case (1 rs p lo hi)
  let ?m = "lo + (hi - lo) div 2"
  have "base (rs[i := (rs ! i)\<lparr>marked_young := n\<rparr>] ! ?m) = base (rs ! ?m)"
    "cap (rs[i := (rs ! i)\<lparr>marked_young := n\<rparr>] ! ?m) = cap (rs ! ?m)"
    by (rule nth_update_field, simp)+
  with 1 show ?case by (subst (1 2) region_find_slow.simps) (simp add: Let_def)
qed

lemma region_find_bump: "region_find (bump_marked_young i t) p = region_find t p"
  by (simp add: region_find_def bump_marked_young_def region_find_slow_bump)

lemma bump_fields:
  "is_large (g_regions (bump_marked_young i t) ! j) = is_large (g_regions t ! j)"
  "base (g_regions (bump_marked_young i t) ! j) = base (g_regions t ! j)"
  "slotmap (g_regions (bump_marked_young i t) ! j) = slotmap (g_regions t ! j)"
  unfolding bump_marked_young_def
  by (simp, rule nth_update_field, simp)+

lemma same_heap_mem_table:
  assumes m: "mem g' = (mem g)(a := h)" and a: "member g (a + 8)" "same_identity (mem g a) h"
    and t: "table g' = table g \<or> (\<exists>i. table g' = bump_marked_young i (table g))"
  shows "same_heap g g'"
proof -
  have "mem g' b \<noteq> mem g b \<Longrightarrow> member g (b + 8) \<and> same_identity (mem g b) (mem g' b)" for b
    using a by (cases "b = a") (simp_all add: m)
  moreover have "region_find (table g') q = region_find (table g) q"
    "is_large (g_regions (table g') ! k) = is_large (g_regions (table g) ! k)"
    "base (g_regions (table g') ! k) = base (g_regions (table g) ! k)"
    "slotmap (g_regions (table g') ! k) = slotmap (g_regions (table g) ! k)" for q k
    using t by (auto simp: region_find_bump bump_fields)
  ultimately show ?thesis by (simp add: same_heap_def)
qed

lemma enqueue_same_heap:
  assumes "member g p"
  shows "same_heap g (gc_mark_enqueue p r g)"
proof (cases "p = 0 \<or> hdr_color (mem g (p - 8))")
  case False
  show ?thesis
  proof (rule same_heap_mem_table)
    show "mem (gc_mark_enqueue p r g) = (mem g)(p - 8 := mem g (p - 8) OR gc_color_bit)"
      "table (gc_mark_enqueue p r g) = table g \<or> (\<exists>i. table (gc_mark_enqueue p r g) = bump_marked_young i (table g))"
      using False by (simp_all add: gc_mark_enqueue_def Let_def) blast
  qed (use assms in \<open>simp_all add: set_color\<close>)
next
  case True
  then have "gc_mark_enqueue p r g = g" unfolding gc_mark_enqueue_def Let_def by argo
  then show ?thesis by simp
qed

lemma lookup_region_cases:
  "sprout_gc_mark_ptr p g = (if member g p then gc_mark_enqueue p (the (snd (sprout_heap_lookup_region g p))) g else g)"
proof (cases "sprout_heap_lookup_region g p")
  case (Pair x y)
  have hdr: "hdr = p - 8 \<and> (\<exists>r. y = Some r)" if "x = Some hdr" for hdr
    using Pair that by (auto simp: sprout_heap_lookup_region_def Let_def split: option.splits if_splits) metis+
  show ?thesis
  proof (cases x)
    case None
    then show ?thesis by (simp add: Pair sprout_gc_mark_ptr_def member_def sprout_heap_lookup_def)
  next
    case (Some hdr)
    with hdr obtain r where "hdr = p - 8" "y = Some r" by blast
    with Some show ?thesis by (simp add: Pair sprout_gc_mark_ptr_def member_def sprout_heap_lookup_def)
  qed
qed

lemma mark_ptr_same_heap: "same_heap g (sprout_gc_mark_ptr p g)"
  by (simp add: lookup_region_cases enqueue_same_heap)

lemma mark_ptr_colored:
  assumes "heap_wf g"
  shows "colored (sprout_gc_mark_ptr p g) = (if member g p then insert p (colored g) else colored g)"
    and "mark_wl (sprout_gc_mark_ptr p g) = (if member g p \<and> p \<notin> colored g then p # mark_wl g else mark_wl g)"
    and "marked_count (sprout_gc_mark_ptr p g) =
           (if member g p \<and> p \<notin> colored g then marked_count g + 1 else marked_count g)"
    and "remembered (sprout_gc_mark_ptr p g) = remembered g"
proof -
  have p0: "p \<noteq> 0" if "member g p" using assms that by (auto simp: heap_wf_def)
  note m = same_heap_member [OF mark_ptr_same_heap, of p g]
  show "mark_wl (sprout_gc_mark_ptr p g) = (if member g p \<and> p \<notin> colored g then p # mark_wl g else mark_wl g)"
    "marked_count (sprout_gc_mark_ptr p g) = (if member g p \<and> p \<notin> colored g then marked_count g + 1 else marked_count g)"
    "remembered (sprout_gc_mark_ptr p g) = remembered g"
    using p0 by (auto simp: lookup_region_cases gc_mark_enqueue_def Let_def colored_def sprout_hdr_of_def)
  show "colored (sprout_gc_mark_ptr p g) = (if member g p then insert p (colored g) else colored g)"
  proof (cases "member g p")
    case True
    then show ?thesis using p0
      by (auto simp: colored_def m) (auto simp: lookup_region_cases gc_mark_enqueue_def sprout_hdr_of_def Let_def set_color split: if_splits)
  qed (simp add: lookup_region_cases)
qed

interpretation rt_heap: tracing_heap heap_wf member succs colored mark_wl sprout_gc_mark_ptr
proof
  fix g p q
  assume wf: "heap_wf g"
  show "heap_wf (sprout_gc_mark_ptr p g)" by (rule same_heap_wf [OF mark_ptr_same_heap wf])
  show "member (sprout_gc_mark_ptr p g) = member g" by (rule same_heap_member [OF mark_ptr_same_heap])
  show "succs (sprout_gc_mark_ptr p g) q = succs g q" if "member g q"
    by (rule same_heap_succs(2) [OF mark_ptr_same_heap wf that])
qed (simp_all add: mark_ptr_colored)

section \<open>The drain\<close>

lemma drain_children_fold:
  assumes "heap_wf g0" "member g0 p" "same_heap g0 g" "\<forall>i \<in> set is. i < sprout_heap_child_count_payload g0 p"
  shows "gc_drain_children is p g =
     Inr (fold sprout_gc_mark_ptr (map (\<lambda>i. case sprout_heap_child_value_payload g0 p i of Inr w \<Rightarrow> w | Inl _ \<Rightarrow> 0) is) g)"
  using assms(3,4)
proof (induction "is" arbitrary: g)
  case (Cons i "is")
  have p0: "p \<noteq> 0" using assms(1,2) by (auto simp: heap_wf_def)
  from Cons.prems obtain w where w: "sprout_heap_child_value_payload g0 p i = Inr w"
    using child_value_total [OF p0, of i g0] by auto
  moreover have "sprout_heap_child_value_payload g p i = sprout_heap_child_value_payload g0 p i"
    using Cons.prems by (intro same_heap_succs(4) [OF _ assms(1,2)]) simp_all
  moreover have "same_heap g0 (sprout_gc_mark_ptr w g)" using same_heap_trans [OF Cons.prems(1) mark_ptr_same_heap] .
  ultimately show ?case using Cons by simp
qed simp

lemma wl_fields [simp]:
  "member (g\<lparr>mark_wl := w\<rparr>) = member g" "succs (g\<lparr>mark_wl := w\<rparr>) = succs g" "colored (g\<lparr>mark_wl := w\<rparr>) = colored g"
  "child_words (g\<lparr>mark_wl := w\<rparr>) = child_words g" "heap_wf (g\<lparr>mark_wl := w\<rparr>) = heap_wf g"
  "same_heap g0 (g\<lparr>mark_wl := w\<rparr>) = same_heap g0 g"
  "sprout_heap_child_count_payload (g\<lparr>mark_wl := w\<rparr>) = sprout_heap_child_count_payload g"
  "sprout_heap_child_value_payload (g\<lparr>mark_wl := w\<rparr>) = sprout_heap_child_value_payload g"
proof -
  have l: "sprout_heap_lookup_region (g\<lparr>mark_wl := w\<rparr>) = sprout_heap_lookup_region g"
    by (rule ext, rule same_heap_lookup) (simp add: same_heap_def)
  have mm: "mem (g\<lparr>mark_wl := w\<rparr>) = mem g" by simp
  from l show m: "member (g\<lparr>mark_wl := w\<rparr>) = member g" by (simp add: member_def sprout_heap_lookup_def fun_eq_iff)
  show c: "sprout_heap_child_count_payload (g\<lparr>mark_wl := w\<rparr>) = sprout_heap_child_count_payload g"
    and v: "sprout_heap_child_value_payload (g\<lparr>mark_wl := w\<rparr>) = sprout_heap_child_value_payload g"
    by (intro ext, simp only: sprout_heap_child_count_payload_def sprout_heap_child_value_payload_def sprout_hdr_of_def mm)+
  show w: "child_words (g\<lparr>mark_wl := w\<rparr>) = child_words g" by (simp add: child_words_def c v fun_eq_iff)
  show "succs (g\<lparr>mark_wl := w\<rparr>) = succs g" by (simp add: succs_def w m fun_eq_iff)
  show "colored (g\<lparr>mark_wl := w\<rparr>) = colored g" by (simp add: colored_def m sprout_hdr_of_def)
  have "content_cells (g\<lparr>mark_wl := w\<rparr>) = content_cells g" by (intro ext) (simp only: content_cells_def c sprout_hdr_of_def mm)
  moreover have "slot_at (g\<lparr>mark_wl := w\<rparr>) = slot_at g"
    by (rule ext, rule same_heap_slot) (simp add: same_heap_def)
  ultimately show "heap_wf (g\<lparr>mark_wl := w\<rparr>) = heap_wf g" by (simp add: heap_wf_def m)
  show "same_heap g0 (g\<lparr>mark_wl := w\<rparr>) = same_heap g0 g" by (simp add: same_heap_def)
qed

definition grey_inv :: "gc \<Rightarrow> bool" where
  "grey_inv g \<longleftrightarrow> heap_wf g \<and> (\<forall>p \<in> set (mark_wl g). member g p) \<and>
     (\<forall>p \<in> colored g - set (mark_wl g). set (succs g p) \<subseteq> colored g)"

lemma succs_members: "{w \<in> set (child_words g p). member g w} = set (succs g p)"
  by (auto simp: succs_def)

lemma finite_colored [simp]: "finite (colored g)"
  by simp

lemma mark_ptrs_count:
  assumes "heap_wf g"
  shows "marked_count (fold sprout_gc_mark_ptr ws g) + card (colored g) =
      marked_count g + card (colored (fold sprout_gc_mark_ptr ws g)) \<and>
    remembered (fold sprout_gc_mark_ptr ws g) = remembered g"
  using assms
proof (induction ws arbitrary: g)
  case (Cons w ws)
  let ?g = "sprout_gc_mark_ptr w g"
  have "marked_count ?g + card (colored g) = marked_count g + card (colored ?g)"
    using Cons.prems by (auto simp: mark_ptr_colored card_insert_if)
  with Cons.IH [OF same_heap_wf [OF mark_ptr_same_heap [of g w] Cons.prems]] mark_ptr_colored(4) [OF Cons.prems, of w]
  show ?case by simp
qed simp

lemma drain_step:
  assumes inv: "grey_inv g" and wl: "mark_wl g = p # rest"
    and g': "g' = fold sprout_gc_mark_ptr (child_words g p) (g\<lparr>mark_wl := rest\<rparr>)"
  shows "gc_drain_children [0..<sprout_heap_child_count_payload g p] p (g\<lparr>mark_wl := rest\<rparr>) = Inr g'"
    and "grey_inv g'" "same_heap g g'" "colored g' = colored g \<union> set (succs g p)"
    and "set (mark_wl g') = set rest \<union> (set (succs g p) - colored g)"
    and "marked_count g' + card (colored g) = marked_count g + card (colored g')" "remembered g' = remembered g"
proof -
  let ?g1 = "g\<lparr>mark_wl := rest\<rparr>"
  from inv wl have wf: "heap_wf g" and p: "member g p" and rest: "\<forall>q \<in> set rest. member g q"
    by (simp_all add: grey_inv_def)
  show "gc_drain_children [0..<sprout_heap_child_count_payload g p] p ?g1 = Inr g'"
    unfolding g' child_words_def by (rule drain_children_fold [OF wf p]) simp_all
  have wf1: "heap_wf ?g1" using wf by simp
  note v = rt_heap.visits [OF wf1, where ws = "child_words g p", folded g']
  show c: "colored g' = colored g \<union> set (succs g p)" using v(4) by (simp add: succs_members)
  show s: "set (mark_wl g') = set rest \<union> (set (succs g p) - colored g)" using v(5) by (simp add: succs_members)
  show "grey_inv g'"
    unfolding grey_inv_def
  proof (intro conjI ballI)
    show "heap_wf g'" by (rule v(1))
    fix q assume "q \<in> set (mark_wl g')"
    then show "member g' q" unfolding s v(2) using rest by (auto simp: succs_def)
  next
    fix q assume q: "q \<in> colored g' - set (mark_wl g')"
    show "set (succs g' q) \<subseteq> colored g'"
      unfolding g'
    proof (rule rt_heap.expand_closed [OF wf1 _ _ _ _ q [unfolded g'], of p])
      fix q assume "q \<in> colored ?g1 - insert p (set (mark_wl ?g1))"
      with inv wl show "set (succs ?g1 q) \<subseteq> colored ?g1" by (simp add: grey_inv_def)
    qed (use p in \<open>auto simp: colored_def succs_members\<close>)
  qed
  have "same_heap h (fold sprout_gc_mark_ptr ws h)" for ws h
    by (induction ws arbitrary: h) (auto intro: same_heap_trans mark_ptr_same_heap)
  from this [of ?g1 "child_words g p"] show "same_heap g g'" unfolding g' by (rule same_heap_trans [rotated]) simp
  from mark_ptrs_count [OF wf1, of "child_words g p"]
  show "marked_count g' + card (colored g) = marked_count g + card (colored g')" "remembered g' = remembered g"
    by (simp_all add: g')
qed

lemma drain_correct:
  "grey_inv g \<Longrightarrow> \<exists>g'. sprout_gc_drain_marks g = Inr g' \<and> same_heap g g' \<and> mark_wl g' = [] \<and>
     colored g \<subseteq> colored g' \<and> (\<forall>p \<in> colored g'. set (succs g' p) \<subseteq> colored g') \<and>
     (\<forall>U. (\<forall>p \<in> set (mark_wl g). set (succs g p) \<subseteq> U) \<longrightarrow> (\<forall>p \<in> U. set (succs g p) \<subseteq> U) \<longrightarrow>
        colored g' \<subseteq> colored g \<union> U) \<and>
     marked_count g' + card (colored g) = marked_count g + card (colored g') \<and> remembered g' = remembered g"
proof (induction g rule: sprout_gc_drain_marks.induct)
  case (1 g)
  show ?case
  proof (cases "mark_wl g")
    case Nil
    with 1(2) show ?thesis by (auto simp: sprout_gc_drain_marks.simps [of g] grey_inv_def)
  next
    case (Cons p rest)
    define g1 where "g1 = fold sprout_gc_mark_ptr (child_words g p) (g\<lparr>mark_wl := rest\<rparr>)"
    note st = drain_step [OF 1(2) Cons g1_def]
    from 1(1) [OF Cons refl refl _ st(2)] st(1) obtain g' where g': "sprout_gc_drain_marks g1 = Inr g'"
      "same_heap g1 g'" "mark_wl g' = []" "colored g1 \<subseteq> colored g'" "\<forall>p \<in> colored g'. set (succs g' p) \<subseteq> colored g'"
      "\<forall>U. (\<forall>p \<in> set (mark_wl g1). set (succs g1 p) \<subseteq> U) \<longrightarrow> (\<forall>p \<in> U. set (succs g1 p) \<subseteq> U) \<longrightarrow> colored g' \<subseteq> colored g1 \<union> U"
      "marked_count g' + card (colored g1) = marked_count g1 + card (colored g')" "remembered g' = remembered g1"
      by auto
    have run: "sprout_gc_drain_marks g = Inr g'"
      using st(1) g'(1) by (simp add: sprout_gc_drain_marks.simps [of g] Cons Let_def)
    have wf: "heap_wf g" and mr: "\<forall>q \<in> set (mark_wl g). member g q" using 1(2) by (simp_all add: grey_inv_def)
    have sx: "succs g1 q = succs g q" if "member g q" for q by (rule same_heap_succs(2) [OF st(3) wf that])
    have "colored g' \<subseteq> colored g \<union> U"
      if U: "\<forall>p \<in> set (mark_wl g). set (succs g p) \<subseteq> U" "\<forall>p \<in> U. set (succs g p) \<subseteq> U" for U
    proof -
      let ?V = "{q \<in> U. member g q}"
      have a: "set (succs g p) \<subseteq> ?V" using U(1) Cons by (auto simp: succs_def)
      have b: "\<forall>q \<in> ?V. set (succs g1 q) \<subseteq> ?V" using U(2) sx by (auto simp: succs_def)
      have "\<forall>q \<in> set (mark_wl g1). set (succs g1 q) \<subseteq> ?V"
      proof
        fix q assume "q \<in> set (mark_wl g1)"
        then consider "q \<in> set rest" | "q \<in> set (succs g p)" unfolding st(5) by blast
        then show "set (succs g1 q) \<subseteq> ?V"
        proof cases
          case 1
          with U(1) Cons mr have "set (succs g q) \<subseteq> U" "member g q" by auto
          then show ?thesis using sx [of q] by (auto simp: succs_def)
        next
          case 2
          with a b show ?thesis by blast
        qed
      qed
      with g'(6) b have "colored g' \<subseteq> colored g1 \<union> ?V" by blast
      with a st(4) show ?thesis by auto
    qed
    moreover have "marked_count g' + card (colored g) = marked_count g + card (colored g')"
      using g'(7) st(6) by linarith
    ultimately show ?thesis
      using run same_heap_trans [OF st(3) g'(2)] g'(3,4,5,8) st(4,7) by auto
  qed
qed

lemma drain_obtain:
  assumes "grey_inv g"
  obtains g' where "sprout_gc_drain_marks g = Inr g'" "same_heap g g'" "mark_wl g' = []" "colored g \<subseteq> colored g'"
    "\<forall>p \<in> colored g'. set (succs g' p) \<subseteq> colored g'"
    "\<forall>U. (\<forall>p \<in> set (mark_wl g). set (succs g p) \<subseteq> U) \<longrightarrow> (\<forall>p \<in> U. set (succs g p) \<subseteq> U) \<longrightarrow>
        colored g' \<subseteq> colored g \<union> U"
    "marked_count g' + card (colored g) = marked_count g + card (colored g')" "remembered g' = remembered g"
  by (rule exE [OF drain_correct [OF assms]]) (elim conjE, rule that, assumption+)

section \<open>Reachability and the theorems of the mark phase\<close>

inductive_set reach :: "gc \<Rightarrow> addr set \<Rightarrow> addr set" for g :: gc and R :: "addr set" where
  root: "r \<in> R \<Longrightarrow> member g r \<Longrightarrow> r \<in> reach g R"
| step: "p \<in> reach g R \<Longrightarrow> q \<in> set (succs g p) \<Longrightarrow> q \<in> reach g R"

lemma reach_member: "p \<in> reach g R \<Longrightarrow> member g p"
  by (induction rule: reach.induct) (auto simp: succs_def)

lemma reach_subset_closed:
  "(\<And>r. r \<in> R \<Longrightarrow> member g r \<Longrightarrow> r \<in> C) \<Longrightarrow> (\<And>p. p \<in> C \<Longrightarrow> set (succs g p) \<subseteq> C) \<Longrightarrow> reach g R \<subseteq> C"
proof
  fix p assume "p \<in> reach g R" and *: "\<And>r. r \<in> R \<Longrightarrow> member g r \<Longrightarrow> r \<in> C" "\<And>p. p \<in> C \<Longrightarrow> set (succs g p) \<subseteq> C"
  then show "p \<in> C" by (induction rule: reach.induct) auto
qed

text \<open>The invariant of minor collections: the remembered set lists, each once, exactly the objects whose
  REMEMBERED bit is set, they are old, and only they may point from old to young.\<close>

definition gen_inv :: "gc \<Rightarrow> bool" where
  "gen_inv g \<longleftrightarrow> heap_wf g \<and> mark_wl g = [] \<and> distinct (remembered g) \<and> set (remembered g) \<subseteq> colored g \<and>
     (\<forall>p. member g p \<longrightarrow> (p \<in> set (remembered g) \<longleftrightarrow> hdr_remembered (sprout_hdr_of g p))) \<and>
     (\<forall>p \<in> colored g - set (remembered g). set (succs g p) \<subseteq> colored g)"

lemma mark_count0 [simp]:
  "member (g\<lparr>marked_count := n\<rparr>) = member g" "succs (g\<lparr>marked_count := n\<rparr>) = succs g"
  "colored (g\<lparr>marked_count := n\<rparr>) = colored g" "heap_wf (g\<lparr>marked_count := n\<rparr>) = heap_wf g"
proof -
  have s: "same_heap g (g\<lparr>marked_count := n\<rparr>)" "same_heap (g\<lparr>marked_count := n\<rparr>) g" by (simp_all add: same_heap_def)
  then show m: "member (g\<lparr>marked_count := n\<rparr>) = member g" by (intro same_heap_member)
  show "colored (g\<lparr>marked_count := n\<rparr>) = colored g" by (simp add: colored_def m sprout_hdr_of_def)
  show "heap_wf (g\<lparr>marked_count := n\<rparr>) = heap_wf g" using same_heap_wf [OF s(1)] same_heap_wf [OF s(2)] by blast
  have mm: "mem (g\<lparr>marked_count := n\<rparr>) = mem g" by simp
  have "sprout_heap_child_count_payload (g\<lparr>marked_count := n\<rparr>) = sprout_heap_child_count_payload g"
    "sprout_heap_child_value_payload (g\<lparr>marked_count := n\<rparr>) = sprout_heap_child_value_payload g"
    by (intro ext, simp only: sprout_heap_child_count_payload_def sprout_heap_child_value_payload_def sprout_hdr_of_def mm)+
  then show "succs (g\<lparr>marked_count := n\<rparr>) = succs g" by (intro ext) (simp only: succs_def child_words_def m)
qed

lemma roots_marked:
  assumes wf: "heap_wf g" and wl: "mark_wl g = []" and g1: "g1 = fold sprout_gc_mark_ptr ws (g\<lparr>marked_count := 0\<rparr>)"
  shows "heap_wf g1" "same_heap g g1" "colored g1 = colored g \<union> {w \<in> set ws. member g w}"
    and "set (mark_wl g1) = {w \<in> set ws. member g w} - colored g"
    and "marked_count g1 + card (colored g) = card (colored g1)" "remembered g1 = remembered g"
proof -
  have wf0: "heap_wf (g\<lparr>marked_count := 0\<rparr>)" using wf by simp
  note v = rt_heap.visits [OF wf0, where ws = ws, folded g1]
  show "heap_wf g1" "colored g1 = colored g \<union> {w \<in> set ws. member g w}"
    "set (mark_wl g1) = {w \<in> set ws. member g w} - colored g" using v(1,4,5) wl by simp_all
  have "same_heap h (fold sprout_gc_mark_ptr ws h)" for ws h
    by (induction ws arbitrary: h) (auto intro: same_heap_trans mark_ptr_same_heap)
  from this [of "g\<lparr>marked_count := 0\<rparr>" ws] show "same_heap g g1"
    unfolding g1 by (rule same_heap_trans [rotated]) (simp add: same_heap_def)
  from mark_ptrs_count [OF wf0, of ws] show "marked_count g1 + card (colored g) = card (colored g1)" "remembered g1 = remembered g"
    by (simp_all add: g1)
qed

text \<open>Draining a worklist of members of \<open>R\<close>: the new colours are reachable from \<open>R\<close>, and whatever is reachable from
  coloured words \<open>W\<close> is coloured.\<close>

lemma drain_reach:
  assumes wf: "heap_wf g" and sh: "same_heap g h" and grey: "grey_inv h" and wl: "set (mark_wl h) \<subseteq> {w \<in> R. member g w}"
    and W: "{w \<in> W. member g w} \<subseteq> colored h"
  obtains g' where "sprout_gc_drain_marks h = Inr g'" "same_heap g g'" "reach g W \<subseteq> colored g'" "colored h \<subseteq> colored g'"
    "colored g' \<subseteq> colored h \<union> reach g R" "marked_count g' + card (colored h) = marked_count h + card (colored g')"
    "remembered g' = remembered h"
proof -
  from grey obtain g' where g': "sprout_gc_drain_marks h = Inr g'" "same_heap h g'" "mark_wl g' = []" "colored h \<subseteq> colored g'"
    "\<forall>p \<in> colored g'. set (succs g' p) \<subseteq> colored g'"
    "\<forall>U. (\<forall>p \<in> set (mark_wl h). set (succs h p) \<subseteq> U) \<longrightarrow> (\<forall>p \<in> U. set (succs h p) \<subseteq> U) \<longrightarrow>
        colored g' \<subseteq> colored h \<union> U"
    "marked_count g' + card (colored h) = marked_count h + card (colored g')" "remembered g' = remembered h"
    by (rule drain_obtain)
  note sh' = same_heap_trans [OF sh g'(2)]
  have "reach g W \<subseteq> colored g'"
  proof (rule reach_subset_closed)
    fix p assume p: "p \<in> colored g'"
    then have "member g p" using same_heap_member [OF sh'] by (simp add: colored_def)
    then have "succs g' p = succs g p" by (rule same_heap_succs(2) [OF sh' wf])
    then show "set (succs g p) \<subseteq> colored g'" using g'(5) p by (metis (no_types))
  qed (use g'(4) W in auto)
  moreover have nx: "set (succs h p) \<subseteq> reach g R" if "p \<in> reach g R" for p
    using same_heap_succs(2) [OF sh wf reach_member [OF that]] that by (auto intro: reach.step)
  have "colored g' \<subseteq> colored h \<union> reach g R"
  proof (rule g'(6) [rule_format]; intro subsetI)
    show "q \<in> reach g R" if "p \<in> set (mark_wl h)" "q \<in> set (succs h p)" for p q
      using that wl nx [OF reach.root, of p] by auto
    show "q \<in> reach g R" if "p \<in> reach g R" "q \<in> set (succs h p)" for p q using nx that by blast
  qed
  ultimately show thesis using that g'(1,4,7,8) sh' by blast
qed

lemma major_mark:
  assumes "heap_wf g" "mark_wl g = []" "colored g = {}"
  shows "\<exists>g'. gc_mark_phase False ws g = Inr g' \<and> colored g' = reach g (set ws) \<and>
              marked_count g' = card (reach g (set ws)) \<and> same_heap g g'"
proof -
  define g1 where "g1 = fold sprout_gc_mark_ptr ws (g\<lparr>marked_count := 0\<rparr>)"
  note r = roots_marked [OF assms(1,2) g1_def]
  have grey: "grey_inv g1" using r assms(3) same_heap_member [OF r(2)] by (auto simp: grey_inv_def)
  have W: "set (mark_wl g1) \<subseteq> {w \<in> set ws. member g w}" "{w \<in> set ws. member g w} \<subseteq> colored g1" using r(3,4) by auto
  obtain g' where g': "sprout_gc_drain_marks g1 = Inr g'" "same_heap g g'" "reach g (set ws) \<subseteq> colored g'"
    "colored g' \<subseteq> colored g1 \<union> reach g (set ws)" "marked_count g' + card (colored g1) = marked_count g1 + card (colored g')"
    by (rule drain_reach [OF assms(1) r(2) grey W]) blast
  have "colored g1 \<subseteq> reach g (set ws)" using r(3) assms(3) by (auto intro: reach.root)
  then have c: "colored g' = reach g (set ws)" using g'(3,4) by blast
  then have "marked_count g' = card (reach g (set ws))" using r(5) g'(5) assms(3) by simp
  then show ?thesis using c g'(1,2) unfolding gc_mark_phase_def Let_def g1_def by auto
qed

text \<open>C8. A major collection's mark phase, started on a heap with no mark set, always returns and marks
  exactly the objects reachable from the root words through the fields of objects, closure captures, tuple and
  vector elements, map nodes, builders and references, however deep or cyclic the graph; the count of
  marked objects is their number.\<close>

theorem major_mark_exact:
  assumes "heap_wf g" "mark_wl g = []" "colored g = {}"
  shows "\<exists>g'. gc_mark_phase False ws g = Inr g' \<and> colored g' = reach g (set ws) \<and>
              marked_count g' = card (reach g (set ws)) \<and> same_heap g g'"
  using assms by (rule major_mark)

lemma clear_remembered_step:
  assumes "member g p" and g': "g' = g\<lparr>mem := (mem g)(p - 8 := sprout_hdr_of g p AND NOT gc_remembered_bit), mark_wl := w\<rparr>"
  shows "same_heap g g'" and "colored g' = colored g"
proof -
  show s: "same_heap g g'"
    by (rule same_heap_mem_table [where a = "p - 8" and h = "sprout_hdr_of g p AND NOT gc_remembered_bit"])
      (use assms in \<open>simp_all add: clear_remembered sprout_hdr_of_def\<close>)
  show "colored g' = colored g"
    unfolding colored_def same_heap_member [OF s] by (auto simp: g' sprout_hdr_of_def clear_remembered)
qed

lemma mark_remembered_fold:
  fixes g :: gc
  defines "f \<equiv> \<lambda>payload g. g\<lparr>mem := (mem g)(payload - 8 := sprout_hdr_of g payload AND NOT gc_remembered_bit),
                          mark_wl := payload # mark_wl g\<rparr>"
  assumes "\<forall>p \<in> set ps. member g p"
  shows "same_heap g (fold f ps g) \<and> colored (fold f ps g) = colored g \<and>
         set (mark_wl (fold f ps g)) = set ps \<union> set (mark_wl g) \<and> marked_count (fold f ps g) = marked_count g \<and>
         (\<forall>q. member g q \<longrightarrow> (hdr_remembered (sprout_hdr_of (fold f ps g) q) \<longleftrightarrow>
            hdr_remembered (sprout_hdr_of g q) \<and> q \<notin> set ps))"
  using assms(2)
proof (induction ps arbitrary: g)
  case (Cons p ps)
  let ?g = "f p g"
  have s: "same_heap g ?g" and c: "colored ?g = colored g"
    using clear_remembered_step [of g p ?g] Cons.prems by (simp_all add: f_def)
  have m: "member ?g = member g" by (rule same_heap_member [OF s])
  have rem: "hdr_remembered (sprout_hdr_of ?g q) \<longleftrightarrow> hdr_remembered (sprout_hdr_of g q) \<and> q \<noteq> p" for q
    by (auto simp: f_def sprout_hdr_of_def clear_remembered)
  from Cons.IH [of ?g] Cons.prems m show ?case
    using same_heap_trans [OF s] c rem by (auto simp: f_def)
qed simp

lemma mark_remembered_props:
  assumes "heap_wf g" "set (remembered g) \<subseteq> colored g" "g2 = sprout_gc_mark_remembered g"
  shows "same_heap g g2" "colored g2 = colored g" "set (mark_wl g2) = set (remembered g) \<union> set (mark_wl g)"
    "marked_count g2 = marked_count g" "remembered g2 = []"
    "member g q \<Longrightarrow> hdr_remembered (sprout_hdr_of g2 q) \<longleftrightarrow> hdr_remembered (sprout_hdr_of g q) \<and> q \<notin> set (remembered g)"
proof -
  have "\<forall>p \<in> set (remembered g). member g p" using assms(2) by (auto simp: colored_def)
  note f = mark_remembered_fold [OF this, folded sprout_gc_mark_remembered_def]
  have r: "same_heap h (h\<lparr>remembered := []\<rparr>)" for h by (simp add: same_heap_def)
  have c: "colored (h\<lparr>remembered := []\<rparr>) = colored h" for h
    unfolding colored_def same_heap_member [OF r] by (simp add: sprout_hdr_of_def)
  show "same_heap g g2" unfolding assms(3) sprout_gc_mark_remembered_def using f r by (blast intro: same_heap_trans)
  show "colored g2 = colored g" "set (mark_wl g2) = set (remembered g) \<union> set (mark_wl g)"
    "marked_count g2 = marked_count g" "remembered g2 = []"
    "member g q \<Longrightarrow> hdr_remembered (sprout_hdr_of g2 q) \<longleftrightarrow> hdr_remembered (sprout_hdr_of g q) \<and> q \<notin> set (remembered g)"
    unfolding assms(3) sprout_gc_mark_remembered_def c using f by (simp_all add: sprout_hdr_of_def)
qed

text \<open>The state a minor collection starts to drain: the roots coloured and the remembered objects on the worklist.\<close>

lemma minor_roots:
  assumes inv: "gen_inv g" and g1: "g1 = fold sprout_gc_mark_ptr ws (g\<lparr>marked_count := 0\<rparr>)" and g2: "g2 = sprout_gc_mark_remembered g1"
  shows "same_heap g g2" "grey_inv g2" "colored g2 = colored g \<union> {w \<in> set ws. member g w}"
    "set (mark_wl g2) \<subseteq> {w \<in> set ws \<union> set (remembered g). member g w}" "remembered g2 = []"
    "marked_count g2 + card (colored g) = card (colored g2)"
proof -
  from inv have wf: "heap_wf g" and wl: "mark_wl g = []" and rc: "set (remembered g) \<subseteq> colored g"
    and cl: "\<forall>p \<in> colored g - set (remembered g). set (succs g p) \<subseteq> colored g"
    by (simp_all add: gen_inv_def)
  note r = roots_marked [OF wf wl g1]
  have rc1: "set (remembered g1) \<subseteq> colored g1" using r(3,6) rc by auto
  note m = mark_remembered_props [OF r(1) rc1 g2]
  show sh2: "same_heap g g2" by (rule same_heap_trans [OF r(2) m(1)])
  show c2: "colored g2 = colored g \<union> {w \<in> set ws. member g w}" using m(2) r(3) by simp
  have w2: "set (mark_wl g2) = set (remembered g) \<union> ({w \<in> set ws. member g w} - colored g)" using m(3) r(4,6) by simp
  have cm: "p \<in> colored g \<Longrightarrow> member g p" for p by (simp add: colored_def)
  show wl2: "set (mark_wl g2) \<subseteq> {w \<in> set ws \<union> set (remembered g). member g w}" unfolding w2 using rc cm by auto
  show "remembered g2 = []" by (rule m(5))
  show "marked_count g2 + card (colored g) = card (colored g2)" using m(2,4) r(5) by simp
  show "grey_inv g2"
    unfolding grey_inv_def
  proof (intro conjI ballI)
    fix p assume "p \<in> colored g2 - set (mark_wl g2)"
    then have p: "p \<in> colored g - set (remembered g)" unfolding c2 w2 by blast
    then show "set (succs g2 p) \<subseteq> colored g2" using cl same_heap_succs(2) [OF sh2 wf, of p] cm [of p] unfolding c2 by auto
  next
    fix p assume "p \<in> set (mark_wl g2)"
    then show "member g2 p" using wl2 same_heap_member [OF sh2] by auto
  qed (rule same_heap_wf [OF sh2 wf])
qed

text \<open>Marking sets colour bits only: no word of the heap gains or loses the REMEMBERED bit.\<close>

lemma mark_ptr_keeps_remembered: "hdr_remembered (mem (sprout_gc_mark_ptr p g) a) = hdr_remembered (mem g a)"
  by (auto simp: sprout_gc_mark_ptr_def gc_mark_enqueue_def Let_def set_color split: option.split prod.split)

lemma drain_children_keeps_remembered:
  "gc_drain_children is p g = Inr g' \<Longrightarrow> hdr_remembered (mem g' a) = hdr_remembered (mem g a)"
proof (induction "is" arbitrary: g)
  case (Cons i "is")
  then obtain w where "gc_drain_children is p (sprout_gc_mark_ptr w g) = Inr g'" by (auto simp: res_bind_eq_Inr)
  from Cons.IH [OF this] show ?case by (simp add: mark_ptr_keeps_remembered)
qed simp

lemma drain_keeps_remembered:
  "sprout_gc_drain_marks g = Inr g' \<Longrightarrow> hdr_remembered (mem g' a) = hdr_remembered (mem g a)"
proof (induction g rule: sprout_gc_drain_marks.induct)
  case (1 g)
  show ?case
  proof (cases "mark_wl g")
    case Nil
    then show ?thesis using 1(2) by (simp add: sprout_gc_drain_marks.simps [of g])
  next
    case (Cons p rest)
    let ?g1 = "g\<lparr>mark_wl := rest\<rparr>"
    obtain g1 where g1: "gc_drain_children [0..<sprout_heap_child_count_payload ?g1 p] p ?g1 = Inr g1"
      and r: "sprout_gc_drain_marks g1 = Inr g'"
      using 1(2) unfolding sprout_gc_drain_marks.simps [of g] Cons list.case Let_def res_bind_eq_Inr by blast
    show ?thesis
      using 1(1) [OF Cons refl refl g1 r] drain_children_keeps_remembered [OF g1, of a] by simp
  qed
qed

lemma fold_keeps_remembered: "hdr_remembered (mem (fold sprout_gc_mark_ptr ws g) a) = hdr_remembered (mem g a)"
  by (induction ws arbitrary: g) (simp_all add: mark_ptr_keeps_remembered)

text \<open>What a minor collection has to find: the young objects a root word names, those a remembered object points to, and
  those a young object found so far points to. No path leads through an old object that is not remembered.\<close>

inductive_set young_reach :: "gc \<Rightarrow> addr set \<Rightarrow> addr set" for g :: gc and R :: "addr set" where
  root: "r \<in> R \<Longrightarrow> member g r \<Longrightarrow> r \<notin> colored g \<Longrightarrow> r \<in> young_reach g R"
| remembered: "p \<in> set (remembered g) \<Longrightarrow> q \<in> set (succs g p) \<Longrightarrow> q \<notin> colored g \<Longrightarrow> q \<in> young_reach g R"
| step: "p \<in> young_reach g R \<Longrightarrow> q \<in> set (succs g p) \<Longrightarrow> q \<notin> colored g \<Longrightarrow> q \<in> young_reach g R"

lemma young_reach_young: "young_reach g R \<inter> colored g = {}"
  by (auto elim: young_reach.cases)

lemma young_closed:
  assumes "gen_inv g" "p \<in> colored g \<union> young_reach g R"
  shows "set (succs g p) \<subseteq> colored g \<union> young_reach g R"
proof
  fix q assume q: "q \<in> set (succs g p)"
  show "q \<in> colored g \<union> young_reach g R"
  proof (cases "q \<in> colored g \<or> p \<in> colored g - set (remembered g)")
    case True
    then show ?thesis using assms(1) q unfolding gen_inv_def by blast
  next
    case False
    then show ?thesis using assms(2) q by (auto intro: young_reach.intros)
  qed
qed

lemma minor_drained:
  assumes inv: "gen_inv g" and sh: "same_heap g h" and grey: "grey_inv h" and wf: "heap_wf g"
    and c: "colored h = colored g \<union> {w \<in> R. member g w}"
    and wl: "set (mark_wl h) \<subseteq> colored h"
  obtains g' where "sprout_gc_drain_marks h = Inr g'" "same_heap g g'" "mark_wl g' = []"
    "\<forall>p \<in> colored g'. set (succs g p) \<subseteq> colored g'" "colored g' = colored g \<union> young_reach g R"
    "marked_count g' + card (colored h) = marked_count h + card (colored g')" "remembered g' = remembered h"
proof -
  from grey obtain g' where g': "sprout_gc_drain_marks h = Inr g'" "same_heap h g'" "mark_wl g' = []" "colored h \<subseteq> colored g'"
    "\<forall>p \<in> colored g'. set (succs g' p) \<subseteq> colored g'"
    "\<forall>U. (\<forall>p \<in> set (mark_wl h). set (succs h p) \<subseteq> U) \<longrightarrow> (\<forall>p \<in> U. set (succs h p) \<subseteq> U) \<longrightarrow>
        colored g' \<subseteq> colored h \<union> U"
    "marked_count g' + card (colored h) = marked_count h + card (colored g')" "remembered g' = remembered h"
    by (rule drain_obtain)
  let ?U = "{p \<in> colored g \<union> young_reach g R. member g p}"
  note sh' = same_heap_trans [OF sh g'(2)]
  have cl: "set (succs g p) \<subseteq> colored g'" if "p \<in> colored g'" for p
  proof -
    have "member g p" using that same_heap_member [OF sh'] by (simp add: colored_def)
    then have "succs g' p = succs g p" by (rule same_heap_succs(2) [OF sh' wf])
    then show ?thesis using g'(5) that by (metis (no_types))
  qed
  have hU: "colored h \<subseteq> ?U" unfolding c by (auto simp: colored_def intro: young_reach.root)
  have U: "set (succs h p) \<subseteq> ?U" if "p \<in> ?U" for p
  proof -
    have "member g p" using that by simp
    then have "succs h p = succs g p" by (rule same_heap_succs(2) [OF sh wf])
    moreover have "set (succs g p) \<subseteq> {p. member g p}" by (auto simp: succs_def)
    ultimately show ?thesis using young_closed [OF inv, of p R] that by auto
  qed
  have "\<forall>p \<in> set (mark_wl h). set (succs h p) \<subseteq> ?U" using U hU wl by blast
  moreover have "\<forall>p \<in> ?U. set (succs h p) \<subseteq> ?U" using U by blast
  ultimately have "colored g' \<subseteq> colored h \<union> ?U" using g'(6) by blast
  then have up: "colored g' \<subseteq> colored g \<union> young_reach g R" using hU by blast
  have old: "colored g \<subseteq> colored g'" using g'(4) c by blast
  have "p \<in> colored g'" if "p \<in> young_reach g R" for p
    using that
  proof (induction rule: young_reach.induct)
    case (root r)
    then show ?case using g'(4) c by blast
  next
    case (remembered p q)
    then show ?case using cl old inv unfolding gen_inv_def by blast
  next
    case (step p q)
    then show ?case using cl by blast
  qed
  then have "colored g' = colored g \<union> young_reach g R" using up old by blast
  then show thesis using that g'(1,3,7,8) sh' cl by blast
qed

lemma minor_start_wl:
  assumes "gen_inv g" "g1 = fold sprout_gc_mark_ptr ws (g\<lparr>marked_count := 0\<rparr>)" "g2 = sprout_gc_mark_remembered g1"
  shows "set (mark_wl g2) \<subseteq> colored g2" "member g p \<Longrightarrow> \<not> hdr_remembered (mem g2 (p - 8))"
proof -
  from assms(1) have wf: "heap_wf g" and wl: "mark_wl g = []" and rc: "set (remembered g) \<subseteq> colored g"
    and b: "\<forall>p. member g p \<longrightarrow> (p \<in> set (remembered g) \<longleftrightarrow> hdr_remembered (sprout_hdr_of g p))"
    by (simp_all add: gen_inv_def)
  note r = roots_marked [OF wf wl assms(2)]
  have rc1: "set (remembered g1) \<subseteq> colored g1" using r(3,6) rc by auto
  note m = mark_remembered_props [OF r(1) rc1 assms(3)]
  show "set (mark_wl g2) \<subseteq> colored g2" unfolding m(2,3) r(3,4,6) using rc by blast
  assume p: "member g p"
  then have "member g1 p" using same_heap_member [OF r(2)] by simp
  then have "hdr_remembered (sprout_hdr_of g2 p) \<longleftrightarrow> hdr_remembered (sprout_hdr_of g1 p) \<and> p \<notin> set (remembered g)"
    using m(6) r(6) by simp
  moreover have "hdr_remembered (sprout_hdr_of g1 p) = hdr_remembered (sprout_hdr_of g p)"
    unfolding sprout_hdr_of_def assms(2) fold_keeps_remembered by simp
  ultimately show "\<not> hdr_remembered (mem g2 (p - 8))" using b p by (simp add: sprout_hdr_of_def)
qed

lemma minor_mark:
  assumes "gen_inv g"
  shows "\<exists>g'. gc_mark_phase True ws g = Inr g' \<and> reach g (set ws) \<subseteq> colored g' \<and>
              colored g' = colored g \<union> young_reach g (set ws) \<and> marked_count g' = card (young_reach g (set ws)) \<and>
              remembered g' = [] \<and> (\<forall>p. member g p \<longrightarrow> \<not> hdr_remembered (sprout_hdr_of g' p)) \<and> gen_inv g' \<and> same_heap g g'"
proof -
  define g1 where "g1 = fold sprout_gc_mark_ptr ws (g\<lparr>marked_count := 0\<rparr>)"
  define g2 where "g2 = sprout_gc_mark_remembered g1"
  note m = minor_roots [OF assms g1_def g2_def] and s = minor_start_wl [OF assms g1_def g2_def]
  have wf: "heap_wf g" using assms by (simp add: gen_inv_def)
  obtain g' where g': "sprout_gc_drain_marks g2 = Inr g'" "same_heap g g'" "mark_wl g' = []"
    "\<forall>p \<in> colored g'. set (succs g p) \<subseteq> colored g'" "colored g' = colored g \<union> young_reach g (set ws)"
    "marked_count g' + card (colored g2) = marked_count g2 + card (colored g')" "remembered g' = remembered g2"
    by (rule minor_drained [OF assms m(1,2) wf m(3) s(1)])
  have "{w \<in> set ws. member g w} \<subseteq> colored g'" unfolding g'(5) by (auto intro: young_reach.root)
  then have r: "reach g (set ws) \<subseteq> colored g'" using g'(4) by (intro reach_subset_closed) blast+
  have "card (colored g') = card (colored g) + card (young_reach g (set ws))"
    unfolding g'(5) by (rule card_Un_disjoint) (use young_reach_young in auto)
  then have n: "marked_count g' = card (young_reach g (set ws))" using g'(6) m(6) by simp
  have b: "\<not> hdr_remembered (sprout_hdr_of g' p)" if "member g p" for p
    using s(2) [OF that] drain_keeps_remembered [OF g'(1)] by (simp add: sprout_hdr_of_def)
  have "set (succs g' p) \<subseteq> colored g'" if p: "p \<in> colored g'" for p
  proof -
    have "member g p" using p same_heap_member [OF g'(2)] by (simp add: colored_def)
    then have "succs g' p = succs g p" by (rule same_heap_succs(2) [OF g'(2) wf])
    then show ?thesis using g'(4) p by auto
  qed
  then have "gen_inv g'"
    using same_heap_wf [OF g'(2) wf] g'(3,7) m(5) b same_heap_member [OF g'(2)] by (auto simp: gen_inv_def)
  then show ?thesis using g'(1,2,5,7) m(5) r n b unfolding gc_mark_phase_def Let_def g2_def g1_def by auto
qed

text \<open>C7. A minor collection is safe: if every store into an old object went through the write barrier (so
  that old-to-young pointers start only at remembered objects), then a minor mark phase returns and every object
  reachable from the roots has its mark set, so that the sweep keeps it. Exactly the young objects reachable from
  the roots or the remembered objects along young objects are newly marked: no path through an old object that is not
  remembered is followed. No mark is lost, the count is the number of new marks, the remembered set is empty and
  no object has its REMEMBERED bit left, so that the invariant holds again for the next minor collection.\<close>

theorem minor_mark_safe:
  assumes "gen_inv g"
  shows "\<exists>g'. gc_mark_phase True ws g = Inr g' \<and> reach g (set ws) \<subseteq> colored g' \<and>
              colored g' = colored g \<union> young_reach g (set ws) \<and> marked_count g' = card (young_reach g (set ws)) \<and>
              remembered g' = [] \<and> (\<forall>p. member g p \<longrightarrow> \<not> hdr_remembered (sprout_hdr_of g' p)) \<and> gen_inv g' \<and> same_heap g g'"
  using assms by (rule minor_mark)

section \<open>The write barrier keeps the generational invariant\<close>

text \<open>Distinct objects have disjoint fields, and no field is a header.\<close>

definition fields_apart :: "gc \<Rightarrow> bool" where
  "fields_apart g \<longleftrightarrow> (\<forall>p q. member g p \<longrightarrow> member g q \<longrightarrow> p \<noteq> q \<longrightarrow> content_cells g p \<inter> content_cells g q = {})"

lemma color_only_iff:
  "h AND (gc_color_bit OR gc_remembered_bit) = gc_color_bit \<longleftrightarrow> hdr_color h \<and> \<not> hdr_remembered h"
proof
  assume a: "h AND (gc_color_bit OR gc_remembered_bit) = gc_color_bit"
  from a have "bit (h AND (gc_color_bit OR gc_remembered_bit)) n = bit gc_color_bit n" for n by simp
  from this [of 8] this [of 13] show "hdr_color h \<and> \<not> hdr_remembered h"
    by (simp add: hdr_flag_bits bit_and_iff bit_or_iff gc_mask_bits)
next
  assume "hdr_color h \<and> \<not> hdr_remembered h"
  then show "h AND (gc_color_bit OR gc_remembered_bit) = gc_color_bit"
    by (intro bit_eqI) (auto simp: hdr_flag_bits bit_and_iff bit_or_iff gc_mask_bits)
qed

lemma barrier_gen_inv:
  assumes inv: "gen_inv g" and p: "member g p" and g': "g' = sprout_gc_barrier p g"
  shows "gen_inv g'" "same_heap g g'" "p \<in> colored g' \<Longrightarrow> p \<in> set (remembered g')" "colored g' = colored g"
proof -
  from inv have wf: "heap_wf g" by (simp add: gen_inv_def)
  have rm: "q \<in> set (remembered g) \<longleftrightarrow> hdr_remembered (sprout_hdr_of g q)" if "member g q" for q
    using inv that by (simp add: gen_inv_def)
  have all: "gen_inv g' \<and> same_heap g g' \<and> (p \<in> colored g' \<longrightarrow> p \<in> set (remembered g')) \<and> colored g' = colored g"
  proof (cases "hdr_color (sprout_hdr_of g p) \<and> \<not> hdr_remembered (sprout_hdr_of g p)")
    case False
    then have "g' = g" unfolding g' sprout_gc_barrier_def Let_def color_only_iff by (simp only: sprout_hdr_of_def if_False)
    with False inv rm [OF p] show ?thesis by (auto simp: colored_def)
  next
    case True
    then have e: "g' = sprout_gc_remember_slow p (mem g (p - 8)) g"
      unfolding g' sprout_gc_barrier_def Let_def color_only_iff by (simp add: sprout_hdr_of_def)
    have s: "same_heap g g'"
      by (rule same_heap_mem_table [where a = "p - 8" and h = "mem g (p - 8) OR gc_remembered_bit"])
        (use p in \<open>simp_all add: e sprout_gc_remember_slow_def set_remembered\<close>)
    have m: "member g' = member g" by (rule same_heap_member [OF s])
    have c: "colored g' = colored g"
      unfolding colored_def m by (auto simp: e sprout_gc_remember_slow_def sprout_hdr_of_def set_remembered)
    have sx: "succs g' q = succs g q" if "member g q" for q by (rule same_heap_succs(2) [OF s wf that])
    have r: "remembered g' = remembered g @ [p]" "mark_wl g' = mark_wl g" by (simp_all add: e sprout_gc_remember_slow_def)
    have h: "hdr_remembered (sprout_hdr_of g' q) \<longleftrightarrow> hdr_remembered (sprout_hdr_of g q) \<or> q = p" for q
      by (auto simp: e sprout_gc_remember_slow_def sprout_hdr_of_def set_remembered)
    have "p \<notin> set (remembered g)" using rm [OF p] True by simp
    moreover have "p \<in> colored g" using True p by (simp add: colored_def)
    moreover have "set (succs g' q) \<subseteq> colored g" if "q \<in> colored g - insert p (set (remembered g))" for q
      using inv that sx [of q] by (auto simp: gen_inv_def colored_def)
    ultimately have "gen_inv g'"
      unfolding gen_inv_def m c r h using inv same_heap_wf [OF s wf] by (auto simp: gen_inv_def)
    with s c r show ?thesis by simp
  qed
  then show "gen_inv g'" "same_heap g g'" "p \<in> colored g' \<Longrightarrow> p \<in> set (remembered g')" "colored g' = colored g" by blast+
qed

lemma store_content:
  assumes wf: "heap_wf g" and ap: "fields_apart g" and p: "member g p" "a \<in> content_cells g p"
    and g': "g' = g\<lparr>mem := (mem g)(a := v)\<rparr>"
  shows "member g' = member g" "slot_at g' = slot_at g"
    and "member g q \<Longrightarrow> sprout_hdr_of g' q = sprout_hdr_of g q"
    and "member g q \<Longrightarrow> q \<noteq> p \<Longrightarrow> succs g' q = succs g q \<and> content_cells g' q = content_cells g q"
proof -
  have na: "\<not> slot_at g q" if "a = q - 8" for q using wf p that by (auto simp: heap_wf_def)
  have t: "table g' = table g" by (simp add: g')
  show sl: "slot_at g' = slot_at g" by (intro ext) (simp only: slot_at_def t)
  have lk: "sprout_heap_lookup_region g' q = sprout_heap_lookup_region g q" for q
  proof (cases "a = q - 8")
    case True
    from na [OF True] show ?thesis
      by (auto simp: slot_at_def sprout_heap_lookup_region_def t Let_def split: option.splits if_splits)
  next
    case False
    then have "mem g' (q - 8) = mem g (q - 8)" by (simp add: g')
    then show ?thesis by (simp only: sprout_heap_lookup_region_def t Let_def)
  qed
  then show m: "member g' = member g" by (simp add: member_def sprout_heap_lookup_def fun_eq_iff)
  have hd: "sprout_hdr_of g' q = sprout_hdr_of g q" if "member g q" for q
    using na [of q] member_slot [OF that] by (auto simp: sprout_hdr_of_def g')
  then show "member g q \<Longrightarrow> sprout_hdr_of g' q = sprout_hdr_of g q" .
  assume q: "member g q" "q \<noteq> p"
  have eqc: "mem g' b = mem g b" if "b \<in> content_cells g q" for b
  proof -
    have "b \<noteq> a" using ap p q that unfolding fields_apart_def by blast
    then show ?thesis by (simp add: g')
  qed
  have "child_words g' q = child_words g q" by (rule child_words_cong) (simp_all add: hd [OF q(1)] eqc)
  moreover have "content_cells g' q = content_cells g q" by (rule children_cong(3)) (simp_all add: hd [OF q(1)] eqc)
  ultimately show "succs g' q = succs g q \<and> content_cells g' q = content_cells g q" by (simp add: succs_def m)
qed

text \<open>Storing into a reference that is remembered if it is old.\<close>

lemma ref_kind:
  assumes "sprout_heap_kind_at g q = Some HEAP_REF"
  shows "member g q" "sprout_hdr_kind (sprout_hdr_of g q) = HEAP_REF" "content_cells g q = {q}"
  using assms lookup_header [of g q]
  by (auto simp: sprout_heap_kind_at_def member_def sprout_hdr_of_def content_cells_def split: option.splits)

lemma ref_kind_iff: "sprout_heap_kind_at g q = Some HEAP_REF \<longleftrightarrow> member g q \<and> sprout_hdr_kind (sprout_hdr_of g q) = HEAP_REF"
  using lookup_header [of g q] by (auto simp: sprout_heap_kind_at_def member_def sprout_hdr_of_def split: option.splits)

lemma ref_store_inv:
  assumes inv: "gen_inv g" and ap: "fields_apart g" and k: "sprout_heap_kind_at g ref = Some HEAP_REF"
    and rem: "ref \<in> colored g \<longrightarrow> ref \<in> set (remembered g)" and g': "g' = g\<lparr>mem := (mem g)(ref := v)\<rparr>"
  shows "gen_inv g'" "member g' = member g" "sprout_heap_kind_at g q = Some HEAP_REF \<Longrightarrow> sprout_heap_kind_at g' q = Some HEAP_REF"
proof -
  have wf: "heap_wf g" using inv by (simp add: gen_inv_def)
  have p: "ref \<in> content_cells g ref" by (simp add: ref_kind(3) [OF k])
  note st = store_content [OF wf ap ref_kind(1) [OF k] p g']
  show "member g' = member g" by (rule st(1))
  show "sprout_heap_kind_at g q = Some HEAP_REF \<Longrightarrow> sprout_heap_kind_at g' q = Some HEAP_REF"
    using st(1,3) by (simp add: ref_kind_iff)
  have cc: "content_cells g' q = content_cells g q" if "member g q" for q
    using st(4) [OF that] st(3) [OF that] ref_kind(2,3) [OF k] by (cases "q = ref") (simp_all add: content_cells_def)
  have col: "colored g' = colored g" using st(1,3) by (auto simp: colored_def)
  have r: "remembered g' = remembered g" "mark_wl g' = mark_wl g" by (simp_all add: g')
  have "heap_wf g'" using wf cc by (simp add: heap_wf_def st(1,2))
  moreover have "set (succs g' q) \<subseteq> colored g" if "q \<in> colored g - set (remembered g)" for q
  proof -
    have "q \<noteq> ref" "member g q" using rem that by (auto simp: colored_def)
    then show ?thesis using st(4) that inv by (simp add: gen_inv_def)
  qed
  ultimately show "gen_inv g'" using inv st(1,3) unfolding gen_inv_def col r by simp
qed

text \<open>C13. \<open>ref_write\<close> keeps the invariant minor collections rely on: writing a young object into an old
  reference puts the reference into the remembered set first. The written value is read back, every other
  reference keeps its value, and a word that is not a reference is refused.\<close>

theorem ref_write_barrier:
  assumes inv: "gen_inv g" and ap: "fields_apart g" and k: "sprout_heap_kind_at g ref = Some HEAP_REF"
  shows "\<exists>g'. ref_write ref v g = Inr g' \<and> gen_inv g' \<and> ref_read ref g' = Inr v \<and>
              (\<forall>q. member g' q \<longleftrightarrow> member g q) \<and>
              (\<forall>q. sprout_heap_kind_at g q = Some HEAP_REF \<and> q \<noteq> ref \<longrightarrow> ref_read q g' = ref_read q g)"
proof -
  define g1 where "g1 = sprout_gc_barrier ref g"
  note b = barrier_gen_inv [OF inv ref_kind(1) [OF k] g1_def]
  define g' where "g' = g1\<lparr>mem := (mem g1)(ref := v)\<rparr>"
  have wf: "heap_wf g" using inv by (simp add: gen_inv_def)
  have m1: "member g1 = member g" by (rule same_heap_member [OF b(2)])
  have c1: "content_cells g1 q = content_cells g q" "sprout_hdr_kind (sprout_hdr_of g1 q) = sprout_hdr_kind (sprout_hdr_of g q)"
    if "member g q" for q
    using same_heap_succs(3) [OF b(2) wf that] same_heap_content(2) [OF b(2) wf that] by simp_all
  have ap1: "fields_apart g1" using ap by (simp add: fields_apart_def m1 c1)
  have k1: "sprout_heap_kind_at g1 q = Some HEAP_REF" if "sprout_heap_kind_at g q = Some HEAP_REF" for q
    using that m1 c1(2) by (simp add: ref_kind_iff)
  have rem: "ref \<in> colored g1 \<longrightarrow> ref \<in> set (remembered g1)" using b(3) by blast
  note st = ref_store_inv [OF b(1) ap1 k1 [OF k] rem g'_def]
  have "ref_write ref v g = Inr g'"
    using k by (simp add: ref_write_def sprout_gc_on_store_def g'_def g1_def Let_def)
  moreover have "ref_read ref g' = Inr v" using st(3) [OF k1 [OF k]] by (simp add: ref_read_def g'_def)
  moreover have "ref_read q g' = ref_read q g" if q: "sprout_heap_kind_at g q = Some HEAP_REF" "q \<noteq> ref" for q
  proof -
    have "q \<in> content_cells g q" by (simp add: ref_kind(3) [OF q(1)])
    then have "mem g1 q = mem g q" by (rule same_heap_content(1) [OF b(2) wf ref_kind(1) [OF q(1)]])
    with q st(3) [OF k1 [OF q(1)]] show ?thesis by (simp add: ref_read_def g'_def)
  qed
  ultimately show ?thesis using st(1,2) m1 by auto
qed

section \<open>A heap of two references\<close>

text \<open>Two blocks at \<open>0x1000\<close> and \<open>0x2000\<close>, each holding one reference cell.\<close>

definition two_refs :: "64 word \<Rightarrow> sval \<Rightarrow> 64 word \<Rightarrow> sval \<Rightarrow> gc" where
  "two_refs h1 v1 h2 v2 =
     \<lparr>mem = (\<lambda>_. 0)(0x1000 := h1, 0x1008 := v1, 0x2000 := h2, 0x2008 := v2),
      table = \<lparr>g_regions = [large_region 0x1000 32 0, large_region 0x2000 32 0], g_heap_lo = 0x1000,
               g_heap_span = 0x1020, g_arena = no_arena, g_open_region_hint = 0\<rparr>,
      mark_wl = [], remembered = [], gen = g_gen_init, marked_count = 0\<rparr>"

lemma two_refs_lookup:
  "sprout_heap_lookup (two_refs h1 v1 h2 v2) p = (if p = 0x1008 then Some 0x1000 else if p = 0x2008 then Some 0x2000 else None)"
proof -
  let ?g = "two_refs h1 v1 h2 v2"
  have inv: "table_inv (table ?g)"
    by (simp add: table_inv_def two_refs_def large_region_def below_def region_ok_def bounds_ok_def arena_shape_def
        no_arena_def placed_def chunks_ok_def arena_contains_def)
  have f: "region_find (table ?g) p = Some i \<longleftrightarrow> i < 2 \<and> in_region (g_regions (table ?g) ! i) p" for p i
    using region_find_iff [OF inv, of p i] by (simp add: two_refs_def numeral_2_eq_2)
  have a: "region_find (table ?g) 0x1008 = Some 0" "region_find (table ?g) 0x2008 = Some 1"
    by (simp_all add: f) (simp_all add: two_refs_def in_region_def large_region_def)
  have "sprout_heap_lookup ?g p = None" if "p \<noteq> 0x1008" "p \<noteq> 0x2008"
  proof (cases "region_find (table ?g) p")
    case (Some i)
    then have "i = 0 \<or> i = 1" using f [of p i] by auto
    then have "is_large (g_regions (table ?g) ! i) \<and> p \<noteq> base (g_regions (table ?g) ! i) + 8"
      using that by (auto simp: two_refs_def large_region_def)
    with Some show ?thesis by (simp add: sprout_heap_lookup_def sprout_heap_lookup_region_def Let_def)
  qed (simp add: sprout_heap_lookup_def sprout_heap_lookup_region_def)
  moreover have "sprout_heap_lookup ?g 0x1008 = Some 0x1000" "sprout_heap_lookup ?g 0x2008 = Some 0x2000"
    unfolding sprout_heap_lookup_def sprout_heap_lookup_region_def a Let_def
    by (simp_all add: two_refs_def large_region_def)
  ultimately show ?thesis by simp
qed

lemma two_refs_member: "member (two_refs h1 v1 h2 v2) p \<longleftrightarrow> p = 0x1008 \<or> p = 0x2008"
  by (simp add: member_def two_refs_lookup)

lemma two_refs_slot: "slot_at (two_refs h1 v1 h2 v2) p \<Longrightarrow> p = 0x1008 \<or> p = 0x2008"
proof -
  let ?g = "two_refs h1 v1 h2 v2"
  assume s: "slot_at ?g p"
  then obtain i where i: "region_find (table ?g) p = Some i" by (auto simp: slot_at_def split: option.splits)
  have inv: "table_inv (table ?g)"
    by (simp add: table_inv_def two_refs_def large_region_def below_def region_ok_def bounds_ok_def arena_shape_def
        no_arena_def placed_def chunks_ok_def arena_contains_def)
  have "i < 2" using i region_find_iff [OF inv, of p i] by (simp add: two_refs_def)
  then have "i = 0 \<or> i = 1" by auto
  with s i show ?thesis by (auto simp: slot_at_def Let_def) (auto simp: two_refs_def large_region_def)
qed

lemma two_refs_hdr [simp]:
  "sprout_hdr_of (two_refs h1 v1 h2 v2) 0x1008 = h1" "sprout_hdr_of (two_refs h1 v1 h2 v2) 0x2008 = h2"
  by (simp_all add: two_refs_def sprout_hdr_of_def)

lemma two_refs_heap:
  assumes "sprout_hdr_kind h1 = HEAP_REF" "sprout_hdr_kind h2 = HEAP_REF"
  shows "heap_wf (two_refs h1 v1 h2 v2)" "fields_apart (two_refs h1 v1 h2 v2)"
    "succs (two_refs h1 v1 h2 v2) 0x1008 = filter (\<lambda>p. p = 0x1008 \<or> p = 0x2008) [v1]"
    "succs (two_refs h1 v1 h2 v2) 0x2008 = filter (\<lambda>p. p = 0x1008 \<or> p = 0x2008) [v2]"
    "sprout_heap_kind_at (two_refs h1 v1 h2 v2) 0x1008 = Some HEAP_REF"
proof -
  let ?g = "two_refs h1 v1 h2 v2"
  have c: "content_cells ?g 0x1008 = {0x1008}" "content_cells ?g 0x2008 = {0x2008}"
    using assms by (simp_all add: content_cells_def)
  show "heap_wf ?g" using c two_refs_slot [of h1 v1 h2 v2] by (auto simp: heap_wf_def two_refs_member dest!: two_refs_slot)
  show "fields_apart ?g" using c by (auto simp: fields_apart_def two_refs_member)
  have k: "sprout_heap_child_count_payload ?g 0x1008 = 1" "sprout_heap_child_count_payload ?g 0x2008 = 1"
    using assms by (simp_all add: sprout_heap_child_count_payload_def)
  have v: "sprout_heap_child_value_payload ?g 0x1008 0 = Inr v1" "sprout_heap_child_value_payload ?g 0x2008 0 = Inr v2"
    using assms by (simp_all add: sprout_heap_child_value_payload_def) (simp_all add: two_refs_def)
  show "succs ?g 0x1008 = filter (\<lambda>p. p = 0x1008 \<or> p = 0x2008) [v1]" "succs ?g 0x2008 = filter (\<lambda>p. p = 0x1008 \<or> p = 0x2008) [v2]"
    by (simp_all add: succs_def child_words_def k v two_refs_member)
  show "sprout_heap_kind_at ?g 0x1008 = Some HEAP_REF"
    using assms by (simp add: sprout_heap_kind_at_def two_refs_lookup) (simp add: two_refs_def)
qed

lemma ref_headers: "sprout_hdr_kind 9 = HEAP_REF" "sprout_hdr_kind 0x109 = HEAP_REF" "\<not> hdr_color 9" "hdr_color 0x109"
  "\<not> hdr_remembered 9" "\<not> hdr_remembered 0x109"
  by (simp_all add: sprout_hdr_kind_def hdr_color_def gc_color_bit_def hdr_remembered_def gc_remembered_bit_def)

theorem major_mark_exact_witness:
  "\<exists>g'. gc_mark_phase False [0x1008, 77] (two_refs 9 0x2008 9 0x1008) = Inr g' \<and>
        colored g' = reach (two_refs 9 0x2008 9 0x1008) {0x1008, 77} \<and> 0x2008 \<in> colored g'"
proof -
  let ?g = "two_refs 9 0x2008 9 0x1008"
  note h = two_refs_heap [OF ref_headers(1,1), of "0x2008" "0x1008"]
  have "colored ?g = {}" by (auto simp: colored_def two_refs_member ref_headers)
  moreover have "mark_wl ?g = []" by (simp add: two_refs_def)
  moreover have "0x2008 \<in> reach ?g {0x1008, 77}"
    by (rule reach.step [OF reach.root, of "0x1008"]) (simp_all add: two_refs_member h)
  ultimately show ?thesis using major_mark_exact [of ?g "[0x1008, 77]"] h(1) by auto
qed

text \<open>An old reference that points to an old one satisfies the generational invariant.\<close>

lemma two_old_refs_inv: "gen_inv (two_refs 0x109 0x2008 0x109 0)"
  using two_refs_heap [OF ref_headers(2,2), of "0x2008" 0]
  by (auto simp: gen_inv_def colored_def two_refs_member ref_headers) (simp_all add: two_refs_def)

lemma old_ref_remembered: "sprout_hdr_kind 0x2109 = HEAP_REF" "hdr_color 0x2109" "hdr_remembered 0x2109"
  by (simp_all add: sprout_hdr_kind_def hdr_color_def gc_color_bit_def hdr_remembered_def gc_remembered_bit_def)

text \<open>An old reference, written since the last collection, that points to a young one.\<close>

definition remembered_refs :: gc where
  "remembered_refs = (two_refs 0x2109 0x2008 9 0)\<lparr>remembered := [0x1008]\<rparr>"

lemma remembered_refs_heap:
  "member remembered_refs p \<longleftrightarrow> p = 0x1008 \<or> p = 0x2008" "heap_wf remembered_refs"
  "succs remembered_refs 0x1008 = [0x2008]" "colored remembered_refs = {0x1008}" "gen_inv remembered_refs"
proof -
  let ?g = "two_refs 0x2109 0x2008 9 0"
  note h = two_refs_heap [OF old_ref_remembered(1) ref_headers(1), of "0x2008" 0]
  have s: "same_heap ?g remembered_refs" by (simp add: remembered_refs_def same_heap_def)
  have m: "member remembered_refs = member ?g" by (rule same_heap_member [OF s])
  have hd: "sprout_hdr_of remembered_refs p = sprout_hdr_of ?g p" for p by (simp add: remembered_refs_def sprout_hdr_of_def)
  show mm: "member remembered_refs p \<longleftrightarrow> p = 0x1008 \<or> p = 0x2008" for p by (simp add: m two_refs_member)
  show wf: "heap_wf remembered_refs" by (rule same_heap_wf [OF s h(1)])
  show sx: "succs remembered_refs 0x1008 = [0x2008]"
    using same_heap_succs(2) [OF s h(1), of "0x1008"] h(3) by (simp add: two_refs_member)
  show c: "colored remembered_refs = {0x1008}"
    by (auto simp: colored_def mm hd old_ref_remembered ref_headers)
  have "mark_wl remembered_refs = []" "remembered remembered_refs = [0x1008]" by (simp_all add: remembered_refs_def two_refs_def)
  then show "gen_inv remembered_refs"
    using wf by (auto simp: gen_inv_def c mm hd old_ref_remembered ref_headers)
qed

theorem minor_mark_safe_witness:
  "\<exists>g'. gc_mark_phase True [] remembered_refs = Inr g' \<and> remembered remembered_refs = [0x1008] \<and>
     0x2008 \<notin> colored remembered_refs \<and> colored g' = {0x1008, 0x2008} \<and> marked_count g' = 1 \<and>
     \<not> hdr_remembered (sprout_hdr_of g' 0x1008)"
proof -
  note h = remembered_refs_heap
  have y: "young_reach remembered_refs {} = {0x2008}"
  proof (intro equalityI subsetI)
    fix p assume "p \<in> young_reach remembered_refs {}"
    then have "member remembered_refs p \<and> p \<notin> colored remembered_refs" by cases (auto simp: succs_def)
    then show "p \<in> {0x2008}" by (auto simp: h)
  next
    fix p :: addr assume "p \<in> {0x2008}"
    then show "p \<in> young_reach remembered_refs {}"
      by (auto intro!: young_reach.remembered [of "0x1008"] simp: h) (simp add: remembered_refs_def)
  qed
  have r: "remembered remembered_refs = [0x1008]" by (simp add: remembered_refs_def)
  show ?thesis
    using minor_mark_safe [OF h(5), of "[]"] unfolding list.set y h(1,4) by (auto simp: r)
qed

theorem ref_write_barrier_witness:
  "\<exists>g'. ref_write 0x1008 0x2008 (two_refs 0x109 0x2008 0x109 0) = Inr g' \<and> gen_inv g' \<and> ref_read 0x1008 g' = Inr 0x2008"
  using ref_write_barrier [OF two_old_refs_inv, of "0x1008" "0x2008"] two_refs_heap [OF ref_headers(2,2), of "0x2008" 0]
  by blast

end
