(* ===== verification/Gc_Collect.thy ===== *)
theory Gc_Collect
  imports Gc_Cycle Gc_Mark
begin

unbundle bit_operations_syntax

text \<open>
  A whole collection: the clearing walk of a major one, the marking, the generational record and the full or the young-only
  sweep. The marker works on the store of the state \<open>gc\<close> and the sweep on that of its own state; the collection hands the store
  over. The second half relates the two views of the heap, slots of the sweep and objects of the marker. The young-only
  sweep is here as a branch of the collection; the theorems are about collections that end in the full sweep. The checks under
  \<^verbatim>\<open>SPROUT_GC_GENCHECK\<close> and the choice of the threshold after a collection are not modelled.
\<close>

section \<open>The clearing walk\<close>

definition gc_clear_bits :: "64 word" where
  "gc_clear_bits = gc_color_bit OR gc_remembered_bit"

function clear_slots :: "bool \<Rightarrow> addr \<Rightarrow> nat \<Rightarrow> nat \<Rightarrow> (addr \<Rightarrow> 64 word) \<Rightarrow> addr \<Rightarrow> 64 word" where
  "clear_slots lineage b bmp off m =
     (if off < bmp
      then (let h = m (at b off); ssize = unat (sprout_slot_step lineage h) in
            clear_slots lineage b bmp (off + ssize)
              (if sprout_hdr_kind h \<noteq> HEAP_FREE \<and> sprout_hdr_kind h \<noteq> HEAP_POISON then m(at b off := h AND NOT gc_clear_bits) else m))
      else m)"
  by pat_completeness auto
termination
  by (relation "measure (\<lambda>(l, b, bmp, off, m). bmp - off)") (auto intro!: diff_less_mono2)

declare clear_slots.simps [simp del]

definition clear_region :: "bool \<Rightarrow> region \<Rightarrow> (addr \<Rightarrow> 64 word) \<Rightarrow> addr \<Rightarrow> 64 word" where
  "clear_region lineage r m =
     (if is_large r then m(base r := m (base r) AND NOT gc_clear_bits) else clear_slots lineage (base r) (unat (bump r)) 0 m)"

definition sprout_gc_clear_marks :: "bool \<Rightarrow> gc \<Rightarrow> gc" where
  "sprout_gc_clear_marks lineage g = g\<lparr>remembered := [], mem := fold (clear_region lineage) (g_regions (table g)) (mem g)\<rparr>"

definition reset_marked_young :: "gc \<Rightarrow> gc" where
  "reset_marked_young g = g\<lparr>table := (table g)\<lparr>g_regions := map (\<lambda>r. r\<lparr>marked_young := 0\<rparr>) (g_regions (table g))\<rparr>\<rparr>"

section \<open>The young-only sweep\<close>

definition sprout_gc_young_sweep_ok :: "region_table \<Rightarrow> bool" where
  "sprout_gc_young_sweep_ok t \<longleftrightarrow>
     (\<forall>r \<in> set (g_regions t). is_large r \<or> \<not> (old_count r = 0 \<and> poison_count r = 0 \<and> marked_young r = 0))"

definition young_slot ::
  "bool \<Rightarrow> (addr \<Rightarrow> addr \<times> 64 word) \<Rightarrow> addr \<Rightarrow> sweep \<times> nat \<times> nat \<Rightarrow> sweep \<times> nat \<times> nat" where
  "young_slot lineage frames a = (\<lambda>(s, old, poison).
     let h = sw_mem s a; ssize = sprout_slot_step lineage h; kind = sprout_hdr_kind h in
     if hdr_color h then (s\<lparr>sw_mem := (sw_mem s)(a := sprout_hdr_age_bump h)\<rparr>, old + 1, poison)
     else let (listed, s1) = sprout_gc_free_dead_slot lineage frames a h kind ssize s in
       if listed then (fl_push_live (slot_class ssize) (a + 8) s1, old, poison) else (s1, old, poison + 1))"

text \<open>The set bits of the young map, word by word and lowest bit first.\<close>

definition young_words :: "region \<Rightarrow> nat" where
  "young_words r = (unat (bump r) div slot_gran + 63) div 64"

definition young_idxs :: "region \<Rightarrow> nat list" where
  "young_idxs r = concat (map (\<lambda>w. map (\<lambda>i. w * 64 + i) (filter (bit (youngmap r ! w)) [0..<64])) [0..<young_words r])"

definition sweep_young_region :: "bool \<Rightarrow> (addr \<Rightarrow> addr \<times> 64 word) \<Rightarrow> region \<Rightarrow> sweep \<Rightarrow> region \<times> sweep" where
  "sweep_young_region lineage frames r s =
     (let (s1, old, poison) = fold (\<lambda>idx. young_slot lineage frames (at (base r) (idx * slot_gran))) (young_idxs r) (s, 0, 0) in
      (r\<lparr>youngmap := replicate (young_words r) 0 @ drop (young_words r) (youngmap r), young_count := 0, old_count := old_count r + old,
         live_count := live_count r + old, poison_count := poison_count r + poison\<rparr>, s1))"

fun sweep_young_regions :: "bool \<Rightarrow> (addr \<Rightarrow> addr \<times> 64 word) \<Rightarrow> region list \<Rightarrow> sweep \<Rightarrow> region list \<times> bool \<times> sweep" where
  "sweep_young_regions lineage frames [] s = ([], False, s)"
| "sweep_young_regions lineage frames (r # rs) s =
     (let (r1, freed, s1) =
        (if young_count r = 0 then (r, False, s)
         else if is_large r
         then (let (survived, r1, s1) = sprout_gc_sweep_large True r s in
               ((if survived then r1\<lparr>old_count := 1\<rparr> else r1)\<lparr>young_count := 0\<rparr>, \<not> survived, s1))
         else let (r1, s1) = sweep_young_region lineage frames r s in (r1, False, s1));
          (rs', freed', s') = sweep_young_regions lineage frames rs s1
      in (r1 # rs', freed \<or> freed', s'))"

primrec remove_freed :: "nat \<Rightarrow> region_table \<Rightarrow> region_table" where
  "remove_freed 0 t = t"
| "remove_freed (Suc ri) t =
     remove_freed ri (if is_large (g_regions t ! ri) \<and> base (g_regions t ! ri) = 0 then region_table_remove ri t else t)"

definition sprout_gc_sweep_young :: "bool \<Rightarrow> (addr \<Rightarrow> addr \<times> 64 word) \<Rightarrow> region_table \<Rightarrow> sweep \<Rightarrow> region_table \<times> sweep" where
  "sprout_gc_sweep_young lineage frames t s =
     (let (rs, freed_large, s1) = sweep_young_regions lineage frames (g_regions t) s; t1 = t\<lparr>g_regions := rs\<rparr>
      in (if freed_large then remove_freed (length rs) t1 else t1, s1))"

section \<open>A collection\<close>

definition gc_prepare :: "bool \<Rightarrow> bool \<Rightarrow> gc \<Rightarrow> gc" where
  "gc_prepare lineage minor g =
     (let on = gen_on (gen g); g1 = (if on \<and> \<not> minor \<and> \<not> colorless (gen g) then sprout_gc_clear_marks lineage g else g)
      in if on then reset_marked_young g1 else g1)"

definition gc_cycle ::
  "bool \<Rightarrow> (addr \<Rightarrow> addr \<times> 64 word) \<Rightarrow> bool \<Rightarrow> (nat \<Rightarrow> bool) \<Rightarrow> addr option \<Rightarrow> string \<Rightarrow> sval list \<Rightarrow> gc \<Rightarrow> sweep \<Rightarrow> (gc \<times> sweep) res" where
  "gc_cycle lineage frames ageprof commit_ok malloc_block reason ws g s =
     (let on = gen_on (gen g); minor = on \<and> sprout_gc_gen_choose_minor reason (gen g)
      in res_bind (gc_mark_phase minor ws (gc_prepare lineage minor g)) (\<lambda>g3.
           let g4 = (if on then g3\<lparr>gen := sprout_gc_gen_record minor (marked_count g3) (gen g3)\<rparr> else g3);
               next_major = on \<and> colorless (gen g4);
               young_only = minor \<and> \<not> next_major \<and> \<not> ageprof \<and> sprout_gc_young_sweep_ok (table g4);
               s1 = s\<lparr>sw_mem := mem g4\<rparr>
           in if young_only
              then (let (t', s') = sprout_gc_sweep_young lineage frames (table g4) s1 in Inr (g4\<lparr>mem := sw_mem s', table := t'\<rparr>, s'))
              else res_map (\<lambda>(t', s'). (g4\<lparr>mem := sw_mem s', table := t'\<rparr>, s'))
                     (sprout_gc_sweep (on \<and> \<not> next_major) lineage frames on commit_ok malloc_block (table g4) s1)))"

section \<open>The object graph on the heap\<close>

text \<open>The slot bitmap marks exactly the slots; outside lineage mode no slot is poisoned.\<close>

definition bits_ok :: "(addr \<Rightarrow> 64 word) \<Rightarrow> region list \<Rightarrow> bool" where
  "bits_ok m rs \<longleftrightarrow> (\<forall>r \<in> set rs. \<not> is_large r \<longrightarrow> length (slotmap r) = slotmap_bytes \<and>
     (\<forall>idx < 8 * slotmap_bytes. slotmap_test r idx \<longleftrightarrow> (\<exists>n. heap_slot False m rs (at (base r) (slot_gran * idx)) n)))"

definition heap_full :: "region_table \<Rightarrow> sweep \<Rightarrow> bool" where
  "heap_full t s \<longleftrightarrow> heap_inv False t s \<and> bits_ok (sw_mem s) (g_regions t) \<and>
     (\<forall>a n. heap_slot False (sw_mem s) (g_regions t) a n \<longrightarrow> sprout_hdr_kind (sw_mem s a) \<noteq> HEAP_POISON) \<and>
     (\<forall>r \<in> set (g_regions t). is_large r \<longrightarrow> 16 \<le> unat (cap r))"

lemma slot_offs_dvd:
  "(\<forall>o1 \<in> set (slot_offs lineage m b bmp off). 16 dvd step_at lineage m b o1) \<Longrightarrow> 16 dvd off \<Longrightarrow>
   o2 \<in> set (slot_offs lineage m b bmp off) \<Longrightarrow> (16::nat) dvd o2"
proof (induction lineage m b bmp off rule: slot_offs.induct)
  case (1 lineage m b bmp off)
  show ?case
  proof (cases "off < bmp")
    case True
    then have e: "slot_offs lineage m b bmp off = off # slot_offs lineage m b bmp (off + step_at lineage m b off)"
      by (subst slot_offs.simps) simp
    then show ?thesis using 1 True by (auto intro: dvd_add)
  next
    case False
    then show ?thesis using 1(4) by (subst (asm) slot_offs.simps) simp
  qed
qed

lemma slot_off_dvd:
  assumes "heap_inv lineage t s" "r \<in> set (g_regions t)" "\<not> is_large r" "off \<in> set (region_slots lineage (sw_mem s) r)"
  shows "16 dvd off"
proof (rule slot_offs_dvd [OF _ _ assms(4) [unfolded region_slots_def]])
  show "\<forall>o1 \<in> set (slot_offs lineage (sw_mem s) (base r) (unat (bump r)) 0). 16 dvd step_at lineage (sw_mem s) (base r) o1"
    using assms unfolding heap_inv_def slot_in_def region_slots_def by blast
qed simp

lemma full_facts:
  assumes "heap_full t s"
  shows "heap_inv False t s" "table_inv t" "regions_ok False (sw_mem s) (g_regions t)"
    "\<And>r. r \<in> set (g_regions t) \<Longrightarrow> heap_region_ok False (sw_mem s) r"
    "\<And>r. r \<in> set (g_regions t) \<Longrightarrow> \<not> is_large r \<Longrightarrow> cap r = region_size"
    "\<And>a n. heap_slot False (sw_mem s) (g_regions t) a n \<Longrightarrow> sprout_hdr_kind (sw_mem s a) \<noteq> HEAP_POISON"
    "\<And>r. r \<in> set (g_regions t) \<Longrightarrow> is_large r \<Longrightarrow> 16 \<le> unat (cap r)"
    "bits_ok (sw_mem s) (g_regions t)"
  using assms unfolding heap_full_def heap_inv_alt regions_ok_def by auto

lemma at_sub: "unat b \<le> unat p \<Longrightarrow> at b (unat (p - b)) = p"
  by (simp add: at_def)

text \<open>What the collector takes for a slot or an object is one.\<close>

lemma slot_at_iff:
  assumes full: "heap_full (table g) s" and m: "sw_mem s = mem g"
  shows "slot_at g p \<longleftrightarrow> (\<exists>n. heap_slot False (mem g) (g_regions (table g)) (p - 8) n \<or> large_at (g_regions (table g)) (p - 8) n)"
proof
  let ?rs = "g_regions (table g)"
  note F = full_facts [OF full, unfolded m]
  assume mem: "slot_at g p"
  then obtain i where i: "region_find (table g) p = Some i" by (auto simp: slot_at_def split: option.splits)
  define r where "r = ?rs ! i"
  have r: "r \<in> set ?rs" "in_region r p" using region_find_iff [OF F(2), of p i] i by (auto simp: r_def)
  show "\<exists>n. heap_slot False (mem g) ?rs (p - 8) n \<or> large_at ?rs (p - 8) n"
  proof (cases "is_large r")
    case True
    then have "p - 8 = base r" using mem i by (auto simp: slot_at_def Let_def r_def [symmetric])
    then show ?thesis using r(1) True unfolding large_at_def by blast
  next
    case False
    define off where "off = unat (p - base r)"
    have L: "8 \<le> off" "(off - 8) mod slot_gran = 0" "slotmap_test r ((off - 8) div slot_gran)"
      using mem i False by (auto simp: slot_at_def Let_def r_def [symmetric] off_def)
    have o: "unat p = unat (base r) + off" "off < unat (cap r)" using r(2) by (auto simp: off_def in_region_def unat_sub word_le_nat_alt)
    have idx: "(off - 8) div slot_gran < 8 * slotmap_bytes"
      using o(2) F(5) [OF r(1) False] by (simp add: region_size_def slot_gran_def slotmap_bytes_def)
    have a: "at (base r) (slot_gran * ((off - 8) div slot_gran)) = p - 8"
    proof -
      have e: "slot_gran * ((off - 8) div slot_gran) = off - 8" using L(2) by (simp add: mod_eq_0_iff_dvd)
      have "at (base r) off = p" using at_sub [of "base r" p] o(1) by (simp add: off_def)
      then have "base r + word_of_nat off = p" by (simp add: at_def)
      then show ?thesis unfolding e at_def using L(1) by (simp add: of_nat_diff algebra_simps)
    qed
    show ?thesis using F(8) r(1) False idx L(3) a unfolding bits_ok_def by metis
  qed
next
  let ?rs = "g_regions (table g)"
  note F = full_facts [OF full, unfolded m]
  assume "\<exists>n. heap_slot False (mem g) ?rs (p - 8) n \<or> large_at ?rs (p - 8) n"
  then obtain r n where r: "r \<in> set ?rs" "slot_in False (mem g) r (p - 8) n \<or> is_large r \<and> p - 8 = base r"
    unfolding heap_slot_def large_at_def by blast
  obtain i where i: "i < length ?rs" "r = ?rs ! i" using r(1) by (auto simp: in_set_conv_nth)
  have ro: "region_ok r" using F(4) [OF r(1)] by (simp add: heap_region_ok_def)
  show "slot_at g p"
  proof (cases "is_large r")
    case True
    then have p: "p = base r + 8" using r(2) by (auto simp: slot_in_def diff_eq_eq)
    have "unat p = unat (base r) + 8"
      using ro F(7) [OF r(1) True] unat_at [of "base r" 8] by (simp add: p region_ok_def at_def)
    then have "in_region r p" using F(7) [OF r(1) True] by (simp add: in_region_def)
    then have "region_find (table g) p = Some i" using region_find_iff [OF F(2), of p i] i by simp
    then show ?thesis using True p by (simp add: slot_at_def Let_def i(2) [symmetric])
  next
    case False
    then have sl: "slot_in False (mem g) r (p - 8) n" using r(2) by auto
    obtain off where o: "off \<in> set (region_slots False (mem g) r)" "p - 8 = at (base r) off" "unat (p - 8) = unat (base r) + off" "16 \<le> n"
      "off + n \<le> unat (bump r)" "unat (bump r) \<le> unat (cap r)" "unat (base r) + unat (bump r) < 2 ^ 64"
      by (rule slot_in_bounds [OF F(4) [OF r(1)] sl])
    have p: "p = at (base r) (off + 8)" using at_add(1) [of "base r" off] o(2) by (metis diff_add_cancel)
    have up: "unat p = unat (base r) + off + 8" using unat_at [of "base r" "off + 8"] o(4,5,7) by (simp add: p)
    have "in_region r p" using up o(4-6) by (simp add: in_region_def)
    then have f: "region_find (table g) p = Some i" using region_find_iff [OF F(2), of p i] i by simp
    have d: "unat (p - base r) = off + 8" using up by (simp add: unat_sub word_le_nat_alt)
    have dv: "16 dvd off" by (rule slot_off_dvd [OF F(1) r(1) False]) (simp add: m o(1))
    have "slotmap_test r (off div 16)"
    proof -
      have "off div 16 < 8 * slotmap_bytes" using o(4-6) F(5) [OF r(1) False] by (simp add: region_size_def slotmap_bytes_def)
      moreover have "heap_slot False (mem g) ?rs (at (base r) (slot_gran * (off div 16))) n"
        using sl o(2) dv r(1) unfolding heap_slot_def by (auto simp: slot_gran_def)
      ultimately show ?thesis using F(8) r(1) False unfolding bits_ok_def by blast
    qed
    then show ?thesis using False dv by (simp add: slot_at_def Let_def f i(2) [symmetric] d slot_gran_def)
  qed
qed

lemma member_slot_at:
  "member g p \<longleftrightarrow> slot_at g p \<and> (\<forall>i. region_find (table g) p = Some i \<longrightarrow> is_large (g_regions (table g) ! i) \<or> sprout_hdr_kind (mem g (p - 8)) \<noteq> HEAP_FREE)"
  by (auto simp: member_def sprout_heap_lookup_def sprout_heap_lookup_region_def slot_at_def Let_def hdr_kind_free split: option.splits if_splits)

lemma member_object:
  assumes full: "heap_full (table g) s" and m: "sw_mem s = mem g"
  shows "member g p \<longleftrightarrow> (\<exists>n. object_at False (mem g) (g_regions (table g)) (p - 8) n)"
proof
  let ?rs = "g_regions (table g)"
  note F = full_facts [OF full, unfolded m]
  assume mem: "member g p"
  then obtain i where i: "region_find (table g) p = Some i" by (auto simp: member_slot_at slot_at_def split: option.splits)
  have in_r: "?rs ! i \<in> set ?rs" "in_region (?rs ! i) p" using region_find_iff [OF F(2), of p i] i by auto
  show "\<exists>n. object_at False (mem g) ?rs (p - 8) n"
  proof (cases "is_large (?rs ! i)")
    case True
    then have "p - 8 = base (?rs ! i)" using mem i by (auto simp: member_slot_at slot_at_def Let_def)
    then show ?thesis using in_r(1) True unfolding object_at_alt large_at_def by blast
  next
    case False
    then have k: "sprout_hdr_kind (mem g (p - 8)) \<noteq> HEAP_FREE" using mem i by (simp add: member_slot_at)
    obtain n where "heap_slot False (mem g) ?rs (p - 8) n \<or> large_at ?rs (p - 8) n" using mem slot_at_iff [OF full m] by (auto simp: member_slot_at)
    then show ?thesis using k F(6) unfolding object_at_alt by (auto simp: is_object_def)
  qed
next
  let ?rs = "g_regions (table g)"
  note F = full_facts [OF full, unfolded m]
  assume "\<exists>n. object_at False (mem g) ?rs (p - 8) n"
  then obtain n where n: "object_at False (mem g) ?rs (p - 8) n" by blast
  then have s: "slot_at g p" unfolding slot_at_iff [OF full m] object_at_alt by blast
  show "member g p"
  proof (cases "is_object (mem g (p - 8))")
    case True
    then show ?thesis using s by (simp add: member_slot_at is_object_def)
  next
    case False
    then obtain r where r: "r \<in> set ?rs" "is_large r" "p - 8 = base r" using n by (auto simp: object_at_alt large_at_def)
    have ro: "region_ok r" using F(4) [OF r(1)] by (simp add: heap_region_ok_def)
    have p: "p = base r + 8" using r(3) by (simp add: diff_eq_eq)
    have "unat p = unat (base r) + 8"
      using ro F(7) [OF r(1,2)] unat_at [of "base r" 8] by (simp add: p region_ok_def at_def)
    then have "in_region r p" using F(7) [OF r(1,2)] by (simp add: in_region_def)
    moreover obtain i where "i < length ?rs" "r = ?rs ! i" using r(1) by (auto simp: in_set_conv_nth)
    ultimately have "region_find (table g) p = Some i \<and> is_large (?rs ! i)" using region_find_iff [OF F(2), of p i] r(2) by simp
    then show ?thesis using s by (auto simp: member_slot_at)
  qed
qed

lemma colored_objects:
  assumes "heap_full (table g) s" "sw_mem s = mem g"
  shows "colored g = {p. (\<exists>n. object_at False (mem g) (g_regions (table g)) (p - 8) n) \<and> hdr_color (mem g (p - 8))}"
  using member_object [OF assms] by (simp add: colored_def sprout_hdr_of_def)

section \<open>Marking keeps the heap\<close>

lemma slot_payload_no_object:
  assumes ok: "regions_ok lineage m rs" and b: "heap_slot lineage m rs b k" and ob: "object_at lineage m rs a n"
  shows "b + 8 \<noteq> a"
proof (cases "large_at rs a n")
  case False
  then show ?thesis using heap_payload_not_header [OF ok b] ob by (auto simp: object_at_alt)
next
  case True
  then obtain q where q: "q \<in> set rs" "is_large q" "a = base q" by (auto simp: large_at_def)
  obtain r where r: "r \<in> set rs" "slot_in lineage m r b k" using b by (auto simp: heap_slot_def)
  have okr: "heap_region_ok lineage m r" "heap_region_ok lineage m q" using ok r(1) q(1) by (auto simp: regions_ok_def)
  have "unat (bump r) \<le> unat (cap r)" using okr(1) r(2) by (auto simp: heap_region_ok_def slot_in_def)
  then have "area r (b + 8)" using payload_addr [OF okr(1) r(2)] by (auto simp: area_def in_block_def)
  moreover have "area q a" using okr(2) q(3) by (auto simp: area_def in_block_def heap_region_ok_def region_ok_def unat_gt_0)
  moreover have "r \<noteq> q" using r(2) q(2) by (auto simp: slot_in_def)
  ultimately show ?thesis using regions_apart [of rs r q] ok r(1) q(1) below_disjoint by (auto simp: regions_ok_def)
qed

text \<open>Regions that differ in their counts and young map only.\<close>

definition same_map :: "region \<Rightarrow> region \<Rightarrow> bool" where
  "same_map r r' \<longleftrightarrow> same_place r r' \<and> slotmap r' = slotmap r"

lemma regions_cong:
  assumes "list_all2 same_map rs rs'"
  shows "heap_slot lineage m rs' = heap_slot lineage m rs" "large_at rs' = large_at rs" "regions_ok lineage m rs' = regions_ok lineage m rs"
    "bits_ok m rs' = bits_ok m rs" "(\<forall>r \<in> set rs'. is_large r \<longrightarrow> 16 \<le> unat (cap r)) = (\<forall>r \<in> set rs. is_large r \<longrightarrow> 16 \<le> unat (cap r))"
    "list_all2 same_span rs rs'"
proof -
  have len: "length rs' = length rs" and nth: "\<And>i. i < length rs \<Longrightarrow> same_place (rs ! i) (rs' ! i) \<and> slotmap (rs' ! i) = slotmap (rs ! i)"
    using assms by (auto simp: list_all2_conv_all_nth same_map_def)
  have ex: "(\<exists>r \<in> set rs'. P r) = (\<exists>r \<in> set rs. P r)" if "\<And>r r'. same_map r r' \<Longrightarrow> P r' = P r" for P
    using result_pairs [OF assms] that by metis
  then have all: "(\<forall>r \<in> set rs'. P r) = (\<forall>r \<in> set rs. P r)" if "\<And>r r'. same_map r r' \<Longrightarrow> P r' = P r" for P
    using ex [of "\<lambda>r. \<not> P r"] that by blast
  show hs: "heap_slot lineage m rs' = heap_slot lineage m rs" for lineage
    unfolding heap_slot_def by (intro ext ex) (simp add: same_map_def same_place_simps)
  show "large_at rs' = large_at rs"
    unfolding large_at_def by (intro ext ex) (simp add: same_map_def same_place_def)
  have "sorted_wrt below rs' = sorted_wrt below rs"
    using nth len by (simp add: sorted_wrt_iff_nth_less below_def same_place_def)
  moreover have "(\<forall>r \<in> set rs'. heap_region_ok lineage m r \<and> (\<not> is_large r \<longrightarrow> cap r = region_size)) =
      (\<forall>r \<in> set rs. heap_region_ok lineage m r \<and> (\<not> is_large r \<longrightarrow> cap r = region_size))"
    by (rule all) (metis same_map_def same_place_def same_place_simps(2))
  ultimately show "regions_ok lineage m rs' = regions_ok lineage m rs" unfolding regions_ok_def hs by simp
  show "bits_ok m rs' = bits_ok m rs"
    unfolding bits_ok_def hs by (rule all) (simp add: same_map_def same_place_def slotmap_test_def)
  show "(\<forall>r \<in> set rs'. is_large r \<longrightarrow> 16 \<le> unat (cap r)) = (\<forall>r \<in> set rs. is_large r \<longrightarrow> 16 \<le> unat (cap r))"
    by (rule all) (simp add: same_map_def same_place_def)
  show "list_all2 same_span rs rs'" by (rule list_all2_mono [OF assms]) (simp add: same_map_def same_place_def same_span_def)
qed

definition same_table :: "region_table \<Rightarrow> region_table \<Rightarrow> bool" where
  "same_table t t' \<longleftrightarrow> list_all2 same_map (g_regions t) (g_regions t') \<and> t' = t\<lparr>g_regions := g_regions t'\<rparr>"

lemma full_table:
  assumes full: "heap_full t s" and st: "same_table t t'"
  shows "heap_full t' s" "object_at False m (g_regions t') = object_at False m (g_regions t)"
proof -
  have rs: "list_all2 same_map (g_regions t) (g_regions t')" and t': "t' = t\<lparr>g_regions := g_regions t'\<rparr>" using st by (auto simp: same_table_def)
  note C = regions_cong [OF rs]
  have "table_inv t' = table_inv t"
    using table_inv_span [OF C(6), of "g_open_region_hint t"] t' by (metis region_table.surjective region_table.update_convs(1,5))
  moreover have "lists_ok False (g_regions t') s = lists_ok False (g_regions t) s" by (simp add: lists_ok_def free_slots_heap C(1))
  ultimately show "heap_full t' s" using full by (simp add: heap_full_def heap_inv_alt C)
  show "object_at False m (g_regions t') = object_at False m (g_regions t)"
    by (intro ext) (simp add: object_at_alt C)
qed

text \<open>Collector bits of object headers may change.\<close>

lemma full_headers:
  assumes full: "heap_full t s"
    and m: "\<And>a. m' a \<noteq> sw_mem s a \<Longrightarrow> (\<exists>n. object_at False (sw_mem s) (g_regions t) a n) \<and> same_identity (sw_mem s a) (m' a)"
  shows "heap_full t (s\<lparr>sw_mem := m'\<rparr>)" "object_at False m' (g_regions t) = object_at False (sw_mem s) (g_regions t)"
    "heap_slot False m' (g_regions t) = heap_slot False (sw_mem s) (g_regions t)"
proof -
  let ?m = "sw_mem s" and ?rs = "g_regions t"
  note F = full_facts [OF full]
  have id: "same_identity (?m a) (m' a)" for a using m [of a] by (cases "m' a = ?m a") (auto simp: same_identity_refl)
  have kd: "sprout_slot_step False (m' a) = sprout_slot_step False (?m a)" "sprout_hdr_kind (m' a) = sprout_hdr_kind (?m a)" for a
    using step_identity [OF id [of a]] id [of a] by (simp_all add: same_identity_def)
  have cell: "m' (b + 8) = ?m (b + 8)" if b: "heap_slot False ?m ?rs b k" for b k
  proof (rule ccontr)
    assume "m' (b + 8) \<noteq> ?m (b + 8)"
    then obtain n where "object_at False ?m ?rs (b + 8) n" using m by blast
    then show False using slot_payload_no_object [OF F(3) b] by blast
  qed
  note M = heap_inv_mem [OF F(1), of m']
  show hs: "heap_slot False m' ?rs = heap_slot False ?m ?rs" by (rule M(1)) (use kd cell in auto)
  have inv: "heap_inv False t (s\<lparr>sw_mem := m'\<rparr>)" by (rule M(2)) (use kd cell in auto)
  then show "heap_full t (s\<lparr>sw_mem := m'\<rparr>)" using full by (simp add: heap_full_def hs kd bits_ok_def)
  show "object_at False m' ?rs = object_at False ?m ?rs" by (intro ext) (simp add: object_at_alt hs is_object_def kd)
qed

lemma same_map_refl: "same_map r r"
  by (simp add: same_map_def same_place_def)

lemma same_map_trans: "same_map r r' \<Longrightarrow> same_map r' r'' \<Longrightarrow> same_map r r''"
  by (simp add: same_map_def same_place_def)

lemma same_table_refl: "same_table t t"
  by (simp add: same_table_def list_all2_refl same_map_refl)

lemma same_table_trans:
  assumes "same_table t t'" "same_table t' t''"
  shows "same_table t t''"
proof -
  have l: "list_all2 same_map (g_regions t) (g_regions t'')"
    by (rule list_all2_trans [OF same_map_trans]) (use assms in \<open>auto simp: same_table_def\<close>)
  have "t'' = t\<lparr>g_regions := g_regions t', g_regions := g_regions t''\<rparr>" using assms unfolding same_table_def by metis
  then show ?thesis using l by (simp add: same_table_def)
qed

lemma same_table_bump: "same_table t (bump_marked_young i t)"
proof -
  have "same_map (g_regions t ! i) ((g_regions t ! i)\<lparr>marked_young := n\<rparr>)" for n by (simp add: same_map_def same_place_def)
  then have "list_all2 same_map (g_regions t) ((g_regions t)[i := (g_regions t ! i)\<lparr>marked_young := n\<rparr>])" for n
    by (cases "i < length (g_regions t)") (auto simp: list_all2_conv_all_nth same_map_refl nth_list_update)
  then show ?thesis by (simp add: same_table_def bump_marked_young_def)
qed

lemma mark_ptr_table: "same_table (table g) (table (sprout_gc_mark_ptr p g))"
  by (auto simp: sprout_gc_mark_ptr_def gc_mark_enqueue_def Let_def same_table_refl same_table_bump split: option.splits prod.splits)

lemma drain_children_table: "gc_drain_children is p g = Inr g' \<Longrightarrow> same_table (table g) (table g')"
proof (induction "is" arbitrary: g)
  case (Cons i "is")
  then obtain w where "gc_drain_children is p (sprout_gc_mark_ptr w g) = Inr g'" by (auto simp: res_bind_eq_Inr)
  from Cons.IH [OF this] show ?case by (rule same_table_trans [OF mark_ptr_table])
qed (simp add: same_table_refl)

lemma drain_table: "sprout_gc_drain_marks g = Inr g' \<Longrightarrow> same_table (table g) (table g')"
proof (induction g rule: sprout_gc_drain_marks.induct)
  case (1 g)
  show ?case
  proof (cases "mark_wl g")
    case Nil
    then show ?thesis using 1(2) by (subst (asm) sprout_gc_drain_marks.simps) (simp add: same_table_refl)
  next
    case (Cons p rest)
    let ?g1 = "g\<lparr>mark_wl := rest\<rparr>"
    obtain g2 where g2: "gc_drain_children [0..<sprout_heap_child_count_payload ?g1 p] p ?g1 = Inr g2" "sprout_gc_drain_marks g2 = Inr g'"
      using 1(2) by (subst (asm) sprout_gc_drain_marks.simps) (auto simp: Cons Let_def res_bind_eq_Inr)
    have "same_table (table ?g1) (table g2)" by (rule drain_children_table [OF g2(1)])
    moreover have "same_table (table g2) (table g')" by (rule 1(1) [OF Cons refl refl g2])
    ultimately show ?thesis using same_table_trans by simp
  qed
qed

lemma phase_table: "gc_mark_phase minor ws g = Inr g' \<Longrightarrow> same_table (table g) (table g')"
proof -
  assume run: "gc_mark_phase minor ws g = Inr g'"
  define g1 where "g1 = fold sprout_gc_mark_ptr ws (g\<lparr>marked_count := 0\<rparr>)"
  have "same_table (table h) (table (fold sprout_gc_mark_ptr ws h))" for h
    by (induction ws arbitrary: h) (auto intro: same_table_refl same_table_trans [OF mark_ptr_table])
  then have "same_table (table g) (table g1)" unfolding g1_def by (metis gc.select_convs(2) gc.surjective gc.update_convs(6))
  moreover have "table (fold (\<lambda>p h. h\<lparr>mem := f p h, mark_wl := p # mark_wl h\<rparr>) ps h) = table h" for ps f and h :: gc
    by (induction ps arbitrary: h) simp_all
  then have "table (sprout_gc_mark_remembered g1) = table g1" by (simp add: sprout_gc_mark_remembered_def)
  then have "same_table (table g1) (table g')"
    using run drain_table by (cases minor) (auto simp: gc_mark_phase_def Let_def g1_def [symmetric] dest!: drain_table)
  ultimately show ?thesis by (rule same_table_trans)
qed

abbreviation gc_objs :: "gc \<Rightarrow> addr \<Rightarrow> nat \<Rightarrow> bool" where
  "gc_objs g \<equiv> object_at False (mem g) (g_regions (table g))"

lemma phase_full:
  assumes full: "heap_full (table g) (s\<lparr>sw_mem := mem g\<rparr>)" and run: "gc_mark_phase minor ws g = Inr g'" and sh: "same_heap g g'"
  shows "heap_full (table g') (s\<lparr>sw_mem := mem g'\<rparr>)" "gc_objs g' = gc_objs g"
proof -
  have m: "(\<exists>n. object_at False (mem g) (g_regions (table g)) a n) \<and> same_identity (mem g a) (mem g' a)" if "mem g' a \<noteq> mem g a" for a
    using sh that member_object [OF full, of "a + 8"] by (simp add: same_heap_def)
  note H = full_headers [OF full, of "mem g'"]
  have h: "heap_full (table g) (s\<lparr>sw_mem := mem g'\<rparr>)" "gc_objs g = object_at False (mem g') (g_regions (table g))"
    using H(1,2) m by simp_all
  show "heap_full (table g') (s\<lparr>sw_mem := mem g'\<rparr>)" "gc_objs g' = gc_objs g"
    using full_table [OF h(1) phase_table [OF run]] h(2) by simp_all
qed

section \<open>The full sweep keeps the heap\<close>

lemma slot_area: "regions_ok lineage m rs \<Longrightarrow> q \<in> set rs \<Longrightarrow> slot_in lineage m q a n \<Longrightarrow> area q a"
  using payload_addr(5) by (auto simp: regions_ok_def)

lemma area_unique: "sorted_wrt below rs \<Longrightarrow> r \<in> set rs \<Longrightarrow> q \<in> set rs \<Longrightarrow> area r x \<Longrightarrow> area q x \<Longrightarrow> r = q"
  using regions_apart below_disjoint by blast

lemma index_area:
  assumes "region_ok r" "cap r = region_size" "idx < 8 * slotmap_bytes"
  shows "area r (at (base r) (slot_gran * idx))"
proof -
  have "slot_gran * idx < unat (cap r)" using assms(2,3) by (simp add: slot_gran_def slotmap_bytes_def region_size_def)
  then show ?thesis using assms(1) unat_at [of "base r" "slot_gran * idx"] by (simp add: area_def in_block_def region_ok_def)
qed

lemma sweep_bits:
  assumes full: "heap_full t s" and sw: "sprout_gc_sweep k False frames on commit_ok mb t s = Inr (t', s')" and inv': "heap_inv False t' s'"
  shows "bits_ok (sw_mem s') (g_regions t')"
  unfolding bits_ok_def
proof (intro ballI impI)
  let ?m = "sw_mem s" and ?m' = "sw_mem s'"
  note F = full_facts [OF full]
  have rdy: "sweep_ready False t s" by (rule heap_inv_ready [OF F(1)])
  note S = sweep_heap_slots(1) [OF rdy sw]
  have ok': "regions_ok False ?m' (g_regions t')" using inv' by (simp add: heap_inv_alt)
  obtain rs s1 where ok: "pass1_ok k False ?m (\<lambda>_. []) (g_regions t) (s\<lparr>g_freelist := (\<lambda>_. 0), g_gc_freelist_len := 0\<rparr>) rs s1"
    and t': "set (g_regions t') = set (filter stays rs) \<or> (\<exists>b. set (g_regions t') = insert (fresh_region b) (set (filter stays rs)))"
    by (rule sweep_result [OF rdy sw])
  fix r' assume r': "r' \<in> set (g_regions t')" "\<not> is_large r'"
  have ok2: "region_ok r'" "cap r' = region_size" using ok' r' by (auto simp: regions_ok_def heap_region_ok_def)
  have home: "q = r'" if "q \<in> set (g_regions t')" "slot_in False ?m' q (at (base r') (slot_gran * idx)) n" "idx < 8 * slotmap_bytes" for q n idx
    using area_unique [OF _ that(1) r'(1) slot_area [OF ok' that(1,2)] index_area [OF ok2 that(3)]] ok' by (simp add: regions_ok_def)
  show "length (slotmap r') = slotmap_bytes \<and>
      (\<forall>idx < 8 * slotmap_bytes. slotmap_test r' idx \<longleftrightarrow> (\<exists>n. heap_slot False ?m' (g_regions t') (at (base r') (slot_gran * idx)) n))"
  proof (cases "\<exists>b. r' = fresh_region b")
    case True
    then obtain b where b: "r' = fresh_region b" by blast
    have "\<not> heap_slot False ?m' (g_regions t') (at (base r') (slot_gran * idx)) n" if i: "idx < 8 * slotmap_bytes" for idx n
    proof
      assume "heap_slot False ?m' (g_regions t') (at (base r') (slot_gran * idx)) n"
      then obtain q where q: "q \<in> set (g_regions t')" "slot_in False ?m' q (at (base r') (slot_gran * idx)) n" by (auto simp: heap_slot_def)
      then show False using home [OF q i] b fresh_no_slots by blast
    qed
    then show ?thesis by (simp add: b fresh_region_def slotmap_test_def slotmap_bytes_def)
  next
    case False
    then have rs: "r' \<in> set rs" "stays r'" using r'(1) t' by auto
    obtain r where r: "r \<in> set (g_regions t)" "region_result False ?m r r'" using result_pairs(1) [OF pass1_results [OF ok] rs(1)] by blast
    have l: "\<not> is_large r" and e: "slotmap r' = slotmap r" "base r' = base r" using r(2) r'(2) by (auto simp: region_result_def)
    have wk: "will_keep False ?m r" using rs(2) r(2) l by (auto simp: stays_def region_result_def)
    have okr: "region_ok r" "cap r = region_size" using F(4) [OF r(1)] F(5) [OF r(1) l] by (auto simp: heap_region_ok_def)
    have same: "heap_slot False ?m' (g_regions t') (at (base r) (slot_gran * idx)) n = heap_slot False ?m (g_regions t) (at (base r) (slot_gran * idx)) n"
      if i: "idx < 8 * slotmap_bytes" for idx n
    proof
      show "heap_slot False ?m' (g_regions t') (at (base r) (slot_gran * idx)) n \<Longrightarrow> heap_slot False ?m (g_regions t) (at (base r) (slot_gran * idx)) n"
        using S [of "at (base r) (slot_gran * idx)" n] unfolding heap_slot_def [of False ?m "g_regions t"] by blast
      assume "heap_slot False ?m (g_regions t) (at (base r) (slot_gran * idx)) n"
      then obtain q where q: "q \<in> set (g_regions t)" "slot_in False ?m q (at (base r) (slot_gran * idx)) n" by (auto simp: heap_slot_def)
      have "q = r"
        using area_unique [OF _ q(1) r(1) slot_area [OF F(3) q] index_area [OF okr i]] F(3) by (simp add: regions_ok_def)
      then show "heap_slot False ?m' (g_regions t') (at (base r) (slot_gran * idx)) n" unfolding S using q r(1) wk by blast
    qed
    have "length (slotmap r) = slotmap_bytes" "\<forall>idx < 8 * slotmap_bytes. slotmap_test r idx = (\<exists>n. heap_slot False ?m (g_regions t) (at (base r) (slot_gran * idx)) n)"
      using F(8) r(1) l by (simp_all add: bits_ok_def)
    then show ?thesis using same by (simp add: e slotmap_test_def)
  qed
qed

lemma sweep_full:
  assumes full: "heap_full t s" and sw: "sprout_gc_sweep k False frames on commit_ok mb t s = Inr (t', s')"
    and mb: "\<And>b. mb = Some b \<Longrightarrow> malloc_fresh (fst (sweep_passes k False frames on t s)) b region_size"
  shows "heap_full t' s'"
    "object_at False (sw_mem s') (g_regions t') a n \<longleftrightarrow> object_at False (sw_mem s) (g_regions t) a n \<and> hdr_color (sw_mem s a)"
proof -
  let ?m = "sw_mem s" and ?m' = "sw_mem s'"
  note F = full_facts [OF full]
  have rdy: "sweep_ready False t s" by (rule heap_inv_ready [OF F(1)])
  note S = sweep_heap_slots [OF rdy sw]
  have inv': "heap_inv False t' s'" by (rule sweep_heap(1) [OF F(1) sw mb])
  show "object_at False ?m' (g_regions t') a n \<longleftrightarrow> object_at False ?m (g_regions t) a n \<and> hdr_color (?m a)"
    by (rule sweep_heap(2) [OF F(1) sw mb])
  have "sprout_hdr_kind (?m' a) \<noteq> HEAP_POISON" if h: "heap_slot False ?m' (g_regions t') a n" for a n
  proof -
    have "heap_slot False ?m (g_regions t) a n" using h S(1) [of a n] unfolding heap_slot_def [of False ?m "g_regions t"] by blast
    then have "sprout_hdr_kind (?m a) \<noteq> HEAP_POISON" by (rule F(6))
    then show ?thesis
      unfolding S(2) [OF h] by (auto simp: new_hdr_def fate_of_def survivor_kind corpse_hdrs hdr_make_kind split: fate.split)
  qed
  moreover have "16 \<le> unat (cap r')" if r': "r' \<in> set (g_regions t')" "is_large r'" for r'
  proof -
    have "large_at (g_regions t') (base r') (unat (cap r'))" using r' by (auto simp: large_at_def)
    then have "large_at (g_regions t) (base r') (unat (cap r'))" using S(3) by blast
    then show ?thesis using F(7) by (auto simp: large_at_def)
  qed
  ultimately show "heap_full t' s'" using inv' sweep_bits [OF full sw inv'] by (simp add: heap_full_def)
qed

text \<open>What survives is intact.\<close>

definition intact_object :: "(addr \<Rightarrow> 64 word) \<Rightarrow> (addr \<Rightarrow> 64 word) \<Rightarrow> addr \<Rightarrow> nat \<Rightarrow> bool" where
  "intact_object m m' a n \<longleftrightarrow> same_identity (m a) (m' a) \<and> (\<forall>x. unat a < unat x \<longrightarrow> unat x < unat a + n \<longrightarrow> m' x = m x)"

lemma sweep_intact:
  assumes full: "heap_full t s" and sw: "sprout_gc_sweep k False frames on commit_ok mb t s = Inr (t', s')"
    and ob: "object_at False (sw_mem s) (g_regions t) a n" "hdr_color (sw_mem s a)"
  shows "intact_object (sw_mem s) (sw_mem s') a n" "hdr_color (sw_mem s' a) = k"
proof -
  let ?m = "sw_mem s" and ?m' = "sw_mem s'"
  note F = full_facts [OF full]
  have rdy: "sweep_ready False t s" by (rule heap_inv_ready [OF F(1)])
  have "intact_object ?m ?m' a n \<and> hdr_color (?m' a) = k"
  proof (cases "large_at (g_regions t) a n")
    case True
    then obtain r where r: "r \<in> set (g_regions t)" "is_large r" "a = base r" "n = unat (cap r)" by (auto simp: large_at_def)
    obtain rs s1 where ok: "pass1_ok k False ?m (\<lambda>_. []) (g_regions t) (s\<lparr>g_freelist := (\<lambda>_. 0), g_gc_freelist_len := 0\<rparr>) rs s1"
      and m: "?m' = sw_mem s1" by (rule sweep_result [OF rdy sw])
    have h: "?m' a = survivor_hdr k (?m a)" using ok r ob(2) by (simp add: pass1_ok_def m)
    have "\<forall>x. area r x \<longrightarrow> x \<noteq> base r \<longrightarrow> ?m' x = ?m x" using ok r(1,2) by (auto simp: pass1_ok_def region_intact_def m)
    then have "?m' x = ?m x" if "unat a < unat x" "unat x < unat a + n" for x
      using that r(3,4) by (cases "x = a") (simp_all add: area_def in_block_def)
    then show ?thesis using h survivor_identity survivor_color [OF ob(2)] by (simp add: intact_object_def)
  next
    case False
    then obtain r where r: "r \<in> set (g_regions t)" "slot_in False ?m r a n" "is_object (?m a)" using ob(1) by (auto simp: object_at_alt heap_slot_def)
    obtain off where o: "off \<in> set (region_slots False ?m r)" "a = at (base r) off" "n = step_at False ?m (base r) off" "unat a = unat (base r) + off"
      by (rule slot_in_bounds [OF F(4) [OF r(1)] r(2)])
    have l: "\<not> is_large r" using r(2) by (simp add: slot_in_def)
    have "is_object (?m' a)" using sweep_keeps(2) [OF rdy sw r(1) l o(1)] r(3) ob(2) o(2) by simp
    then have K: "same_identity (?m a) (?m' a)" "hdr_color (?m' a) = k"
      "\<forall>x. in_block (base r) off n x \<longrightarrow> x \<noteq> a \<longrightarrow> ?m' x = ?m x"
      using sweep_keeps(3) [OF rdy sw r(1) l o(1)] by (simp_all add: o(2,3))
    have "?m' x = ?m x" if "unat a < unat x" "unat x < unat a + n" for x
      using K(3) that o(4) by (cases "x = a") (simp_all add: in_block_def)
    then show ?thesis using K(1,2) by (simp add: intact_object_def)
  qed
  then show "intact_object ?m ?m' a n" "hdr_color (?m' a) = k" by auto
qed

end
