(* ===== verification/Gc_Live.thy ===== *)
theory Gc_Live
  imports Gc_Collect
begin

unbundle bit_operations_syntax

text \<open>
  What a collection keeps, with the marker and the sweep on the same heap: which cells belong to an object, that the clearing
  walk and the marking change collector bits only, and what the full sweep leaves of the objects.
\<close>

section \<open>Fields lie in their object or outside the heap\<close>

text \<open>The buffers of vectors and builders are blocks of \<^verbatim>\<open>malloc\<close>; all other cells the collector reads lie in the object.\<close>

definition fields_ok :: "gc \<Rightarrow> bool" where
  "fields_ok g \<longleftrightarrow> (\<forall>q n x. gc_objs g (q - 8) n \<longrightarrow> x \<in> content_cells g q \<longrightarrow>
     unat (q - 8) < unat x \<and> unat x < unat (q - 8) + n \<or> (\<forall>r \<in> set (g_regions (table g)). \<not> area r x))"

lemma object_block:
  assumes full: "heap_full t s" and ob: "object_at False (sw_mem s) (g_regions t) a n"
  shows "16 \<le> n" "\<exists>r \<in> set (g_regions t). \<forall>x. unat a \<le> unat x \<longrightarrow> unat x < unat a + n \<longrightarrow> area r x"
proof -
  note F = full_facts [OF full]
  have "16 \<le> n \<and> (\<exists>r \<in> set (g_regions t). \<forall>x. unat a \<le> unat x \<longrightarrow> unat x < unat a + n \<longrightarrow> area r x)"
  proof (cases "large_at (g_regions t) a n")
    case True
    then show ?thesis using F(7) by (auto simp: large_at_def area_def in_block_def)
  next
    case False
    then obtain r where r: "r \<in> set (g_regions t)" "slot_in False (sw_mem s) r a n" using ob by (auto simp: object_at_alt heap_slot_def)
    obtain off where "unat a = unat (base r) + off" "16 \<le> n" "off + n \<le> unat (bump r)" "unat (bump r) \<le> unat (cap r)"
      by (rule slot_in_bounds [OF F(4) [OF r(1)] r(2)])
    then show ?thesis by (intro conjI bexI [OF _ r(1)]) (auto simp: area_def in_block_def)
  qed
  then show "16 \<le> n" "\<exists>r \<in> set (g_regions t). \<forall>x. unat a \<le> unat x \<longrightarrow> unat x < unat a + n \<longrightarrow> area r x" by blast+
qed

lemma large_area:
  assumes "heap_full t s" "large_at (g_regions t) b k"
  obtains q where "q \<in> set (g_regions t)" "is_large q" "b = base q" "area q b"
proof -
  obtain q where q: "q \<in> set (g_regions t)" "is_large q" "b = base q" using assms(2) by (auto simp: large_at_def)
  have "region_ok q" using full_facts(4) [OF assms(1) q(1)] by (simp add: heap_region_ok_def)
  then show thesis using that [OF q] q(3) by (auto simp: area_def in_block_def region_ok_def unat_gt_0)
qed

text \<open>No header lies inside an object.\<close>

lemma header_not_inside:
  assumes full: "heap_full t s" and ob: "object_at False (sw_mem s) (g_regions t) a n"
    and h: "heap_slot False (sw_mem s) (g_regions t) b k \<or> large_at (g_regions t) b k"
  shows "\<not> (unat a < unat b \<and> unat b < unat a + n)"
proof (cases "heap_slot False (sw_mem s) (g_regions t) b k \<and> \<not> large_at (g_regions t) a n")
  case True
  then have "heap_slot False (sw_mem s) (g_regions t) a n" using ob by (auto simp: object_at_alt)
  then show ?thesis using heap_slots_apart [OF full_facts(3) [OF full], of a n b k] True by fastforce
next
  case False
  note F = full_facts [OF full]
  have so: "sorted_wrt below (g_regions t)" using F(3) by (simp add: regions_ok_def)
  obtain r where r: "r \<in> set (g_regions t)" "\<forall>x. unat a \<le> unat x \<longrightarrow> unat x < unat a + n \<longrightarrow> area r x" using object_block(2) [OF full ob] by blast
  obtain q where q: "q \<in> set (g_regions t)" "area q b" "is_large q \<longrightarrow> b = base q"
  proof -
    show thesis
    proof (cases "large_at (g_regions t) b k")
      case True
      show thesis by (rule large_area [OF full True]) (use that in blast)
    next
      case False
      then obtain q where q: "q \<in> set (g_regions t)" "slot_in False (sw_mem s) q b k" using h by (auto simp: heap_slot_def)
      then show thesis using that [of q] slot_area [OF F(3)] by (auto simp: slot_in_def)
    qed
  qed
  show ?thesis
  proof
    assume b: "unat a < unat b \<and> unat b < unat a + n"
    then have rq: "r = q" using area_unique [OF so r(1) q(1) _ q(2)] r(2) by simp
    have ar: "area r a" using r(2) object_block(1) [OF full ob] by simp
    show False
    proof (cases "is_large r")
      case True
      then show False using b ar q(3) rq by (auto simp: area_def in_block_def)
    next
      case nl: False
      have "\<not> large_at (g_regions t) a n"
      proof
        assume "large_at (g_regions t) a n"
        then obtain p where p: "p \<in> set (g_regions t)" "is_large p" "area p a" by (rule large_area [OF full])
        then have "p = r" using area_unique [OF so p(1) r(1) _ ar] by blast
        then show False using p(2) nl by blast
      qed
      then have "large_at (g_regions t) b k" using False h by blast
      then obtain p where p: "p \<in> set (g_regions t)" "is_large p" "area p b" by (rule large_area [OF full])
      then have "p = r" using area_unique [OF so p(1) r(1)] q(2) rq by blast
      then show False using p(2) nl by blast
    qed
  qed
qed

lemma fields_wf:
  assumes full: "heap_full (table g) s" and m: "sw_mem s = mem g" and f: "fields_ok g"
  shows "Gc_Heap.heap_wf g"
  unfolding Gc_Heap.heap_wf_def
proof (intro conjI allI impI)
  note F = full_facts [OF full]
  have hdr_area: "\<exists>r \<in> set (g_regions (table g)). area r (p - 8)" if sl: "slot_at g p" for p
  proof -
    obtain n where n: "heap_slot False (mem g) (g_regions (table g)) (p - 8) n \<or> large_at (g_regions (table g)) (p - 8) n"
      using sl slot_at_iff [OF full m] by blast
    show ?thesis
    proof (cases "large_at (g_regions (table g)) (p - 8) n")
      case True
      show ?thesis by (rule large_area [OF full True]) blast
    next
      case False
      then show ?thesis using n slot_area [OF F(3)] by (auto simp: heap_slot_def m)
    qed
  qed
  show "\<not> member g 0"
  proof
    assume "member g 0"
    then obtain i where i: "region_find (table g) 0 = Some i" by (auto simp: member_slot_at slot_at_def split: option.splits)
    then have "i < length (g_regions (table g))" "in_region (g_regions (table g) ! i) 0" using region_find_iff [OF F(2), of 0 i] by auto
    moreover have "region_ok (g_regions (table g) ! i)" using calculation(1) F(4) by (simp add: heap_region_ok_def)
    ultimately show False by (simp add: in_region_def region_ok_def unat_eq_zero)
  qed
  show "p - 8 \<notin> content_cells g q" if p: "slot_at g p" and q: "member g q" for p q
  proof
    assume c: "p - 8 \<in> content_cells g q"
    obtain n where n: "gc_objs g (q - 8) n" using q member_object [OF full m] by blast
    obtain k where k: "heap_slot False (mem g) (g_regions (table g)) (p - 8) k \<or> large_at (g_regions (table g)) (p - 8) k"
      using p slot_at_iff [OF full m] by blast
    have "unat (q - 8) < unat (p - 8) \<and> unat (p - 8) < unat (q - 8) + n \<or> (\<forall>r \<in> set (g_regions (table g)). \<not> area r (p - 8))"
      using f n c unfolding fields_ok_def by blast
    then show False using header_not_inside [OF full, unfolded m, OF n k] hdr_area [OF p] by blast
  qed
qed

section \<open>Clearing and resetting\<close>

lemma clear_bits:
  "same_identity h (h AND NOT gc_clear_bits)" "\<not> hdr_color (h AND NOT gc_clear_bits)" "\<not> hdr_remembered (h AND NOT gc_clear_bits)"
  "(h AND NOT gc_clear_bits) AND NOT gc_clear_bits = h AND NOT gc_clear_bits"
proof -
  have e: "h AND NOT gc_clear_bits = (h AND NOT gc_color_bit) AND NOT gc_remembered_bit"
    by (simp add: gc_clear_bits_def bit.de_Morgan_disj and.assoc)
  show "same_identity h (h AND NOT gc_clear_bits)"
    unfolding e using same_identity_trans [OF clear_color(1) clear_remembered(1)] by blast
  show "\<not> hdr_color (h AND NOT gc_clear_bits)" unfolding e by (simp add: clear_remembered clear_color)
  show "\<not> hdr_remembered (h AND NOT gc_clear_bits)" unfolding e by (simp add: clear_remembered)
  show "(h AND NOT gc_clear_bits) AND NOT gc_clear_bits = h AND NOT gc_clear_bits" by (simp add: and.assoc)
qed

lemma identity_step:
  assumes "\<And>a. same_identity (m a) (m' a)"
  shows "slot_offs lineage m' b bmp off = slot_offs lineage m b bmp off"
  by (rule slot_offs_cong) (simp add: step_identity [OF assms])

lemma clear_slots_eq:
  "clear_slots lineage b bmp off m x =
     (if (\<exists>o1 \<in> set (slot_offs lineage m b bmp off). x = at b o1) \<and> is_object (m x) then m x AND NOT gc_clear_bits else m x)"
proof (induction lineage b bmp off m arbitrary: x rule: clear_slots.induct)
  case (1 lineage b bmp off m)
  show ?case
  proof (cases "off < bmp")
    case False
    then show ?thesis by (subst clear_slots.simps, subst slot_offs.simps) simp
  next
    case True
    let ?h = "m (at b off)" and ?n = "unat (sprout_slot_step lineage (m (at b off)))"
    define m1 where "m1 = (if sprout_hdr_kind ?h \<noteq> HEAP_FREE \<and> sprout_hdr_kind ?h \<noteq> HEAP_POISON then m(at b off := ?h AND NOT gc_clear_bits) else m)"
    have id: "same_identity (m a) (m1 a)" for a by (simp add: m1_def clear_bits(1) same_identity_refl)
    have io: "is_object (m1 a) = is_object (m a)" for a using id [of a] by (simp add: is_object_def same_identity_def)
    have offs: "slot_offs lineage m b bmp off = off # slot_offs lineage m b bmp (off + ?n)" using True by (subst slot_offs.simps) simp
    have "clear_slots lineage b bmp off m x = clear_slots lineage b bmp (off + ?n) m1 x"
      using True by (subst clear_slots.simps) (simp add: m1_def Let_def)
    also have "\<dots> = (if (\<exists>o1 \<in> set (slot_offs lineage m b bmp (off + ?n)). x = at b o1) \<and> is_object (m x) then m1 x AND NOT gc_clear_bits else m1 x)"
      using 1 [OF True refl refl] unfolding m1_def [symmetric] identity_step [OF id] io by simp
    also have "\<dots> = (if (\<exists>o1 \<in> set (slot_offs lineage m b bmp off). x = at b o1) \<and> is_object (m x) then m x AND NOT gc_clear_bits else m x)"
      unfolding offs by (cases "x = at b off") (auto simp: m1_def is_object_def clear_bits(4))
    finally show ?thesis .
  qed
qed

text \<open>The clearing walk clears the bits of every object and changes nothing else.\<close>

lemma clear_region_eq:
  "clear_region lineage r m x =
     (if is_large r \<and> x = base r \<or> (\<exists>n. slot_in lineage m r x n) \<and> is_object (m x) then m x AND NOT gc_clear_bits else m x)"
  by (auto simp: clear_region_def clear_slots_eq slot_in_def region_slots_def)

lemma clear_fold:
  "fold (clear_region lineage) rs m x = (if \<exists>n. object_at lineage m rs x n then m x AND NOT gc_clear_bits else m x)"
proof (induction rs arbitrary: m)
  case Nil
  show ?case by (simp add: object_at_def)
next
  case (Cons r rs)
  let ?m = "clear_region lineage r m"
  have id: "same_identity (m a) (?m a)" for a by (simp add: clear_region_eq clear_bits(1) same_identity_refl)
  have io: "is_object (?m a) = is_object (m a)" for a using id [of a] by (simp add: is_object_def same_identity_def)
  have "slot_in lineage ?m q a n = slot_in lineage m q a n" for q a n
    by (simp add: slot_in_def region_slots_def identity_step [OF id] step_identity [OF id])
  then have "object_at lineage ?m rs a n = object_at lineage m rs a n" for a n
    by (simp add: object_at_def io)
  then have "fold (clear_region lineage) (r # rs) m x = (if \<exists>n. object_at lineage m rs x n then ?m x AND NOT gc_clear_bits else ?m x)"
    using Cons by simp
  moreover have "(\<exists>n. object_at lineage m (r # rs) x n) \<longleftrightarrow>
      (is_large r \<and> x = base r \<or> (\<exists>n. slot_in lineage m r x n) \<and> is_object (m x)) \<or> (\<exists>n. object_at lineage m rs x n)"
    by (auto simp: object_at_def)
  moreover have "?m x = (if is_large r \<and> x = base r \<or> (\<exists>n. slot_in lineage m r x n) \<and> is_object (m x) then m x AND NOT gc_clear_bits else m x)"
    by (rule clear_region_eq)
  ultimately show ?case by (auto simp only: clear_bits(4) split: if_splits)
qed

lemma clear_marks:
  assumes full: "heap_full (table g) (s\<lparr>sw_mem := mem g\<rparr>)" and g': "g' = sprout_gc_clear_marks False g"
  shows "same_heap g g'" "colored g' = {}" "table g' = table g" "remembered g' = []" "mark_wl g' = mark_wl g" "gen g' = gen g"
proof -
  have m: "mem g' a = (if \<exists>n. gc_objs g a n then mem g a AND NOT gc_clear_bits else mem g a)" for a
    by (simp add: g' sprout_gc_clear_marks_def clear_fold)
  show t: "table g' = table g" "remembered g' = []" "mark_wl g' = mark_wl g" "gen g' = gen g" by (simp_all add: g' sprout_gc_clear_marks_def)
  have ob: "member g (a + 8) \<longleftrightarrow> (\<exists>n. gc_objs g a n)" for a using member_object [OF full, of "a + 8"] by simp
  show sh: "same_heap g g'" by (auto simp: same_heap_def t m ob clear_bits(1))
  have "\<not> hdr_color (mem g' (p - 8))" if "member g p" for p using ob [of "p - 8"] that by (simp add: m clear_bits(2))
  then show "colored g' = {}" by (auto simp: colored_def same_heap_member [OF sh] sprout_hdr_of_def)
qed

lemma nth_outside: "length xs = length ys \<Longrightarrow> length xs \<le> i \<Longrightarrow> xs ! i = ys ! i"
  by (induction xs ys arbitrary: i rule: list_induct2) (auto simp: nth_Cons')

lemma table_same_heap:
  assumes st: "same_table (table g) (table g')" and inv: "table_inv (table g)" "table_inv (table g')" and m: "mem g' = mem g"
  shows "same_heap g g'"
proof -
  let ?rs = "g_regions (table g)" and ?rs' = "g_regions (table g')"
  have len: "length ?rs' = length ?rs" and nth: "\<And>i. i < length ?rs \<Longrightarrow> same_map (?rs ! i) (?rs' ! i)"
    using st by (auto simp: same_table_def list_all2_conv_all_nth)
  have "region_find (table g') p = Some i \<longleftrightarrow> region_find (table g) p = Some i" for p i
    unfolding region_find_iff [OF inv(1)] region_find_iff [OF inv(2)] len
    using nth [of i] by (auto simp: in_region_def same_map_def same_place_def)
  then have f: "region_find (table g') p = region_find (table g) p" for p by (metis option.exhaust)
  have "same_map (?rs ! i) (?rs' ! i)" for i
    using nth [of i] nth_outside [OF len, of i] len by (cases "i < length ?rs") (simp_all add: same_map_refl)
  then show ?thesis by (simp add: same_heap_def f m same_map_def same_place_def)
qed

lemma reset_table: "same_table (table g) (table (reset_marked_young g))"
  by (simp add: same_table_def reset_marked_young_def list_all2_conv_all_nth same_map_def same_place_def)

lemma reach_same:
  assumes "same_heap g g'" "Gc_Heap.heap_wf g"
  shows "reach g' W = reach g W"
proof -
  have m: "member g' = member g" by (rule same_heap_member [OF assms(1)])
  have s: "succs g' p = succs g p" if "member g p" for p by (rule same_heap_succs(2) [OF assms that])
  have "p \<in> reach g W" if "p \<in> reach g' W" for p
    using that by induction (auto simp: m intro: reach.root, metis m s reach.step reach_member)
  moreover have "p \<in> reach g' W" if "p \<in> reach g W" for p
    using that
  proof induction
    case (step p q)
    then show ?case using s [OF reach_member [OF step(1)]] by (metis reach.step)
  qed (auto simp: m intro: reach.root)
  ultimately show ?thesis by blast
qed

lemma same_heap_colored: "same_heap g g' \<Longrightarrow> mem g' = mem g \<Longrightarrow> colored g' = colored g"
  by (simp add: colored_def same_heap_member sprout_hdr_of_def)

lemma prepared:
  assumes full: "heap_full (table g) (s\<lparr>sw_mem := mem g\<rparr>)" and g2: "g2 = gc_prepare False minor g"
  shows "same_heap g g2" "heap_full (table g2) (s\<lparr>sw_mem := mem g2\<rparr>)" "gc_objs g2 = gc_objs g" "mark_wl g2 = mark_wl g" "gen g2 = gen g"
    "minor \<Longrightarrow> mem g2 = mem g" "minor \<Longrightarrow> remembered g2 = remembered g"
    "\<not> minor \<Longrightarrow> gen_on (gen g) \<and> \<not> colorless (gen g) \<or> colored g = {} \<Longrightarrow> colored g2 = {}"
    "list_all2 (\<lambda>r r'. same_map r r' \<and> youngmap r' = youngmap r \<and> young_count r' = young_count r) (g_regions (table g)) (g_regions (table g2))"
proof -
  define g1 where "g1 = (if gen_on (gen g) \<and> \<not> minor \<and> \<not> colorless (gen g) then sprout_gc_clear_marks False g else g)"
  note C = clear_marks [OF full refl]
  have t1: "table g1 = table g" "mark_wl g1 = mark_wl g" "gen g1 = gen g" by (simp_all add: g1_def C)
  have sh1: "same_heap g g1" by (simp add: g1_def C(1))
  have e: "g2 = (if gen_on (gen g) then reset_marked_young g1 else g1)" by (simp add: g2 gc_prepare_def g1_def Let_def)
  have mm: "(\<exists>n. gc_objs g a n) \<and> same_identity (mem g a) (mem g1 a)" if "mem g1 a \<noteq> mem g a" for a
    using sh1 that member_object [OF full, of "a + 8"] by (simp add: same_heap_def)
  note H = full_headers [OF full, of "mem g1", simplified, OF mm [simplified]]
  have m2: "mem g2 = mem g1" "mark_wl g2 = mark_wl g1" "gen g2 = gen g1" "remembered g2 = remembered g1" by (simp_all add: e reset_marked_young_def)
  have st: "same_table (table g) (table g2)" using reset_table [of g1] t1(1) by (simp add: e same_table_refl)
  note T = full_table [OF H(1) st]
  show "heap_full (table g2) (s\<lparr>sw_mem := mem g2\<rparr>)" using T(1) by (simp add: m2)
  show "gc_objs g2 = gc_objs g" using T(2) [of "mem g1"] H(2) by (simp add: m2)
  have "same_heap g1 g2"
    by (rule table_same_heap) (use st t1(1) full_facts(2) [OF full] full_facts(2) [OF T(1)] m2(1) in simp_all)
  then show sh: "same_heap g g2" by (rule same_heap_trans [OF sh1])
  show "mark_wl g2 = mark_wl g" "gen g2 = gen g" using m2 t1 by simp_all
  show "mem g2 = mem g" "remembered g2 = remembered g" if minor using that by (simp_all add: m2 g1_def)
  show "colored g2 = {}" if "\<not> minor" "gen_on (gen g) \<and> \<not> colorless (gen g) \<or> colored g = {}"
  proof -
    have "colored g1 = {}" using that C(2) by (auto simp: g1_def)
    then show ?thesis using same_heap_colored [OF \<open>same_heap g1 g2\<close> m2(1)] by simp
  qed
  show "list_all2 (\<lambda>r r'. same_map r r' \<and> youngmap r' = youngmap r \<and> young_count r' = young_count r) (g_regions (table g)) (g_regions (table g2))"
    by (simp add: e reset_marked_young_def t1(1) list_all2_conv_all_nth same_map_def same_place_def)
qed

lemma prepared_gen:
  assumes inv: "gen_inv g" and sh: "same_heap g g2" and e: "mem g2 = mem g" "remembered g2 = remembered g" "mark_wl g2 = mark_wl g"
  shows "gen_inv g2"
proof -
  have wf: "Gc_Heap.heap_wf g" using inv by (simp add: gen_inv_def)
  have c: "colored g2 = colored g" by (rule same_heap_colored [OF sh e(1)])
  have sx: "succs g2 p = succs g p" if "p \<in> colored g" for p
    using same_heap_succs(2) [OF sh wf] that by (simp add: colored_def)
  show ?thesis
    using inv same_heap_wf [OF sh wf] sx unfolding gen_inv_def c e same_heap_member [OF sh] by (simp add: sprout_hdr_of_def e(1))
qed

lemma intact_trans: "intact_object m m' a n \<Longrightarrow> intact_object m' m'' a n \<Longrightarrow> intact_object m m'' a n"
  unfolding intact_object_def by (metis same_identity_trans)

text \<open>Changes of collector bits leave the payloads alone.\<close>

lemma headers_intact:
  assumes full: "heap_full (table g) (s\<lparr>sw_mem := mem g\<rparr>)" and sh: "same_heap g g'" and ob: "gc_objs g a n"
  shows "intact_object (mem g) (mem g') a n"
  unfolding intact_object_def
proof (intro conjI allI impI)
  show "same_identity (mem g a) (mem g' a)" by (rule same_heap_identity [OF sh])
  fix x :: addr assume x: "unat a < unat x" "unat x < unat a + n"
  show "mem g' x = mem g x"
  proof (rule ccontr)
    assume "mem g' x \<noteq> mem g x"
    then obtain k where "gc_objs g x k" using sh member_object [OF full, of "x + 8"] by (auto simp: same_heap_def)
    then show False using header_not_inside [OF full, of a n x k] ob x by (auto simp: object_at_alt)
  qed
qed

lemma sweep_fails:
  assumes "sprout_gc_sweep k lineage frames on commit_ok mb t s = Inl e"
  shows "mb = None"
proof -
  obtain t2 s2 where p: "sweep_passes k lineage frames on t s = (t2, s2)" by (rule prod.exhaust)
  show ?thesis
    using assms open_new_region_fails [of commit_ok mb t2]
    by (cases "open_new_region commit_ok mb t2") (auto simp: sprout_gc_sweep_def p split: if_splits)
qed

end
