(* ===== verification/Gc_Major.thy ===== *)
theory Gc_Major
  imports Gc_Live
begin

unbundle bit_operations_syntax

text \<open>
  Major collections as a whole, marking and sweeping one heap.
\<close>

section \<open>Marking and the full sweep\<close>

text \<open>The state after the generational record of a collection, and the sweep that follows it.\<close>

definition recorded :: "bool \<Rightarrow> gc \<Rightarrow> gc" where
  "recorded minor g = (if gen_on (gen g) then g\<lparr>gen := sprout_gc_gen_record minor (marked_count g) (gen g)\<rparr> else g)"

definition keep_color :: "gc \<Rightarrow> bool" where
  "keep_color g \<longleftrightarrow> gen_on (gen g) \<and> \<not> colorless (gen g)"

lemma gen_record_on [simp]: "gen_on (sprout_gc_gen_record minor n g) = gen_on g"
  by (simp add: sprout_gc_gen_record_def Let_def)

lemma recorded_simps [simp]:
  "mem (recorded minor g) = mem g" "table (recorded minor g) = table g" "gen_on (gen (recorded minor g)) = gen_on (gen g)"
  by (simp_all add: recorded_def)

text \<open>The table from which the sweep takes a region when none is left, after its two passes.\<close>

definition passes_table :: "(addr \<Rightarrow> addr \<times> 64 word) \<Rightarrow> sval list \<Rightarrow> gc \<Rightarrow> sweep \<Rightarrow> region_table" where
  "passes_table frames ws g s =
     (case gc_mark_phase False ws (gc_prepare False False g) of
        Inl _ \<Rightarrow> table g
      | Inr g3 \<Rightarrow> fst (sweep_passes (keep_color (recorded False g3)) False frames (gen_on (gen g)) (table g3) (s\<lparr>sw_mem := mem g3\<rparr>)))"

text \<open>Marking leaves the generational state alone.\<close>

lemma mark_ptr_gen: "gen (sprout_gc_mark_ptr p g) = gen g"
  by (simp add: sprout_gc_mark_ptr_def gc_mark_enqueue_def Let_def split: option.split prod.split)

lemma drain_children_gen: "gc_drain_children is p g = Inr g' \<Longrightarrow> gen g' = gen g"
proof (induction "is" arbitrary: g)
  case (Cons i "is")
  then obtain w where "gc_drain_children is p (sprout_gc_mark_ptr w g) = Inr g'" by (auto simp: res_bind_eq_Inr)
  from Cons.IH [OF this] show ?case by (simp add: mark_ptr_gen)
qed simp

lemma drain_gen: "sprout_gc_drain_marks g = Inr g' \<Longrightarrow> gen g' = gen g"
proof (induction g rule: sprout_gc_drain_marks.induct)
  case (1 g)
  show ?case
  proof (cases "mark_wl g")
    case Nil
    then show ?thesis using 1(2) by (simp add: sprout_gc_drain_marks.simps [of g])
  next
    case (Cons p rest)
    let ?g1 = "g\<lparr>mark_wl := rest\<rparr>"
    obtain g2 where g2: "gc_drain_children [0..<sprout_heap_child_count_payload ?g1 p] p ?g1 = Inr g2" "sprout_gc_drain_marks g2 = Inr g'"
      using 1(2) unfolding sprout_gc_drain_marks.simps [of g] Cons list.case Let_def res_bind_eq_Inr by blast
    show ?thesis using 1(1) [OF Cons refl refl g2] drain_children_gen [OF g2(1)] by simp
  qed
qed

lemma major_phase_gen: "gc_mark_phase False ws g = Inr g' \<Longrightarrow> gen g' = gen g"
proof -
  assume "gc_mark_phase False ws g = Inr g'"
  moreover have "gen (fold sprout_gc_mark_ptr ws h) = gen h" for h by (induction ws arbitrary: h) (simp_all add: mark_ptr_gen)
  ultimately show ?thesis using drain_gen by (fastforce simp: gc_mark_phase_def)
qed

lemma major_cycle:
  assumes "\<not> (gen_on (gen g) \<and> sprout_gc_gen_choose_minor reason (gen g))"
    and "gc_mark_phase False ws (gc_prepare False False g) = Inr g3" "gen g3 = gen g"
  shows "gc_cycle False frames ageprof commit_ok mb reason ws g s =
     res_map (\<lambda>(t', s'). ((recorded False g3)\<lparr>mem := sw_mem s', table := t'\<rparr>, s'))
       (sprout_gc_sweep (keep_color (recorded False g3)) False frames (gen_on (gen g)) commit_ok mb (table g3) (s\<lparr>sw_mem := mem g3\<rparr>))"
  using assms by (auto simp: gc_cycle_def Let_def recorded_def keep_color_def)

text \<open>A collection that is not a minor one: the heap without a mark, marked from the roots, and swept.\<close>

lemma major_marked:
  assumes full: "heap_full (table g) s" and m: "sw_mem s = mem g" and f: "fields_ok g" and wl: "mark_wl g = []"
    and c: "gen_on (gen g) \<and> \<not> colorless (gen g) \<or> colored g = {}"
  obtains g3 where "gc_mark_phase False ws (gc_prepare False False g) = Inr g3" "heap_full (table g3) (s\<lparr>sw_mem := mem g3\<rparr>)"
    "gc_objs g3 = gc_objs g" "colored g3 = reach g (set ws)" "same_heap g g3" "gen g3 = gen g"
proof -
  have full': "heap_full (table g) (s\<lparr>sw_mem := mem g\<rparr>)" using full m [symmetric] by simp
  define g2 where "g2 = gc_prepare False False g"
  note P = prepared [OF full' g2_def]
  have wf: "Gc_Heap.heap_wf g" by (rule fields_wf [OF full m f])
  have wf2: "Gc_Heap.heap_wf g2" by (rule same_heap_wf [OF P(1) wf])
  have "colored g2 = {}" using P(8) c by simp
  then obtain g3 where g3: "gc_mark_phase False ws g2 = Inr g3" "colored g3 = reach g2 (set ws)" "same_heap g2 g3"
    using major_mark [OF wf2, of ws] P(4) wl by auto
  note Q = phase_full [OF P(2) g3(1,3)]
  show thesis
  proof (rule that [of g3])
    show "colored g3 = reach g (set ws)" using g3(2) reach_same [OF P(1) wf] by simp
    show "same_heap g g3" by (rule same_heap_trans [OF P(1) g3(3)])
    show "gen g3 = gen g" using major_phase_gen [OF g3(1)] P(5) by simp
  qed (use g3(1) Q P(3) g2_def in simp_all)
qed

lemma major_collected:
  assumes full: "heap_full (table g) s" and m: "sw_mem s = mem g" and f: "fields_ok g" and wl: "mark_wl g = []"
    and c: "gen_on (gen g) \<and> \<not> colorless (gen g) \<or> colored g = {}"
    and major: "\<not> (gen_on (gen g) \<and> sprout_gc_gen_choose_minor reason (gen g))"
    and mb: "\<And>b. mb = Some b \<Longrightarrow> malloc_fresh (passes_table frames ws g s) b region_size"
    and run: "gc_cycle False frames ageprof commit_ok mb reason ws g s = Inr (g', s')"
  shows "heap_full (table g') s'" "sw_mem s' = mem g'" "member g' p \<longleftrightarrow> p \<in> reach g (set ws)"
    "gc_objs g' a n \<longleftrightarrow> gc_objs g a n \<and> a + 8 \<in> reach g (set ws)" "gc_objs g' a n \<Longrightarrow> intact_object (mem g) (mem g') a n"
proof -
  obtain g3 where g3: "gc_mark_phase False ws (gc_prepare False False g) = Inr g3" "heap_full (table g3) (s\<lparr>sw_mem := mem g3\<rparr>)"
    "gc_objs g3 = gc_objs g" "colored g3 = reach g (set ws)" "same_heap g g3" "gen g3 = gen g"
    by (rule major_marked [OF full m f wl c])
  let ?k = "keep_color (recorded False g3)" and ?s3 = "s\<lparr>sw_mem := mem g3\<rparr>"
  obtain t' where sw: "sprout_gc_sweep ?k False frames (gen_on (gen g)) commit_ok mb (table g3) ?s3 = Inr (t', s')"
    and g': "g' = (recorded False g3)\<lparr>mem := sw_mem s', table := t'\<rparr>"
    using run unfolding major_cycle [OF major g3(1,6)] by (auto simp: res_map_def res_bind_eq_Inr)
  have mb': "malloc_fresh (fst (sweep_passes ?k False frames (gen_on (gen g)) (table g3) ?s3)) b region_size" if "mb = Some b" for b
    using mb [OF that] g3(1) by (simp add: passes_table_def)
  note S = sweep_full [OF g3(2) sw mb'] and I = sweep_intact [OF g3(2) sw]
  have t: "table g' = t'" "mem g' = sw_mem s'" by (simp_all add: g')
  show h': "heap_full (table g') s'" using S(1) by (simp add: t)
  show m': "sw_mem s' = mem g'" by (simp add: t)
  have ob: "gc_objs g' a n \<longleftrightarrow> gc_objs g a n \<and> a + 8 \<in> reach g (set ws)" for a n
  proof -
    have "gc_objs g' a n \<longleftrightarrow> gc_objs g3 a n \<and> hdr_color (mem g3 a)" using S(2) [of a n] by (simp add: t)
    moreover have "a + 8 \<in> colored g3 \<longleftrightarrow> (\<exists>n. gc_objs g3 a n) \<and> hdr_color (mem g3 a)"
      using colored_objects [OF g3(2)] by simp
    ultimately show ?thesis unfolding g3(3,4) by blast
  qed
  then show "gc_objs g' a n \<longleftrightarrow> gc_objs g a n \<and> a + 8 \<in> reach g (set ws)" .
  have r: "\<exists>n. gc_objs g (p - 8) n" if "p \<in> reach g (set ws)"
    using reach_member [OF that] member_object [OF full m, of p] by blast
  show "member g' p \<longleftrightarrow> p \<in> reach g (set ws)" unfolding member_object [OF h' m', of p] ob using r by auto
  show "intact_object (mem g) (mem g') a n" if o: "gc_objs g' a n"
  proof -
    have o3: "gc_objs g3 a n" "hdr_color (mem g3 a)" using S(2) [of a n] o by (simp_all add: t)
    have full': "heap_full (table g) (s\<lparr>sw_mem := mem g\<rparr>)" using full m [symmetric] by simp
    have "intact_object (mem g) (mem g3) a n" using headers_intact [OF full' g3(5)] o ob by blast
    moreover have "intact_object (mem g3) (mem g') a n" using I(1) [of a n] o3 by (simp add: t)
    ultimately show ?thesis by (rule intact_trans)
  qed
qed

text \<open>Only the opening of a region can fail, when the sweep released all of them and \<^verbatim>\<open>malloc\<close> has no block.\<close>

lemma major_fails:
  assumes "heap_full (table g) s" "sw_mem s = mem g" "fields_ok g" "mark_wl g = []"
    and "gen_on (gen g) \<and> \<not> colorless (gen g) \<or> colored g = {}"
    and major: "\<not> (gen_on (gen g) \<and> sprout_gc_gen_choose_minor reason (gen g))"
    and run: "gc_cycle False frames ageprof commit_ok mb reason ws g s = Inl e"
  shows "mb = None"
proof -
  obtain g3 where g3: "gc_mark_phase False ws (gc_prepare False False g) = Inr g3" "gen g3 = gen g"
    using major_marked [OF assms(1-5)] by blast
  show ?thesis
    using run unfolding major_cycle [OF major g3]
    by (cases "sprout_gc_sweep (keep_color (recorded False g3)) False frames (gen_on (gen g)) commit_ok mb (table g3) (s\<lparr>sw_mem := mem g3\<rparr>)")
      (auto dest: sweep_fails)
qed

section \<open>Properties\<close>

text \<open>C40. A major collection as a whole, on a well-formed heap (slots tile the regions, the slot bitmaps and free lists are exact,
  the collector reads the fields of an object only inside it or outside the regions) and outside lineage mode: the clearing
  walk, the marking and the full sweep leave exactly the objects that were reachable from the root words, each with its kind, size and
  payload unchanged, on a heap that is well formed again. It fails only when \<^verbatim>\<open>malloc\<close> has no region left to give.
  A collection is major when the collector is not generational or its policy does not choose a minor one; the marks of the last cycle
  are cleared by the walk, or were cleared by the last sweep.\<close>

theorem major_collection_exact:
  assumes "heap_full (table g) s" "sw_mem s = mem g" "fields_ok g" "mark_wl g = []"
    and "gen_on (gen g) \<and> \<not> colorless (gen g) \<or> colored g = {}"
    and "\<not> (gen_on (gen g) \<and> sprout_gc_gen_choose_minor reason (gen g))"
    and "\<And>b. mb = Some b \<Longrightarrow> malloc_fresh (passes_table frames ws g s) b region_size"
  shows "case gc_cycle False frames ageprof commit_ok mb reason ws g s of
      Inl e \<Rightarrow> mb = None
    | Inr (g', s') \<Rightarrow> heap_full (table g') s' \<and> sw_mem s' = mem g' \<and>
        (\<forall>p. member g' p \<longleftrightarrow> p \<in> reach g (set ws)) \<and>
        (\<forall>a n. gc_objs g' a n \<longleftrightarrow> gc_objs g a n \<and> a + 8 \<in> reach g (set ws)) \<and>
        (\<forall>a n. gc_objs g' a n \<longrightarrow> intact_object (mem g) (mem g') a n)"
proof (cases "gc_cycle False frames ageprof commit_ok mb reason ws g s")
  case (Inl e)
  then show ?thesis using major_fails [OF assms(1-6)] by simp
next
  case (Inr x)
  obtain g' s' where x: "x = (g', s')" by (rule prod.exhaust)
  show ?thesis using major_collected [OF assms Inr [unfolded x]] by (simp add: Inr x)
qed

definition two_heap :: gc where
  "two_heap = two_refs 9 0 9 0"

lemma two_heap_full: "heap_full (table two_heap) (start_heap (mem two_heap))" "fields_ok two_heap"
proof -
  have inv: "table_inv (table two_heap)"
    by (simp add: two_heap_def table_inv_def two_refs_def large_region_def below_def region_ok_def bounds_ok_def arena_shape_def
        no_arena_def placed_def chunks_ok_def arena_contains_def)
  have rs: "g_regions (table two_heap) = [large_region 0x1000 32 0, large_region 0x2000 32 0]" by (simp add: two_heap_def two_refs_def)
  have fr: "free_slots False (mem two_heap) c (g_regions (table two_heap)) = {}" for c
    by (auto simp: free_slots_heap heap_slot_def rs slot_in_def large_region_def)
  show "heap_full (table two_heap) (start_heap (mem two_heap))"
    unfolding heap_full_def heap_inv_def using inv fr
    by (auto simp: rs lists_ok_def fl_clean_def start_heap_def bits_ok_def heap_region_ok_def region_ok_def heap_slot_def slot_in_def
        large_region_def intro!: exI [of _ "\<lambda>_. []"])
  have c: "content_cells two_heap 0x1008 = {0x1008}" "content_cells two_heap 0x2008 = {0x2008}"
    by (simp_all add: two_heap_def content_cells_def ref_headers)
  have o: "q = 0x1008 \<or> q = 0x2008" "n = 32" if "gc_objs two_heap (q - 8) n" for q n
    using that by (auto simp: object_at_alt large_at_def heap_slot_def slot_in_def rs large_region_def diff_eq_eq)
  show "fields_ok two_heap"
    unfolding fields_ok_def
  proof (intro allI impI)
    fix q n x assume "gc_objs two_heap (q - 8) n" "x \<in> content_cells two_heap q"
    then show "unat (q - 8) < unat x \<and> unat x < unat (q - 8) + n \<or> (\<forall>r \<in> set (g_regions (table two_heap)). \<not> area r x)"
      using o [of q n] c by auto
  qed
qed

theorem major_collection_exact_witness:
  "\<exists>g' s'. gc_cycle False (\<lambda>_. (0, 0)) False (\<lambda>_. False) (Some 0x100000) ''explicit'' [0x1008] two_heap (start_heap (mem two_heap)) = Inr (g', s') \<and>
     member two_heap 0x2008 \<and> member g' 0x1008 \<and> \<not> member g' 0x2008"
proof -
  let ?s = "start_heap (mem two_heap)" and ?f = "\<lambda>_ :: addr. (0 :: addr, 0 :: 64 word)"
  have h: "mark_wl two_heap = []" "sw_mem ?s = mem two_heap" "colored two_heap = {}"
    "\<not> (gen_on (gen two_heap) \<and> sprout_gc_gen_choose_minor ''explicit'' (gen two_heap))"
    by (auto simp: two_heap_def colored_def two_refs_member ref_headers start_heap_def sprout_gc_gen_choose_minor_def) (simp add: two_refs_def)
  define t where "t = passes_table ?f [0x1008] two_heap ?s"
  have "map base (g_regions t) = [0x1000]" "map cap (g_regions t) = [32]" "g_arena t = no_arena" unfolding t_def by code_simp+
  then have mb: "malloc_fresh t 0x100000 region_size" by (auto simp: malloc_fresh_def region_size_def no_arena_def)
  have "reach two_heap (set [0x1008]) \<subseteq> {0x1008}"
    by (rule reach_subset_closed) (auto simp: two_heap_def two_refs_heap [OF ref_headers(1,1)])
  moreover have "0x1008 \<in> reach two_heap (set [0x1008])" by (rule reach.root) (simp_all add: two_heap_def two_refs_member)
  ultimately have r: "reach two_heap (set [0x1008]) = {0x1008}" by blast
  have "case gc_cycle False ?f False (\<lambda>_. False) (Some 0x100000) ''explicit'' [0x1008] two_heap ?s of
      Inl e \<Rightarrow> Some (0x100000 :: addr) = None
    | Inr (g', s') \<Rightarrow> heap_full (table g') s' \<and> sw_mem s' = mem g' \<and> (\<forall>p. member g' p \<longleftrightarrow> p \<in> reach two_heap (set [0x1008])) \<and>
        (\<forall>a n. gc_objs g' a n \<longleftrightarrow> gc_objs two_heap a n \<and> a + 8 \<in> reach two_heap (set [0x1008])) \<and>
        (\<forall>a n. gc_objs g' a n \<longrightarrow> intact_object (mem two_heap) (mem g') a n)"
    by (rule major_collection_exact [OF two_heap_full(1) h(2) two_heap_full(2) h(1) disjI2 [OF h(3)] h(4)]) (use mb t_def in auto)
  then show ?thesis unfolding r by (auto simp: two_heap_def two_refs_member split: sum.splits)
qed

end
