(* ===== verification/Link_Queues.thy ===== *)
theory Link_Queues
  imports Runtime_Prelude
begin

text \<open>
  The intrusive linked lists of the scheduler (\<^verbatim>\<open>runtime/sprout_scheduler.c\<close>) at the level of their
  pointers: the ready queue (singly linked, \<^verbatim>\<open>g_rq_head\<close>/\<^verbatim>\<open>g_rq_tail\<close>), the wait queues of a channel and
  its queue of select registrations (doubly linked with head and tail), and the lists of parked tasks
  and of live channels (doubly linked, head only). A node is a number; \<open>lk_prev\<close> and \<open>lk_next\<close> are the
  link fields of all nodes, shared by the queues whose nodes carry the same fields.

  The lemmas show that each operation acts on the represented list as the list operation the scheduler
  model uses (append, take the first, remove one), that popping yields the pushed order, and that
  an operation touches the links of no node outside its own queue, so that the queues that share link
  fields do not disturb each other.
\<close>

record links =
  lk_prev :: "nat \<Rightarrow> nat option"
  lk_next :: "nat \<Rightarrow> nat option"

record link_q =
  q_head :: "nat option"
  q_tail :: "nat option"

definition set_prev :: "nat \<Rightarrow> nat option \<Rightarrow> links \<Rightarrow> links" where
  "set_prev x p l = l\<lparr>lk_prev := (lk_prev l)(x := p)\<rparr>"

definition set_next :: "nat \<Rightarrow> nat option \<Rightarrow> links \<Rightarrow> links" where
  "set_next x n l = l\<lparr>lk_next := (lk_next l)(x := n)\<rparr>"

section \<open>Channel wait queues\<close>

definition chan_q_push :: "nat \<Rightarrow> link_q \<times> links \<Rightarrow> link_q \<times> links" where
  "chan_q_push t = (\<lambda>(q, l).
     let l1 = set_prev t (q_tail q) (set_next t None l) in
     case q_tail q of
       Some z \<Rightarrow> (q\<lparr>q_tail := Some t\<rparr>, set_next z (Some t) l1)
     | None \<Rightarrow> (q\<lparr>q_head := Some t, q_tail := Some t\<rparr>, l1))"

definition chan_q_pop :: "link_q \<times> links \<Rightarrow> nat option \<times> link_q \<times> links" where
  "chan_q_pop = (\<lambda>(q, l).
     case q_head q of
       None \<Rightarrow> (None, q, l)
     | Some t \<Rightarrow>
         let q1 = q\<lparr>q_head := lk_next l t\<rparr> in
         (case q_head q1 of
            Some h \<Rightarrow> (Some t, q1, set_next t None (set_prev t None (set_prev h None l)))
          | None \<Rightarrow> (Some t, q1\<lparr>q_tail := None\<rparr>, set_next t None (set_prev t None l))))"

definition chan_q_remove :: "nat \<Rightarrow> link_q \<times> links \<Rightarrow> link_q \<times> links" where
  "chan_q_remove t = (\<lambda>(q, l).
     let (q1, l1) = (case lk_prev l t of
                       Some p \<Rightarrow> (q, set_next p (lk_next l t) l)
                     | None \<Rightarrow> (q\<lparr>q_head := lk_next l t\<rparr>, l));
         (q2, l2) = (case lk_next l1 t of
                       Some n \<Rightarrow> (q1, set_prev n (lk_prev l1 t) l1)
                     | None \<Rightarrow> (q1\<lparr>q_tail := lk_prev l1 t\<rparr>, l1))
     in (q2, set_next t None (set_prev t None l2)))"

section \<open>Select registrations of a channel\<close>

definition sw_q_push :: "nat \<Rightarrow> link_q \<times> links \<Rightarrow> link_q \<times> links" where
  "sw_q_push w = (\<lambda>(q, l).
     let l1 = set_prev w (q_tail q) (set_next w None l) in
     case q_tail q of
       Some z \<Rightarrow> (q\<lparr>q_tail := Some w\<rparr>, set_next z (Some w) l1)
     | None \<Rightarrow> (q\<lparr>q_head := Some w, q_tail := Some w\<rparr>, l1))"

definition sw_q_remove :: "nat \<Rightarrow> link_q \<times> links \<Rightarrow> link_q \<times> links" where
  "sw_q_remove w = (\<lambda>(q, l).
     let (q1, l1) = (case lk_prev l w of
                       Some p \<Rightarrow> (q, set_next p (lk_next l w) l)
                     | None \<Rightarrow> (q\<lparr>q_head := lk_next l w\<rparr>, l));
         (q2, l2) = (case lk_next l1 w of
                       Some n \<Rightarrow> (q1, set_prev n (lk_prev l1 w) l1)
                     | None \<Rightarrow> (q1\<lparr>q_tail := lk_prev l1 w\<rparr>, l1))
     in (q2, set_prev w None (set_next w None l2)))"

section \<open>The ready queue\<close>

text \<open>\<^verbatim>\<open>in_rq\<close> is the membership flag of the nodes.\<close>

record ready_q = link_q +
  rq_links :: "nat \<Rightarrow> nat option"
  rq_in :: "nat \<Rightarrow> bool"

definition rq_push :: "nat \<Rightarrow> ready_q \<Rightarrow> ready_q" where
  "rq_push t q =
     (let q1 = q\<lparr>rq_links := (rq_links q)(t := None)\<rparr>;
          q2 = (case q_tail q1 of
                  None \<Rightarrow> q1\<lparr>q_head := Some t, q_tail := Some t\<rparr>
                | Some z \<Rightarrow> q1\<lparr>rq_links := (rq_links q1)(z := Some t), q_tail := Some t\<rparr>)
      in q2\<lparr>rq_in := (rq_in q2)(t := True)\<rparr>)"

definition rq_pop :: "ready_q \<Rightarrow> nat option \<times> ready_q" where
  "rq_pop q =
     (case q_head q of
        None \<Rightarrow> (None, q)
      | Some t \<Rightarrow>
          let q1 = q\<lparr>q_head := rq_links q t\<rparr>;
              q2 = (if q_head q1 = None then q1\<lparr>q_tail := None\<rparr> else q1)
          in (Some t, q2\<lparr>rq_links := (rq_links q2)(t := None), rq_in := (rq_in q2)(t := False)\<rparr>))"

section \<open>Head-only lists: parked tasks and live channels\<close>

record head_list = links +
  hl_head :: "nat option"

record io_list = head_list +
  hl_on :: "nat \<Rightarrow> bool"

definition all_chans_push :: "nat \<Rightarrow> head_list \<Rightarrow> head_list" where
  "all_chans_push ch g =
     (let g1 = g\<lparr>lk_prev := (lk_prev g)(ch := None), lk_next := (lk_next g)(ch := hl_head g)\<rparr>;
          g2 = (case hl_head g1 of
                  Some h \<Rightarrow> g1\<lparr>lk_prev := (lk_prev g1)(h := Some ch)\<rparr>
                | None \<Rightarrow> g1)
      in g2\<lparr>hl_head := Some ch\<rparr>)"

definition all_chans_remove :: "nat \<Rightarrow> head_list \<Rightarrow> head_list" where
  "all_chans_remove ch g =
     (let g1 = (case lk_prev g ch of
                  Some p \<Rightarrow> g\<lparr>lk_next := (lk_next g)(p := lk_next g ch)\<rparr>
                | None \<Rightarrow> g\<lparr>hl_head := lk_next g ch\<rparr>);
          g2 = (case lk_next g1 ch of
                  Some n \<Rightarrow> g1\<lparr>lk_prev := (lk_prev g1)(n := lk_prev g1 ch)\<rparr>
                | None \<Rightarrow> g1)
      in g2\<lparr>lk_prev := (lk_prev g2)(ch := None), lk_next := (lk_next g2)(ch := None)\<rparr>)"

definition io_list_push :: "nat \<Rightarrow> io_list \<Rightarrow> io_list" where
  "io_list_push t g =
     (let g1 = g\<lparr>lk_prev := (lk_prev g)(t := None), lk_next := (lk_next g)(t := hl_head g)\<rparr>;
          g2 = (case hl_head g1 of
                  Some h \<Rightarrow> g1\<lparr>lk_prev := (lk_prev g1)(h := Some t)\<rparr>
                | None \<Rightarrow> g1)
      in g2\<lparr>hl_head := Some t, hl_on := (hl_on g2)(t := True)\<rparr>)"

definition io_list_remove :: "nat \<Rightarrow> io_list \<Rightarrow> io_list" where
  "io_list_remove t g =
     (let g1 = (case lk_prev g t of
                  Some p \<Rightarrow> g\<lparr>lk_next := (lk_next g)(p := lk_next g t)\<rparr>
                | None \<Rightarrow> g\<lparr>hl_head := lk_next g t\<rparr>);
          g2 = (case lk_next g1 t of
                  Some n \<Rightarrow> g1\<lparr>lk_prev := (lk_prev g1)(n := lk_prev g1 t)\<rparr>
                | None \<Rightarrow> g1)
      in g2\<lparr>lk_prev := (lk_prev g2)(t := None), lk_next := (lk_next g2)(t := None),
            hl_on := (hl_on g2)(t := False)\<rparr>)"

section \<open>The represented list\<close>

text \<open>\<open>seg l p xs n\<close>: following the links, \<open>xs\<close> stands between the nodes \<open>p\<close> and \<open>n\<close>.\<close>

definition head_or :: "'a list \<Rightarrow> 'a option \<Rightarrow> 'a option" where
  "head_or xs n = (case xs of [] \<Rightarrow> n | x # _ \<Rightarrow> Some x)"

definition last_or :: "'a list \<Rightarrow> 'a option \<Rightarrow> 'a option" where
  "last_or xs p = (if xs = [] then p else Some (last xs))"

lemma head_or_simps [simp]:
  "head_or [] n = n" "head_or (x # xs) n = Some x"
  "head_or (xs @ ys) n = head_or xs (head_or ys n)"
  by (auto simp: head_or_def split: list.split)

lemma last_or_simps [simp]:
  "last_or [] p = p" "last_or (x # xs) p = last_or xs (Some x)"
  "last_or (xs @ ys) p = last_or ys (last_or xs p)"
  by (auto simp: last_or_def)

fun seg :: "'a links_scheme \<Rightarrow> nat option \<Rightarrow> nat list \<Rightarrow> nat option \<Rightarrow> bool" where
  "seg l p [] n \<longleftrightarrow> True"
| "seg l p (x # xs) n \<longleftrightarrow> lk_prev l x = p \<and> lk_next l x = head_or xs n \<and> seg l (Some x) xs n"

lemma seg_append [simp]:
  "seg l p (us @ vs) n \<longleftrightarrow> seg l p us (head_or vs n) \<and> seg l (last_or us p) vs n"
  by (induction us arbitrary: p) auto

lemma seg_cong:
  "(\<And>x. x \<in> set xs \<Longrightarrow> lk_prev l' x = lk_prev l x \<and> lk_next l' x = lk_next l x) \<Longrightarrow>
   seg l' p xs n = seg l p xs n"
  by (induction xs arbitrary: p) simp_all

definition q_rep :: "link_q \<times> links \<Rightarrow> nat list \<Rightarrow> bool" where
  "q_rep ql xs \<longleftrightarrow> distinct xs \<and> q_head (fst ql) = head_or xs None \<and>
     q_tail (fst ql) = last_or xs None \<and> seg (snd ql) None xs None"

definition h_rep :: "'a head_list_scheme \<Rightarrow> nat list \<Rightarrow> bool" where
  "h_rep g xs \<longleftrightarrow> distinct xs \<and> hl_head g = head_or xs None \<and> seg g None xs None"

definition io_rep :: "io_list \<Rightarrow> nat list \<Rightarrow> bool" where
  "io_rep g xs \<longleftrightarrow> h_rep g xs \<and> (\<forall>t. hl_on g t \<longleftrightarrow> t \<in> set xs)"

fun chain :: "(nat \<Rightarrow> nat option) \<Rightarrow> nat list \<Rightarrow> bool" where
  "chain nx [] \<longleftrightarrow> True"
| "chain nx (x # xs) \<longleftrightarrow> nx x = head_or xs None \<and> chain nx xs"

definition rq_rep :: "ready_q \<Rightarrow> nat list \<Rightarrow> bool" where
  "rq_rep q xs \<longleftrightarrow> distinct xs \<and> q_head q = head_or xs None \<and> q_tail q = last_or xs None \<and>
     chain (rq_links q) xs \<and> (\<forall>t. rq_in q t \<longleftrightarrow> t \<in> set xs)"


lemma last_or_in_set: "last_or xs None = Some z \<Longrightarrow> z \<in> set xs"
  by (auto simp: last_or_def split: if_splits)

lemma head_or_in_set: "head_or xs None = Some z \<Longrightarrow> z \<in> set xs"
  by (cases xs) auto

lemma last_or_None_iff: "last_or xs None = None \<longleftrightarrow> xs = []"
  by (simp add: last_or_def)

lemma head_or_None_iff: "head_or xs None = None \<longleftrightarrow> xs = []"
  by (cases xs) auto

lemma set_links_simps [simp]:
  "lk_prev (set_prev x p l) = (lk_prev l)(x := p)" "lk_next (set_prev x p l) = lk_next l"
  "lk_prev (set_next x p l) = lk_prev l" "lk_next (set_next x p l) = (lk_next l)(x := p)"
  by (simp_all add: set_prev_def set_next_def)

text \<open>Appending a node behind the last one, and taking a node out of the middle.\<close>

lemma snoc_cases: "xs = [] \<or> (\<exists>ys z. xs = ys @ [z])"
  by (cases xs rule: rev_cases) auto

lemma seg_snoc:
  assumes "seg l p xs None" "distinct xs" "t \<notin> set xs" "xs \<noteq> []"
    and "lk_prev l' = (lk_prev l)(t := last_or xs p)" "lk_next l' = (lk_next l)(t := None, last xs := Some t)"
  shows "seg l' p (xs @ [t]) None"
proof -
  obtain ys z where [simp]: "xs = ys @ [z]"
    using assms(4) snoc_cases by blast
  have "seg l' p ys (Some z)"
    using assms by (subst seg_cong [where l = l]) auto
  then show ?thesis
    using assms by auto
qed

lemma seg_unlink:
  assumes s: "seg l p (us @ t # vs) n" and d: "distinct (us @ t # vs)"
    and prev: "\<And>x. lk_prev l' x = (if vs \<noteq> [] \<and> x = hd vs then last_or us p else if x = t then None else lk_prev l x)"
    and nxt: "\<And>x. lk_next l' x = (if us \<noteq> [] \<and> x = last us then head_or vs n else if x = t then None else lk_next l x)"
  shows "seg l' p (us @ vs) n"
proof -
  have "seg l' p us (head_or vs n)"
  proof (cases us rule: rev_cases)
    case (snoc ys z)
    have "lk_prev l' x = lk_prev l x \<and> lk_next l' x = lk_next l x" if "x \<in> set ys" for x
      using d that snoc by (auto simp: prev nxt)
    then have "seg l' p ys (Some z) = seg l p ys (Some z)"
      by (rule seg_cong)
    moreover have "z \<noteq> t" "z \<notin> set vs"
      using d snoc by auto
    ultimately show ?thesis
      using s d snoc by (auto simp: prev nxt)
  qed simp
  moreover have "seg l' (last_or us p) vs n"
  proof (cases vs)
    case (Cons v ws)
    have "lk_prev l' x = lk_prev l x \<and> lk_next l' x = lk_next l x" if "x \<in> set ws" for x
    proof -
      have "us \<noteq> [] \<longrightarrow> x \<noteq> last us" "x \<noteq> t" "x \<noteq> v"
        using d that Cons by (auto simp: disjoint_iff dest: last_in_set)
      then show ?thesis by (auto simp: prev nxt Cons)
    qed
    then have "seg l' (Some v) ws n = seg l (Some v) ws n"
      by (rule seg_cong)
    moreover have "us \<noteq> [] \<longrightarrow> v \<noteq> last us" "v \<noteq> t"
      using d Cons by auto
    ultimately show ?thesis
      using s Cons by (auto simp: prev nxt)
  qed simp
  ultimately show ?thesis by simp
qed

lemma remove1_middle: "distinct (us @ t # vs) \<Longrightarrow> remove1 t (us @ t # vs) = us @ vs"
  by (simp add: remove1_append)

subsection \<open>Double-ended queues\<close>

lemma q_rep_push:
  assumes "q_rep ql xs" "t \<notin> set xs"
  shows "q_rep (chan_q_push t ql) (xs @ [t])"
proof -
  obtain q l where [simp]: "ql = (q, l)" by (cases ql)
  show ?thesis
  proof (cases "xs = []")
    case True
    then show ?thesis
      using assms by (simp add: q_rep_def chan_q_push_def Let_def)
  next
    case False
    then have tl: "q_tail q = Some (last xs)"
      using assms by (simp add: q_rep_def last_or_def)
    have "seg (set_next (last xs) (Some t) (set_prev t (q_tail q) (set_next t None l))) None (xs @ [t]) None"
      using assms False tl by (intro seg_snoc [of l]) (auto simp: q_rep_def last_or_def)
    moreover have "chan_q_push t ql =
        (q\<lparr>q_tail := Some t\<rparr>, set_next (last xs) (Some t) (set_prev t (q_tail q) (set_next t None l)))"
      by (simp add: chan_q_push_def tl)
    moreover have "q_head q = head_or (xs @ [t]) None" "distinct (xs @ [t])"
      using assms False by (auto simp: q_rep_def head_or_def split: list.splits)
    ultimately show ?thesis
      unfolding q_rep_def by (simp only: fst_conv snd_conv link_q.simps) (simp add: last_or_def)
  qed
qed

lemma q_rep_remove:
  assumes "q_rep ql xs" "t \<in> set xs"
  shows "q_rep (chan_q_remove t ql) (remove1 t xs)"
proof -
  obtain q l where [simp]: "ql = (q, l)" by (cases ql)
  obtain us vs where xs: "xs = us @ t # vs"
    using assms(2) by (meson split_list)
  have d: "distinct (us @ t # vs)" and s: "seg l None (us @ t # vs) None"
    and h: "q_head q = head_or xs None" and tl: "q_tail q = last_or xs None"
    using assms(1) xs by (simp_all add: q_rep_def)
  have lt: "lk_prev l t = last_or us None" "lk_next l t = head_or vs None"
    using s by simp_all
  obtain q' l' where r: "chan_q_remove t (q, l) = (q', l')" by fastforce
  have "lk_prev l' x = (if vs \<noteq> [] \<and> x = hd vs then last_or us None else if x = t then None else lk_prev l x)"
    and "lk_next l' x = (if us \<noteq> [] \<and> x = last us then head_or vs None else if x = t then None else lk_next l x)" for x
    using r lt d by (auto simp: chan_q_remove_def last_or_def head_or_def split: if_splits list.splits)
  then have "seg l' None (us @ vs) None"
    by (rule seg_unlink [OF s d])
  moreover have "q_head q' = head_or (us @ vs) None" "q_tail q' = last_or (us @ vs) None"
    using r lt d h tl unfolding xs
    by (cases us; cases vs; auto simp: chan_q_remove_def last_or_def split: if_splits)+
  ultimately show ?thesis
    using d r by (simp add: q_rep_def xs remove1_middle)
qed

lemma chan_q_pop_Nil: "q_rep ql [] \<Longrightarrow> chan_q_pop ql = (None, ql)"
  by (cases ql) (simp add: chan_q_pop_def q_rep_def)

lemma chan_q_pop_Cons:
  assumes "q_rep ql (x # xs)"
  shows "fst (chan_q_pop ql) = Some x" "q_rep (snd (chan_q_pop ql)) xs"
proof -
  obtain q l where [simp]: "ql = (q, l)" by (cases ql)
  show "fst (chan_q_pop ql) = Some x"
    using assms by (simp add: chan_q_pop_def q_rep_def Let_def split: option.split)
  show "q_rep (snd (chan_q_pop ql)) xs"
  proof (cases xs)
    case Nil
    then show ?thesis using assms by (simp add: chan_q_pop_def q_rep_def)
  next
    case (Cons y ys)
    let ?l = "set_next x None (set_prev x None (set_prev y None l))"
    have "seg l None ([] @ x # xs) None" "distinct ([] @ x # xs)"
      using assms by (simp_all add: q_rep_def)
    then have "seg ?l None ([] @ xs) None"
      by (rule seg_unlink) (auto simp: Cons)
    then show ?thesis
      using assms Cons by (simp add: chan_q_pop_def q_rep_def)
  qed
qed

lemma sw_q_push_eq: "sw_q_push = chan_q_push"
  by (simp add: fun_eq_iff sw_q_push_def chan_q_push_def)

lemma sw_q_remove_eq: "sw_q_remove = chan_q_remove"
  by (simp add: fun_eq_iff sw_q_remove_def chan_q_remove_def set_prev_def set_next_def Let_def split_def)


text \<open>An operation changes the links of its own nodes only, so a queue over other nodes that shares
  the link fields still represents the same list.\<close>

lemma q_rep_frame:
  assumes "q_rep (r, l) ys"
    and "\<And>y. y \<in> set ys \<Longrightarrow> lk_prev l' y = lk_prev l y \<and> lk_next l' y = lk_next l y"
  shows "q_rep (r, l') ys"
  using assms seg_cong [of ys l' l] by (simp add: q_rep_def)

lemma chan_q_push_frame:
  assumes "q_rep ql xs" "y \<notin> set xs" "y \<noteq> t"
  shows "lk_prev (snd (chan_q_push t ql)) y = lk_prev (snd ql) y"
    and "lk_next (snd (chan_q_push t ql)) y = lk_next (snd ql) y"
  using assms last_or_in_set [of xs]
  by (auto simp: chan_q_push_def q_rep_def Let_def split_def split: option.splits)

lemma chan_q_remove_frame:
  assumes "q_rep ql xs" "t \<in> set xs" "y \<notin> set xs"
  shows "lk_prev (snd (chan_q_remove t ql)) y = lk_prev (snd ql) y"
    and "lk_next (snd (chan_q_remove t ql)) y = lk_next (snd ql) y"
proof -
  obtain us vs where xs: "xs = us @ t # vs"
    using assms(2) by (meson split_list)
  have "lk_prev (snd ql) t = last_or us None" "lk_next (snd ql) t = head_or vs None"
    using assms(1) xs by (simp_all add: q_rep_def)
  then show "lk_prev (snd (chan_q_remove t ql)) y = lk_prev (snd ql) y"
    and "lk_next (snd (chan_q_remove t ql)) y = lk_next (snd ql) y"
    using assms(3) last_or_in_set [of us] head_or_in_set [of vs] xs
    by (auto simp: chan_q_remove_def Let_def split_def split: option.splits)
qed

lemma chan_q_pop_frame:
  assumes "q_rep ql xs" "y \<notin> set xs"
  shows "lk_prev (snd (snd (chan_q_pop ql))) y = lk_prev (snd ql) y"
    and "lk_next (snd (snd (chan_q_pop ql))) y = lk_next (snd ql) y"
  using assms by (cases xs; cases "tl xs";
    auto simp: chan_q_pop_def q_rep_def Let_def split_def split: option.splits)+

subsection \<open>The ready queue\<close>

lemma chain_cong: "(\<And>x. x \<in> set xs \<Longrightarrow> f x = g x) \<Longrightarrow> chain f xs = chain g xs"
  by (induction xs) simp_all

lemma chain_snoc:
  "chain f xs \<Longrightarrow> distinct xs \<Longrightarrow> t \<notin> set xs \<Longrightarrow> xs \<noteq> [] \<Longrightarrow>
   chain (f(t := None, last xs := Some t)) (xs @ [t])"
proof (induction xs)
  case (Cons x xs)
  show ?case
  proof (cases xs)
    case (Cons y ys)
    then have "last xs \<noteq> x"
      using Cons.prems by (metis distinct.simps(2) last_in_set list.discI)
    then show ?thesis
      using Cons.IH Cons.prems Cons by auto
  qed (use Cons.prems in auto)
qed simp

lemma rq_rep_push:
  assumes "rq_rep q xs" "t \<notin> set xs"
  shows "rq_rep (rq_push t q) (xs @ [t])"
proof (cases "xs = []")
  case True
  then show ?thesis using assms by (auto simp: rq_rep_def rq_push_def Let_def)
next
  case False
  then have tl: "q_tail q = Some (last xs)"
    using assms(1) by (simp add: rq_rep_def last_or_def)
  have "chain ((rq_links q)(t := None, last xs := Some t)) (xs @ [t])"
    using assms False by (intro chain_snoc) (auto simp: rq_rep_def)
  moreover have "head_or (xs @ [t]) None = head_or xs None"
    using False by (cases xs) auto
  ultimately show ?thesis
    using assms tl unfolding rq_rep_def rq_push_def Let_def by (auto simp: last_or_def)
qed

lemma rq_pop_Nil: "rq_rep q [] \<Longrightarrow> rq_pop q = (None, q)"
  by (simp add: rq_pop_def rq_rep_def)

lemma rq_pop_Cons:
  assumes "rq_rep q (x # xs)"
  shows "fst (rq_pop q) = Some x" "rq_rep (snd (rq_pop q)) xs"
proof -
  have c: "chain ((rq_links q)(x := None)) xs = chain (rq_links q) xs"
    using assms by (intro chain_cong) (auto simp: rq_rep_def)
  show "fst (rq_pop q) = Some x"
    using assms by (simp add: rq_pop_def rq_rep_def Let_def)
  show "rq_rep (snd (rq_pop q)) xs"
    using assms c by (cases xs) (auto simp: rq_pop_def rq_rep_def Let_def)
qed

subsection \<open>Lists with a head only\<close>

lemma h_rep_push:
  assumes "h_rep g xs" "t \<notin> set xs"
    and "lk_prev g' = ((lk_prev g)(t := None))(case hl_head g of Some h \<Rightarrow> h | None \<Rightarrow> t := (case hl_head g of Some h \<Rightarrow> Some t | None \<Rightarrow> None))"
    and "lk_next g' = (lk_next g)(t := hl_head g)" "hl_head g' = Some t"
  shows "h_rep g' (t # xs)"
proof (cases xs)
  case Nil
  then show ?thesis using assms by (simp add: h_rep_def)
next
  case (Cons y ys)
  have "seg g' (Some y) ys None = seg g (Some y) ys None"
    using assms Cons by (intro seg_cong) (auto simp: h_rep_def)
  then show ?thesis
    using assms Cons by (auto simp: h_rep_def)
qed

lemma h_rep_remove:
  assumes "h_rep g xs" "t \<in> set xs"
    and g': "\<And>us vs x. xs = us @ t # vs \<Longrightarrow> lk_prev g' x =
          (if vs \<noteq> [] \<and> x = hd vs then last_or us None else if x = t then None else lk_prev g x)"
        "\<And>us vs x. xs = us @ t # vs \<Longrightarrow> lk_next g' x =
          (if us \<noteq> [] \<and> x = last us then head_or vs None else if x = t then None else lk_next g x)"
    and "\<And>us vs. xs = us @ t # vs \<Longrightarrow> hl_head g' = head_or (us @ vs) None"
  shows "h_rep g' (remove1 t xs)"
proof -
  obtain us vs where xs: "xs = us @ t # vs"
    using assms(2) by (meson split_list)
  have d: "distinct (us @ t # vs)" and s: "seg g None (us @ t # vs) None"
    using assms(1) xs by (simp_all add: h_rep_def)
  have "seg g' None (us @ vs) None"
    by (rule seg_unlink [OF s d g'(1) [OF xs] g'(2) [OF xs]])
  then show ?thesis
    using assms(5) [OF xs] d by (simp add: h_rep_def xs remove1_middle)
qed


lemma all_chans_push_rep: "h_rep g xs \<Longrightarrow> t \<notin> set xs \<Longrightarrow> h_rep (all_chans_push t g) (t # xs)"
  by (rule h_rep_push) (auto simp: all_chans_push_def Let_def split: option.split)

lemma unlinked_neighbours:
  assumes "h_rep g xs" "xs = us @ t # vs"
  shows "lk_prev g t = last_or us None" "lk_next g t = head_or vs None" "hl_head g = head_or us (Some t)"
    and "distinct (us @ t # vs)"
  using assms by (simp_all add: h_rep_def)

lemma all_chans_remove_rep:
  assumes "h_rep g xs" "t \<in> set xs"
  shows "h_rep (all_chans_remove t g) (remove1 t xs)"
proof (rule h_rep_remove [OF assms])
  fix us vs x assume xs: "xs = us @ t # vs"
  note n = unlinked_neighbours [OF assms(1) xs]
  show "lk_prev (all_chans_remove t g) x =
      (if vs \<noteq> [] \<and> x = hd vs then last_or us None else if x = t then None else lk_prev g x)"
    and "lk_next (all_chans_remove t g) x =
      (if us \<noteq> [] \<and> x = last us then head_or vs None else if x = t then None else lk_next g x)"
    and "hl_head (all_chans_remove t g) = head_or (us @ vs) None"
    using n by (cases us; cases vs; auto simp: all_chans_remove_def last_or_def split: if_splits)+
qed

lemma io_list_push_rep:
  assumes "io_rep g xs" "t \<notin> set xs"
  shows "io_rep (io_list_push t g) (t # xs)"
proof -
  have "h_rep (io_list_push t g) (t # xs)"
    using assms by (intro h_rep_push [of g]) (auto simp: io_rep_def io_list_push_def Let_def split: option.split)
  then show ?thesis
    using assms by (auto simp: io_rep_def io_list_push_def Let_def split: option.split)
qed

lemma io_list_remove_rep:
  assumes "io_rep g xs" "t \<in> set xs"
  shows "io_rep (io_list_remove t g) (remove1 t xs)"
proof -
  have h: "h_rep g xs" and d: "distinct xs"
    using assms(1) by (simp_all add: io_rep_def h_rep_def)
  have "h_rep (io_list_remove t g) (remove1 t xs)"
  proof (rule h_rep_remove [OF h assms(2)])
    fix us vs x assume xs: "xs = us @ t # vs"
    note n = unlinked_neighbours [OF h xs]
    show "lk_prev (io_list_remove t g) x =
        (if vs \<noteq> [] \<and> x = hd vs then last_or us None else if x = t then None else lk_prev g x)"
      and "lk_next (io_list_remove t g) x =
        (if us \<noteq> [] \<and> x = last us then head_or vs None else if x = t then None else lk_next g x)"
      and "hl_head (io_list_remove t g) = head_or (us @ vs) None"
      using n by (cases us; cases vs; auto simp: io_list_remove_def last_or_def split: if_splits)+
  qed
  moreover have "hl_on (io_list_remove t g) = (hl_on g)(t := False)"
    by (simp add: io_list_remove_def Let_def split: option.split)
  ultimately show ?thesis
    using assms(1) d by (auto simp: io_rep_def)
qed

section \<open>First in, first out\<close>

text \<open>The contract of a FIFO queue over a representation relation; both the ready queue and the wait
  queues provide it.\<close>

locale fifo =
  fixes rep :: "'q \<Rightarrow> nat list \<Rightarrow> bool"
    and push :: "nat \<Rightarrow> 'q \<Rightarrow> 'q"
    and pop :: "'q \<Rightarrow> nat option \<times> 'q"
  assumes push_rep: "rep q xs \<Longrightarrow> t \<notin> set xs \<Longrightarrow> rep (push t q) (xs @ [t])"
    and pop_empty: "rep q [] \<Longrightarrow> pop q = (None, q)"
    and pop_first: "rep q (x # xs) \<Longrightarrow> fst (pop q) = Some x \<and> rep (snd (pop q)) xs"
begin

primrec drain :: "nat \<Rightarrow> 'q \<Rightarrow> nat list" where
  "drain 0 q = []"
| "drain (Suc n) q = (case pop q of (None, _) \<Rightarrow> [] | (Some x, q') \<Rightarrow> x # drain n q')"

lemma push_all_rep:
  "rep q xs \<Longrightarrow> distinct ts \<Longrightarrow> set ts \<inter> set xs = {} \<Longrightarrow> rep (fold push ts q) (xs @ ts)"
proof (induction ts arbitrary: q xs)
  case (Cons t ts)
  then have "rep (fold push ts (push t q)) ((xs @ [t]) @ ts)"
    by (intro Cons.IH push_rep) auto
  then show ?case by simp
qed simp

lemma drain_rep: "rep q xs \<Longrightarrow> length xs \<le> n \<Longrightarrow> drain n q = xs"
proof (induction n arbitrary: q xs)
  case (Suc n)
  show ?case
  proof (cases xs)
    case Nil
    then show ?thesis using Suc.prems pop_empty by simp
  next
    case (Cons x ys)
    obtain q' where p: "pop q = (Some x, q')" and r: "rep q' ys"
      using pop_first [of q x ys] Suc.prems(1) Cons by (metis prod.collapse)
    have "drain n q' = ys"
      using Suc.IH [OF r] Suc.prems(2) Cons by simp
    then show ?thesis using p Cons by simp
  qed
qed simp

lemma push_all_drain:
  assumes "rep q []" "distinct ts"
  shows "drain (length ts) (fold push ts q) = ts"
  using push_all_rep [OF assms] by (intro drain_rep) simp_all

end

interpretation wait_q: fifo q_rep chan_q_push chan_q_pop
  by unfold_locales (auto intro: q_rep_push simp: chan_q_pop_Nil chan_q_pop_Cons)

interpretation ready: fifo rq_rep rq_push rq_pop
  by unfold_locales (auto intro: rq_rep_push simp: rq_pop_Nil rq_pop_Cons)

definition empty_ready :: ready_q where
  "empty_ready = \<lparr>q_head = None, q_tail = None, rq_links = (\<lambda>_. None), rq_in = (\<lambda>_. False)\<rparr>"

lemma empty_ready_rep: "rq_rep empty_ready []"
  by (simp add: rq_rep_def empty_ready_def)

text \<open>C33. The wait queue of a channel refines a list. Pushing a task that is not queued appends it;
  popping takes the first; removing a queued task from any position removes it; a second queue over other
  tasks that shares the link fields of the tasks keeps its list through each of them.\<close>

theorem chan_queue_refines_list:
  assumes "q_rep (q, l) xs" "q_rep (r, l) ys" "set xs \<inter> set ys = {}"
  shows "(t \<notin> set xs \<union> set ys \<longrightarrow>
            q_rep (chan_q_push t (q, l)) (xs @ [t]) \<and> q_rep (r, snd (chan_q_push t (q, l))) ys) \<and>
         (t \<in> set xs \<longrightarrow>
            q_rep (chan_q_remove t (q, l)) (remove1 t xs) \<and> q_rep (r, snd (chan_q_remove t (q, l))) ys) \<and>
         fst (chan_q_pop (q, l)) = (case xs of [] \<Rightarrow> None | x # _ \<Rightarrow> Some x) \<and>
         q_rep (snd (chan_q_pop (q, l))) (tl xs) \<and> q_rep (r, snd (snd (chan_q_pop (q, l)))) ys"
proof (intro conjI impI)
  assume t: "t \<notin> set xs \<union> set ys"
  show "q_rep (chan_q_push t (q, l)) (xs @ [t])"
    using assms(1) t by (intro q_rep_push) auto
  have "y \<noteq> t \<and> y \<notin> set xs" if "y \<in> set ys" for y
    using that t assms(3) by auto
  then show "q_rep (r, snd (chan_q_push t (q, l))) ys"
    using chan_q_push_frame [OF assms(1), of _ t] by (intro q_rep_frame [OF assms(2)]) simp
next
  assume t: "t \<in> set xs"
  show "q_rep (chan_q_remove t (q, l)) (remove1 t xs)"
    by (rule q_rep_remove [OF assms(1) t])
  have "y \<notin> set xs" if "y \<in> set ys" for y
    using that assms(3) by auto
  then show "q_rep (r, snd (chan_q_remove t (q, l))) ys"
    using chan_q_remove_frame [OF assms(1) t] by (intro q_rep_frame [OF assms(2)]) simp
next
  show "fst (chan_q_pop (q, l)) = (case xs of [] \<Rightarrow> None | x # _ \<Rightarrow> Some x)"
    using assms(1) chan_q_pop_Nil chan_q_pop_Cons(1) by (auto split: list.split)
  show "q_rep (snd (chan_q_pop (q, l))) (tl xs)"
    using assms(1) chan_q_pop_Nil chan_q_pop_Cons(2) by (cases xs) auto
  have "y \<notin> set xs" if "y \<in> set ys" for y
    using that assms(3) by auto
  then show "q_rep (r, snd (snd (chan_q_pop (q, l)))) ys"
    using chan_q_pop_frame [OF assms(1)] by (intro q_rep_frame [OF assms(2)]) simp
qed

theorem chan_queue_refines_list_witness:
  "q_rep (chan_q_remove 5 (\<lparr>q_head = Some 4, q_tail = Some 6\<rparr>,
      \<lparr>lk_prev = (\<lambda>_. None)(5 := Some 4, 6 := Some 5, 9 := Some 8),
       lk_next = (\<lambda>_. None)(4 := Some 5, 5 := Some 6, 8 := Some 9)\<rparr>)) [4, 6]"
  using chan_queue_refines_list
    [of "\<lparr>q_head = Some 4, q_tail = Some 6\<rparr>"
        "\<lparr>lk_prev = (\<lambda>_. None)(5 := Some 4, 6 := Some 5, 9 := Some 8),
          lk_next = (\<lambda>_. None)(4 := Some 5, 5 := Some 6, 8 := Some 9)\<rparr>" "[4, 5, 6]"
        "\<lparr>q_head = Some 8, q_tail = Some 9\<rparr>" "[8, 9]" 5]
  by (simp add: q_rep_def last_or_def)

primrec rq_pops :: "nat \<Rightarrow> ready_q \<Rightarrow> nat list" where
  "rq_pops 0 q = []"
| "rq_pops (Suc n) q = (case rq_pop q of (None, _) \<Rightarrow> [] | (Some t, q') \<Rightarrow> t # rq_pops n q')"

lemma rq_pops_drain: "rq_pops n q = ready.drain n q"
  by (induction n arbitrary: q) (simp_all split: prod.split option.split)

text \<open>The ready queue is first in, first out: after any distinct tasks are pushed on an empty
  queue, repeated pops return exactly those tasks in the order of the pushes, and their flags
  \<^verbatim>\<open>in_rq\<close> are set in between.\<close>

theorem ready_queue_fifo:
  assumes "distinct ts"
  shows "rq_pops (length ts) (fold rq_push ts empty_ready) = ts \<and>
         rq_in (fold rq_push ts empty_ready) t = (t \<in> set ts)"
proof -
  have "rq_rep (fold rq_push ts empty_ready) ([] @ ts)"
    using assms by (intro ready.push_all_rep empty_ready_rep) simp_all
  then show ?thesis
    using ready.push_all_drain [OF empty_ready_rep assms] by (simp add: rq_pops_drain rq_rep_def)
qed

theorem ready_queue_fifo_witness: "rq_pops 3 (fold rq_push [7, 1, 9] empty_ready) = [7, 1, 9]"
  using ready_queue_fifo [of "[7, 1, 9]"] by (simp add: eval_nat_numeral)

end
