(* ===== verification/Sched_Handles.thy ===== *)
theory Sched_Handles
  imports Runtime_Words
begin

text \<open>
  The generation-checked handle table of the scheduler (\<^verbatim>\<open>g_handles\<close> in
  \<^verbatim>\<open>runtime/sprout_scheduler.c\<close>). A scope, a channel or a forked task is named to Sprout code by
  \<open>(gen << 32) | idx\<close>. The slots are kept as the C array has them, the free list is threaded through
  \<open>hs_next_free\<close>, generations are 32-bit words. \<^verbatim>\<open>malloc\<close>ed records are named by their address,
  a nonzero number; address 0 is \<^verbatim>\<open>NULL\<close>. The \<^verbatim>\<open>realloc\<close> of the table is taken to succeed (the program ends when
  it fails).

  The table is a set of issued names: a live handle resolves to its own record and to nothing else, a
  released one never resolves again, whatever is allocated afterwards.
\<close>

unbundle bit_operations_syntax

datatype handle_kind = HANDLE_SCOPE | HANDLE_TASK | HANDLE_CHAN

record handle_slot =
  hs_ptr :: nat
  hs_gen :: "32 word"
  hs_next_free :: "32 word"
  hs_kind :: handle_kind

record handles =
  g_handles :: "handle_slot list"
  g_handles_cap :: nat
  g_handles_free :: "32 word"

definition HANDLE_NONE :: "32 word" where
  "HANDLE_NONE = - 1"

definition handle_make :: "32 word \<Rightarrow> 32 word \<Rightarrow> 64 word" where
  "handle_make gen idx = push_bit 32 (ucast gen) OR ucast idx"

definition handle_idx :: "64 word \<Rightarrow> 32 word" where
  "handle_idx h = ucast (h AND 0xffffffff)"

definition handle_gen :: "64 word \<Rightarrow> 32 word" where
  "handle_gen h = ucast (drop_bit 32 h)"

text \<open>A new slot of the array has an unspecified link; \<open>hs_next_free\<close> of it is never read before
  \<^verbatim>\<open>handle_release\<close> writes it.\<close>

definition handle_alloc :: "handle_kind \<Rightarrow> nat \<Rightarrow> handles \<Rightarrow> (64 word \<times> handles) res" where
  "handle_alloc kind ptr T =
     res_bind
       (if g_handles_free T \<noteq> HANDLE_NONE
        then Inr (g_handles_free T,
                  T\<lparr>g_handles_free := hs_next_free (g_handles T ! unat (g_handles_free T))\<rparr>)
        else if length (g_handles T) \<ge> unat HANDLE_NONE
        then Inl (SproutFail ''scheduler: out of handles'')
        else let T1 = T\<lparr>g_handles_cap := (if length (g_handles T) = g_handles_cap T
                                         then if g_handles_cap T = 0 then 64 else g_handles_cap T * 2
                                         else g_handles_cap T)\<rparr>
             in Inr (of_nat (length (g_handles T1)),
                     T1\<lparr>g_handles := g_handles T1 @ [\<lparr>hs_ptr = 0, hs_gen = 1, hs_next_free = 0, hs_kind = kind\<rparr>]\<rparr>))
       (\<lambda>(idx, T1).
          let slot = g_handles T1 ! unat idx in
          Inr (handle_make (hs_gen slot) idx,
               T1\<lparr>g_handles := (g_handles T1)[unat idx := slot\<lparr>hs_ptr := ptr, hs_kind := kind\<rparr>]\<rparr>))"

definition handle_release :: "64 word \<Rightarrow> handles \<Rightarrow> handles" where
  "handle_release handle T =
     (let idx = handle_idx handle;
          slot = (g_handles T ! unat idx)\<lparr>hs_ptr := 0\<rparr>
      in if hs_gen slot = - 1 then T\<lparr>g_handles := (g_handles T)[unat idx := slot]\<rparr>
         else T\<lparr>g_handles := (g_handles T)[unat idx :=
                   slot\<lparr>hs_gen := hs_gen slot + 1, hs_next_free := g_handles_free T\<rparr>],
                g_handles_free := idx\<rparr>)"

definition handle_lookup ::
  "64 word \<Rightarrow> handle_kind \<Rightarrow> string \<Rightarrow> string \<Rightarrow> string \<Rightarrow> handles \<Rightarrow> nat res" where
  "handle_lookup handle kind op what stale T =
     (let idx = handle_idx handle; gen = handle_gen handle in
      if unat idx \<ge> length (g_handles T) \<or> gen = 0 \<or> hs_kind (g_handles T ! unat idx) \<noteq> kind
      then Inl (SproutFail (op @ '': invalid '' @ what @ '' handle''))
      else let slot = g_handles T ! unat idx in
           if hs_gen slot \<noteq> gen \<or> hs_ptr slot = 0
           then Inl (SproutFail (op @ '': '' @ stale))
           else Inr (hs_ptr slot))"

definition scope_of :: "64 word \<Rightarrow> string \<Rightarrow> handles \<Rightarrow> nat res" where
  "scope_of handle op T = handle_lookup handle HANDLE_SCOPE op ''scope'' ''scope used after it closed'' T"

definition task_of :: "64 word \<Rightarrow> string \<Rightarrow> handles \<Rightarrow> nat res" where
  "task_of handle op T = handle_lookup handle HANDLE_TASK op ''task'' ''task used after its scope closed'' T"

definition chan_of :: "64 word \<Rightarrow> string \<Rightarrow> handles \<Rightarrow> nat res" where
  "chan_of handle op T = handle_lookup handle HANDLE_CHAN op ''channel'' ''channel used after its scope closed'' T"

definition no_handles :: handles where
  "no_handles = \<lparr>g_handles = [], g_handles_cap = 0, g_handles_free = HANDLE_NONE\<rparr>"

section \<open>What a handle denotes\<close>

text \<open>\<open>denotes T h\<close> is the record a handle resolves to, with its kind; \<open>None\<close> for one that is stale or
  was never issued.\<close>

definition denotes :: "handles \<Rightarrow> 64 word \<Rightarrow> (handle_kind \<times> nat) option" where
  "denotes T h =
     (let i = unat (handle_idx h) in
      if i < length (g_handles T) \<and> handle_gen h \<noteq> 0 \<and> hs_gen (g_handles T ! i) = handle_gen h \<and>
         hs_ptr (g_handles T ! i) \<noteq> 0
      then Some (hs_kind (g_handles T ! i), hs_ptr (g_handles T ! i)) else None)"

text \<open>The free list is a chain of distinct free slots; a free slot outside of it is retired.\<close>

fun free_chain :: "handle_slot list \<Rightarrow> 32 word \<Rightarrow> 32 word list \<Rightarrow> bool" where
  "free_chain sl i [] \<longleftrightarrow> i = HANDLE_NONE"
| "free_chain sl i (x # xs) \<longleftrightarrow> i = x \<and> i \<noteq> HANDLE_NONE \<and> unat i < length sl \<and> hs_ptr (sl ! unat i) = 0 \<and>
     free_chain sl (hs_next_free (sl ! unat i)) xs"

definition free_inv :: "handles \<Rightarrow> 32 word list \<Rightarrow> bool" where
  "free_inv T fl \<longleftrightarrow> length (g_handles T) \<le> unat HANDLE_NONE \<and>
     (\<forall>i < length (g_handles T). hs_gen (g_handles T ! i) \<noteq> 0) \<and>
     distinct fl \<and> free_chain (g_handles T) (g_handles_free T) fl"

definition handles_inv :: "handles \<Rightarrow> bool" where
  "handles_inv T \<longleftrightarrow> (\<exists>fl. free_inv T fl)"

text \<open>A handle is spent when its slot is at a later generation, or is retired at this one.\<close>

definition spent :: "handles \<Rightarrow> 32 word list \<Rightarrow> 64 word \<Rightarrow> bool" where
  "spent T fl h \<longleftrightarrow>
     (let i = unat (handle_idx h) in
      i < length (g_handles T) \<and>
      (handle_gen h < hs_gen (g_handles T ! i) \<or>
       handle_gen h = hs_gen (g_handles T ! i) \<and> hs_ptr (g_handles T ! i) = 0 \<and> handle_idx h \<notin> set fl))"

inductive handle_step :: "handles \<Rightarrow> handles \<Rightarrow> bool" where
  alloc: "ptr \<noteq> 0 \<Longrightarrow> handle_alloc kind ptr T = Inr (h, T') \<Longrightarrow> handle_step T T'"
| release: "denotes T h \<noteq> None \<Longrightarrow> handle_step T (handle_release h T)"

section \<open>Packing\<close>

lemma HANDLE_NONE_unat: "unat HANDLE_NONE = 2 ^ 32 - 1"
  by (simp add: HANDLE_NONE_def unsigned_minus_1_eq_mask mask_eq_exp_minus_1)

lemma unat_handle_make: "unat (handle_make g i) = unat g * 2 ^ 32 + unat i"
proof -
  have g: "unat (ucast g :: 64 word) = unat g" and i: "unat (ucast i :: 64 word) = unat i"
    by (simp_all add: unsigned_ucast_eq take_bit_nat_eq_self less_le_trans [OF unat_bound])
  have "unat g * 2 ^ 32 < 2 ^ 64" "unat i < 2 ^ 32"
    using unat_bound [of g] unat_bound [of i] by simp_all
  then show ?thesis
    unfolding handle_make_def by (subst unat_shift_or) (simp_all add: g i)
qed

lemma unat_handle_idx: "unat (handle_idx h) = unat h mod 2 ^ 32"
proof -
  have "unat (h AND 0xffffffff) = unat h mod 2 ^ 32"
    using unat_and_mask [of 32 h] by simp
  then show ?thesis
    by (simp add: handle_idx_def unsigned_ucast_eq take_bit_eq_mod)
qed

lemma unat_handle_gen: "unat (handle_gen h) = unat h div 2 ^ 32"
proof -
  have "unat h div 2 ^ 32 < 2 ^ 32"
    using unat_bound [of h] by simp
  then show ?thesis
    by (simp add: handle_gen_def unsigned_ucast_eq take_bit_eq_mod unat_drop del: unat_drop_bit_eq)
qed

lemma handle_make_idx [simp]: "handle_idx (handle_make g i) = i"
  using unat_bound [of i] by (simp add: word_unat_eq_iff unat_handle_idx unat_handle_make)

lemma handle_make_gen [simp]: "handle_gen (handle_make g i) = g"
  using unat_bound [of i] by (simp add: word_unat_eq_iff unat_handle_gen unat_handle_make)

lemma handle_eq_iff: "h = handle_make g i \<longleftrightarrow> handle_gen h = g \<and> handle_idx h = i"
proof
  assume "handle_gen h = g \<and> handle_idx h = i"
  then have "unat (handle_make g i) = unat h"
    by (auto simp: unat_handle_make unat_handle_gen [symmetric] unat_handle_idx unat_handle_gen)
  then show "h = handle_make g i" by (simp add: word_unat_eq_iff)
qed auto

lemma handle_ext: "handle_idx a = handle_idx b \<Longrightarrow> handle_gen a = handle_gen b \<Longrightarrow> a = b"
  using handle_eq_iff [of a "handle_gen b" "handle_idx b"] handle_eq_iff [of b "handle_gen b" "handle_idx b"]
  by simp

section \<open>The free list\<close>

lemma free_chain_in:
  "free_chain sl i fl \<Longrightarrow> x \<in> set fl \<Longrightarrow> unat x < length sl \<and> hs_ptr (sl ! unat x) = 0 \<and> x \<noteq> HANDLE_NONE"
  by (induction fl arbitrary: i) auto

lemma free_chain_cong:
  "free_chain sl i fl \<Longrightarrow> length sl \<le> length sl' \<Longrightarrow>
   (\<And>x. x \<in> set fl \<Longrightarrow> hs_ptr (sl' ! unat x) = 0 \<and> hs_next_free (sl' ! unat x) = hs_next_free (sl ! unat x)) \<Longrightarrow>
   free_chain sl' i fl"
  by (induction fl arbitrary: i) (auto intro: less_le_trans)

lemma unat_of_nat_idx: "n < unat HANDLE_NONE \<Longrightarrow> unat (of_nat n :: 32 word) = n"
  by (simp add: HANDLE_NONE_unat unsigned_of_nat take_bit_nat_eq_self)

lemma free_inv_empty: "free_inv no_handles []"
  by (simp add: free_inv_def no_handles_def)

text \<open>Where the two branches of an allocation come from.\<close>

lemma handle_alloc_cases:
  assumes "handle_alloc kind ptr T = Inr (h, T')" "free_inv T fl"
  obtains (reuse) fl' where "fl = handle_idx h # fl'" "handle_gen h = hs_gen (g_handles T ! unat (handle_idx h))"
      "g_handles T' = (g_handles T)[unat (handle_idx h) := (g_handles T ! unat (handle_idx h))\<lparr>hs_ptr := ptr, hs_kind := kind\<rparr>]"
      "g_handles_free T' = hs_next_free (g_handles T ! unat (handle_idx h))"
  | (fresh) "fl = []" "unat (handle_idx h) = length (g_handles T)" "handle_gen h = 1"
      "length (g_handles T) < unat HANDLE_NONE" "g_handles_free T' = HANDLE_NONE"
      "g_handles T' = g_handles T @ [\<lparr>hs_ptr = ptr, hs_gen = 1, hs_next_free = 0, hs_kind = kind\<rparr>]"
proof (cases "g_handles_free T = HANDLE_NONE")
  case True
  then have "fl = []"
    using assms(2) by (cases fl) (auto simp: free_inv_def)
  moreover have "length (g_handles T) < unat HANDLE_NONE"
    using assms(1) True by (auto simp: handle_alloc_def Let_def split: if_splits)
  moreover from this have "unat (of_nat (length (g_handles T)) :: 32 word) = length (g_handles T)"
    by (rule unat_of_nat_idx)
  ultimately show ?thesis
    using assms(1) True by (intro fresh) (auto simp: handle_alloc_def Let_def split: if_split_asm)
next
  case False
  then obtain fl' where "fl = g_handles_free T # fl'"
    using assms(2) by (cases fl) (auto simp: free_inv_def)
  then show ?thesis
    using assms(1) False by (intro reuse) (auto simp: handle_alloc_def Let_def)
qed


lemma denotes_SomeD:
  assumes "denotes T h = Some (k, p)"
  shows "unat (handle_idx h) < length (g_handles T)" "handle_gen h \<noteq> 0"
    "hs_gen (g_handles T ! unat (handle_idx h)) = handle_gen h"
    "hs_ptr (g_handles T ! unat (handle_idx h)) = p" "p \<noteq> 0"
    "hs_kind (g_handles T ! unat (handle_idx h)) = k"
  using assms by (auto simp: denotes_def Let_def split: if_splits)

lemma denotes_update_other:
  assumes "g_handles T' = (g_handles T)[unat i := s]" "handle_idx h \<noteq> i"
  shows "denotes T' h = denotes T h"
  using assms by (simp add: denotes_def Let_def word_unat_eq_iff)

lemma handle_alloc_denotes:
  assumes "handle_alloc kind ptr T = Inr (h, T')" "free_inv T fl" "ptr \<noteq> 0"
  shows "denotes T h = None" "denotes T' = (denotes T)(h \<mapsto> (kind, ptr))"
proof -
  show "denotes T h = None"
    using assms(1,2)
  proof (cases rule: handle_alloc_cases)
    case (reuse fl')
    then show ?thesis using assms(2) by (auto simp: free_inv_def denotes_def Let_def)
  next
    case fresh
    then show ?thesis by (simp add: denotes_def)
  qed
  show "denotes T' = (denotes T)(h \<mapsto> (kind, ptr))"
  proof
    fix h2
    show "denotes T' h2 = ((denotes T)(h \<mapsto> (kind, ptr))) h2"
      using assms(1,2)
    proof (cases rule: handle_alloc_cases)
      case (reuse fl')
      then have i: "unat (handle_idx h) < length (g_handles T)" "hs_ptr (g_handles T ! unat (handle_idx h)) = 0"
        and "handle_gen h \<noteq> 0"
        using assms(2) by (auto simp: free_inv_def)
      then show ?thesis
        using reuse assms(3) denotes_update_other [OF reuse(3), of h2]
        by (cases "handle_idx h2 = handle_idx h")
          (auto simp: denotes_def Let_def intro: handle_ext)
    next
      case fresh
      show ?thesis
      proof (cases "handle_idx h2 = handle_idx h")
        case True
        then show ?thesis
          using fresh assms(3) by (auto simp: denotes_def Let_def intro: handle_ext)
      next
        case False
        then have "unat (handle_idx h2) \<noteq> length (g_handles T)"
          using fresh(2) by (simp add: word_unat_eq_iff)
        moreover have "h2 \<noteq> h" using False by auto
        ultimately show ?thesis
          using fresh by (simp add: denotes_def Let_def nth_append)
      qed
    qed
  qed
qed


lemma handle_release_slots:
  "g_handles (handle_release h T) =
     (g_handles T)[unat (handle_idx h) :=
        (let s = g_handles T ! unat (handle_idx h) in
         if hs_gen s = - 1 then s\<lparr>hs_ptr := 0\<rparr>
         else s\<lparr>hs_ptr := 0, hs_gen := hs_gen s + 1, hs_next_free := g_handles_free T\<rparr>)]"
  by (simp add: handle_release_def Let_def)

lemma handle_release_denotes:
  assumes "denotes T h \<noteq> None"
  shows "denotes (handle_release h T) = (denotes T)(h := None)"
proof
  fix h2
  obtain k p where d: "denotes T h = Some (k, p)"
    using assms by auto
  note h = denotes_SomeD [OF d]
  show "denotes (handle_release h T) h2 = ((denotes T)(h := None)) h2"
  proof (cases "handle_idx h2 = handle_idx h")
    case True
    then have "denotes T h2 = None" if "h2 \<noteq> h"
      using that h handle_ext [of h2 h] by (auto simp: denotes_def Let_def)
    moreover have "denotes (handle_release h T) h2 = None"
      using True h(1) by (simp add: denotes_def handle_release_slots Let_def)
    ultimately show ?thesis by simp
  next
    case False
    then have "denotes (handle_release h T) h2 = denotes T h2"
      by (rule denotes_update_other [OF handle_release_slots])
    then show ?thesis using False by auto
  qed
qed

lemma gen_Suc: "g \<noteq> - 1 \<Longrightarrow> g + 1 \<noteq> 0" "g \<noteq> - 1 \<Longrightarrow> g < g + 1" for g :: "32 word"
proof -
  assume "g \<noteq> - 1"
  then show g: "g + 1 \<noteq> 0"
    by (metis add.commute add_eq_0_iff)
  then have "unat (g + 1) = unat g + 1"
    by (metis Suc_eq_plus1 unatSuc add.commute)
  then show "g < g + 1" by (simp add: word_less_nat_alt)
qed

lemma alloc_free_inv:
  assumes "handle_alloc kind ptr T = Inr (h, T')" "free_inv T fl"
  shows "free_inv T' (remove1 (handle_idx h) fl)"
  using assms
proof (cases rule: handle_alloc_cases)
  case (reuse fl')
  have "free_chain (g_handles T) (g_handles_free T') fl'" "handle_idx h \<notin> set fl'" "distinct fl'"
    using assms(2) reuse by (auto simp: free_inv_def)
  moreover have "unat (handle_idx h) \<noteq> unat x" if "x \<in> set fl'" for x
    using that calculation(2) by (metis word_unat_eq_iff)
  then have "free_chain (g_handles T') (g_handles_free T') fl'"
    using reuse(3) free_chain_in [OF calculation(1)] by (intro free_chain_cong [OF calculation(1)]) auto
  moreover have "hs_gen (g_handles T' ! i) = hs_gen (g_handles T ! i)" for i
    using reuse(3) by (cases "i = unat (handle_idx h)"; cases "i < length (g_handles T)")
      (simp_all add: list_update_beyond)
  ultimately show ?thesis
    using assms(2) reuse(1,3) by (simp add: free_inv_def)
next
  case fresh
  then show ?thesis
    using assms(2) by (auto simp: free_inv_def nth_append)
qed

lemma release_free_inv:
  assumes "denotes T h = Some (k, p)" "free_inv T fl"
  shows "free_inv (handle_release h T) (if handle_gen h = - 1 then fl else handle_idx h # fl)"
proof -
  note h = denotes_SomeD [OF assms(1)]
  have fc: "free_chain (g_handles T) (g_handles_free T) fl" and d: "distinct fl"
    using assms(2) by (auto simp: free_inv_def)
  have nin: "handle_idx h \<notin> set fl"
    using free_chain_in [OF fc] h(4,5) by auto
  have "unat (handle_idx h) \<noteq> unat x" if "x \<in> set fl" for x
    using that nin by (metis word_unat_eq_iff)
  then have "free_chain (g_handles (handle_release h T)) (g_handles_free T) fl"
    using free_chain_in [OF fc] by (intro free_chain_cong [OF fc]) (auto simp: handle_release_slots)
  moreover have "unat (handle_idx h) < unat HANDLE_NONE"
    using h(1) assms(2) by (simp add: free_inv_def)
  then have "handle_idx h \<noteq> HANDLE_NONE" by auto
  ultimately show ?thesis
    using assms(2) h d nin gen_Suc(1)
    by (auto simp: free_inv_def handle_release_slots nth_list_update handle_release_def Let_def)
qed

section \<open>Handles as names\<close>

lemma handle_step_inv:
  assumes "handle_step T T'" "free_inv T fl" "spent T fl h"
  obtains fl' where "free_inv T' fl'" "spent T' fl' h"
  using assms(1)
proof cases
  case (alloc ptr kind h2)
  have "spent T' (remove1 (handle_idx h2) fl) h"
    using alloc(2) assms(2)
  proof (cases rule: handle_alloc_cases)
    case (reuse fl')
    have "unat (handle_idx h2) \<noteq> unat (handle_idx h)" if "handle_idx h2 \<noteq> handle_idx h"
      using that by (simp add: word_unat_eq_iff)
    then show ?thesis
      using assms(2,3) reuse
      by (cases "handle_idx h2 = handle_idx h") (auto simp: free_inv_def spent_def Let_def)
  next
    case fresh
    then show ?thesis
      using assms(3) by (auto simp: spent_def Let_def nth_append)
  qed
  then show ?thesis
    using alloc_free_inv [OF alloc(2) assms(2)] that by blast
next
  case (release h2)
  then obtain k p where d: "denotes T h2 = Some (k, p)" by auto
  note h2 = denotes_SomeD [OF d]
  have "spent T' (if handle_gen h2 = - 1 then fl else handle_idx h2 # fl) h"
    using assms(3) h2 release(1) gen_Suc(2) [of "handle_gen h2"]
    by (cases "handle_idx h = handle_idx h2")
      (auto simp: spent_def Let_def handle_release_slots word_unat_eq_iff [symmetric])
  then show ?thesis
    using release_free_inv [OF d assms(2)] that release(1) by blast
qed

lemma spent_denotes: "spent T fl h \<Longrightarrow> denotes T h = None"
  by (auto simp: spent_def denotes_def Let_def)

lemma release_spent:
  assumes "denotes T h = Some (k, p)" "free_inv T fl"
  shows "spent (handle_release h T) (if handle_gen h = - 1 then fl else handle_idx h # fl) h"
proof -
  note h = denotes_SomeD [OF assms(1)]
  have "handle_idx h \<notin> set fl"
    using free_chain_in [of "g_handles T" "g_handles_free T" fl "handle_idx h"] assms(2) h(4,5)
    by (auto simp: free_inv_def)
  then show ?thesis
    using h gen_Suc(2) [of "handle_gen h"] by (auto simp: spent_def Let_def handle_release_slots)
qed

lemma lookup_denotes:
  assumes "denotes T h = Some (k, p)"
  shows "handle_lookup h k op what stale T = Inr p"
    and "k' \<noteq> k \<Longrightarrow> handle_lookup h k' op what stale T = Inl (SproutFail (op @ '': invalid '' @ what @ '' handle''))"
  using denotes_SomeD [OF assms] by (simp_all add: handle_lookup_def Let_def)

lemma lookup_not_denotes:
  assumes "denotes T h = None"
  shows "\<exists>msg. handle_lookup h k op what stale T = Inl (SproutFail msg)"
  using assms by (auto simp: handle_lookup_def denotes_def Let_def split: if_splits)


definition used_twice :: handles where
  "used_twice =
     \<lparr>g_handles = [\<lparr>hs_ptr = 8, hs_gen = 3, hs_next_free = 0, hs_kind = HANDLE_SCOPE\<rparr>,
                   \<lparr>hs_ptr = 0, hs_gen = 2, hs_next_free = HANDLE_NONE, hs_kind = HANDLE_CHAN\<rparr>],
      g_handles_cap = 64, g_handles_free = 1\<rparr>"

lemma used_twice_inv: "handles_inv used_twice"
proof -
  have "free_inv used_twice [1]"
    unfolding free_inv_def used_twice_def HANDLE_NONE_unat by (simp add: HANDLE_NONE_def nth_Cons')
  then show ?thesis by (auto simp: handles_inv_def)
qed

text \<open>C31. The handle table implements a finite map from handles to records. Allocation keeps the table
  well formed, returns a handle that denoted nothing before, and adds exactly that binding; release of a
  live handle keeps the table well formed and removes exactly that binding; resolving a handle yields the
  record of its binding when the kind matches and otherwise ends in \<^verbatim>\<open>sprout_fail\<close>.\<close>

theorem handle_table_refines_names:
  assumes "handles_inv T"
  shows "(\<forall>kind ptr h T'. ptr \<noteq> 0 \<and> handle_alloc kind ptr T = Inr (h, T') \<longrightarrow>
            handles_inv T' \<and> denotes T h = None \<and> denotes T' = (denotes T)(h \<mapsto> (kind, ptr))) \<and>
         (\<forall>h. denotes T h \<noteq> None \<longrightarrow>
            handles_inv (handle_release h T) \<and> denotes (handle_release h T) = (denotes T)(h := None)) \<and>
         (\<forall>h kind op what stale.
            case denotes T h of
              Some (k, p) \<Rightarrow> handle_lookup h kind op what stale T =
                (if k = kind then Inr p else Inl (SproutFail (op @ '': invalid '' @ what @ '' handle'')))
            | None \<Rightarrow> \<exists>msg. handle_lookup h kind op what stale T = Inl (SproutFail msg))"
proof -
  obtain fl where fl: "free_inv T fl"
    using assms by (auto simp: handles_inv_def)
  have "handles_inv T' \<and> denotes T h = None \<and> denotes T' = (denotes T)(h \<mapsto> (kind, ptr))"
    if "ptr \<noteq> 0" "handle_alloc kind ptr T = Inr (h, T')" for kind ptr h T'
    using handle_alloc_denotes [OF that(2) fl that(1)] alloc_free_inv [OF that(2) fl]
    by (auto simp: handles_inv_def)
  moreover have "handles_inv (handle_release h T) \<and> denotes (handle_release h T) = (denotes T)(h := None)"
    if "denotes T h \<noteq> None" for h
    using that handle_release_denotes [OF that] release_free_inv [of T h] fl
    by (auto simp: handles_inv_def)
  ultimately show ?thesis
    using lookup_denotes lookup_not_denotes by (auto split: option.split)
qed

theorem handle_table_refines_names_witness:
  "denotes used_twice (handle_make 3 0) = Some (HANDLE_SCOPE, 8) \<and>
   denotes (handle_release (handle_make 3 0) used_twice) = (denotes used_twice)(handle_make 3 0 := None)"
proof -
  have "denotes used_twice (handle_make 3 0) = Some (HANDLE_SCOPE, 8)"
    by (simp add: denotes_def used_twice_def)
  then show ?thesis
    using handle_table_refines_names [OF used_twice_inv] by simp
qed

text \<open>C30. A handle that outlives its record is never accepted again: once a live handle is released,
  no sequence of later allocations and releases, however often its slot is reused, makes it resolve,
  and every use of it ends in \<^verbatim>\<open>sprout_fail\<close>. A slot whose 32-bit generation is used up is retired
  instead of wrapping.\<close>

theorem released_handle_stays_dead:
  assumes "handles_inv T" "denotes T h \<noteq> None" "handle_step\<^sup>*\<^sup>* (handle_release h T) T'"
  shows "denotes T' h = None \<and> (\<exists>msg. handle_lookup h kind op what stale T' = Inl (SproutFail msg))"
proof -
  obtain fl where fl: "free_inv T fl"
    using assms(1) by (auto simp: handles_inv_def)
  obtain k p where d: "denotes T h = Some (k, p)"
    using assms(2) by auto
  have "\<exists>fl'. free_inv T' fl' \<and> spent T' fl' h"
    using assms(3)
  proof (induction rule: rtranclp_induct)
    case base
    show ?case using release_free_inv [OF d fl] release_spent [OF d fl] by blast
  next
    case (step T1 T2)
    then show ?case by (meson handle_step_inv)
  qed
  then have "denotes T' h = None"
    using spent_denotes by blast
  then show ?thesis using lookup_not_denotes by blast
qed

theorem released_handle_stays_dead_witness:
  "denotes (handle_release (handle_make 3 0) used_twice) (handle_make 3 0) = None"
proof -
  have "denotes used_twice (handle_make 3 0) \<noteq> None"
    by (simp add: denotes_def used_twice_def)
  then show ?thesis
    using released_handle_stays_dead [OF used_twice_inv _ rtranclp.rtrancl_refl] by blast
qed

end
