(* ===== verification/Chan_Ring.thy ===== *)
theory Chan_Ring
  imports Runtime_Prelude
begin

text \<open>
  The buffer of a channel (\<^verbatim>\<open>struct Chan\<close> of \<^verbatim>\<open>runtime/sprout_scheduler.c\<close>): a ring of \<open>slots\<close> values that
  starts small and doubles on demand up to the bound \<open>cap\<close>. \<open>rg_scan\<close> is the length of the one scan
  root the channel's root context holds over the ring. \<^verbatim>\<open>long long\<close> fields that are never negative are
  natural numbers; the invariant bounds all of them by \<open>cap\<close>. The \<^verbatim>\<open>calloc\<close> of a ring whose size is in range
  is taken to succeed (the program ends when it fails).

  The ring implements a bounded queue of values: its abstract content is the list of the
  buffered values in the order of their sends.
\<close>

record ring =
  rg_buffer :: "sval list"
  rg_cap :: nat
  rg_slots :: nat
  rg_count :: nat
  rg_head :: nat
  rg_tail :: nat
  rg_scan :: nat

definition CHAN_INITIAL_SLOTS :: nat where
  "CHAN_INITIAL_SLOTS = 16"

definition SIZE_MAX :: nat where
  "SIZE_MAX = 2 ^ 64 - 1"

definition chan_ring_next :: "'a ring_scheme \<Rightarrow> nat \<Rightarrow> nat res" where
  "chan_ring_next ch i =
     (if rg_slots ch = 0 then Inl (SproutFail ''chan_ring_next: channel has no buffer'')
      else Inr ((i + 1) mod rg_slots ch))"

definition chan_ring_alloc :: "nat \<Rightarrow> string \<Rightarrow> sval list res" where
  "chan_ring_alloc n who =
     (if n \<ge> 1 \<and> n \<le> SIZE_MAX div 8 then Inr (replicate n 0)
      else Inl (SproutFail (who @ '': out of memory (channel buffer)'')))"

definition chan_grow :: "'a ring_scheme \<Rightarrow> 'a ring_scheme res" where
  "chan_grow ch =
     (if rg_slots ch < 1 \<or> rg_slots ch > rg_cap ch \<or> rg_count ch \<noteq> rg_slots ch
      then Inl (SproutFail ''chan_grow: channel is not a full ring below its bound'')
      else let want = (if rg_slots ch > rg_cap ch div 2 then rg_cap ch else rg_slots ch * 2) in
        res_bind (chan_ring_alloc want ''chan_grow'') (\<lambda>ring.
          let ring' = fold (\<lambda>i b. b[i := rg_buffer ch ! ((rg_head ch + i) mod rg_slots ch)]) [0..<rg_count ch] ring
          in Inr (ch\<lparr>rg_buffer := ring', rg_slots := want, rg_head := 0, rg_tail := rg_count ch,
                     rg_scan := want\<rparr>)))"

text \<open>The two buffer accesses of \<^verbatim>\<open>__chan_send\<close> and \<^verbatim>\<open>chan_poll_take\<close>: store at the tail, take from the head.\<close>

definition chan_store :: "sval \<Rightarrow> 'a ring_scheme \<Rightarrow> 'a ring_scheme res" where
  "chan_store v ch =
     (let ch1 = ch\<lparr>rg_buffer := (rg_buffer ch)[rg_tail ch := v]\<rparr> in
      res_bind (chan_ring_next ch1 (rg_tail ch1)) (\<lambda>t.
        Inr (ch1\<lparr>rg_tail := t, rg_count := rg_count ch1 + 1\<rparr>)))"

definition chan_fetch :: "'a ring_scheme \<Rightarrow> (sval \<times> 'a ring_scheme) res" where
  "chan_fetch ch =
     (let v = rg_buffer ch ! rg_head ch;
          ch1 = ch\<lparr>rg_buffer := (rg_buffer ch)[rg_head ch := 0]\<rparr> in
      res_bind (chan_ring_next ch1 (rg_head ch1)) (\<lambda>h.
        Inr (v, ch1\<lparr>rg_head := h, rg_count := rg_count ch1 - 1\<rparr>)))"

definition chan_put :: "sval \<Rightarrow> 'a ring_scheme \<Rightarrow> 'a ring_scheme res" where
  "chan_put v ch =
     res_bind (if rg_count ch = rg_slots ch then chan_grow ch else Inr ch) (chan_store v)"

definition ring_new :: "nat \<Rightarrow> ring res" where
  "ring_new capacity =
     (let ch = \<lparr>rg_buffer = [], rg_cap = capacity, rg_slots = 0, rg_count = 0, rg_head = 0, rg_tail = 0,
                rg_scan = 0\<rparr> in
      if capacity > 0
      then let n = (if capacity < CHAN_INITIAL_SLOTS then capacity else CHAN_INITIAL_SLOTS) in
           res_bind (chan_ring_alloc n ''__chan_new'') (\<lambda>b.
             Inr (ch\<lparr>rg_slots := n, rg_buffer := b, rg_scan := n\<rparr>))
      else Inr ch)"

section \<open>Content and invariant\<close>

definition slot_of :: "'a ring_scheme \<Rightarrow> nat \<Rightarrow> nat" where
  "slot_of ch i = (rg_head ch + i) mod rg_slots ch"

definition content :: "'a ring_scheme \<Rightarrow> sval list" where
  "content ch = map (\<lambda>i. rg_buffer ch ! slot_of ch i) [0..<rg_count ch]"

text \<open>The vacated slots hold 0, so that the collector's scan of the ring keeps nothing alive through
  them, and the scan covers the whole ring.\<close>

definition ring_inv :: "'a ring_scheme \<Rightarrow> bool" where
  "ring_inv ch \<longleftrightarrow> length (rg_buffer ch) = rg_slots ch \<and> rg_count ch \<le> rg_slots ch \<and> rg_slots ch \<le> rg_cap ch \<and>
     (rg_slots ch = 0 \<longrightarrow> rg_cap ch = 0) \<and> rg_scan ch = rg_slots ch \<and>
     (rg_slots ch > 0 \<longrightarrow> rg_head ch < rg_slots ch \<and> rg_tail ch = slot_of ch (rg_count ch)) \<and>
     (\<forall>i. rg_count ch \<le> i \<and> i < rg_slots ch \<longrightarrow> rg_buffer ch ! slot_of ch i = 0)"

lemma length_content [simp]: "length (content ch) = rg_count ch"
  by (simp add: content_def)

lemma content_eq_Nil [simp]: "content ch = [] \<longleftrightarrow> rg_count ch = 0"
  by (simp add: content_def)

lemma mod_shift_inj:
  fixes a i j n :: nat
  assumes "(a + i) mod n = (a + j) mod n" "i < n" "j < n"
  shows "i = j"
  using assms
proof (induction i j rule: linorder_wlog)
  case (le i j)
  then have "n dvd (a + j) - (a + i)"
    by (metis add_le_cancel_left mod_eq_dvd_iff_nat)
  then show ?case
    using le by (auto dest: dvd_imp_le)
qed simp

lemma slot_of_less: "0 < rg_slots ch \<Longrightarrow> slot_of ch i < rg_slots ch"
  by (simp add: slot_of_def)

lemma slot_of_inj: "slot_of ch i = slot_of ch j \<Longrightarrow> i < rg_slots ch \<Longrightarrow> j < rg_slots ch \<Longrightarrow> i = j"
  unfolding slot_of_def by (rule mod_shift_inj)

lemma slot_of_next: "((rg_head ch + 1) mod n + i) mod n = (rg_head ch + Suc i) mod n"
  by (simp add: mod_simps)

lemma fold_copy:
  "fold (\<lambda>i b. b[i := f i]) [0..<k] (replicate n 0) = map f [0..<min k n] @ replicate (n - k) (0 :: sval)"
proof (induction k)
  case (Suc k)
  show ?case
  proof (cases "k < n")
    case True
    then have "replicate (n - k) (0 :: sval) = 0 # replicate (n - Suc k) 0"
      by (metis Suc_diff_Suc replicate_Suc)
    then show ?thesis
      using Suc True by (simp add: min_def list_update_append)
  next
    case False
    then show ?thesis
      using Suc by (simp add: min_def list_update_append list_update_beyond)
  qed
qed simp

section \<open>The operations on the content\<close>

lemma chan_store_ok:
  assumes inv: "ring_inv ch" and room: "rg_count ch < rg_slots ch" and r: "chan_store v ch = Inr ch'"
  shows "ring_inv ch'" "content ch' = content ch @ [v]"
proof -
  have t: "rg_tail ch = slot_of ch (rg_count ch)" and len: "length (rg_buffer ch) = rg_slots ch"
    using inv room by (auto simp: ring_inv_def)
  have b: "rg_buffer ch' = (rg_buffer ch)[slot_of ch (rg_count ch) := v]"
    and c: "rg_count ch' = Suc (rg_count ch)" and h: "rg_head ch' = rg_head ch"
    and sl: "rg_slots ch' = rg_slots ch" "rg_cap ch' = rg_cap ch" "rg_scan ch' = rg_scan ch"
    and t': "rg_tail ch' = (rg_tail ch + 1) mod rg_slots ch"
    using r t room by (auto simp: chan_store_def chan_ring_next_def split: if_splits)
  have so: "slot_of ch' = slot_of ch"
    by (simp add: slot_of_def fun_eq_iff h sl)
  have at: "rg_buffer ch' ! slot_of ch i = (if i = rg_count ch then v else rg_buffer ch ! slot_of ch i)"
    if "i < rg_slots ch" for i
    using that room len slot_of_inj [of ch i "rg_count ch"] by (auto simp: b nth_list_update slot_of_less)
  have "rg_tail ch' = slot_of ch (rg_count ch')"
    by (simp add: t' t c slot_of_def mod_simps)
  then show "ring_inv ch'"
    using inv room at by (auto simp: ring_inv_def so c sl h b)
  show "content ch' = content ch @ [v]"
    using at room by (auto simp: content_def so c)
qed

lemma chan_fetch_ok:
  assumes inv: "ring_inv ch" and some: "0 < rg_count ch" and r: "chan_fetch ch = Inr (v, ch')"
  shows "ring_inv ch'" "content ch = v # content ch'"
proof -
  have pos: "0 < rg_slots ch" "rg_head ch < rg_slots ch" and len: "length (rg_buffer ch) = rg_slots ch"
    and t: "rg_tail ch = slot_of ch (rg_count ch)" and le: "rg_count ch \<le> rg_slots ch"
    using inv some by (auto simp: ring_inv_def)
  have v: "v = rg_buffer ch ! rg_head ch" and b: "rg_buffer ch' = (rg_buffer ch)[rg_head ch := 0]"
    and c: "rg_count ch = Suc (rg_count ch')" and h: "rg_head ch' = (rg_head ch + 1) mod rg_slots ch"
    and sl: "rg_slots ch' = rg_slots ch" "rg_cap ch' = rg_cap ch" "rg_scan ch' = rg_scan ch" "rg_tail ch' = rg_tail ch"
    using r some pos by (auto simp: chan_fetch_def chan_ring_next_def)
  have so: "slot_of ch' i = slot_of ch (Suc i)" for i
    unfolding slot_of_def h sl by (rule slot_of_next)
  have h0: "rg_head ch = slot_of ch 0"
    using pos by (simp add: slot_of_def)
  have wrap: "slot_of ch (rg_slots ch) = slot_of ch 0"
    by (simp add: slot_of_def)
  have at: "rg_buffer ch' ! slot_of ch i = (if i = 0 then 0 else rg_buffer ch ! slot_of ch i)"
    if "i < rg_slots ch" for i
    using that pos len slot_of_inj [of ch i 0] by (auto simp: b h0 nth_list_update slot_of_less)
  have "rg_buffer ch' ! slot_of ch' i = 0" if i: "rg_count ch' \<le> i" "i < rg_slots ch" for i
  proof (cases "Suc i = rg_slots ch")
    case True
    then show ?thesis using at [of 0] pos wrap so [of i] by simp
  next
    case False
    then have i': "Suc i < rg_slots ch" "rg_count ch \<le> Suc i" using i c by simp_all
    then have "rg_buffer ch ! slot_of ch (Suc i) = 0"
      using inv by (simp add: ring_inv_def)
    then show ?thesis using at [OF i'(1)] by (simp add: so)
  qed
  then show "ring_inv ch'"
    using inv pos le c t by (simp add: ring_inv_def sl so b h)
  have "[0..<rg_count ch] = 0 # map Suc [0..<rg_count ch']"
    unfolding c by (rule upt_rec [THEN trans]) (simp add: map_Suc_upt)
  then show "content ch = v # content ch'"
    using at le c by (simp add: content_def so v h0 del: upt_Suc)
qed

lemma chan_grow_ok:
  assumes inv: "ring_inv ch" and full: "rg_count ch = rg_slots ch" "rg_count ch < rg_cap ch"
    and r: "chan_grow ch = Inr ch'"
  shows "ring_inv ch'" "content ch' = content ch" "rg_slots ch < rg_slots ch'" "rg_cap ch' = rg_cap ch"
    "rg_slots ch' = min (rg_cap ch) (2 * rg_slots ch)"
proof -
  define want where "want = (if rg_slots ch > rg_cap ch div 2 then rg_cap ch else rg_slots ch * 2)"
  have pos: "0 < rg_slots ch"
    using inv full by (auto simp: ring_inv_def)
  then have w: "rg_slots ch < want" "want \<le> rg_cap ch" and wm: "want = min (rg_cap ch) (2 * rg_slots ch)"
    using full by (auto simp: want_def min_def)
  have ch': "rg_buffer ch' = content ch @ replicate (want - rg_count ch) 0" "rg_slots ch' = want" "rg_head ch' = 0"
     "rg_tail ch' = rg_count ch" "rg_scan ch' = want" "rg_count ch' = rg_count ch" "rg_cap ch' = rg_cap ch"
    using r w full unfolding chan_grow_def want_def [symmetric] chan_ring_alloc_def
    by (auto simp: Let_def fold_copy min_def content_def slot_of_def split: if_splits)
  have so: "slot_of ch' i = i" if "i < want" for i
    using that by (simp add: slot_of_def ch')
  show "ring_inv ch'"
    using w full by (auto simp: ring_inv_def ch' so nth_append)
  show "content ch' = content ch"
    using w full by (intro nth_equalityI) (auto simp: content_def [of ch'] ch' so nth_append)
  show "rg_slots ch < rg_slots ch'" "rg_cap ch' = rg_cap ch" "rg_slots ch' = min (rg_cap ch) (2 * rg_slots ch)"
    using w wm by (simp_all add: ch')
qed

lemma chan_put_ok:
  assumes inv: "ring_inv ch" and room: "rg_count ch < rg_cap ch" and r: "chan_put v ch = Inr ch'"
  shows "ring_inv ch'" "content ch' = content ch @ [v]"
proof -
  obtain ch1 where g: "(if rg_count ch = rg_slots ch then chan_grow ch else Inr ch) = Inr ch1"
    and s: "chan_store v ch1 = Inr ch'"
    using r by (auto simp: chan_put_def res_bind_eq_Inr)
  have "ring_inv ch1 \<and> content ch1 = content ch \<and> rg_count ch1 < rg_slots ch1"
  proof (cases "rg_count ch = rg_slots ch")
    case True
    then have "chan_grow ch = Inr ch1" using g by simp
    note gr = chan_grow_ok [OF inv True room this]
    then have "rg_count ch1 = rg_count ch" by (metis length_content)
    then show ?thesis using gr True by simp
  next
    case False
    then show ?thesis using g inv by (auto simp: ring_inv_def)
  qed
  then show "ring_inv ch'" "content ch' = content ch @ [v]"
    using chan_store_ok [OF _ _ s] by simp_all
qed


section \<open>The ring never fails on a buffered path\<close>

lemma chan_store_total: "0 < rg_slots ch \<Longrightarrow> \<exists>ch'. chan_store v ch = Inr ch'"
  by (simp add: chan_store_def chan_ring_next_def)

lemma chan_fetch_total:
  "ring_inv ch \<Longrightarrow> 0 < rg_count ch \<Longrightarrow> \<exists>v ch'. chan_fetch ch = Inr (v, ch')"
  by (auto simp: chan_fetch_def chan_ring_next_def ring_inv_def)

lemma chan_put_total:
  assumes "ring_inv ch" "rg_count ch < rg_cap ch" "rg_cap ch \<le> SIZE_MAX div 8"
  shows "\<exists>ch'. chan_put v ch = Inr ch'"
proof (cases "rg_count ch = rg_slots ch")
  case True
  then have "\<exists>ch1. chan_grow ch = Inr ch1"
    using assms by (auto simp: chan_grow_def chan_ring_alloc_def ring_inv_def Let_def)
  then obtain ch1 where g: "chan_grow ch = Inr ch1" ..
  have "0 < rg_slots ch1"
    using chan_grow_ok(3) [OF assms(1) True assms(2) g] by simp
  then show ?thesis
    using chan_store_total True g by (simp add: chan_put_def)
next
  case False
  then show ?thesis
    using assms(1) chan_store_total by (auto simp: chan_put_def ring_inv_def)
qed

lemma chan_put_cap: "chan_put v ch = Inr ch' \<Longrightarrow> rg_cap ch' = rg_cap ch"
  by (auto simp: chan_put_def chan_store_def chan_grow_def chan_ring_next_def Let_def res_bind_eq_Inr split: if_splits)

lemma chan_fetch_cap: "chan_fetch ch = Inr (v, ch') \<Longrightarrow> rg_cap ch' = rg_cap ch"
  by (auto simp: chan_fetch_def Let_def res_bind_eq_Inr)

lemma ring_new_ok:
  "ring_new n = Inr ch \<Longrightarrow> ring_inv ch \<and> content ch = [] \<and> rg_cap ch = n"
  by (auto simp: ring_new_def ring_inv_def content_def slot_of_def chan_ring_alloc_def Let_def CHAN_INITIAL_SLOTS_def
      res_bind_eq_Inr split: if_splits)

lemma ring_new_total: "\<exists>ch. ring_new n = Inr ch"
  by (simp add: ring_new_def chan_ring_alloc_def SIZE_MAX_def CHAN_INITIAL_SLOTS_def Let_def)

section \<open>A bounded queue\<close>

text \<open>The contract: below the bound a value can always be added at the end, and the oldest value of a
  queue that is not empty can always be taken.\<close>

locale bounded_fifo =
  fixes inv :: "'q \<Rightarrow> bool"
    and abs :: "'q \<Rightarrow> 'v list"
    and bound :: "'q \<Rightarrow> nat"
    and put :: "'v \<Rightarrow> 'q \<Rightarrow> 'q res"
    and take_one :: "'q \<Rightarrow> ('v \<times> 'q) res"
  assumes put_law: "inv q \<Longrightarrow> length (abs q) < bound q \<Longrightarrow>
      \<exists>q'. put v q = Inr q' \<and> inv q' \<and> abs q' = abs q @ [v] \<and> bound q' = bound q"
    and take_law: "inv q \<Longrightarrow> abs q = v # vs \<Longrightarrow>
      \<exists>q'. take_one q = Inr (v, q') \<and> inv q' \<and> abs q' = vs \<and> bound q' = bound q"
begin

text \<open>\<open>Some v\<close> asks for a put and \<open>None\<close> for a take; a request that the bound or an empty queue
  forbids is skipped. The result is the list of the values taken.\<close>

fun run :: "'v option list \<Rightarrow> 'q \<Rightarrow> 'v list res" where
  "run [] q = Inr []"
| "run (Some v # rs) q =
     (if length (abs q) < bound q then res_bind (put v q) (run rs) else run rs q)"
| "run (None # rs) q =
     (if abs q = [] then run rs q
      else res_bind (take_one q) (\<lambda>(v, q'). res_map ((#) v) (run rs q')))"

fun list_run :: "nat \<Rightarrow> 'v option list \<Rightarrow> 'v list \<Rightarrow> 'v list" where
  "list_run n [] xs = []"
| "list_run n (Some v # rs) xs = list_run n rs (if length xs < n then xs @ [v] else xs)"
| "list_run n (None # rs) xs = (case xs of [] \<Rightarrow> list_run n rs [] | x # ys \<Rightarrow> x # list_run n rs ys)"

lemma run_list_run: "inv q \<Longrightarrow> run rs q = Inr (list_run (bound q) rs (abs q))"
proof (induction rs q rule: run.induct)
  case (2 v rs q)
  show ?case
  proof (cases "length (abs q) < bound q")
    case True
    then obtain q' where "put v q = Inr q'" "inv q'" "abs q' = abs q @ [v]" "bound q' = bound q"
      using put_law [OF 2(3)] by blast
    then show ?thesis using 2(1) [OF True, of q'] True by simp
  qed (use 2 in simp)
next
  case (3 rs q)
  show ?case
  proof (cases "abs q")
    case (Cons v vs)
    then obtain q' where q': "take_one q = Inr (v, q')" "inv q'" "abs q' = vs" "bound q' = bound q"
      using take_law [OF 3(3)] by blast
    then have "run rs q' = Inr (list_run (bound q) rs vs)"
      using 3(2) [of "(v, q')" v q'] Cons by simp
    then show ?thesis using q' Cons by simp
  qed (use 3 in simp)
qed simp

end

definition fits :: "ring \<Rightarrow> bool" where
  "fits ch \<longleftrightarrow> ring_inv ch \<and> rg_cap ch \<le> SIZE_MAX div 8"

interpretation chan_fifo: bounded_fifo fits content rg_cap chan_put chan_fetch
proof
  fix q v assume q: "fits q" "length (content q) < rg_cap q"
  then obtain q' where r: "chan_put v q = Inr q'"
    using chan_put_total [of q v] by (auto simp: fits_def)
  have "ring_inv q" "rg_count q < rg_cap q" using q by (simp_all add: fits_def)
  note ok = chan_put_ok [OF this r]
  show "\<exists>q'. chan_put v q = Inr q' \<and> fits q' \<and> content q' = content q @ [v] \<and> rg_cap q' = rg_cap q"
    using r ok chan_put_cap [OF r] q by (auto simp: fits_def)
next
  fix q v vs assume q: "fits q" "content q = v # vs"
  then have i: "ring_inv q" "0 < rg_count q"
    using length_content [of q] by (auto simp: fits_def)
  then obtain w q' where r: "chan_fetch q = Inr (w, q')"
    using chan_fetch_total by blast
  show "\<exists>q'. chan_fetch q = Inr (v, q') \<and> fits q' \<and> content q' = vs \<and> rg_cap q' = rg_cap q"
    using r chan_fetch_ok [OF i r] chan_fetch_cap [OF r] q by (auto simp: fits_def)
qed

text \<open>A run of requests on a ring, and the same requests on a list.\<close>

fun ring_run :: "sval option list \<Rightarrow> ring \<Rightarrow> sval list res" where
  "ring_run [] ch = Inr []"
| "ring_run (Some v # rs) ch =
     (if rg_count ch < rg_cap ch then res_bind (chan_put v ch) (ring_run rs) else ring_run rs ch)"
| "ring_run (None # rs) ch =
     (if rg_count ch = 0 then ring_run rs ch
      else res_bind (chan_fetch ch) (\<lambda>(v, ch'). res_map ((#) v) (ring_run rs ch')))"

fun fifo_run :: "nat \<Rightarrow> sval option list \<Rightarrow> sval list \<Rightarrow> sval list" where
  "fifo_run n [] xs = []"
| "fifo_run n (Some v # rs) xs = fifo_run n rs (if length xs < n then xs @ [v] else xs)"
| "fifo_run n (None # rs) xs = (case xs of [] \<Rightarrow> fifo_run n rs [] | x # ys \<Rightarrow> x # fifo_run n rs ys)"

lemma ring_run_eq: "ring_run rs ch = chan_fifo.run rs ch"
  by (induction rs ch rule: ring_run.induct) (auto simp: split_def intro!: res_bind_cong)

lemma fifo_run_eq: "fifo_run n rs xs = chan_fifo.list_run n rs xs"
  by (induction n rs xs rule: fifo_run.induct) (auto split: list.split)

text \<open>C32. The growing ring of a channel is equivalent to a bounded list: for every capacity whose ring
  can be addressed, any sequence of sends below the bound and receives from a channel that is not
  empty, started on the ring \<^verbatim>\<open>__chan_new\<close> allocates, succeeds (through every growth and wrap-around) and
  returns exactly the values a list of at most that many values returns, in order.\<close>

theorem channel_ring_equiv_list:
  assumes "n \<le> SIZE_MAX div 8"
  shows "\<exists>ch. ring_new n = Inr ch \<and> ring_run rs ch = Inr (fifo_run n rs [])"
proof -
  obtain ch where ch: "ring_new n = Inr ch"
    using ring_new_total by blast
  then have "fits ch" "content ch = []" "rg_cap ch = n"
    using ring_new_ok assms by (auto simp: fits_def)
  then show ?thesis
    using ch chan_fifo.run_list_run [of ch rs] by (simp add: ring_run_eq fifo_run_eq del: content_eq_Nil)
qed

theorem channel_ring_equiv_list_witness:
  "\<exists>ch. ring_new 17 = Inr ch \<and>
     ring_run (map (\<lambda>i. Some (of_nat i)) [1..<20] @ [None, None]) ch = Inr (fifo_run 17 (map (\<lambda>i. Some (of_nat i)) [1..<20] @ [None, None]) [])"
  using channel_ring_equiv_list [of 17 "map (\<lambda>i. Some (of_nat i)) [1..<20] @ [None, None]"] by (simp add: SIZE_MAX_def)

text \<open>Growing a full ring keeps the buffered values and their order, doubles the slots without
  passing the bound, leaves every free slot 0 and re-points the collector's scan to the whole new ring.\<close>

theorem chan_grow_preserves:
  assumes "ring_inv ch" "rg_count ch = rg_slots ch" "rg_count ch < rg_cap ch" "rg_cap ch \<le> SIZE_MAX div 8"
  shows "\<exists>ch'. chan_grow ch = Inr ch' \<and> ring_inv ch' \<and> content ch' = content ch \<and>
           rg_slots ch' = min (rg_cap ch) (2 * rg_slots ch) \<and> rg_slots ch < rg_slots ch' \<and> rg_scan ch' = rg_slots ch'"
proof -
  have "\<exists>ch'. chan_grow ch = Inr ch'"
    using assms by (auto simp: chan_grow_def chan_ring_alloc_def ring_inv_def Let_def)
  then obtain ch' where g: "chan_grow ch = Inr ch'" ..
  note ok = chan_grow_ok [OF assms(1-3) g]
  then show ?thesis
    using g by (auto simp: ring_inv_def)
qed

definition wrapped_ring :: ring where
  "wrapped_ring = \<lparr>rg_buffer = [30, 10, 20], rg_cap = 5, rg_slots = 3, rg_count = 3, rg_head = 1, rg_tail = 1,
     rg_scan = 3\<rparr>"

theorem chan_grow_preserves_witness:
  "\<exists>ch'. chan_grow wrapped_ring = Inr ch' \<and> content ch' = [10, 20, 30] \<and> rg_slots ch' = 5"
proof -
  have "ring_inv wrapped_ring"
    by (simp add: ring_inv_def wrapped_ring_def slot_of_def)
  moreover have "content wrapped_ring = [10, 20, 30]"
    by code_simp
  ultimately show ?thesis
    using chan_grow_preserves [of wrapped_ring] by (auto simp: wrapped_ring_def SIZE_MAX_def)
qed

end
