(* ===== verification/Scheduler.thy ===== *)
theory Scheduler
  imports Sched_Handles Chan_Ring
begin

text \<open>
  The cooperative scheduler of \<^verbatim>\<open>runtime/sprout_scheduler.c\<close>: scopes, tasks, channels, the pump and
  every builtin that changes their state.

  A record that C allocates with \<^verbatim>\<open>malloc\<close> is an entry of a partial map from its address; a freed
  record is absent, and an access to it is \<open>Inl UseAfterFree\<close>. The address of a new record is an
  argument, the allocator's choice. The intrusive queues are lists here: \<open>Link_Queues\<close> shows that the
  linked representation implements the list operations used (append, take the first, remove).
  A builtin that blocks is cut at its call of \<^verbatim>\<open>park_to_pump\<close>: the first part ends with the outcome
  \<open>Parked\<close> and saves, in the task's execution context \<open>tk_ctx\<close>, which call it stopped in; the second part
  runs when the pump resumes the task (\<open>resume\<close>). Calls to the poller, \<^verbatim>\<open>close\<close> and cleanup hooks are
  recorded in \<open>g_effects\<close>, newest first. A task's root context is the list of its rooted fields.
\<close>

section \<open>State\<close>

datatype park_kind = PARK_NONE | PARK_FD | PARK_TIMER | PARK_CHAN | PARK_SELECT | PARK_FD_TIMER

datatype stop_reason = REASON_NONE | REASON_CANCELLED | REASON_TIMEDOUT

datatype root_cell = Cell_work | Cell_pending | Cell_result

text \<open>Where a suspended task continues. \<open>Running\<close> is the context of the task that has control,
  \<open>Destroyed\<close> one whose green stack was released.\<close>

datatype frame = At_entry | Running | Destroyed
  | In_send | In_recv | In_select | In_await nat | In_join nat | In_deadline nat nat
  | In_yield | In_redeadline nat nat | In_timer | In_fd | In_unowned_fd
  | In_fd_timeout int int int | In_unowned_fd_timeout int int int

record scope =
  sc_live :: int
  sc_waiter :: "nat option"
  sc_forks :: "nat list"
  sc_reason :: stop_reason
  sc_owner :: nat
  sc_handle :: "64 word"

record task =
  tk_ctx :: frame
  tk_roots :: "root_cell list option"
  tk_work :: sval
  tk_result :: sval
  tk_awaiter :: "nat option"
  tk_awaitable :: bool
  tk_done :: bool
  tk_scope :: "nat option"
  tk_handle :: "64 word"
  tk_park_kind :: park_kind
  tk_park_fd :: int
  tk_park_interest :: int
  tk_park_close_fd :: int
  tk_park_cleanup :: "nat option"
  tk_timer_id :: int
  tk_timer_dead :: bool
  tk_woke_by_timer :: bool
  tk_on_io :: bool
  tk_in_rq :: bool
  tk_deadline_child :: "nat option"
  tk_chan_pending :: sval
  tk_park_chan :: "nat option"
  tk_is_sender :: bool
  tk_closed_wake :: bool
  tk_sel_regs :: "nat list"
  tk_sel_fired :: nat

text \<open>A select registration is the pair of its task and its index in the task's list of channels.\<close>

record chan = ring +
  ch_handle :: "64 word"
  ch_send_q :: "nat list"
  ch_recv_q :: "nat list"
  ch_select_q :: "(nat \<times> nat) list"
  ch_closed :: bool
  ch_scope :: nat

datatype effect = Poll_add int int nat | Poll_remove int int | Add_timer int nat int | Remove_timer int
  | Close_fd int | Run_cleanup nat

record sched =
  g_tasks :: "nat \<Rightarrow> task option"
  g_scopes :: "nat \<Rightarrow> scope option"
  g_chans :: "nat \<Rightarrow> chan option"
  g_rq :: "nat list"
  g_io :: "nat list"
  g_all_chans :: "nat list"
  g_ht :: handles
  g_current :: nat
  g_in_pump :: bool
  g_effects :: "effect list"

datatype recv = Got sval | Closed

datatype ret = RUnit | RHandle "64 word" | RVal sval | RRecv recv | RSelected nat recv | RFlag bool

datatype outcome = Ret ret | Parked

definition task0 :: nat where
  "task0 = 1"

section \<open>Access to records\<close>

definition get_task :: "nat \<Rightarrow> sched \<Rightarrow> task res" where
  "get_task t s = (case g_tasks s t of None \<Rightarrow> Inl UseAfterFree | Some k \<Rightarrow> Inr k)"

definition set_task :: "nat \<Rightarrow> task \<Rightarrow> sched \<Rightarrow> sched" where
  "set_task t k s = s\<lparr>g_tasks := (g_tasks s)(t \<mapsto> k)\<rparr>"

definition upd_task :: "nat \<Rightarrow> (task \<Rightarrow> task) \<Rightarrow> sched \<Rightarrow> sched res" where
  "upd_task t f s = res_bind (get_task t s) (\<lambda>k. Inr (set_task t (f k) s))"

definition get_scope :: "nat \<Rightarrow> sched \<Rightarrow> scope res" where
  "get_scope p s = (case g_scopes s p of None \<Rightarrow> Inl UseAfterFree | Some c \<Rightarrow> Inr c)"

definition set_scope :: "nat \<Rightarrow> scope \<Rightarrow> sched \<Rightarrow> sched" where
  "set_scope p c s = s\<lparr>g_scopes := (g_scopes s)(p \<mapsto> c)\<rparr>"

definition upd_scope :: "nat \<Rightarrow> (scope \<Rightarrow> scope) \<Rightarrow> sched \<Rightarrow> sched res" where
  "upd_scope p f s = res_bind (get_scope p s) (\<lambda>c. Inr (set_scope p (f c) s))"

definition get_chan :: "nat \<Rightarrow> sched \<Rightarrow> chan res" where
  "get_chan c s = (case g_chans s c of None \<Rightarrow> Inl UseAfterFree | Some ch \<Rightarrow> Inr ch)"

definition set_chan :: "nat \<Rightarrow> chan \<Rightarrow> sched \<Rightarrow> sched" where
  "set_chan c ch s = s\<lparr>g_chans := (g_chans s)(c \<mapsto> ch)\<rparr>"

definition upd_chan :: "nat \<Rightarrow> (chan \<Rightarrow> chan) \<Rightarrow> sched \<Rightarrow> sched res" where
  "upd_chan c f s = res_bind (get_chan c s) (\<lambda>ch. Inr (set_chan c (f ch) s))"

definition effect :: "effect \<Rightarrow> sched \<Rightarrow> sched" where
  "effect e s = s\<lparr>g_effects := e # g_effects s\<rparr>"

text \<open>A loop over a list of nodes whose body may fail.\<close>

fun res_fold :: "('a \<Rightarrow> 's \<Rightarrow> 's res) \<Rightarrow> 'a list \<Rightarrow> 's \<Rightarrow> 's res" where
  "res_fold f [] s = Inr s"
| "res_fold f (x # xs) s = res_bind (f x s) (res_fold f xs)"

section \<open>Queues and wake-ups\<close>

definition sched_rq_push :: "nat \<Rightarrow> sched \<Rightarrow> sched res" where
  "sched_rq_push t s =
     res_bind (upd_task t (\<lambda>k. k\<lparr>tk_in_rq := True\<rparr>) s) (\<lambda>s1. Inr (s1\<lparr>g_rq := g_rq s1 @ [t]\<rparr>))"

definition sched_io_push :: "nat \<Rightarrow> sched \<Rightarrow> sched res" where
  "sched_io_push t s =
     res_bind (upd_task t (\<lambda>k. k\<lparr>tk_on_io := True\<rparr>) s) (\<lambda>s1. Inr (s1\<lparr>g_io := t # g_io s1\<rparr>))"

definition sched_io_remove :: "nat \<Rightarrow> sched \<Rightarrow> sched res" where
  "sched_io_remove t s =
     res_bind (upd_task t (\<lambda>k. k\<lparr>tk_on_io := False\<rparr>) s) (\<lambda>s1. Inr (s1\<lparr>g_io := remove1 t (g_io s1)\<rparr>))"

definition chan_wake :: "nat \<Rightarrow> sched \<Rightarrow> sched res" where
  "chan_wake t s =
     res_bind (upd_task t (\<lambda>k. k\<lparr>tk_park_kind := PARK_NONE, tk_park_chan := None\<rparr>) s) (sched_rq_push t)"

text \<open>Removes registration \<open>i\<close> of task \<open>t\<close> from the queue of channel \<open>c\<close>.\<close>

definition sched_sw_remove :: "nat \<Rightarrow> nat \<times> nat \<Rightarrow> sched \<Rightarrow> sched res" where
  "sched_sw_remove t = (\<lambda>(i, c). upd_chan c (\<lambda>ch. ch\<lparr>ch_select_q := remove1 (t, i) (ch_select_q ch)\<rparr>))"

definition select_unlink_all :: "nat \<Rightarrow> sched \<Rightarrow> sched res" where
  "select_unlink_all t s =
     res_bind (get_task t s) (\<lambda>k.
       res_bind (res_fold (sched_sw_remove t) (enumerate 0 (tk_sel_regs k)) s)
         (upd_task t (\<lambda>k. k\<lparr>tk_sel_regs := []\<rparr>)))"

definition select_fire :: "nat \<Rightarrow> nat \<Rightarrow> sched \<Rightarrow> sched res" where
  "select_fire t fired_index s =
     res_bind (upd_task t (\<lambda>k. k\<lparr>tk_sel_fired := fired_index\<rparr>) s) (\<lambda>s1.
       res_bind (select_unlink_all t s1) (\<lambda>s2.
         res_bind (upd_task t (\<lambda>k. k\<lparr>tk_park_kind := PARK_NONE\<rparr>) s2) (sched_rq_push t)))"

definition chan_poll_take :: "nat \<Rightarrow> sched \<Rightarrow> (recv option \<times> sched) res" where
  "chan_poll_take c s =
     res_bind (get_chan c s) (\<lambda>ch.
       if rg_count ch > 0
       then res_bind (chan_fetch ch) (\<lambda>(v, ch1).
         case ch_send_q ch1 of
           [] \<Rightarrow> Inr (Some (Got v), set_chan c ch1 s)
         | sdr # q \<Rightarrow>
             res_bind (get_task sdr s) (\<lambda>k.
               res_bind (chan_store (tk_chan_pending k) (ch1\<lparr>ch_send_q := q\<rparr>)) (\<lambda>ch2.
                 res_bind (upd_task sdr (\<lambda>k. k\<lparr>tk_chan_pending := 0\<rparr>) (set_chan c ch2 s)) (\<lambda>s1.
                   res_map (Pair (Some (Got v))) (chan_wake sdr s1)))))
       else case ch_send_q ch of
           sdr # q \<Rightarrow>
             res_bind (get_task sdr s) (\<lambda>k.
               res_bind (upd_task sdr (\<lambda>k. k\<lparr>tk_chan_pending := 0\<rparr>) (set_chan c (ch\<lparr>ch_send_q := q\<rparr>) s)) (\<lambda>s1.
                 res_map (Pair (Some (Got (tk_chan_pending k)))) (chan_wake sdr s1)))
         | [] \<Rightarrow> if ch_closed ch then Inr (Some Closed, s) else Inr (None, s))"

definition park_to_pump :: "frame \<Rightarrow> sched \<Rightarrow> sched res" where
  "park_to_pump fr s =
     res_bind (upd_task (g_current s) (\<lambda>k. k\<lparr>tk_ctx := fr\<rparr>) s) (\<lambda>s1. Inr (s1\<lparr>g_in_pump := True\<rparr>))"

definition returned :: "ret \<Rightarrow> sched \<Rightarrow> (outcome \<times> sched) res" where
  "returned r s = Inr (Ret r, s)"

definition parked :: "frame \<Rightarrow> sched \<Rightarrow> (outcome \<times> sched) res" where
  "parked fr s = res_map (Pair Parked) (park_to_pump fr s)"


section \<open>Start\<close>

definition blank_task :: task where
  "blank_task = \<lparr>tk_ctx = At_entry, tk_roots = None, tk_work = 0, tk_result = 0, tk_awaiter = None,
     tk_awaitable = False, tk_done = False, tk_scope = None, tk_handle = 0, tk_park_kind = PARK_NONE,
     tk_park_fd = - 1, tk_park_interest = 0, tk_park_close_fd = - 1, tk_park_cleanup = None, tk_timer_id = 0,
     tk_timer_dead = False, tk_woke_by_timer = False, tk_on_io = False, tk_in_rq = False,
     tk_deadline_child = None, tk_chan_pending = 0, tk_park_chan = None, tk_is_sender = False,
     tk_closed_wake = False, tk_sel_regs = [], tk_sel_fired = 0\<rparr>"

definition sprout_scheduler_init :: sched where
  "sprout_scheduler_init =
     \<lparr>g_tasks = [task0 \<mapsto> blank_task\<lparr>tk_ctx := Running, tk_roots := Some [Cell_pending]\<rparr>],
      g_scopes = Map.empty, g_chans = Map.empty, g_rq = [], g_io = [], g_all_chans = [], g_ht = no_handles,
      g_current = task0, g_in_pump = False, g_effects = []\<rparr>"

section \<open>Scopes and tasks\<close>

definition scope_open :: "nat \<Rightarrow> sched \<Rightarrow> (outcome \<times> sched) res" where
  "scope_open p s =
     res_bind (handle_alloc HANDLE_SCOPE p (g_ht s)) (\<lambda>(h, T).
       returned (RHandle h)
         (set_scope p \<lparr>sc_live = 0, sc_waiter = None, sc_forks = [], sc_reason = REASON_NONE,
                       sc_owner = g_current s, sc_handle = h\<rparr> (s\<lparr>g_ht := T\<rparr>)))"

definition task_create :: "nat \<Rightarrow> nat \<Rightarrow> sval \<Rightarrow> bool \<Rightarrow> sched \<Rightarrow> sched res" where
  "task_create p sc work awaitable s =
     (let t = blank_task\<lparr>tk_work := work, tk_awaitable := awaitable, tk_scope := Some sc,
                         tk_roots := Some [Cell_work, Cell_pending], tk_ctx := At_entry\<rparr>
      in res_bind (sched_rq_push p (set_task p t s))
           (upd_scope sc (\<lambda>c. c\<lparr>sc_live := sc_live c + 1\<rparr>)))"

definition scope_spawn :: "nat \<Rightarrow> 64 word \<Rightarrow> sval \<Rightarrow> sched \<Rightarrow> (outcome \<times> sched) res" where
  "scope_spawn p h work s =
     res_bind (scope_of h ''__scope_spawn'' (g_ht s)) (\<lambda>sc.
       res_bind (task_create p sc work False s) (returned RUnit))"

definition task_fork :: "nat \<Rightarrow> 64 word \<Rightarrow> sval \<Rightarrow> sched \<Rightarrow> (outcome \<times> sched) res" where
  "task_fork p h work s =
     res_bind (scope_of h ''__task_fork'' (g_ht s)) (\<lambda>sc.
       res_bind (task_create p sc work True s) (\<lambda>s1.
         res_bind (upd_scope sc (\<lambda>c. c\<lparr>sc_forks := p # sc_forks c\<rparr>) s1) (\<lambda>s2.
           res_bind (handle_alloc HANDLE_TASK p (g_ht s2)) (\<lambda>(th, T).
             res_bind (upd_task p (\<lambda>k. k\<lparr>tk_handle := th\<rparr>) (s2\<lparr>g_ht := T\<rparr>)) (returned (RHandle th))))))"

definition task_await :: "64 word \<Rightarrow> sched \<Rightarrow> (outcome \<times> sched) res" where
  "task_await h s =
     res_bind (task_of h ''__task_await'' (g_ht s)) (\<lambda>t.
       res_bind (get_task t s) (\<lambda>k.
         if tk_roots k = None
         then Inl (SproutFail ''__task_await: awaiting a task dropped by scope_cancel (a cancelled task produces no result)'')
         else if \<not> tk_done k
         then res_bind (upd_task t (\<lambda>k. k\<lparr>tk_awaiter := Some (g_current s)\<rparr>) s) (parked (In_await t))
         else returned (RVal (tk_result k)) s))"

definition task_yield :: "sched \<Rightarrow> (outcome \<times> sched) res" where
  "task_yield s = res_bind (sched_rq_push (g_current s) s) (parked In_yield)"

definition task_stop_reason :: "sched \<Rightarrow> stop_reason res" where
  "task_stop_reason s =
     res_bind (get_task (g_current s) s) (\<lambda>k.
       case tk_scope k of None \<Rightarrow> Inr REASON_NONE | Some sc \<Rightarrow> res_map sc_reason (get_scope sc s))"

section \<open>Completion of a task\<close>

definition SPROUT_TASK_ROOT_SLOTS :: nat where
  "SPROUT_TASK_ROOT_SLOTS = 16384"

text \<open>The wake-up of the task that waits for \<open>t\<close>: at most one push on the ready queue.\<close>

definition wake_awaiter :: "nat \<Rightarrow> nat \<Rightarrow> sched \<Rightarrow> sched res" where
  "wake_awaiter t aw s =
     res_bind (get_task aw s) (\<lambda>ka.
       if tk_on_io ka
       then res_bind (if \<not> tk_timer_dead ka
                      then upd_task aw (\<lambda>k. k\<lparr>tk_timer_dead := True\<rparr>) (effect (Remove_timer (tk_timer_id ka)) s)
                      else Inr s) (\<lambda>s1.
              res_bind (sched_io_remove aw s1) (\<lambda>s2.
                res_bind (upd_task aw (\<lambda>k. k\<lparr>tk_park_kind := PARK_NONE\<rparr>) s2) (sched_rq_push aw)))
       else if tk_deadline_child ka = Some t then Inr s
       else sched_rq_push aw s)"

text \<open>The last child of a scope wakes its joiner.\<close>

definition scope_child_done :: "nat \<Rightarrow> sched \<Rightarrow> sched res" where
  "scope_child_done sc s =
     res_bind (get_scope sc s) (\<lambda>c0.
       let c = c0\<lparr>sc_live := sc_live c0 - 1\<rparr>; s1 = set_scope sc c s in
       if sc_live c = 0
       then (case sc_waiter c of
               Some w \<Rightarrow> res_bind (sched_rq_push w s1) (upd_scope sc (\<lambda>c. c\<lparr>sc_waiter := None\<rparr>))
             | None \<Rightarrow> Inr s1)
       else Inr s1)"

text \<open>What the pump does with a task whose context switched back to it.\<close>

definition pump_reclaim :: "sched \<Rightarrow> sched res" where
  "pump_reclaim s =
     (let t = g_current s in
      res_bind (get_task t s) (\<lambda>k.
        if t \<noteq> task0 \<and> tk_done k
        then if tk_awaitable k then upd_task t (\<lambda>k. k\<lparr>tk_ctx := Destroyed\<rparr>) s
             else Inr (s\<lparr>g_tasks := (g_tasks s)(t := None), g_current := task0\<rparr>)
        else Inr s))"

text \<open>The result of an awaitable task is stored and rooted in the task's own context.\<close>

definition store_result :: "nat \<Rightarrow> sval \<Rightarrow> sched \<Rightarrow> sched res" where
  "store_result t r s =
     res_bind (get_task t s) (\<lambda>k.
       if tk_awaitable k
       then (case tk_roots k of
               None \<Rightarrow> Inl NullDeref
             | Some cells \<Rightarrow>
                 if length cells \<ge> SPROUT_TASK_ROOT_SLOTS
                 then Inl (SproutFail ''sprout_roots_push_ptr: GC root pool exhausted'')
                 else Inr (set_task t (k\<lparr>tk_result := r, tk_roots := Some (cells @ [Cell_result])\<rparr>) s))
       else Inr s)"

text \<open>\<^verbatim>\<open>task_trampoline\<close> after the body returned \<open>r\<close>.\<close>

definition task_trampoline :: "sval \<Rightarrow> sched \<Rightarrow> (outcome \<times> sched) res" where
  "task_trampoline r s =
     (let t = g_current s in
      res_bind (store_result t r s) (\<lambda>s1.
        res_bind (get_task t s1) (\<lambda>k.
          let s2 = set_task t (k\<lparr>tk_done := True, tk_awaiter := None\<rparr>) s1 in
          res_bind (case tk_awaiter k of None \<Rightarrow> Inr s2 | Some aw \<Rightarrow> wake_awaiter t aw s2) (\<lambda>s3.
            case tk_scope k of
              None \<Rightarrow> Inl NullDeref
            | Some sc \<Rightarrow>
                res_bind (scope_child_done sc s3) (\<lambda>s4.
                  res_map (Pair Parked) (pump_reclaim (s4\<lparr>g_in_pump := True\<rparr>)))))))"

section \<open>Cancellation\<close>

definition drop_registration :: "nat \<Rightarrow> task \<Rightarrow> sched \<Rightarrow> sched res" where
  "drop_registration t k s =
     (case tk_park_kind k of
        PARK_SELECT \<Rightarrow> select_unlink_all t s
      | PARK_CHAN \<Rightarrow>
          (case tk_park_chan k of
             None \<Rightarrow> Inl NullDeref
           | Some c \<Rightarrow>
               res_bind (upd_chan c (\<lambda>ch. if tk_is_sender k then ch\<lparr>ch_send_q := remove1 t (ch_send_q ch)\<rparr>
                                          else ch\<lparr>ch_recv_q := remove1 t (ch_recv_q ch)\<rparr>) s)
                 (upd_task t (\<lambda>k. k\<lparr>tk_park_chan := None\<rparr>)))
      | pk \<Rightarrow>
          res_bind (if pk = PARK_TIMER \<or> pk = PARK_FD_TIMER
                    then if \<not> tk_timer_dead k
                         then upd_task t (\<lambda>k. k\<lparr>tk_timer_dead := True\<rparr>) (effect (Remove_timer (tk_timer_id k)) s)
                         else Inr s
                    else Inr s) (\<lambda>s1.
            let s2 = (if pk \<noteq> PARK_TIMER then effect (Poll_remove (tk_park_fd k) (tk_park_interest k)) s1 else s1) in
            res_bind (sched_io_remove t s2) (\<lambda>s3.
              if tk_park_close_fd k \<ge> 0
              then upd_task t (\<lambda>k. k\<lparr>tk_park_close_fd := - 1\<rparr>) (effect (Close_fd (tk_park_close_fd k)) s3)
              else Inr s3)))"

definition run_park_cleanup :: "nat \<Rightarrow> task \<Rightarrow> sched \<Rightarrow> sched res" where
  "run_park_cleanup t k s =
     (case tk_park_cleanup k of
        None \<Rightarrow> Inr s
      | Some a \<Rightarrow> res_map (effect (Run_cleanup a)) (upd_task t (\<lambda>k. k\<lparr>tk_park_cleanup := None\<rparr>) s))"

text \<open>Roots and stack go together; the record of an awaitable task stays with its scope.\<close>

definition drop_record :: "nat \<Rightarrow> task \<Rightarrow> sched \<Rightarrow> sched res" where
  "drop_record t k s =
     (if tk_roots k = None then Inl NullDeref
      else if tk_awaitable k then upd_task t (\<lambda>k. k\<lparr>tk_ctx := Destroyed, tk_roots := None\<rparr>) s
      else Inr (s\<lparr>g_tasks := (g_tasks s)(t := None)\<rparr>))"

definition force_drop_task :: "nat \<Rightarrow> sched \<Rightarrow> sched res" where
  "force_drop_task t s =
     res_bind (get_task t s) (\<lambda>k.
       if tk_awaiter k \<noteq> None \<and> tk_awaiter k \<noteq> Some (g_current s)
       then Inl (SproutFail ''force_drop_task: cannot drop a task awaited by a sibling - await only from the scope owner'')
       else if tk_deadline_child k \<noteq> None
       then Inl (SproutFail ''with_timeout: cannot time out / cancel a body blocked inside with_timeout - deadline/cancel nesting cascade is deferred'')
       else res_bind (drop_registration t k s) (\<lambda>s1.
         res_bind (run_park_cleanup t k s1) (\<lambda>s2.
           res_bind (drop_record t k s2) (\<lambda>s3.
             case tk_scope k of
               None \<Rightarrow> Inl NullDeref
             | Some sc \<Rightarrow> upd_scope sc (\<lambda>c. c\<lparr>sc_live := sc_live c - 1\<rparr>) s3))))"

text \<open>The test of the three walks of \<^verbatim>\<open>__scope_cancel\<close>.\<close>

definition to_cancel :: "nat \<Rightarrow> nat \<Rightarrow> sched \<Rightarrow> bool res" where
  "to_cancel sc t s = res_map (\<lambda>k. tk_scope k = Some sc \<and> t \<noteq> g_current s) (get_task t s)"

definition cancel_one :: "nat \<Rightarrow> nat \<Rightarrow> sched \<Rightarrow> sched res" where
  "cancel_one sc t s = res_bind (to_cancel sc t s) (\<lambda>b. if b then force_drop_task t s else Inr s)"

text \<open>The first registration of a queue whose task is to be dropped, looking from the head.\<close>

fun first_to_cancel :: "nat \<Rightarrow> (nat \<times> nat) list \<Rightarrow> sched \<Rightarrow> nat option res" where
  "first_to_cancel sc [] s = Inr None"
| "first_to_cancel sc ((t, i) # ws) s =
     res_bind (to_cancel sc t s) (\<lambda>b. if b then Inr (Some t) else first_to_cancel sc ws s)"

text \<open>The walk over the select registrations restarts at the head after each drop. Every drop removes at
  least one registration, so that the length of the queue bounds the number of rounds.\<close>

primrec cancel_selects :: "nat \<Rightarrow> nat \<Rightarrow> nat \<Rightarrow> sched \<Rightarrow> sched res" where
  "cancel_selects 0 sc c s = Inr s"
| "cancel_selects (Suc n) sc c s =
     res_bind (get_chan c s) (\<lambda>ch.
       res_bind (first_to_cancel sc (ch_select_q ch) s) (\<lambda>w.
         case w of None \<Rightarrow> Inr s
         | Some t \<Rightarrow> res_bind (force_drop_task t s) (cancel_selects n sc c)))"

definition cancel_chan :: "nat \<Rightarrow> nat \<Rightarrow> sched \<Rightarrow> sched res" where
  "cancel_chan sc c s =
     res_bind (get_chan c s) (\<lambda>ch.
       res_bind (res_fold (cancel_one sc) (ch_send_q ch) s) (\<lambda>s1.
         res_bind (get_chan c s1) (\<lambda>ch1.
           res_bind (res_fold (cancel_one sc) (ch_recv_q ch1) s1) (\<lambda>s2.
             res_bind (get_chan c s2) (\<lambda>ch2.
               cancel_selects (length (ch_select_q ch2)) sc c s2)))))"

definition scope_cancel :: "64 word \<Rightarrow> sched \<Rightarrow> (outcome \<times> sched) res" where
  "scope_cancel h s =
     res_bind (scope_of h ''__scope_cancel'' (g_ht s)) (\<lambda>sc.
       res_bind (get_scope sc s) (\<lambda>c.
         if g_current s \<noteq> sc_owner c
         then Inl (SproutFail ''__scope_cancel: only the scope's owning task may cancel it'')
         else let s1 = set_scope sc (c\<lparr>sc_reason := REASON_CANCELLED\<rparr>) s in
           res_bind (res_fold (cancel_one sc) (g_io s1) s1) (\<lambda>s2.
             res_bind (res_fold (cancel_chan sc) (g_all_chans s2) s2) (returned RUnit))))"


section \<open>Deadlines\<close>

text \<open>\<open>tm\<close> is the answer of the poller to the request for a timer: its identifier, or \<open>None\<close> when no
  timer could be armed.\<close>

definition await_deadline :: "64 word \<Rightarrow> 64 word \<Rightarrow> int \<Rightarrow> int option \<Rightarrow> sched \<Rightarrow> (outcome \<times> sched) res" where
  "await_deadline h th ms tm s =
     res_bind (scope_of h ''__await_deadline'' (g_ht s)) (\<lambda>sc.
       res_bind (task_of th ''__await_deadline'' (g_ht s)) (\<lambda>child.
         let owner = g_current s in
         case tm of
           None \<Rightarrow> Inl (SproutFail ''with_timeout: could not arm the deadline timer (descriptor exhaustion?)'')
         | Some tid \<Rightarrow>
             res_bind (upd_task owner (\<lambda>k. k\<lparr>tk_park_kind := PARK_TIMER, tk_timer_id := tid, tk_timer_dead := False,
                                             tk_deadline_child := Some child\<rparr>)
                         (effect (Add_timer ms owner tid) s)) (\<lambda>s1.
               res_bind (sched_io_push owner s1) (\<lambda>s2.
                 res_bind (upd_task child (\<lambda>k. k\<lparr>tk_awaiter := Some owner\<rparr>) s2) (parked (In_deadline sc child))))))"

definition deadline_expired :: "nat \<Rightarrow> nat \<Rightarrow> sched \<Rightarrow> (outcome \<times> sched) res" where
  "deadline_expired sc child s =
     res_bind (upd_scope sc (\<lambda>c. c\<lparr>sc_reason := REASON_TIMEDOUT\<rparr>) s) (\<lambda>s1.
       res_bind (upd_task child (\<lambda>k. k\<lparr>tk_awaiter := None\<rparr>) s1) (\<lambda>s2.
         res_bind (force_drop_task child s2) (returned (RFlag False))))"

text \<open>One round of the classification loop of \<^verbatim>\<open>__await_deadline\<close>.\<close>

definition deadline_classify :: "nat \<Rightarrow> nat \<Rightarrow> sched \<Rightarrow> (outcome \<times> sched) res" where
  "deadline_classify sc child s =
     (let owner = g_current s in
      res_bind (get_task child s) (\<lambda>k.
        if tk_done k
        then res_bind (get_task owner s) (\<lambda>ko.
               res_bind (if tk_on_io ko
                         then res_bind (if \<not> tk_timer_dead ko
                                        then upd_task owner (\<lambda>k. k\<lparr>tk_timer_dead := True\<rparr>) (effect (Remove_timer (tk_timer_id ko)) s)
                                        else Inr s)
                                (sched_io_remove owner)
                         else Inr s) (\<lambda>s1.
                 res_bind (upd_task child (\<lambda>k. k\<lparr>tk_awaiter := None\<rparr>) s1) (returned (RFlag True))))
        else if tk_on_io k \<or> tk_park_kind k = PARK_CHAN \<or> tk_park_kind k = PARK_SELECT
        then deadline_expired sc child s
        else if tk_in_rq k
        then res_bind (upd_task child (\<lambda>k. k\<lparr>tk_awaiter := None\<rparr>) s) (\<lambda>s1.
               res_bind (sched_rq_push owner s1) (parked (In_redeadline sc child)))
        else Inl (SproutFail ''with_timeout: cannot time out a body blocked in a nested scope/await - deadline cascade deferred; time out a body that parks directly on I/O'')))"

section \<open>Join\<close>

definition join_fork :: "nat \<Rightarrow> sched \<Rightarrow> sched res" where
  "join_fork f s =
     res_bind (get_task f s) (\<lambda>k.
       Inr (s\<lparr>g_ht := handle_release (tk_handle k) (g_ht s), g_tasks := (g_tasks s)(f := None)\<rparr>))"

definition join_chan :: "nat \<Rightarrow> nat \<Rightarrow> sched \<Rightarrow> sched res" where
  "join_chan sc c s =
     res_bind (get_chan c s) (\<lambda>ch.
       if ch_scope ch = sc
       then if ch_send_q ch \<noteq> [] \<or> ch_recv_q ch \<noteq> [] \<or> ch_select_q ch \<noteq> []
            then Inl (SproutFail ''__scope_join: a task outside the scope is parked on its channel'')
            else Inr (s\<lparr>g_all_chans := remove1 c (g_all_chans s), g_ht := handle_release (ch_handle ch) (g_ht s),
                        g_chans := (g_chans s)(c := None)\<rparr>)
       else Inr s)"

definition join_finish :: "nat \<Rightarrow> sched \<Rightarrow> (outcome \<times> sched) res" where
  "join_finish sc s =
     res_bind (get_scope sc s) (\<lambda>c.
       res_bind (res_fold join_fork (sc_forks c) s) (\<lambda>s1.
         res_bind (res_fold (join_chan sc) (g_all_chans s1) s1) (\<lambda>s2.
           returned RUnit (s2\<lparr>g_ht := handle_release (sc_handle c) (g_ht s2), g_scopes := (g_scopes s2)(sc := None)\<rparr>))))"

definition scope_join :: "64 word \<Rightarrow> sched \<Rightarrow> (outcome \<times> sched) res" where
  "scope_join h s =
     res_bind (scope_of h ''__scope_join'' (g_ht s)) (\<lambda>sc.
       res_bind (get_scope sc s) (\<lambda>c.
         if sc_live c > 0
         then parked (In_join sc) (set_scope sc (c\<lparr>sc_waiter := Some (g_current s)\<rparr>) s)
         else join_finish sc s))"

section \<open>Parks on the poller\<close>

definition park_fd_common :: "int \<Rightarrow> int \<Rightarrow> sched \<Rightarrow> sched res" where
  "park_fd_common fd interest s =
     (let t = g_current s in
      res_bind (upd_task t (\<lambda>k. k\<lparr>tk_park_kind := PARK_FD, tk_park_fd := fd, tk_park_interest := interest\<rparr>) s) (\<lambda>s1.
        res_map (effect (Poll_add fd interest t)) (sched_io_push t s1)))"

definition scheduler_park_on_fd :: "int \<Rightarrow> int \<Rightarrow> sched \<Rightarrow> (outcome \<times> sched) res" where
  "scheduler_park_on_fd fd interest s = res_bind (park_fd_common fd interest s) (parked In_fd)"

definition scheduler_park_on_unowned_fd :: "int \<Rightarrow> int \<Rightarrow> sched \<Rightarrow> (outcome \<times> sched) res" where
  "scheduler_park_on_unowned_fd fd interest s =
     res_bind (upd_task (g_current s) (\<lambda>k. k\<lparr>tk_park_close_fd := fd\<rparr>) s) (\<lambda>s1.
       res_bind (park_fd_common fd interest s1) (parked In_unowned_fd))"

definition park_fd_timeout_common :: "int \<Rightarrow> int \<Rightarrow> int \<Rightarrow> int \<Rightarrow> sched \<Rightarrow> sched res" where
  "park_fd_timeout_common fd interest ms tid s =
     (let t = g_current s in
      res_bind (upd_task t (\<lambda>k. k\<lparr>tk_park_kind := PARK_FD_TIMER, tk_park_fd := fd, tk_park_interest := interest,
                                  tk_timer_id := tid, tk_timer_dead := False, tk_woke_by_timer := False\<rparr>)
                  (effect (Poll_add fd interest t) (effect (Add_timer ms t tid) s)))
        (sched_io_push t))"

definition scheduler_park_on_fd_timeout :: "int \<Rightarrow> int \<Rightarrow> int \<Rightarrow> int option \<Rightarrow> sched \<Rightarrow> (outcome \<times> sched) res" where
  "scheduler_park_on_fd_timeout fd interest ms tm s =
     (case tm of None \<Rightarrow> returned (RFlag False) s
      | Some tid \<Rightarrow> res_bind (park_fd_timeout_common fd interest ms tid s) (parked (In_fd_timeout fd interest tid)))"

definition scheduler_park_on_unowned_fd_timeout :: "int \<Rightarrow> int \<Rightarrow> int \<Rightarrow> int option \<Rightarrow> sched \<Rightarrow> (outcome \<times> sched) res" where
  "scheduler_park_on_unowned_fd_timeout fd interest ms tm s =
     res_bind (upd_task (g_current s) (\<lambda>k. k\<lparr>tk_park_close_fd := fd\<rparr>) s) (\<lambda>s1.
       case tm of
         None \<Rightarrow> res_bind (upd_task (g_current s) (\<lambda>k. k\<lparr>tk_park_close_fd := - 1\<rparr>) s1) (returned (RFlag False))
       | Some tid \<Rightarrow> res_bind (park_fd_timeout_common fd interest ms tid s1) (parked (In_unowned_fd_timeout fd interest tid)))"

definition scheduler_park_on_timer :: "int \<Rightarrow> int option \<Rightarrow> sched \<Rightarrow> (outcome \<times> sched) res" where
  "scheduler_park_on_timer ms tm s =
     (let t = g_current s in
      case tm of
        None \<Rightarrow> Inl (SproutFail ''task_sleep: could not arm a timer (descriptor exhaustion?)'')
      | Some tid \<Rightarrow>
          res_bind (upd_task t (\<lambda>k. k\<lparr>tk_park_kind := PARK_TIMER, tk_timer_id := tid, tk_timer_dead := False\<rparr>)
                      (effect (Add_timer ms t tid) s)) (\<lambda>s1.
            res_bind (sched_io_push t s1) (parked In_timer)))"

definition task_sleep :: "int \<Rightarrow> int option \<Rightarrow> sched \<Rightarrow> (outcome \<times> sched) res" where
  "task_sleep ms tm s = scheduler_park_on_timer ms tm s"

definition scheduler_set_park_cleanup :: "nat option \<Rightarrow> sched \<Rightarrow> (outcome \<times> sched) res" where
  "scheduler_set_park_cleanup fn s =
     res_bind (upd_task (g_current s) (\<lambda>k. k\<lparr>tk_park_cleanup := fn\<rparr>) s) (returned RUnit)"

text \<open>The tail of the bounded park, after its task was resumed.\<close>

definition fd_timeout_done :: "int \<Rightarrow> int \<Rightarrow> int \<Rightarrow> sched \<Rightarrow> (bool \<times> sched) res" where
  "fd_timeout_done fd interest tid s =
     (let t = g_current s; s0 = effect (Poll_remove fd interest) s in
      res_bind (get_task t s0) (\<lambda>k.
        res_map (Pair (\<not> tk_woke_by_timer k))
          (if \<not> tk_timer_dead k
           then upd_task t (\<lambda>k. k\<lparr>tk_timer_dead := True\<rparr>) (effect (Remove_timer tid) s0)
           else Inr s0)))"

section \<open>Channels\<close>

definition chan_new :: "nat \<Rightarrow> 64 word \<Rightarrow> int \<Rightarrow> sched \<Rightarrow> (outcome \<times> sched) res" where
  "chan_new p h capacity s =
     res_bind (scope_of h ''__chan_new'' (g_ht s)) (\<lambda>sc.
       if capacity < 0 then Inl (SproutFail ''__chan_new: capacity must be >= 0 (0 = rendezvous / unbuffered)'')
       else res_bind (ring_new (nat capacity)) (\<lambda>r.
         res_bind (handle_alloc HANDLE_CHAN p (g_ht s)) (\<lambda>(h, T).
           let ch = ring.extend r \<lparr>ch_handle = h, ch_send_q = [], ch_recv_q = [], ch_select_q = [], ch_closed = False,
                                   ch_scope = sc\<rparr>
           in returned (RHandle h) (set_chan p ch (s\<lparr>g_all_chans := p # g_all_chans s, g_ht := T\<rparr>)))))"

definition chan_send :: "64 word \<Rightarrow> sval \<Rightarrow> sched \<Rightarrow> (outcome \<times> sched) res" where
  "chan_send h v s =
     res_bind (chan_of h ''__chan_send'' (g_ht s)) (\<lambda>c.
       res_bind (get_chan c s) (\<lambda>ch.
         if ch_closed ch then Inl (SproutFail ''__chan_send: send on closed channel'')
         else case ch_recv_q ch of
           r # q \<Rightarrow>
             res_bind (upd_task r (\<lambda>k. k\<lparr>tk_chan_pending := v\<rparr>) (set_chan c (ch\<lparr>ch_recv_q := q\<rparr>) s)) (\<lambda>s1.
               res_bind (chan_wake r s1) (returned RUnit))
         | [] \<Rightarrow>
             (case ch_select_q ch of
                (st, i) # _ \<Rightarrow>
                  res_bind (upd_task st (\<lambda>k. k\<lparr>tk_chan_pending := v, tk_closed_wake := False\<rparr>) s) (\<lambda>s1.
                    res_bind (select_fire st i s1) (returned RUnit))
              | [] \<Rightarrow>
                  if rg_count ch < rg_cap ch
                  then res_bind (chan_put v ch) (\<lambda>ch1. returned RUnit (set_chan c ch1 s))
                  else let self = g_current s in
                    res_bind (upd_task self (\<lambda>k. k\<lparr>tk_chan_pending := v, tk_park_kind := PARK_CHAN, tk_park_chan := Some c,
                                                   tk_is_sender := True\<rparr>) s) (\<lambda>s1.
                      res_bind (upd_chan c (\<lambda>ch. ch\<lparr>ch_send_q := ch_send_q ch @ [self]\<rparr>) s1) (parked In_send)))))"

definition chan_recv :: "64 word \<Rightarrow> sched \<Rightarrow> (outcome \<times> sched) res" where
  "chan_recv h s =
     res_bind (chan_of h ''__chan_recv'' (g_ht s)) (\<lambda>c.
       res_bind (chan_poll_take c s) (\<lambda>(r, s1).
         case r of
           Some rv \<Rightarrow> returned (RRecv rv) s1
         | None \<Rightarrow>
             let self = g_current s1 in
             res_bind (upd_task self (\<lambda>k. k\<lparr>tk_park_kind := PARK_CHAN, tk_park_chan := Some c, tk_is_sender := False\<rparr>) s1) (\<lambda>s2.
               res_bind (upd_chan c (\<lambda>ch. ch\<lparr>ch_recv_q := ch_recv_q ch @ [self]\<rparr>) s2) (parked In_recv))))"

text \<open>The loops of \<^verbatim>\<open>__chan_close\<close>: pop and wake until a queue is empty. The select loop re-reads the head;
  each round of either loop removes at least one entry, so that the length of the queue bounds the rounds.\<close>

primrec close_waiters :: "nat \<Rightarrow> bool \<Rightarrow> nat \<Rightarrow> sched \<Rightarrow> sched res" where
  "close_waiters 0 senders c s = Inr s"
| "close_waiters (Suc n) senders c s =
     res_bind (get_chan c s) (\<lambda>ch.
       case (if senders then ch_send_q ch else ch_recv_q ch) of
         [] \<Rightarrow> Inr s
       | t # q \<Rightarrow>
           res_bind (upd_task t (\<lambda>k. k\<lparr>tk_closed_wake := True\<rparr>)
                      (set_chan c (if senders then ch\<lparr>ch_send_q := q\<rparr> else ch\<lparr>ch_recv_q := q\<rparr>) s)) (\<lambda>s1.
             res_bind (chan_wake t s1) (close_waiters n senders c)))"

primrec close_selects :: "nat \<Rightarrow> nat \<Rightarrow> sched \<Rightarrow> sched res" where
  "close_selects 0 c s = Inr s"
| "close_selects (Suc n) c s =
     res_bind (get_chan c s) (\<lambda>ch.
       case ch_select_q ch of
         [] \<Rightarrow> Inr s
       | (st, i) # _ \<Rightarrow>
           res_bind (upd_task st (\<lambda>k. k\<lparr>tk_closed_wake := True\<rparr>) s) (\<lambda>s1.
             res_bind (select_fire st i s1) (close_selects n c)))"

definition chan_close :: "64 word \<Rightarrow> sched \<Rightarrow> (outcome \<times> sched) res" where
  "chan_close h s =
     res_bind (chan_of h ''__chan_close'' (g_ht s)) (\<lambda>c.
       res_bind (get_chan c s) (\<lambda>ch.
         if ch_closed ch then Inl (SproutFail ''__chan_close: channel already closed'')
         else
           res_bind (close_waiters (length (ch_recv_q ch)) False c (set_chan c (ch\<lparr>ch_closed := True\<rparr>) s)) (\<lambda>s2.
             res_bind (close_waiters (length (ch_send_q ch)) True c s2) (\<lambda>s3.
               res_bind (close_selects (length (ch_select_q ch)) c s3) (returned RUnit)))))"

text \<open>The handles of the list, resolved in order; the lowest ready channel; the registrations.\<close>

fun select_chans :: "64 word list \<Rightarrow> handles \<Rightarrow> nat list res" where
  "select_chans [] T = Inr []"
| "select_chans (h # hs) T =
     res_bind (chan_of h ''__chan_select'' T) (\<lambda>c. res_map ((#) c) (select_chans hs T))"

fun select_scan :: "nat \<Rightarrow> nat list \<Rightarrow> sched \<Rightarrow> ((nat \<times> recv) option \<times> sched) res" where
  "select_scan i [] s = Inr (None, s)"
| "select_scan i (c # cs) s =
     res_bind (chan_poll_take c s) (\<lambda>(r, s1).
       case r of Some rv \<Rightarrow> Inr (Some (i, rv), s1) | None \<Rightarrow> select_scan (i + 1) cs s1)"

definition select_register :: "nat \<Rightarrow> nat \<times> nat \<Rightarrow> sched \<Rightarrow> sched res" where
  "select_register t = (\<lambda>(i, c). upd_chan c (\<lambda>ch. ch\<lparr>ch_select_q := ch_select_q ch @ [(t, i)]\<rparr>))"

definition chan_select :: "64 word list \<Rightarrow> sched \<Rightarrow> (outcome \<times> sched) res" where
  "chan_select hs s =
     (if hs = [] then Inl (SproutFail ''__chan_select: empty channel list (a select with no cases can never proceed)'')
      else res_bind (select_chans hs (g_ht s)) (\<lambda>cs.
        res_bind (select_scan 0 cs s) (\<lambda>(r, s1).
          case r of
            Some (i, rv) \<Rightarrow> returned (RSelected i rv) s1
          | None \<Rightarrow>
              let self = g_current s1 in
              res_bind (res_fold (select_register self) (enumerate 0 cs) s1) (\<lambda>s2.
                res_bind (upd_task self (\<lambda>k. k\<lparr>tk_sel_regs := cs, tk_park_kind := PARK_SELECT\<rparr>) s2)
                  (parked In_select)))))"

section \<open>Resumption and the pump\<close>

definition take_pending :: "sched \<Rightarrow> (recv \<times> sched) res" where
  "take_pending s =
     (let t = g_current s in
      res_bind (get_task t s) (\<lambda>k.
        if tk_closed_wake k then Inr (Closed, set_task t (k\<lparr>tk_closed_wake := False\<rparr>) s)
        else Inr (Got (tk_chan_pending k), set_task t (k\<lparr>tk_chan_pending := 0\<rparr>) s)))"

text \<open>The code of a builtin behind its call of \<^verbatim>\<open>park_to_pump\<close>.\<close>

fun resume :: "frame \<Rightarrow> sched \<Rightarrow> (outcome \<times> sched) res" where
  "resume At_entry s = returned RUnit s"
| "resume Running s = Inl UseAfterFree"
| "resume Destroyed s = Inl UseAfterFree"
| "resume In_send s =
     res_bind (get_task (g_current s) s) (\<lambda>k.
       if tk_closed_wake k then Inl (SproutFail ''__chan_send: send on closed channel'') else returned RUnit s)"
| "resume In_recv s = res_bind (take_pending s) (\<lambda>(r, s1). returned (RRecv r) s1)"
| "resume In_select s =
     res_bind (get_task (g_current s) s) (\<lambda>k.
       res_bind (take_pending s) (\<lambda>(r, s1). returned (RSelected (tk_sel_fired k) r) s1))"
| "resume (In_await t) s = res_bind (get_task t s) (\<lambda>k. returned (RVal (tk_result k)) s)"
| "resume (In_join sc) s = join_finish sc s"
| "resume (In_deadline sc child) s =
     res_bind (upd_task (g_current s) (\<lambda>k. k\<lparr>tk_deadline_child := None\<rparr>) s) (deadline_classify sc child)"
| "resume (In_redeadline sc child) s = deadline_classify sc child s"
| "resume In_yield s = returned RUnit s"
| "resume In_timer s = returned RUnit s"
| "resume In_fd s = returned RUnit s"
| "resume In_unowned_fd s =
     res_bind (upd_task (g_current s) (\<lambda>k. k\<lparr>tk_park_close_fd := - 1\<rparr>) s) (returned RUnit)"
| "resume (In_fd_timeout fd interest tid) s =
     res_bind (fd_timeout_done fd interest tid s) (\<lambda>(r, s1). returned (RFlag r) s1)"
| "resume (In_unowned_fd_timeout fd interest tid) s =
     res_bind (fd_timeout_done fd interest tid s) (\<lambda>(r, s1).
       res_bind (upd_task (g_current s1) (\<lambda>k. k\<lparr>tk_park_close_fd := - 1\<rparr>) s1) (returned (RFlag r)))"

text \<open>One event the poller reported: its task and whether it was a timer.\<close>

definition harvest :: "nat \<times> bool \<Rightarrow> sched \<Rightarrow> sched res" where
  "harvest = (\<lambda>(w, is_timer) s.
     res_bind (get_task w s) (\<lambda>k.
       res_bind (if is_timer \<and> \<not> tk_timer_dead k
                 then upd_task w (\<lambda>k. k\<lparr>tk_timer_dead := True\<rparr>) (effect (Remove_timer (tk_timer_id k)) s)
                 else Inr s) (\<lambda>s1.
         if \<not> tk_on_io k then Inr s1
         else res_bind (upd_task w (\<lambda>k. k\<lparr>tk_woke_by_timer := is_timer\<rparr>) s1) (\<lambda>s2.
           res_bind (sched_io_remove w s2) (\<lambda>s3.
             res_bind (upd_task w (\<lambda>k. k\<lparr>tk_park_kind := PARK_NONE, tk_park_fd := - 1, tk_park_close_fd := - 1\<rparr>) s3)
               (sched_rq_push w))))))"

text \<open>One round of the pump: run the next ready task up to its next park or return, or harvest the batch
  \<open>evs\<close> of the poller.\<close>

definition pump_round :: "(nat \<times> bool) list \<Rightarrow> sched \<Rightarrow> (outcome \<times> sched) res" where
  "pump_round evs s =
     (case g_rq s of
        [] \<Rightarrow> if g_io s \<noteq> [] then res_map (Pair Parked) (res_fold harvest evs s)
              else Inl (SproutFail ''scheduler: deadlock - tasks parked with no way to make progress'')
      | t # q \<Rightarrow>
          res_bind (get_task t s) (\<lambda>k.
            resume (tk_ctx k)
              (set_task t (k\<lparr>tk_in_rq := False, tk_ctx := Running\<rparr>)
                 (s\<lparr>g_rq := q, g_current := t, g_in_pump := False\<rparr>))))"

end
