(* ===== verification/Sched_Inv.thy ===== *)
theory Sched_Inv
  imports Scheduler
begin

text \<open>
  The invariant of the scheduler state: every task that can run again is in exactly one place. The flags
  of a task agree with the queues it is linked in, a task that is awaited or joined on stands in the
  call that waits, a channel has senders parked only when it is full and receivers or selectors only when it is
  empty and no sender is parked, and the live count of a scope is the number of its unfinished tasks.
  Every transition of the scheduler preserves it.
\<close>

named_theorems inv_defs \<open>the parts of the invariant\<close>

section \<open>The invariant\<close>

type_synonym tasks = "nat \<Rightarrow> task option"

definition holds :: "(task \<Rightarrow> bool) \<Rightarrow> tasks \<Rightarrow> nat \<Rightarrow> bool" where
  "holds P T t \<longleftrightarrow> (case T t of None \<Rightarrow> False | Some k \<Rightarrow> P k)"

definition active :: "task \<Rightarrow> bool" where
  "active k \<longleftrightarrow> \<not> tk_done k \<and> tk_roots k \<noteq> None"

lemma active_simps [simp]:
  "active (k\<lparr>tk_ctx := x0\<rparr>) = active k"
  "active (k\<lparr>tk_work := x1\<rparr>) = active k"
  "active (k\<lparr>tk_result := x2\<rparr>) = active k"
  "active (k\<lparr>tk_awaiter := x3\<rparr>) = active k"
  "active (k\<lparr>tk_awaitable := x4\<rparr>) = active k"
  "active (k\<lparr>tk_scope := x5\<rparr>) = active k"
  "active (k\<lparr>tk_handle := x6\<rparr>) = active k"
  "active (k\<lparr>tk_park_kind := x7\<rparr>) = active k"
  "active (k\<lparr>tk_park_fd := x8\<rparr>) = active k"
  "active (k\<lparr>tk_park_interest := x9\<rparr>) = active k"
  "active (k\<lparr>tk_park_close_fd := x10\<rparr>) = active k"
  "active (k\<lparr>tk_park_cleanup := x11\<rparr>) = active k"
  "active (k\<lparr>tk_timer_id := x12\<rparr>) = active k"
  "active (k\<lparr>tk_timer_dead := x13\<rparr>) = active k"
  "active (k\<lparr>tk_woke_by_timer := x14\<rparr>) = active k"
  "active (k\<lparr>tk_on_io := x15\<rparr>) = active k"
  "active (k\<lparr>tk_in_rq := x16\<rparr>) = active k"
  "active (k\<lparr>tk_deadline_child := x17\<rparr>) = active k"
  "active (k\<lparr>tk_chan_pending := x18\<rparr>) = active k"
  "active (k\<lparr>tk_park_chan := x19\<rparr>) = active k"
  "active (k\<lparr>tk_is_sender := x20\<rparr>) = active k"
  "active (k\<lparr>tk_closed_wake := x21\<rparr>) = active k"
  "active (k\<lparr>tk_sel_regs := x22\<rparr>) = active k"
  "active (k\<lparr>tk_sel_fired := x23\<rparr>) = active k"
  "active (k\<lparr>tk_done := d\<rparr>) \<longleftrightarrow> \<not> d \<and> tk_roots k \<noteq> None"
  "active (k\<lparr>tk_roots := r\<rparr>) \<longleftrightarrow> \<not> tk_done k \<and> r \<noteq> None"
  by (simp_all add: active_def)

definition io_kind :: "park_kind \<Rightarrow> bool" where
  "io_kind pk \<longleftrightarrow> pk = PARK_FD \<or> pk = PARK_TIMER \<or> pk = PARK_FD_TIMER"

definition parked_on :: "bool \<Rightarrow> nat \<Rightarrow> task \<Rightarrow> bool" where
  "parked_on sending c k \<longleftrightarrow> tk_park_kind k = PARK_CHAN \<and> tk_park_chan k = Some c \<and> tk_is_sender k = sending"

definition selects :: "nat \<Rightarrow> nat \<Rightarrow> task \<Rightarrow> bool" where
  "selects c i k \<longleftrightarrow> i < length (tk_sel_regs k) \<and> tk_sel_regs k ! i = c"

text \<open>Of one task. Only the running task and a finished one have the context \<open>Running\<close>; a dropped or finished task is linked
  nowhere.\<close>

definition task_ok :: "(nat \<Rightarrow> chan option) \<Rightarrow> bool \<Rightarrow> task \<Rightarrow> bool" where
  "task_ok C running k \<longleftrightarrow>
     (tk_in_rq k \<longrightarrow> active k \<and> tk_park_kind k = PARK_NONE \<and> \<not> tk_on_io k \<and> tk_ctx k \<noteq> Running) \<and>
     (active k \<longrightarrow> tk_ctx k \<noteq> Destroyed) \<and>
     (tk_on_io k \<longrightarrow> active k \<and> io_kind (tk_park_kind k)) \<and>
     (tk_park_kind k = PARK_CHAN \<and> tk_park_chan k \<noteq> None \<longrightarrow> active k \<and> the (tk_park_chan k) \<in> dom C) \<and>
     (tk_sel_regs k \<noteq> [] \<longrightarrow> active k \<and> tk_park_kind k = PARK_SELECT \<and> set (tk_sel_regs k) \<subseteq> dom C) \<and>
     (tk_done k \<longrightarrow> tk_park_kind k = PARK_NONE) \<and>
     (tk_deadline_child k \<noteq> None \<longrightarrow> active k \<and> (\<exists>sc c. tk_ctx k = In_deadline sc c)) \<and>
     (tk_ctx k = Running \<longrightarrow> running \<or> tk_done k) \<and>
     (running \<longrightarrow> active k \<and> tk_ctx k = Running \<and> tk_park_kind k = PARK_NONE \<and> \<not> tk_in_rq k)"

text \<open>The task \<open>k\<close> that is to be woken when \<open>t\<close> finishes: blocked in \<^verbatim>\<open>__task_await\<close>, or a deadline owner
  whose timer is armed or has already made it ready.\<close>

definition awaits :: "nat \<Rightarrow> task \<Rightarrow> bool" where
  "awaits t k \<longleftrightarrow> active k \<and>
     (tk_ctx k = In_await t \<and> \<not> tk_in_rq k \<and> tk_park_kind k = PARK_NONE \<and> tk_deadline_child k = None \<or>
      (\<exists>sc. tk_ctx k = In_deadline sc t) \<and> tk_deadline_child k = Some t \<and> (tk_on_io k \<or> tk_in_rq k))"

definition joins :: "nat \<Rightarrow> task \<Rightarrow> bool" where
  "joins p k \<longleftrightarrow> active k \<and> tk_ctx k = In_join p \<and> \<not> tk_in_rq k \<and> tk_park_kind k = PARK_NONE"

definition aw_ok :: "nat set \<Rightarrow> tasks \<Rightarrow> bool" where
  "aw_ok X T \<longleftrightarrow> (\<forall>t k a. T t = Some k \<longrightarrow> t \<notin> X \<longrightarrow> tk_awaiter k = Some a \<longrightarrow> holds (awaits t) T a)"

definition join_ok :: "(nat \<Rightarrow> scope option) \<Rightarrow> tasks \<Rightarrow> bool" where
  "join_ok S T \<longleftrightarrow> (\<forall>p c a. S p = Some c \<longrightarrow> sc_waiter c = Some a \<longrightarrow> holds (joins p) T a)"

definition queue_ok :: "nat list \<Rightarrow> (task \<Rightarrow> bool) \<Rightarrow> tasks \<Rightarrow> bool" where
  "queue_ok q P T \<longleftrightarrow> distinct q \<and> (\<forall>t. t \<in> set q \<longleftrightarrow> holds P T t)"

definition select_ok :: "(nat \<times> nat) list \<Rightarrow> nat \<Rightarrow> tasks \<Rightarrow> bool" where
  "select_ok q c T \<longleftrightarrow> distinct q \<and> (\<forall>t i. (t, i) \<in> set q \<longleftrightarrow> holds (selects c i) T t)"

text \<open>The waiting discipline of a channel.\<close>

definition chan_wf :: "chan \<Rightarrow> bool" where
  "chan_wf ch \<longleftrightarrow> ring_inv ch \<and> (ch_send_q ch \<noteq> [] \<longrightarrow> rg_count ch = rg_cap ch) \<and>
     (ch_recv_q ch \<noteq> [] \<or> ch_select_q ch \<noteq> [] \<longrightarrow> rg_count ch = 0 \<and> ch_send_q ch = []) \<and>
     (ch_closed ch \<longrightarrow> ch_send_q ch = [] \<and> ch_recv_q ch = [] \<and> ch_select_q ch = [])"

definition chan_ok :: "tasks \<Rightarrow> nat \<Rightarrow> chan \<Rightarrow> bool" where
  "chan_ok T c ch \<longleftrightarrow> chan_wf ch \<and> queue_ok (ch_send_q ch) (parked_on True c) T \<and>
     queue_ok (ch_recv_q ch) (parked_on False c) T \<and> select_ok (ch_select_q ch) c T"

definition members :: "nat \<Rightarrow> tasks \<Rightarrow> nat set" where
  "members p T = {t. holds (\<lambda>k. active k \<and> tk_scope k = Some p) T t}"

definition scope_ok :: "tasks \<Rightarrow> nat \<Rightarrow> scope \<Rightarrow> bool" where
  "scope_ok T p c \<longleftrightarrow> sc_live c = int (card (members p T)) \<and>
     (\<forall>f \<in> set (sc_forks c). holds (\<lambda>k. tk_scope k = Some p \<and> tk_awaitable k) T f)"

definition sched_inv_on :: "nat set \<Rightarrow> sched \<Rightarrow> bool" where
  "sched_inv_on X s \<longleftrightarrow>
     finite (dom (g_tasks s)) \<and>
     queue_ok (g_rq s) tk_in_rq (g_tasks s) \<and> queue_ok (g_io s) tk_on_io (g_tasks s) \<and>
     distinct (g_all_chans s) \<and> set (g_all_chans s) = dom (g_chans s) \<and>
     (\<forall>c ch. g_chans s c = Some ch \<longrightarrow> chan_ok (g_tasks s) c ch) \<and>
     (\<forall>t k. g_tasks s t = Some k \<longrightarrow> task_ok (g_chans s) (\<not> g_in_pump s \<and> t = g_current s) k) \<and>
     (\<not> g_in_pump s \<longrightarrow> g_tasks s (g_current s) \<noteq> None) \<and>
     aw_ok X (g_tasks s) \<and> join_ok (g_scopes s) (g_tasks s) \<and>
     (\<forall>p c. g_scopes s p = Some c \<longrightarrow> scope_ok (g_tasks s) p c) \<and>
     (\<forall>t k p. g_tasks s t = Some k \<longrightarrow> active k \<longrightarrow> tk_scope k = Some p \<longrightarrow> g_scopes s p \<noteq> None)"

abbreviation sched_inv :: "sched \<Rightarrow> bool" where
  "sched_inv \<equiv> sched_inv_on {}"

section \<open>Replacing one task\<close>

lemma holds_simps [simp]:
  "holds P (T(t \<mapsto> k)) u \<longleftrightarrow> (if u = t then P k else holds P T u)"
  "holds P (T(t := None)) u \<longleftrightarrow> u \<noteq> t \<and> holds P T u"
  "T t = Some k \<Longrightarrow> holds P T t \<longleftrightarrow> P k"
  "T t = None \<Longrightarrow> \<not> holds P T t"
  by (auto simp: holds_def)

lemma queue_ok_upd:
  assumes "queue_ok q P T" "distinct q'" "\<And>u. u \<in> set q' \<longleftrightarrow> (if u = t then P k else u \<in> set q)"
  shows "queue_ok q' P (T(t \<mapsto> k))"
  using assms by (auto simp: queue_ok_def)

lemma queue_ok_same:
  assumes "queue_ok q P T" "T t = Some k0" "P k \<longleftrightarrow> P k0"
  shows "queue_ok q P (T(t \<mapsto> k))"
  using assms by (auto simp: queue_ok_def)

lemma select_ok_same:
  assumes "select_ok q c T" "T t = Some k0" "tk_sel_regs k = tk_sel_regs k0"
  shows "select_ok q c (T(t \<mapsto> k))"
  using assms by (auto simp: select_ok_def selects_def)

lemma chan_ok_same:
  assumes "chan_ok T c ch" "T t = Some k0" "tk_sel_regs k = tk_sel_regs k0"
    "\<And>b. parked_on b c k \<longleftrightarrow> parked_on b c k0"
  shows "chan_ok (T(t \<mapsto> k)) c ch"
  using assms queue_ok_same [of _ "parked_on True c" T t k0 k] queue_ok_same [of _ "parked_on False c" T t k0 k]
  by (auto simp: chan_ok_def intro: select_ok_same)

lemma holds_freed: "T t = Some k \<Longrightarrow> \<not> P k \<Longrightarrow> holds P (T(t := None)) = holds P T"
  by (auto simp: fun_eq_iff)

lemma chan_ok_freed:
  assumes "chan_ok T c ch" "T t = Some k" "\<And>b. \<not> parked_on b c k" "tk_sel_regs k = []"
  shows "chan_ok (T(t := None)) c ch"
proof -
  have "holds (selects c i) (T(t := None)) = holds (selects c i) T" for i
    using assms(2,4) by (intro holds_freed) (auto simp: selects_def)
  then show ?thesis
    using assms(1-3) by (simp add: chan_ok_def queue_ok_def select_ok_def holds_freed del: holds_simps)
qed

lemma finite_members: "finite (dom T) \<Longrightarrow> finite (members p T)"
  by (rule finite_subset [of _ "dom T"]) (auto simp: members_def holds_def split: option.splits)

lemma members_same:
  "T t = Some k0 \<Longrightarrow> active k = active k0 \<Longrightarrow> tk_scope k = tk_scope k0 \<Longrightarrow> members p (T(t \<mapsto> k)) = members p T"
  by (auto simp: members_def)

lemma scope_ok_same:
  assumes "scope_ok T p c" "T t = Some k0" "active k = active k0" "tk_scope k = tk_scope k0"
    "tk_awaitable k = tk_awaitable k0"
  shows "scope_ok (T(t \<mapsto> k)) p c"
  using assms members_same [of T t k0 k p] by (auto simp: scope_ok_def)


lemma aw_ok_upd:
  assumes "aw_ok X T" "T t = Some k0" "\<And>u. awaits u k0 \<Longrightarrow> awaits u k" "tk_awaiter k = tk_awaiter k0"
  shows "aw_ok X (T(t \<mapsto> k))"
  unfolding aw_ok_def
proof (intro allI impI)
  fix u ku a assume u: "(T(t \<mapsto> k)) u = Some ku" "u \<notin> X" "tk_awaiter ku = Some a"
  then have "holds (awaits u) T a"
    using assms(1,2,4) unfolding aw_ok_def by (cases "u = t") auto
  then show "holds (awaits u) (T(t \<mapsto> k)) a"
    using assms(2,3) by auto
qed

lemma join_ok_upd:
  assumes "join_ok S T" "T t = Some k0" "\<And>p. joins p k0 \<Longrightarrow> joins p k"
  shows "join_ok S (T(t \<mapsto> k))"
  using assms unfolding join_ok_def by (metis holds_simps(1,3))

text \<open>The general step: one record appears, changes or goes, and the queues follow.\<close>

lemma inv_gen:
  assumes inv: "sched_inv_on Y s" and T': "\<And>u. u \<noteq> t \<Longrightarrow> g_tasks s' u = g_tasks s u"
    and S': "dom (g_scopes s') = dom (g_scopes s)"
    and C': "dom (g_chans s') = dom (g_chans s)" "g_all_chans s' = g_all_chans s"
    and rq: "distinct (g_rq s')"
      "\<And>u. u \<in> set (g_rq s') \<longleftrightarrow> (if u = t then holds tk_in_rq (g_tasks s') t else u \<in> set (g_rq s))"
    and io: "distinct (g_io s')"
      "\<And>u. u \<in> set (g_io s') \<longleftrightarrow> (if u = t then holds tk_on_io (g_tasks s') t else u \<in> set (g_io s))"
    and ch: "\<And>c ch. g_chans s' c = Some ch \<Longrightarrow> chan_ok (g_tasks s') c ch"
    and ok: "\<And>k. g_tasks s' t = Some k \<Longrightarrow> task_ok (g_chans s) (\<not> g_in_pump s' \<and> t = g_current s') k"
    and run: "\<And>u. u \<noteq> t \<Longrightarrow> (\<not> g_in_pump s' \<and> u = g_current s') = (\<not> g_in_pump s \<and> u = g_current s)"
      "\<not> g_in_pump s' \<Longrightarrow> g_current s' = t \<Longrightarrow> g_tasks s' t \<noteq> None"
    and aw: "aw_ok X (g_tasks s')" "join_ok (g_scopes s') (g_tasks s')"
    and sc: "\<And>p c. g_scopes s' p = Some c \<Longrightarrow> scope_ok (g_tasks s') p c"
      "\<And>k p. g_tasks s' t = Some k \<Longrightarrow> active k \<Longrightarrow> tk_scope k = Some p \<Longrightarrow> p \<in> dom (g_scopes s)"
  shows "sched_inv_on X s'"
proof -
  have cong: "task_ok (g_chans s') = task_ok (g_chans s)"
    using C'(1) by (simp add: task_ok_def fun_eq_iff)
  have "task_ok (g_chans s') (\<not> g_in_pump s' \<and> u = g_current s') ku" if "g_tasks s' u = Some ku" for u ku
    using that T' [of u] ok run(1) [of u] inv cong by (cases "u = t") (auto simp: sched_inv_on_def)
  moreover have "\<not> g_in_pump s' \<longrightarrow> g_tasks s' (g_current s') \<noteq> None"
  proof (cases "g_current s' = t")
    case False
    then show ?thesis
      using inv run(1) [OF False] T' [OF False] by (auto simp: sched_inv_on_def)
  qed (use run(2) in auto)
  moreover have hs: "holds P (g_tasks s') u \<longleftrightarrow> holds P (g_tasks s) u" if "u \<noteq> t" for P u
    using T' [OF that] by (simp add: holds_def)
  have "u \<in> set (g_rq s') \<longleftrightarrow> holds tk_in_rq (g_tasks s') u" "u \<in> set (g_io s') \<longleftrightarrow> holds tk_on_io (g_tasks s') u" for u
    using inv rq(2) [of u] io(2) [of u] hs [of u] unfolding sched_inv_on_def queue_ok_def
    by (cases "u = t"; simp)+
  then have "queue_ok (g_rq s') tk_in_rq (g_tasks s')" "queue_ok (g_io s') tk_on_io (g_tasks s')"
    using rq(1) io(1) unfolding queue_ok_def by simp_all
  moreover have "\<forall>u ku p. g_tasks s' u = Some ku \<longrightarrow> active ku \<longrightarrow> tk_scope ku = Some p \<longrightarrow> g_scopes s' p \<noteq> None"
    using inv T' sc(2) S' unfolding sched_inv_on_def by (metis domIff)
  moreover have "dom (g_tasks s') \<subseteq> insert t (dom (g_tasks s))"
    using T' by (metis domIff insertCI subsetI)
  then have "finite (dom (g_tasks s'))"
    using inv by (meson finite_insert rev_finite_subset sched_inv_on_def)
  ultimately show ?thesis
    using inv ch C' aw sc(1) unfolding sched_inv_on_def by simp
qed

text \<open>One task changes, with no effect on who is unfinished and who awaits whom.\<close>

lemma inv_task:
  assumes inv: "sched_inv_on X s" and k0: "g_tasks s t = Some k0"
    and T': "g_tasks s' = (g_tasks s)(t \<mapsto> k)"
    and S': "g_scopes s' = g_scopes s" and C': "dom (g_chans s') = dom (g_chans s)" "g_all_chans s' = g_all_chans s"
    and act: "active k = active k0" "tk_scope k = tk_scope k0" "tk_awaiter k = tk_awaiter k0" "tk_awaitable k = tk_awaitable k0"
    and aw: "\<And>u. awaits u k0 \<Longrightarrow> awaits u k" "\<And>p. joins p k0 \<Longrightarrow> joins p k"
    and rq: "distinct (g_rq s')" "\<And>u. u \<in> set (g_rq s') \<longleftrightarrow> (if u = t then tk_in_rq k else u \<in> set (g_rq s))"
    and io: "distinct (g_io s')" "\<And>u. u \<in> set (g_io s') \<longleftrightarrow> (if u = t then tk_on_io k else u \<in> set (g_io s))"
    and ch: "\<And>c ch. g_chans s' c = Some ch \<Longrightarrow> chan_ok (g_tasks s') c ch"
    and ok: "task_ok (g_chans s) (\<not> g_in_pump s' \<and> t = g_current s') k"
    and run: "\<And>u. u \<noteq> t \<Longrightarrow> (\<not> g_in_pump s' \<and> u = g_current s') = (\<not> g_in_pump s \<and> u = g_current s)"
  shows "sched_inv_on X s'"
proof (rule inv_gen [OF inv, of t])
  show "aw_ok X (g_tasks s')" "join_ok (g_scopes s') (g_tasks s')"
    using inv k0 act aw by (auto simp: sched_inv_on_def T' S' intro: aw_ok_upd join_ok_upd)
  show "scope_ok (g_tasks s') p c" if "g_scopes s' p = Some c" for p c
    using that inv k0 act by (auto simp: sched_inv_on_def T' S' intro: scope_ok_same)
  show "p \<in> dom (g_scopes s)" if "g_tasks s' t = Some k'" "active k'" "tk_scope k' = Some p" for k' p
    using that inv k0 act unfolding sched_inv_on_def T' by fastforce
qed (use assms in auto)

lemma inv_chans_same:
  assumes inv: "sched_inv_on X s" and k0: "g_tasks s t = Some k0"
    and T': "g_tasks s' = (g_tasks s)(t \<mapsto> k)" and C': "g_chans s' = g_chans s"
    and "tk_sel_regs k = tk_sel_regs k0" "\<And>b c. parked_on b c k \<longleftrightarrow> parked_on b c k0"
  shows "g_chans s' c = Some ch \<Longrightarrow> chan_ok (g_tasks s') c ch"
  using assms by (auto simp: sched_inv_on_def intro: chan_ok_same)

text \<open>An update of fields the invariant does not mention.\<close>

definition same_view :: "task \<Rightarrow> task \<Rightarrow> bool" where
  "same_view k0 k \<longleftrightarrow> tk_in_rq k = tk_in_rq k0 \<and> tk_on_io k = tk_on_io k0 \<and> tk_park_kind k = tk_park_kind k0 \<and>
     tk_park_chan k = tk_park_chan k0 \<and> tk_is_sender k = tk_is_sender k0 \<and> tk_sel_regs k = tk_sel_regs k0 \<and>
     tk_ctx k = tk_ctx k0 \<and> tk_awaiter k = tk_awaiter k0 \<and> tk_deadline_child k = tk_deadline_child k0 \<and>
     tk_done k = tk_done k0 \<and> active k = active k0 \<and> tk_scope k = tk_scope k0 \<and> tk_awaitable k = tk_awaitable k0"

lemma inv_taskD: "sched_inv_on X s \<Longrightarrow> g_tasks s t = Some k \<Longrightarrow> task_ok (g_chans s) (\<not> g_in_pump s \<and> t = g_current s) k"
  by (simp add: sched_inv_on_def)

lemma inv_rqD: "sched_inv_on X s \<Longrightarrow> distinct (g_rq s)"
  "sched_inv_on X s \<Longrightarrow> g_tasks s t = Some k \<Longrightarrow> t \<in> set (g_rq s) \<longleftrightarrow> tk_in_rq k"
  "sched_inv_on X s \<Longrightarrow> distinct (g_io s)"
  "sched_inv_on X s \<Longrightarrow> g_tasks s t = Some k \<Longrightarrow> t \<in> set (g_io s) \<longleftrightarrow> tk_on_io k"
  by (auto simp: sched_inv_on_def queue_ok_def)

lemma inv_same_view:
  assumes inv: "sched_inv_on X s" and k0: "g_tasks s t = Some k0" and sv: "same_view k0 k"
    and s': "g_tasks s' = (g_tasks s)(t \<mapsto> k)" "g_scopes s' = g_scopes s" "g_chans s' = g_chans s"
      "g_all_chans s' = g_all_chans s" "g_rq s' = g_rq s" "g_io s' = g_io s" "g_in_pump s' = g_in_pump s"
      "g_current s' = g_current s"
  shows "sched_inv_on X s'"
proof (rule inv_task [OF inv k0 s'(1,2)])
  show "chan_ok (g_tasks s') c ch" if "g_chans s' c = Some ch" for c ch
    using that sv by (intro inv_chans_same [OF inv k0 s'(1,3)]) (auto simp: same_view_def parked_on_def)
  show "task_ok (g_chans s) (\<not> g_in_pump s' \<and> t = g_current s') k"
    using inv_taskD [OF inv k0] sv s' unfolding task_ok_def same_view_def by auto
qed (use sv s' inv_rqD [OF inv] inv_rqD(2,4) [OF inv k0] in
      \<open>auto simp: same_view_def awaits_def joins_def\<close>)


section \<open>Access to records, as equations\<close>

lemma set_simps [simp]:
  "g_tasks (set_task t k s) = (g_tasks s)(t \<mapsto> k)" "g_scopes (set_task t k s) = g_scopes s"
  "g_chans (set_task t k s) = g_chans s" "g_rq (set_task t k s) = g_rq s" "g_io (set_task t k s) = g_io s"
  "g_all_chans (set_task t k s) = g_all_chans s" "g_ht (set_task t k s) = g_ht s"
  "g_current (set_task t k s) = g_current s" "g_in_pump (set_task t k s) = g_in_pump s"
  "g_scopes (set_scope p c s) = (g_scopes s)(p \<mapsto> c)" "g_tasks (set_scope p c s) = g_tasks s"
  "g_chans (set_scope p c s) = g_chans s" "g_rq (set_scope p c s) = g_rq s" "g_io (set_scope p c s) = g_io s"
  "g_all_chans (set_scope p c s) = g_all_chans s" "g_ht (set_scope p c s) = g_ht s"
  "g_current (set_scope p c s) = g_current s" "g_in_pump (set_scope p c s) = g_in_pump s"
  "g_chans (set_chan d ch s) = (g_chans s)(d \<mapsto> ch)" "g_tasks (set_chan d ch s) = g_tasks s"
  "g_scopes (set_chan d ch s) = g_scopes s" "g_rq (set_chan d ch s) = g_rq s" "g_io (set_chan d ch s) = g_io s"
  "g_all_chans (set_chan d ch s) = g_all_chans s" "g_ht (set_chan d ch s) = g_ht s"
  "g_current (set_chan d ch s) = g_current s" "g_in_pump (set_chan d ch s) = g_in_pump s"
  "g_tasks (effect e s) = g_tasks s" "g_scopes (effect e s) = g_scopes s" "g_chans (effect e s) = g_chans s"
  "g_rq (effect e s) = g_rq s" "g_io (effect e s) = g_io s" "g_all_chans (effect e s) = g_all_chans s"
  "g_ht (effect e s) = g_ht s" "g_current (effect e s) = g_current s" "g_in_pump (effect e s) = g_in_pump s"
  by (simp_all add: set_task_def set_scope_def set_chan_def effect_def)

lemma get_Inr [simp]:
  "get_task t s = Inr k \<longleftrightarrow> g_tasks s t = Some k"
  "get_scope p s = Inr c \<longleftrightarrow> g_scopes s p = Some c"
  "get_chan d s = Inr ch \<longleftrightarrow> g_chans s d = Some ch"
  by (auto simp: get_task_def get_scope_def get_chan_def split: option.splits)

lemma upd_Inr [simp]:
  "upd_task t f s = Inr s' \<longleftrightarrow> (\<exists>k. g_tasks s t = Some k \<and> s' = set_task t (f k) s)"
  "upd_scope p g s = Inr s' \<longleftrightarrow> (\<exists>c. g_scopes s p = Some c \<and> s' = set_scope p (g c) s)"
  "upd_chan d h s = Inr s' \<longleftrightarrow> (\<exists>ch. g_chans s d = Some ch \<and> s' = set_chan d (h ch) s)"
  by (auto simp: upd_task_def upd_scope_def upd_chan_def res_bind_eq_Inr)

lemma rq_push_Inr [simp]:
  "sched_rq_push t s = Inr s' \<longleftrightarrow>
   (\<exists>k. g_tasks s t = Some k \<and> s' = (set_task t (k\<lparr>tk_in_rq := True\<rparr>) s)\<lparr>g_rq := g_rq s @ [t]\<rparr>)"
  by (auto simp: sched_rq_push_def res_bind_eq_Inr)

lemma io_Inr [simp]:
  "sched_io_push t s = Inr s' \<longleftrightarrow>
   (\<exists>k. g_tasks s t = Some k \<and> s' = (set_task t (k\<lparr>tk_on_io := True\<rparr>) s)\<lparr>g_io := t # g_io s\<rparr>)"
  "sched_io_remove t s = Inr s' \<longleftrightarrow>
   (\<exists>k. g_tasks s t = Some k \<and> s' = (set_task t (k\<lparr>tk_on_io := False\<rparr>) s)\<lparr>g_io := remove1 t (g_io s)\<rparr>)"
  by (auto simp: sched_io_push_def sched_io_remove_def res_bind_eq_Inr)

lemma park_Inr [simp]:
  "park_to_pump fr s = Inr s' \<longleftrightarrow>
   (\<exists>k. g_tasks s (g_current s) = Some k \<and>
        s' = (set_task (g_current s) (k\<lparr>tk_ctx := fr\<rparr>) s)\<lparr>g_in_pump := True\<rparr>)"
  "parked fr s = Inr (out, s') \<longleftrightarrow> out = Parked \<and> park_to_pump fr s = Inr s'"
  "returned r s = Inr (out, s') \<longleftrightarrow> out = Ret r \<and> s' = s"
  by (auto simp: park_to_pump_def parked_def returned_def res_map_def res_bind_eq_Inr)

lemma res_map_Inr [simp]: "res_map f r = Inr y \<longleftrightarrow> (\<exists>x. r = Inr x \<and> y = f x)"
  by (cases r) auto

lemma chan_wake_Inr [simp]:
  "chan_wake t s = Inr s' \<longleftrightarrow>
   (\<exists>k. g_tasks s t = Some k \<and>
        s' = (set_task t (k\<lparr>tk_park_kind := PARK_NONE, tk_park_chan := None, tk_in_rq := True\<rparr>) s)\<lparr>g_rq := g_rq s @ [t]\<rparr>)"
  by (auto simp: chan_wake_def res_bind_eq_Inr set_task_def)

text \<open>The part of the state that the invariant reads.\<close>

definition same_state :: "sched \<Rightarrow> sched \<Rightarrow> bool" where
  "same_state s s' \<longleftrightarrow> g_tasks s' = g_tasks s \<and> g_scopes s' = g_scopes s \<and> g_chans s' = g_chans s \<and>
     g_all_chans s' = g_all_chans s \<and> g_rq s' = g_rq s \<and> g_io s' = g_io s \<and> g_in_pump s' = g_in_pump s \<and>
     g_current s' = g_current s"

lemma inv_same_state: "sched_inv_on X s \<Longrightarrow> same_state s s' \<Longrightarrow> sched_inv_on X s'"
  unfolding sched_inv_on_def same_state_def by (simp only:) blast

lemma inv_effect: "sched_inv_on X s \<Longrightarrow> sched_inv_on X (effect e s)"
  by (erule inv_same_state) (simp add: same_state_def)

section \<open>Waking and parking\<close>

lemma parked_no_waiter:
  assumes "task_ok C r k" "tk_park_kind k \<noteq> PARK_NONE" "tk_deadline_child k = None \<or> \<not> tk_on_io k"
  shows "\<not> awaits u k" "\<not> joins p k"
  using assms by (auto simp: task_ok_def awaits_def joins_def)

lemma running_no_waiter:
  assumes "task_ok C True k"
  shows "\<not> awaits u k" "\<not> joins p k"
  using assms by (auto simp: task_ok_def awaits_def joins_def)

lemma inv_chanD:
  "sched_inv_on X s \<Longrightarrow> g_chans s c = Some ch \<Longrightarrow> chan_ok (g_tasks s) c ch"
  by (simp add: sched_inv_on_def)

lemma queue_parked:
  assumes "chan_ok T c ch" "t \<in> set (if b then ch_send_q ch else ch_recv_q ch)"
  obtains k where "T t = Some k" "parked_on b c k"
  using assms by (cases b) (auto simp: chan_ok_def queue_ok_def holds_def split: option.splits)

lemma task_ok_woken:
  assumes "task_ok C r k0" "active k0" "tk_park_kind k0 \<noteq> PARK_NONE" "\<not> tk_on_io k0"
    and "same_view (k0\<lparr>tk_park_kind := PARK_NONE, tk_park_chan := None, tk_in_rq := True, tk_sel_regs := []\<rparr>) k"
  shows "task_ok C r k"
  using assms by (auto simp: task_ok_def same_view_def)


lemma parked_chan_facts:
  assumes "task_ok C r k" "parked_on b c k"
  shows "active k" "\<not> tk_on_io k" "\<not> tk_in_rq k" "tk_sel_regs k = []" "c \<in> dom C" "\<not> r"
    "tk_park_kind k = PARK_CHAN" "\<not> awaits u k" "\<not> joins p k"
  using assms by (auto simp: task_ok_def parked_on_def io_kind_def awaits_def joins_def)

lemma queue_ok_pop:
  assumes "queue_ok q P T" "\<not> P k"
  shows "queue_ok (remove1 t q) P (T(t \<mapsto> k))"
  using assms by (auto simp: queue_ok_def)

lemma inv_chan_wake:
  assumes inv: "sched_inv_on X s" and c: "g_chans s c = Some ch" and k0: "g_tasks s t = Some k0"
    and pk: "parked_on b c k0" and wf: "chan_wf ch'"
    and q: "ch_send_q ch' = (if b then remove1 t (ch_send_q ch) else ch_send_q ch)"
      "ch_recv_q ch' = (if b then ch_recv_q ch else remove1 t (ch_recv_q ch))" "ch_select_q ch' = ch_select_q ch"
    and k: "same_view (k0\<lparr>tk_park_kind := PARK_NONE, tk_park_chan := None, tk_in_rq := True\<rparr>) k"
    and s': "s' = s\<lparr>g_tasks := (g_tasks s)(t \<mapsto> k), g_chans := (g_chans s)(c \<mapsto> ch'), g_rq := g_rq s @ [t]\<rparr>"
  shows "sched_inv_on X s'"
proof (rule inv_task [OF inv k0])
  note tk = inv_taskD [OF inv k0]
  note f = parked_chan_facts [OF tk pk]
  note rq = inv_rqD [OF inv] inv_rqD(2,4) [OF inv k0]
  have np: "\<not> parked_on b' d k" for b' d
    using k by (simp add: parked_on_def same_view_def)
  show "chan_ok (g_tasks s') d ch2" if d: "g_chans s' d = Some ch2" for d ch2
  proof (cases "d = c")
    case True
    have ok: "chan_ok (g_tasks s) c ch" by (rule inv_chanD [OF inv c])
    have "queue_ok (remove1 t (ch_send_q ch)) (parked_on True c) ((g_tasks s)(t \<mapsto> k))"
      "queue_ok (remove1 t (ch_recv_q ch)) (parked_on False c) ((g_tasks s)(t \<mapsto> k))"
      using ok np by (auto simp: chan_ok_def intro: queue_ok_pop)
    moreover have "\<not> b \<Longrightarrow> t \<notin> set (ch_send_q ch)" "b \<Longrightarrow> t \<notin> set (ch_recv_q ch)"
      using ok pk k0 by (auto simp: chan_ok_def queue_ok_def parked_on_def)
    moreover have "select_ok (ch_select_q ch) c ((g_tasks s)(t \<mapsto> k))"
      using ok k k0 by (intro select_ok_same [of _ _ _ t k0]) (auto simp: chan_ok_def same_view_def)
    ultimately show ?thesis
      using d True wf q s' by (auto simp: chan_ok_def remove1_idem)
  next
    case False
    then have "g_chans s d = Some ch2" using d s' by simp
    then have "chan_ok ((g_tasks s)(t \<mapsto> k)) d ch2"
      using k pk False k0 by (intro chan_ok_same [OF inv_chanD [OF inv], of d ch2 t k0]) (auto simp: parked_on_def same_view_def)
    then show ?thesis by (simp add: s')
  qed
  have "task_ok (g_chans s) (\<not> g_in_pump s \<and> t = g_current s) k"
    using f k by (intro task_ok_woken [OF tk]) (auto simp: same_view_def)
  then show "task_ok (g_chans s) (\<not> g_in_pump s' \<and> t = g_current s') k"
    by (simp add: s')
qed (use k s' c inv_rqD [OF inv] inv_rqD(2,4) [OF inv k0] parked_chan_facts [OF inv_taskD [OF inv k0] pk] in
      \<open>auto simp: same_view_def\<close>)


text \<open>A change of one channel that keeps its queues.\<close>

lemma inv_chan:
  assumes inv: "sched_inv_on X s" and c: "g_chans s c = Some ch" and wf: "chan_wf ch'"
    and q: "ch_send_q ch' = ch_send_q ch" "ch_recv_q ch' = ch_recv_q ch" "ch_select_q ch' = ch_select_q ch"
  shows "sched_inv_on X (set_chan c ch' s)"
proof -
  have "chan_ok (g_tasks s) c ch'"
    using inv_chanD [OF inv c] wf q by (simp add: chan_ok_def)
  moreover have "dom ((g_chans s)(c \<mapsto> ch')) = dom (g_chans s)"
    using c by auto
  moreover have "task_ok ((g_chans s)(c \<mapsto> ch')) = task_ok (g_chans s)"
    using calculation(2) unfolding task_ok_def fun_eq_iff by (simp only:) simp
  ultimately show ?thesis
    using inv by (auto simp: sched_inv_on_def)
qed

lemma chan_fetch_fields:
  assumes "chan_fetch ch = Inr (v, ch')"
  shows "ch_send_q ch' = ch_send_q ch" "ch_recv_q ch' = ch_recv_q ch" "ch_select_q ch' = ch_select_q ch"
    "ch_closed ch' = ch_closed ch" "ch_scope ch' = ch_scope ch" "ch_handle ch' = ch_handle ch"
    "rg_cap ch' = rg_cap ch" "rg_count ch' = rg_count ch - 1" "rg_slots ch' = rg_slots ch"
  using assms by (auto simp: chan_fetch_def Let_def res_bind_eq_Inr)

lemma chan_store_fields:
  assumes "chan_store v ch = Inr ch'"
  shows "ch_send_q ch' = ch_send_q ch" "ch_recv_q ch' = ch_recv_q ch" "ch_select_q ch' = ch_select_q ch"
    "ch_closed ch' = ch_closed ch" "ch_scope ch' = ch_scope ch" "ch_handle ch' = ch_handle ch"
    "rg_cap ch' = rg_cap ch" "rg_count ch' = rg_count ch + 1" "rg_slots ch' = rg_slots ch"
  using assms by (auto simp: chan_store_def Let_def res_bind_eq_Inr)

lemma chan_grow_fields:
  assumes "chan_grow ch = Inr ch'"
  shows "ch_send_q ch' = ch_send_q ch" "ch_recv_q ch' = ch_recv_q ch" "ch_select_q ch' = ch_select_q ch"
    "ch_closed ch' = ch_closed ch" "ch_scope ch' = ch_scope ch" "ch_handle ch' = ch_handle ch"
    "rg_cap ch' = rg_cap ch" "rg_count ch' = rg_count ch"
  using assms by (auto simp: chan_grow_def Let_def res_bind_eq_Inr split: if_splits)

lemma chan_put_fields:
  assumes "chan_put v ch = Inr ch'"
  shows "ch_send_q ch' = ch_send_q ch" "ch_recv_q ch' = ch_recv_q ch" "ch_select_q ch' = ch_select_q ch"
    "ch_closed ch' = ch_closed ch" "ch_scope ch' = ch_scope ch" "ch_handle ch' = ch_handle ch"
    "rg_cap ch' = rg_cap ch" "rg_count ch' = rg_count ch + 1"
  using assms
  by (auto simp: chan_put_def chan_store_def chan_grow_def chan_ring_next_def Let_def res_bind_eq_Inr split: if_splits)

lemma chan_wfD:
  assumes "chan_wf ch"
  shows "ring_inv ch" "rg_count ch \<le> rg_cap ch" "ch_send_q ch \<noteq> [] \<Longrightarrow> rg_count ch = rg_cap ch"
    "ch_recv_q ch \<noteq> [] \<or> ch_select_q ch \<noteq> [] \<Longrightarrow> rg_count ch = 0 \<and> ch_send_q ch = []"
    "rg_count ch \<le> rg_slots ch"
  using assms by (auto simp: chan_wf_def ring_inv_def)

lemma inv_chan_wf: "sched_inv_on X s \<Longrightarrow> g_chans s c = Some ch \<Longrightarrow> chan_wf ch"
  using inv_chanD by (auto simp: chan_ok_def)

lemma ring_inv_queues [simp]:
  "ring_inv (ch\<lparr>ch_send_q := q\<rparr>) = ring_inv ch" "ring_inv (ch\<lparr>ch_recv_q := q\<rparr>) = ring_inv ch"
  "ring_inv (ch\<lparr>ch_select_q := w\<rparr>) = ring_inv ch" "ring_inv (ch\<lparr>ch_closed := b\<rparr>) = ring_inv ch"
  by (simp_all add: ring_inv_def slot_of_def)

definition same_control :: "sched \<Rightarrow> sched \<Rightarrow> bool" where
  "same_control s s' \<longleftrightarrow> g_current s' = g_current s \<and> g_in_pump s' = g_in_pump s \<and> g_ht s' = g_ht s"

lemma poll_take_inv:
  assumes inv: "sched_inv_on X s" and r: "chan_poll_take c s = Inr (rv, s')"
  shows "sched_inv_on X s' \<and> same_control s s'"
proof -
  obtain ch where c: "g_chans s c = Some ch"
    using r by (auto simp: chan_poll_take_def res_bind_eq_Inr)
  note wf = chan_wfD [OF inv_chan_wf [OF inv c]] and ok = inv_chanD [OF inv c]
  show ?thesis
  proof (cases "rg_count ch > 0")
    case True
    have nw: "ch_recv_q ch = []" "ch_select_q ch = []"
      using wf(4) True by auto
    obtain v ch1 where f: "chan_fetch ch = Inr (v, ch1)"
      using r c True by (auto simp: chan_poll_take_def res_bind_eq_Inr)
    note ff = chan_fetch_fields [OF f] and fo = chan_fetch_ok [OF wf(1) True f]
    show ?thesis
    proof (cases "ch_send_q ch")
      case Nil
      then have "s' = set_chan c ch1 s"
        using r c True f ff by (simp add: chan_poll_take_def res_bind_eq_Inr)
      moreover have "chan_wf ch1"
        using fo ff Nil nw by (simp add: chan_wf_def)
      ultimately show ?thesis
        using inv_chan [OF inv c] ff by (simp add: same_control_def)
    next
      case (Cons t q)
      obtain k where k: "g_tasks s t = Some k" and pk: "parked_on True c k"
        using queue_parked [OF ok, of t True] Cons by auto
      obtain ch2 where st: "chan_store (tk_chan_pending k) (ch1\<lparr>ch_send_q := q\<rparr>) = Inr ch2"
        and s': "s' = (set_task t (k\<lparr>tk_chan_pending := 0, tk_park_kind := PARK_NONE, tk_park_chan := None, tk_in_rq := True\<rparr>)
                        (set_chan c ch2 s))\<lparr>g_rq := g_rq s @ [t]\<rparr>"
        using r c True f ff Cons k by (auto simp: chan_poll_take_def res_bind_eq_Inr set_task_def set_chan_def)
      have "ring_inv (ch1\<lparr>ch_send_q := q\<rparr>)" "rg_count (ch1\<lparr>ch_send_q := q\<rparr>) < rg_slots (ch1\<lparr>ch_send_q := q\<rparr>)"
        using fo(1) ff wf(5) True by simp_all
      note so = chan_store_ok [OF this st] and sf = chan_store_fields [OF st]
      have "chan_wf ch2"
        using so(1) sf ff wf(3) Cons True nw inv_chan_wf [OF inv c] by (auto simp: chan_wf_def)
      then have "sched_inv_on X s'"
        using sf ff Cons nw
        by (intro inv_chan_wake [OF inv c k pk, of ch2 "k\<lparr>tk_chan_pending := 0, tk_park_kind := PARK_NONE, tk_park_chan := None, tk_in_rq := True\<rparr>" s'])
          (auto simp: s' same_view_def set_task_def set_chan_def)
      then show ?thesis by (simp add: s' same_control_def)
    qed
  next
    case False
    show ?thesis
    proof (cases "ch_send_q ch")
      case Nil
      then have "s' = s"
        using r c False by (auto simp: chan_poll_take_def res_bind_eq_Inr split: if_splits)
      then show ?thesis using inv by (simp add: same_control_def)
    next
      case (Cons t q)
      obtain k where k: "g_tasks s t = Some k" and pk: "parked_on True c k"
        using queue_parked [OF ok, of t True] Cons by auto
      have s': "s' = (set_task t (k\<lparr>tk_chan_pending := 0, tk_park_kind := PARK_NONE, tk_park_chan := None, tk_in_rq := True\<rparr>)
                        (set_chan c (ch\<lparr>ch_send_q := q\<rparr>) s))\<lparr>g_rq := g_rq s @ [t]\<rparr>"
        using r c False Cons k by (auto simp: chan_poll_take_def res_bind_eq_Inr set_task_def set_chan_def)
      have "chan_wf (ch\<lparr>ch_send_q := q\<rparr>)"
        using inv_chan_wf [OF inv c] Cons by (auto simp: chan_wf_def)
      then have "sched_inv_on X s'"
        using Cons by (intro inv_chan_wake [OF inv c k pk, of "ch\<lparr>ch_send_q := q\<rparr>" "k\<lparr>tk_chan_pending := 0, tk_park_kind := PARK_NONE, tk_park_chan := None, tk_in_rq := True\<rparr>" s'])
          (auto simp: s' same_view_def set_task_def set_chan_def)
      then show ?thesis by (simp add: s' same_control_def)
    qed
  qed
qed


section \<open>Select registrations\<close>

text \<open>Folding over the registrations of a task changes only the select queues.\<close>

definition regs_removed :: "nat \<Rightarrow> (nat \<times> nat) set \<Rightarrow> (nat \<Rightarrow> chan option) \<Rightarrow> (nat \<Rightarrow> chan option) \<Rightarrow> bool" where
  "regs_removed t R C C' \<longleftrightarrow> dom C' = dom C \<and>
     (\<forall>c ch. C c = Some ch \<longrightarrow> distinct (ch_select_q ch) \<longrightarrow>
        (\<exists>q. C' c = Some (ch\<lparr>ch_select_q := q\<rparr>) \<and> distinct q \<and>
             set q = set (ch_select_q ch) - {(t, i) | i. (i, c) \<in> R}))"

lemma regs_removedD:
  "regs_removed t R C C' \<Longrightarrow> C c = Some ch \<Longrightarrow> distinct (ch_select_q ch) \<Longrightarrow>
   \<exists>q. C' c = Some (ch\<lparr>ch_select_q := q\<rparr>) \<and> distinct q \<and> set q = set (ch_select_q ch) - {(t, i) | i. (i, c) \<in> R}"
  by (simp add: regs_removed_def)

lemma sw_remove_fold:
  assumes "res_fold (sched_sw_remove t) rs s = Inr s'"
  shows "\<exists>C. s' = s\<lparr>g_chans := C\<rparr> \<and> regs_removed t (set rs) (g_chans s) C"
  using assms
proof (induction rs arbitrary: s)
  case Nil
  then have "s' = s\<lparr>g_chans := g_chans s\<rparr>" "regs_removed t {} (g_chans s) (g_chans s)"
    by (auto simp: regs_removed_def intro!: exI [of _ "ch_select_q _"])
  then show ?case by (metis list.set(1))
next
  case (Cons r rs)
  obtain i c where r: "r = (i, c)" by (cases r)
  obtain ch where c: "g_chans s c = Some ch"
    and f: "res_fold (sched_sw_remove t) rs (set_chan c (ch\<lparr>ch_select_q := remove1 (t, i) (ch_select_q ch)\<rparr>) s) = Inr s'"
    using Cons.prems by (auto simp: r sched_sw_remove_def res_bind_eq_Inr)
  obtain C where "s' = (set_chan c (ch\<lparr>ch_select_q := remove1 (t, i) (ch_select_q ch)\<rparr>) s)\<lparr>g_chans := C\<rparr>"
    and C: "regs_removed t (set rs) ((g_chans s)(c \<mapsto> ch\<lparr>ch_select_q := remove1 (t, i) (ch_select_q ch)\<rparr>)) C"
    using Cons.IH [OF f] unfolding set_simps by blast
  then have s': "s' = s\<lparr>g_chans := C\<rparr>" by (simp add: set_chan_def)
  have "regs_removed t (set (r # rs)) (g_chans s) C"
    unfolding regs_removed_def
  proof (intro conjI allI impI)
    show "dom C = dom (g_chans s)"
      using C c by (auto simp: regs_removed_def)
    fix d dh assume d: "g_chans s d = Some dh" "distinct (ch_select_q dh)"
    show "\<exists>q. C d = Some (dh\<lparr>ch_select_q := q\<rparr>) \<and> distinct q \<and>
        set q = set (ch_select_q dh) - {(t, i) |i. (i, d) \<in> set (r # rs)}"
    proof (cases "d = c")
      case True
      then have "distinct (remove1 (t, i) (ch_select_q ch))" "dh = ch"
        using d c by simp_all
      then obtain q where "C c = Some (ch\<lparr>ch_select_q := q\<rparr>)" "distinct q"
        "set q = set (remove1 (t, i) (ch_select_q ch)) - {(t, i) |i. (i, c) \<in> set rs}"
        using regs_removedD [OF C, of c] by auto
      moreover have "distinct (ch_select_q ch)" using d c True by simp
      ultimately show ?thesis
        using True \<open>dh = ch\<close> by (auto simp: r)
    next
      case False
      then obtain q where "C d = Some (dh\<lparr>ch_select_q := q\<rparr>)" "distinct q"
        "set q = set (ch_select_q dh) - {(t, i) |i. (i, d) \<in> set rs}"
        using regs_removedD [OF C, of d] d by auto
      then show ?thesis
        using False by (auto simp: r)
    qed
  qed
  then show ?case using s' by blast
qed

lemma mem_enumerate: "(i, c) \<in> set (enumerate 0 cs) \<longleftrightarrow> i < length cs \<and> cs ! i = c"
  by (auto simp: in_set_enumerate_eq)

text \<open>A task leaves all select queues it is registered on.\<close>

lemma select_gone:
  assumes ok: "chan_ok T c ch" and k0: "T t = Some k0" and R: "R = set (enumerate 0 (tk_sel_regs k0))"
    and C: "regs_removed t R Ch C" and c: "Ch c = Some ch"
    and k: "tk_sel_regs k = []" "\<And>b. parked_on b c k \<longleftrightarrow> parked_on b c k0"
  shows "\<exists>ch'. C c = Some ch' \<and> chan_ok (T(t \<mapsto> k)) c ch'"
proof -
  have sel: "distinct (ch_select_q ch)" "\<And>u i. (u, i) \<in> set (ch_select_q ch) \<longleftrightarrow> holds (selects c i) T u"
    using ok by (auto simp: chan_ok_def select_ok_def)
  obtain q where q: "C c = Some (ch\<lparr>ch_select_q := q\<rparr>)" "distinct q"
    "set q = set (ch_select_q ch) - {(t, i) |i. (i, c) \<in> R}"
    using regs_removedD [OF C c sel(1)] by blast
  have "select_ok q c (T(t \<mapsto> k))"
    using q(2,3) sel(2) k0 k(1) by (auto simp: select_ok_def R mem_enumerate selects_def)
  moreover have "chan_wf (ch\<lparr>ch_select_q := q\<rparr>)"
    using ok q(3) by (auto simp: chan_ok_def chan_wf_def)
  moreover have "queue_ok (ch_send_q ch) (parked_on True c) (T(t \<mapsto> k))"
    "queue_ok (ch_recv_q ch) (parked_on False c) (T(t \<mapsto> k))"
    using ok k0 k(2) by (auto simp: chan_ok_def intro!: queue_ok_same [of _ _ _ t k0])
  ultimately show ?thesis
    using q(1) by (simp add: chan_ok_def)
qed

lemma chans_gone:
  assumes inv: "sched_inv_on X s" and k0: "g_tasks s t = Some k0"
    and C: "regs_removed t (set (enumerate 0 (tk_sel_regs k0))) (g_chans s) C"
    and k: "tk_sel_regs k = []" "\<And>b c. parked_on b c k \<longleftrightarrow> parked_on b c k0"
    and d: "C d = Some ch'"
  shows "chan_ok ((g_tasks s)(t \<mapsto> k)) d ch'"
proof -
  obtain ch where c: "g_chans s d = Some ch"
    using C d unfolding regs_removed_def by blast
  show ?thesis
    using select_gone [OF inv_chanD [OF inv c] k0 refl C c k] d by auto
qed

lemma inv_select_fire:
  assumes inv: "sched_inv_on X s" and k0: "g_tasks s t = Some k0" and sel: "tk_sel_regs k0 \<noteq> []"
    and r: "select_fire t i s = Inr s'"
  shows "sched_inv_on X s' \<and> same_control s s'"
proof -
  note tk = inv_taskD [OF inv k0]
  have f: "active k0" "tk_park_kind k0 = PARK_SELECT" "\<not> tk_on_io k0" "\<not> tk_in_rq k0"
    and nr: "\<not> (\<not> g_in_pump s \<and> t = g_current s)"
    using tk sel by (auto simp: task_ok_def io_kind_def)
  have nw: "\<not> awaits u k0" "\<not> joins p k0" for u p
    using parked_no_waiter [OF tk] f by simp_all
  let ?k = "k0\<lparr>tk_sel_fired := i, tk_sel_regs := [], tk_park_kind := PARK_NONE, tk_in_rq := True\<rparr>"
  obtain C where C: "regs_removed t (set (enumerate 0 (tk_sel_regs k0))) (g_chans s) C"
    and s': "s' = s\<lparr>g_tasks := (g_tasks s)(t \<mapsto> ?k), g_chans := C, g_rq := g_rq s @ [t]\<rparr>"
    using r k0 by (auto simp: select_fire_def select_unlink_all_def res_bind_eq_Inr set_task_def dest!: sw_remove_fold)
  have np: "parked_on b c ?k \<longleftrightarrow> parked_on b c k0" for b c
    using f(2) by (simp add: parked_on_def)
  have "task_ok (g_chans s) (\<not> g_in_pump s \<and> t = g_current s) ?k"
    using tk f nr by (auto simp: task_ok_def)
  then have "sched_inv_on X s'"
    using C chans_gone [OF inv k0 C _ np] nw f inv_rqD [OF inv] inv_rqD(2,4) [OF inv k0]
    by (intro inv_task [OF inv k0, of s' ?k]) (auto simp: s' regs_removed_def)
  then show ?thesis by (simp add: s' same_control_def)
qed

end
