(* ===== verification/Sched_Steps.thy ===== *)
theory Sched_Steps
  imports Sched_Inv
begin

text \<open>
  Every builtin of the scheduler, every resumption and every round of the pump preserves the invariant.
\<close>

section \<open>Channel operations\<close>

lemma inv_currentD:
  assumes "sched_inv_on X s" "\<not> g_in_pump s"
  obtains k where "g_tasks s (g_current s) = Some k" "task_ok (g_chans s) True k"
proof -
  obtain k where "g_tasks s (g_current s) = Some k"
    using assms by (auto simp: sched_inv_on_def)
  then show ?thesis
    using that inv_taskD [OF assms(1), of "g_current s" k] assms(2) by simp
qed

lemma running_facts:
  assumes "task_ok C True k"
  shows "active k" "tk_ctx k = Running" "tk_park_kind k = PARK_NONE" "\<not> tk_in_rq k" "\<not> tk_on_io k"
    "tk_sel_regs k = []" "tk_deadline_child k = None" "\<not> tk_done k" "tk_roots k \<noteq> None"
    "\<not> awaits u k" "\<not> joins p k" "\<not> parked_on b c k"
  using assms by (auto simp: task_ok_def awaits_def joins_def io_kind_def active_def parked_on_def)

lemma selects_regs: "holds (selects c i) T t \<Longrightarrow> \<exists>k. T t = Some k \<and> tk_sel_regs k \<noteq> []"
  by (cases "T t") (auto simp: selects_def holds_def)

text \<open>The running task blocks on a channel.\<close>

lemma inv_park_chan:
  assumes inv: "sched_inv_on X s" and np: "\<not> g_in_pump s" and t: "t = g_current s"
    and k0: "g_tasks s t = Some k0" and c: "g_chans s c = Some ch" and wf: "chan_wf ch'"
    and q: "ch_send_q ch' = (if b then ch_send_q ch @ [t] else ch_send_q ch)"
      "ch_recv_q ch' = (if b then ch_recv_q ch else ch_recv_q ch @ [t])" "ch_select_q ch' = ch_select_q ch"
    and fr: "fr \<noteq> Running" "fr \<noteq> Destroyed"
    and k: "same_view (k0\<lparr>tk_park_kind := PARK_CHAN, tk_park_chan := Some c, tk_is_sender := b, tk_ctx := fr\<rparr>) k"
    and s': "s' = s\<lparr>g_tasks := (g_tasks s)(t \<mapsto> k), g_chans := (g_chans s)(c \<mapsto> ch'), g_in_pump := True\<rparr>"
  shows "sched_inv_on X s'"
proof (rule inv_task [OF inv k0])
  have tk: "task_ok (g_chans s) True k0"
    using inv_taskD [OF inv k0] np t by simp
  note f = running_facts [OF tk]
  show "chan_ok (g_tasks s') d ch2" if d: "g_chans s' d = Some ch2" for d ch2
  proof (cases "d = c")
    case True
    have ok: "chan_ok (g_tasks s) c ch" by (rule inv_chanD [OF inv c])
    have nin: "t \<notin> set (ch_send_q ch)" "t \<notin> set (ch_recv_q ch)"
      using ok f(12) k0 by (auto simp: chan_ok_def queue_ok_def)
    have "queue_ok (ch_send_q ch') (parked_on True c) ((g_tasks s)(t \<mapsto> k))"
      "queue_ok (ch_recv_q ch') (parked_on False c) ((g_tasks s)(t \<mapsto> k))"
      using ok nin k q by (auto simp: chan_ok_def queue_ok_def parked_on_def same_view_def)
    moreover have "select_ok (ch_select_q ch) c ((g_tasks s)(t \<mapsto> k))"
      using ok k k0 by (intro select_ok_same [of _ _ _ t k0]) (auto simp: chan_ok_def same_view_def)
    ultimately show ?thesis
      using d True wf q(3) s' by (auto simp: chan_ok_def)
  next
    case False
    then have "g_chans s d = Some ch2" using d s' by simp
    then have "chan_ok ((g_tasks s)(t \<mapsto> k)) d ch2"
      using k f(3) False k0
      by (intro chan_ok_same [OF inv_chanD [OF inv], of d ch2 t k0]) (auto simp: parked_on_def same_view_def)
    then show ?thesis by (simp add: s')
  qed
  show "task_ok (g_chans s) (\<not> g_in_pump s' \<and> t = g_current s') k"
    using tk f k fr c by (auto simp: s' task_ok_def same_view_def)
qed (use k s' c np t inv_rqD [OF inv] inv_rqD(2,4) [OF inv k0] running_facts [of "g_chans s" k0]
       inv_taskD [OF inv k0] in \<open>auto simp: same_view_def\<close>)

lemma chan_send_inv:
  assumes inv: "sched_inv s" and np: "\<not> g_in_pump s" and r: "chan_send h v s = Inr (out, s')"
  shows "sched_inv s'"
proof -
  obtain c ch where c: "chan_of h ''__chan_send'' (g_ht s) = Inr c" "g_chans s c = Some ch"
    and cl: "\<not> ch_closed ch"
    using r by (auto simp: chan_send_def res_bind_eq_Inr split: if_splits)
  note wf = inv_chan_wf [OF inv c(2)] and ok = inv_chanD [OF inv c(2)]
  consider (recv) t q where "ch_recv_q ch = t # q"
    | (select) t i w where "ch_recv_q ch = []" "ch_select_q ch = (t, i) # w"
    | (put) "ch_recv_q ch = []" "ch_select_q ch = []" "rg_count ch < rg_cap ch"
    | (park) "ch_recv_q ch = []" "ch_select_q ch = []" "\<not> rg_count ch < rg_cap ch"
    by (cases "ch_recv_q ch"; cases "ch_select_q ch") auto
  then show ?thesis
  proof cases
    case recv
    obtain k where k: "g_tasks s t = Some k" and pk: "parked_on False c k"
      using queue_parked [OF ok, of t False] recv by auto
    have "s' = (set_task t (k\<lparr>tk_chan_pending := v, tk_park_kind := PARK_NONE, tk_park_chan := None, tk_in_rq := True\<rparr>)
                 (set_chan c (ch\<lparr>ch_recv_q := q\<rparr>) s))\<lparr>g_rq := g_rq s @ [t]\<rparr>"
      using r c cl recv k by (auto simp: chan_send_def res_bind_eq_Inr set_task_def set_chan_def)
    moreover have "chan_wf (ch\<lparr>ch_recv_q := q\<rparr>)"
      using wf recv cl by (auto simp: chan_wf_def)
    ultimately show ?thesis
      using recv by (intro inv_chan_wake [OF inv c(2) k pk, of "ch\<lparr>ch_recv_q := q\<rparr>"
          "k\<lparr>tk_chan_pending := v, tk_park_kind := PARK_NONE, tk_park_chan := None, tk_in_rq := True\<rparr>" s'])
        (auto simp: same_view_def set_task_def set_chan_def)
  next
    case select
    then have "holds (selects c i) (g_tasks s) t"
      using ok by (auto simp: chan_ok_def select_ok_def)
    then obtain k where k: "g_tasks s t = Some k" and sel: "tk_sel_regs k \<noteq> []"
      using selects_regs by blast
    let ?k = "k\<lparr>tk_chan_pending := v, tk_closed_wake := False\<rparr>"
    have f: "select_fire t i (set_task t ?k s) = Inr s'"
      using r c cl select k by (simp add: chan_send_def res_bind_eq_Inr)
    have "sched_inv (set_task t ?k s)"
      by (rule inv_same_view [OF inv k, of ?k]) (simp_all add: same_view_def)
    then show ?thesis
      using inv_select_fire [of _ "set_task t ?k s" t ?k, OF _ _ _ f] sel by simp
  next
    case put
    then obtain ch1 where p: "chan_put v ch = Inr ch1" and s': "s' = set_chan c ch1 s"
      using r c cl by (auto simp: chan_send_def res_bind_eq_Inr)
    have "ring_inv ch1"
      using chan_put_ok(1) [OF chan_wfD(1) [OF wf] put(3) p] .
    moreover have "ch_send_q ch = []"
      using chan_wfD(3) [OF wf] put(3) by auto
    ultimately have "chan_wf ch1"
      using chan_put_fields [OF p] put by (simp add: chan_wf_def)
    then show ?thesis
      using inv_chan [OF inv c(2)] chan_put_fields [OF p] s' by simp
  next
    case park
    obtain k where k: "g_tasks s (g_current s) = Some k" "task_ok (g_chans s) True k"
      using inv_currentD [OF inv np] .
    let ?k = "k\<lparr>tk_chan_pending := v, tk_park_kind := PARK_CHAN, tk_park_chan := Some c, tk_is_sender := True, tk_ctx := In_send\<rparr>"
    let ?ch = "ch\<lparr>ch_send_q := ch_send_q ch @ [g_current s]\<rparr>"
    have "s' = s\<lparr>g_tasks := (g_tasks s)(g_current s \<mapsto> ?k), g_chans := (g_chans s)(c \<mapsto> ?ch), g_in_pump := True\<rparr>"
      using r c cl park k by (auto simp: chan_send_def Let_def res_bind_eq_Inr set_task_def set_chan_def)
    moreover have "chan_wf ?ch"
      using wf park chan_wfD(2) [OF wf] cl by (auto simp: chan_wf_def)
    ultimately show ?thesis
      by (intro inv_park_chan [OF inv np refl k(1) c(2), of ?ch True In_send ?k s']) (auto simp: same_view_def)
  qed
qed

lemma poll_take_None:
  assumes "chan_poll_take c s = Inr (None, s')"
  shows "s' = s" "\<exists>ch. g_chans s c = Some ch \<and> rg_count ch = 0 \<and> ch_send_q ch = [] \<and> \<not> ch_closed ch"
  using assms by (auto simp: chan_poll_take_def res_bind_eq_Inr neq_Nil_conv split: if_splits list.splits)

lemma chan_recv_inv:
  assumes inv: "sched_inv s" and np: "\<not> g_in_pump s" and r: "chan_recv h s = Inr (out, s')"
  shows "sched_inv s'"
proof -
  obtain c rv s1 where c: "chan_of h ''__chan_recv'' (g_ht s) = Inr c" and p: "chan_poll_take c s = Inr (rv, s1)"
    using r by (auto simp: chan_recv_def res_bind_eq_Inr)
  show ?thesis
  proof (cases rv)
    case (Some v)
    then have "s' = s1" using r c p by (simp add: chan_recv_def)
    then show ?thesis using poll_take_inv [OF inv p] by simp
  next
    case None
    then obtain ch where s1: "s1 = s" and ch: "g_chans s c = Some ch" "rg_count ch = 0" "ch_send_q ch = []" "\<not> ch_closed ch"
      using poll_take_None p by blast
    obtain k where k: "g_tasks s (g_current s) = Some k"
      using inv_currentD [OF inv np] .
    let ?k = "k\<lparr>tk_park_kind := PARK_CHAN, tk_park_chan := Some c, tk_is_sender := False, tk_ctx := In_recv\<rparr>"
    let ?ch = "ch\<lparr>ch_recv_q := ch_recv_q ch @ [g_current s]\<rparr>"
    have "s' = s\<lparr>g_tasks := (g_tasks s)(g_current s \<mapsto> ?k), g_chans := (g_chans s)(c \<mapsto> ?ch), g_in_pump := True\<rparr>"
      using r c p None s1 k ch by (auto simp: chan_recv_def Let_def res_bind_eq_Inr set_task_def set_chan_def)
    moreover have "chan_wf ?ch"
      using inv_chan_wf [OF inv ch(1)] ch by (auto simp: chan_wf_def)
    ultimately show ?thesis
      by (intro inv_park_chan [OF inv np refl k ch(1), of ?ch False In_recv ?k s']) (auto simp: same_view_def)
  qed
qed


subsection \<open>Select\<close>

lemma select_scan_inv:
  "sched_inv_on X s \<Longrightarrow> select_scan i cs s = Inr (r, s') \<Longrightarrow> sched_inv_on X s' \<and> same_control s s'"
proof (induction i cs s arbitrary: r s' rule: select_scan.induct)
  case (1 i s)
  then show ?case by (simp add: same_control_def)
next
  case (2 i c cs s)
  then obtain rv s1 where p: "chan_poll_take c s = Inr (rv, s1)"
    by (auto simp: res_bind_eq_Inr)
  note pt = poll_take_inv [OF 2(2) p]
  show ?case
  proof (cases rv)
    case None
    then show ?thesis
      using 2(1) [of "(rv, s1)" rv s1] 2(3) p pt by (auto simp: same_control_def)
  next
    case (Some v)
    then show ?thesis using 2(3) p pt by simp
  qed
qed

lemma select_scan_None:
  "select_scan i cs s = Inr (None, s') \<Longrightarrow>
   s' = s \<and> (\<forall>c \<in> set cs. \<exists>ch. g_chans s c = Some ch \<and> rg_count ch = 0 \<and> ch_send_q ch = [] \<and> \<not> ch_closed ch)"
proof (induction i cs s arbitrary: s' rule: select_scan.induct)
  case (2 i c cs s)
  then obtain rv s1 where p: "chan_poll_take c s = Inr (rv, s1)"
    by (auto simp: res_bind_eq_Inr)
  then have rv: "rv = None" using 2(2) by (auto split: option.splits)
  note pn = poll_take_None [OF p [unfolded rv]]
  have "s' = s1 \<and> (\<forall>c \<in> set cs. \<exists>ch. g_chans s1 c = Some ch \<and> rg_count ch = 0 \<and> ch_send_q ch = [] \<and> \<not> ch_closed ch)"
    by (rule 2(1) [OF p refl rv]) (use 2(2) p rv in simp)
  then show ?case using pn by auto
qed simp

lemma register_fold:
  assumes "res_fold (select_register t) rs s = Inr s'"
  shows "\<exists>C. s' = s\<lparr>g_chans := C\<rparr> \<and> dom C = dom (g_chans s) \<and>
     (\<forall>c ch. g_chans s c = Some ch \<longrightarrow>
        C c = Some (ch\<lparr>ch_select_q := ch_select_q ch @ map (\<lambda>(i, _). (t, i)) (filter (\<lambda>(_, d). d = c) rs)\<rparr>))"
  using assms
proof (induction rs arbitrary: s)
  case Nil
  then show ?case by (intro exI [of _ "g_chans s"]) simp
next
  case (Cons r rs)
  obtain i c where r: "r = (i, c)" by (cases r)
  let ?u = "\<lambda>ch. ch\<lparr>ch_select_q := ch_select_q ch @ [(t, i)]\<rparr>"
  obtain ch where c: "g_chans s c = Some ch"
    and f: "res_fold (select_register t) rs (set_chan c (?u ch) s) = Inr s'"
    using Cons.prems by (auto simp: r select_register_def res_bind_eq_Inr)
  obtain C where s': "s' = (set_chan c (?u ch) s)\<lparr>g_chans := C\<rparr>" and dom: "dom C = dom ((g_chans s)(c \<mapsto> ?u ch))"
    and C: "\<And>d dh. ((g_chans s)(c \<mapsto> ?u ch)) d = Some dh \<Longrightarrow>
        C d = Some (dh\<lparr>ch_select_q := ch_select_q dh @ map (\<lambda>(i, _). (t, i)) (filter (\<lambda>(_, d'). d' = d) rs)\<rparr>)"
    using Cons.IH [OF f] unfolding set_simps by blast
  have "C d = Some (dh\<lparr>ch_select_q := ch_select_q dh @ map (\<lambda>(i, _). (t, i)) (filter (\<lambda>(_, d'). d' = d) (r # rs))\<rparr>)"
    if "g_chans s d = Some dh" for d dh
    using C [of d "if d = c then ?u ch else dh"] that c by (cases "d = c") (auto simp: r)
  then show ?case
    using s' dom c by (intro exI [of _ C]) (auto simp: set_chan_def)
qed

lemma select_added:
  assumes ok: "chan_ok T c ch" and k0: "T t = Some k0" and new: "new = map (\<lambda>(i, _). (t, i)) (filter (\<lambda>(_, d). d = c) (enumerate 0 cs))"
    and k: "tk_sel_regs k0 = []" "tk_sel_regs k = cs" "\<And>b. parked_on b c k \<longleftrightarrow> parked_on b c k0"
    and idle: "c \<in> set cs \<Longrightarrow> rg_count ch = 0 \<and> ch_send_q ch = [] \<and> \<not> ch_closed ch"
  shows "chan_ok (T(t \<mapsto> k)) c (ch\<lparr>ch_select_q := ch_select_q ch @ new\<rparr>)"
proof -
  have sel: "distinct (ch_select_q ch)" "\<And>u i. (u, i) \<in> set (ch_select_q ch) \<longleftrightarrow> holds (selects c i) T u"
    using ok by (auto simp: chan_ok_def select_ok_def)
  have "(u, i) \<in> set new \<longleftrightarrow> u = t \<and> i < length cs \<and> cs ! i = c" for u i
    by (auto simp: new mem_enumerate image_iff)
  moreover have "distinct new"
    unfolding new
  proof (rule distinct_map [THEN iffD2], intro conjI inj_onI)
    show "distinct (filter (\<lambda>(_, d). d = c) (enumerate 0 cs))" by simp
  next
    fix x y :: "nat \<times> nat"
    assume xy: "x \<in> set (filter (\<lambda>(_, d). d = c) (enumerate 0 cs))" "y \<in> set (filter (\<lambda>(_, d). d = c) (enumerate 0 cs))"
      "(case x of (i, _) \<Rightarrow> (t, i)) = (case y of (i, _) \<Rightarrow> (t, i))"
    then show "x = y" by (simp add: split_def prod_eq_iff)
  qed
  moreover have "(t, i) \<notin> set (ch_select_q ch)" for i
    using sel(2) k0 k(1) by (simp add: selects_def)
  ultimately have "select_ok (ch_select_q ch @ new) c (T(t \<mapsto> k))"
    using sel k(2) by (auto simp: select_ok_def selects_def)
  moreover have "new \<noteq> [] \<Longrightarrow> c \<in> set cs"
    by (auto simp: new filter_empty_conv mem_enumerate)
  then have "chan_wf (ch\<lparr>ch_select_q := ch_select_q ch @ new\<rparr>)"
    using ok idle by (cases "new = []") (auto simp: chan_ok_def chan_wf_def)
  moreover have "queue_ok (ch_send_q ch) (parked_on True c) (T(t \<mapsto> k))"
    "queue_ok (ch_recv_q ch) (parked_on False c) (T(t \<mapsto> k))"
    using ok k0 k(3) by (auto simp: chan_ok_def intro!: queue_ok_same [of _ _ _ t k0])
  ultimately show ?thesis by (simp add: chan_ok_def)
qed

lemma chan_select_inv:
  assumes inv: "sched_inv s" and np: "\<not> g_in_pump s" and r: "chan_select hs s = Inr (out, s')"
  shows "sched_inv s'"
proof -
  obtain cs rv s1 where sc: "select_chans hs (g_ht s) = Inr cs" and p: "select_scan 0 cs s = Inr (rv, s1)"
    and hs: "hs \<noteq> []"
    using r by (auto simp: chan_select_def res_bind_eq_Inr split: if_splits)
  show ?thesis
  proof (cases rv)
    case (Some v)
    then have "s' = s1" using r sc p hs by (cases v) (simp add: chan_select_def)
    then show ?thesis using select_scan_inv [OF inv p] by simp
  next
    case None
    then have s1: "s1 = s" and idle: "\<And>c. c \<in> set cs \<Longrightarrow>
        \<exists>ch. g_chans s c = Some ch \<and> rg_count ch = 0 \<and> ch_send_q ch = [] \<and> \<not> ch_closed ch"
      using select_scan_None p by blast+
    let ?t = "g_current s"
    obtain k where k: "g_tasks s ?t = Some k" and tk: "task_ok (g_chans s) True k"
      using inv_currentD [OF inv np] .
    note f = running_facts [OF tk]
    let ?k = "k\<lparr>tk_sel_regs := cs, tk_park_kind := PARK_SELECT, tk_ctx := In_select\<rparr>"
    obtain s2 where s2: "res_fold (select_register ?t) (enumerate 0 cs) s = Inr s2"
      and park: "res_bind (upd_task ?t (\<lambda>k. k\<lparr>tk_sel_regs := cs, tk_park_kind := PARK_SELECT\<rparr>) s2) (parked In_select) = Inr (out, s')"
      using r sc p hs None s1 by (auto simp: chan_select_def Let_def res_bind_eq_Inr)
    obtain C where C: "s2 = s\<lparr>g_chans := C\<rparr>" and dom: "dom C = dom (g_chans s)"
      and Cc: "\<And>c ch. g_chans s c = Some ch \<Longrightarrow>
        C c = Some (ch\<lparr>ch_select_q := ch_select_q ch @ map (\<lambda>(i, _). (?t, i)) (filter (\<lambda>(_, d). d = c) (enumerate 0 cs))\<rparr>)"
      using register_fold [OF s2] by blast
    have s': "s' = s\<lparr>g_tasks := (g_tasks s)(?t \<mapsto> ?k), g_chans := C, g_in_pump := True\<rparr>"
      using park k by (auto simp: C res_bind_eq_Inr set_task_def)
    have ch: "chan_ok (g_tasks s') c ch'" if c: "g_chans s' c = Some ch'" for c ch'
    proof -
      have "c \<in> dom C" using c s' by auto
      then obtain ch where ch: "g_chans s c = Some ch" using dom by blast
      let ?new = "map (\<lambda>(i, _). (?t, i)) (filter (\<lambda>(_, d). d = c) (enumerate 0 cs))"
      have ch': "ch' = ch\<lparr>ch_select_q := ch_select_q ch @ ?new\<rparr>"
        using Cc [OF ch] c s' by simp
      show ?thesis
        unfolding ch' s' using select_added [OF inv_chanD [OF inv ch] k refl, where cs = cs and k = ?k] f(3,6) idle [of c] ch
        by (auto simp: parked_on_def)
    qed
    have "set cs \<subseteq> dom (g_chans s)"
      using idle by blast
    then have ok: "task_ok (g_chans s) False ?k"
      using tk f by (auto simp: task_ok_def)
    show ?thesis
      using inv_rqD [OF inv] inv_rqD(2,4) [OF inv k] f dom ch ok np
      by (intro inv_task [OF inv k, of s' ?k]) (auto simp: s')
  qed
qed


subsection \<open>Close\<close>

text \<open>The loops of \<^verbatim>\<open>__chan_close\<close> never read the flag, so that setting it first is the same as setting it last.\<close>

definition set_closed :: "nat \<Rightarrow> sched \<Rightarrow> sched" where
  "set_closed c s = s\<lparr>g_chans := (g_chans s)(c := map_option (\<lambda>ch. ch\<lparr>ch_closed := True\<rparr>) (g_chans s c))\<rparr>"

definition closed_at :: "nat \<Rightarrow> nat \<Rightarrow> chan \<Rightarrow> chan" where
  "closed_at c d ch = (if d = c then ch\<lparr>ch_closed := True\<rparr> else ch)"

lemma closed_at_simps [simp]:
  "ch_send_q (closed_at c d ch) = ch_send_q ch" "ch_recv_q (closed_at c d ch) = ch_recv_q ch"
  "ch_select_q (closed_at c d ch) = ch_select_q ch"
  "(closed_at c d ch)\<lparr>ch_select_q := q\<rparr> = closed_at c d (ch\<lparr>ch_select_q := q\<rparr>)"
  "(closed_at c d ch)\<lparr>ch_send_q := w\<rparr> = closed_at c d (ch\<lparr>ch_send_q := w\<rparr>)"
  "(closed_at c d ch)\<lparr>ch_recv_q := w\<rparr> = closed_at c d (ch\<lparr>ch_recv_q := w\<rparr>)"
  by (simp_all add: closed_at_def)

lemma set_closed_commute:
  "get_task t (set_closed c s) = get_task t s"
  "upd_task t f (set_closed c s) = res_map (set_closed c) (upd_task t f s)"
  "sched_rq_push t (set_closed c s) = res_map (set_closed c) (sched_rq_push t s)"
  "chan_wake t (set_closed c s) = res_map (set_closed c) (chan_wake t s)"
  "get_chan d (set_closed c s) = res_map (closed_at c d) (get_chan d s)"
  "set_chan d (closed_at c d ch) (set_closed c s) = set_closed c (set_chan d ch s)"
  by (auto simp: set_closed_def get_task_def upd_task_def sched_rq_push_def chan_wake_def get_chan_def closed_at_def
      set_task_def set_chan_def fun_upd_twist split: option.splits)

lemma res_bind_map: "res_bind (res_map g r) f = res_bind r (\<lambda>x. f (g x))"
  by (cases r) simp_all

lemma res_bind_out: "res_bind r (\<lambda>x. res_map g (h x)) = res_map g (res_bind r h)"
  by (cases r) simp_all

lemma res_bind_ret: "res_bind r (\<lambda>x. Inr (g (h x))) = res_map g (res_bind r (\<lambda>x. Inr (h x)))"
  by (cases r) simp_all

lemma sw_remove_commute:
  "sched_sw_remove t r (set_closed c s) = res_map (set_closed c) (sched_sw_remove t r s)"
  by (cases r) (simp add: sched_sw_remove_def upd_chan_def set_closed_commute res_bind_map
      res_bind_ret [of _ "set_closed c"])

lemma res_fold_commute:
  assumes "\<And>x s. f x (g s) = res_map g (f x s)"
  shows "res_fold f xs (g s) = res_map g (res_fold f xs s)"
proof (induction xs arbitrary: s)
  case (Cons x xs)
  then show ?case by (cases "f x s") (simp_all add: assms)
qed simp

lemma select_fire_commute:
  "select_fire t i (set_closed c s) = res_map (set_closed c) (select_fire t i s)"
  by (simp add: select_fire_def select_unlink_all_def set_closed_commute res_bind_map res_bind_out
      res_fold_commute [of "sched_sw_remove t" "set_closed c", OF sw_remove_commute])

lemma close_waiters_commute:
  "close_waiters n b c (set_closed d s) = res_map (set_closed d) (close_waiters n b c s)"
proof (induction n arbitrary: s b)
  case (Suc n)
  show ?case
  proof (cases "get_chan c s")
    case (Inr ch)
    show ?thesis
      by (cases b; cases "if b then ch_send_q ch else ch_recv_q ch")
        (simp_all add: Inr set_closed_commute res_bind_map res_bind_out Suc)
  qed (simp add: set_closed_commute)
qed simp

lemma close_selects_commute:
  "close_selects n c (set_closed d s) = res_map (set_closed d) (close_selects n c s)"
proof (induction n arbitrary: s)
  case (Suc n)
  show ?case
  proof (cases "get_chan c s")
    case (Inr ch)
    show ?thesis
      by (cases "ch_select_q ch")
        (simp_all add: Inr set_closed_commute select_fire_commute res_bind_map res_bind_out Suc split_def)
  qed (simp add: set_closed_commute)
qed simp


lemma close_waiters_inv:
  assumes "sched_inv s" "close_waiters n b c s = Inr s'" "g_chans s c = Some ch"
    "n = length (if b then ch_send_q ch else ch_recv_q ch)" "\<not> ch_closed ch"
  shows "sched_inv s' \<and> same_control s s' \<and>
    g_chans s' c = Some (if b then ch\<lparr>ch_send_q := []\<rparr> else ch\<lparr>ch_recv_q := []\<rparr>)"
  using assms
proof (induction n arbitrary: s ch)
  case 0
  then show ?case by (cases b) (auto simp: same_control_def)
next
  case (Suc n)
  note inv = Suc.prems(1) and c = Suc.prems(3)
  obtain t q where q: "(if b then ch_send_q ch else ch_recv_q ch) = t # q" "n = length q"
    using Suc.prems(4) by (cases "if b then ch_send_q ch else ch_recv_q ch") auto
  obtain k where k: "g_tasks s t = Some k" and pk: "parked_on b c k"
    using queue_parked [OF inv_chanD [OF inv c], of t b] q by auto
  let ?ch = "if b then ch\<lparr>ch_send_q := q\<rparr> else ch\<lparr>ch_recv_q := q\<rparr>"
  let ?k = "k\<lparr>tk_closed_wake := True, tk_park_kind := PARK_NONE, tk_park_chan := None, tk_in_rq := True\<rparr>"
  let ?s = "(set_task t ?k (set_chan c ?ch s))\<lparr>g_rq := g_rq s @ [t]\<rparr>"
  have r: "close_waiters n b c ?s = Inr s'"
    using Suc.prems(2) c q(1) k by (auto simp: res_bind_eq_Inr set_task_def set_chan_def split: list.splits)
  have "chan_wf ?ch"
    using inv_chan_wf [OF inv c] q Suc.prems(5) by (cases b) (auto simp: chan_wf_def)
  then have i: "sched_inv ?s"
    using q by (intro inv_chan_wake [OF inv c k pk, of ?ch ?k ?s]) (cases b, auto simp: same_view_def set_task_def set_chan_def)
  have "sched_inv s' \<and> same_control ?s s' \<and>
      g_chans s' c = Some (if b then ?ch\<lparr>ch_send_q := []\<rparr> else ?ch\<lparr>ch_recv_q := []\<rparr>)"
    by (rule Suc.IH [OF i r]) (use q Suc.prems(5) in \<open>auto split: if_splits\<close>)
  then show ?case by (cases b) (auto simp: same_control_def)
qed

lemma select_fire_chans:
  assumes "select_fire t i s = Inr s'" "g_tasks s t = Some k"
  shows "regs_removed t (set (enumerate 0 (tk_sel_regs k))) (g_chans s) (g_chans s')"
  using assms by (auto simp: select_fire_def select_unlink_all_def res_bind_eq_Inr dest!: sw_remove_fold)

lemma close_selects_inv:
  assumes "sched_inv s" "close_selects n c s = Inr s'" "g_chans s c = Some ch" "length (ch_select_q ch) \<le> n"
  shows "sched_inv s' \<and> same_control s s' \<and> g_chans s' c = Some (ch\<lparr>ch_select_q := []\<rparr>)"
  using assms
proof (induction n arbitrary: s ch)
  case 0
  then show ?case by (auto simp: same_control_def)
next
  case (Suc n)
  note inv = Suc.prems(1) and c = Suc.prems(3)
  show ?case
  proof (cases "ch_select_q ch")
    case Nil
    then show ?thesis using Suc.prems by (auto simp: same_control_def res_bind_eq_Inr)
  next
    case (Cons w ws)
    obtain t i where w: "w = (t, i)" by (cases w)
    have sel: "select_ok (ch_select_q ch) c (g_tasks s)"
      using inv_chanD [OF inv c] by (simp add: chan_ok_def)
    then have h: "holds (selects c i) (g_tasks s) t"
      using Cons w by (auto simp: select_ok_def)
    then obtain k where k: "g_tasks s t = Some k" "tk_sel_regs k \<noteq> []"
      using selects_regs by blast
    let ?k = "k\<lparr>tk_closed_wake := True\<rparr>"
    obtain s1 where f: "select_fire t i (set_task t ?k s) = Inr s1" and r: "close_selects n c s1 = Inr s'"
      using Suc.prems(2) c Cons w k by (auto simp: res_bind_eq_Inr)
    have "sched_inv (set_task t ?k s)"
      by (rule inv_same_view [OF inv k(1), of ?k]) (simp_all add: same_view_def)
    then have i1: "sched_inv s1 \<and> same_control s s1"
      using inv_select_fire [of _ "set_task t ?k s" t ?k, OF _ _ _ f] k by (simp add: same_control_def)
    obtain q where q: "g_chans s1 c = Some (ch\<lparr>ch_select_q := q\<rparr>)" "distinct q"
      "set q = set (ch_select_q ch) - {(t, i) | i. (i, c) \<in> set (enumerate 0 (tk_sel_regs k))}"
      using regs_removedD [OF select_fire_chans [OF f, of ?k], of c ch] c sel by (auto simp: select_ok_def)
    have "(t, i) \<notin> set q"
      using q(3) h k by (auto simp: mem_enumerate selects_def)
    then have "card (set q) < card (set (ch_select_q ch))"
      using q(3) Cons w by (intro psubset_card_mono) auto
    then have "length q < length (ch_select_q ch)"
      using q(2) sel by (simp add: distinct_card select_ok_def)
    then have "sched_inv s' \<and> same_control s1 s' \<and> g_chans s' c = Some (ch\<lparr>ch_select_q := q, ch_select_q := []\<rparr>)"
      using Suc.prems(4) i1 by (intro Suc.IH [OF _ r q(1)]) auto
    then show ?thesis using i1 by (auto simp: same_control_def)
  qed
qed

lemma chan_close_inv:
  assumes inv: "sched_inv s" and r: "chan_close h s = Inr (out, s')"
  shows "sched_inv s' \<and> same_control s s'"
proof -
  obtain c ch where c: "g_chans s c = Some ch" and cl: "\<not> ch_closed ch"
    and r1: "res_bind (close_waiters (length (ch_recv_q ch)) False c (set_closed c s)) (\<lambda>s2.
        res_bind (close_waiters (length (ch_send_q ch)) True c s2) (close_selects (length (ch_select_q ch)) c)) = Inr s'"
    using r by (auto simp: chan_close_def res_bind_eq_Inr set_closed_def set_chan_def split: if_splits)
  obtain s2 s3 s4 where s2: "close_waiters (length (ch_recv_q ch)) False c s = Inr s2"
    and s3: "close_waiters (length (ch_send_q ch)) True c s2 = Inr s3"
    and s4: "close_selects (length (ch_select_q ch)) c s3 = Inr s4" and s': "s' = set_closed c s4"
    using r1 by (auto simp: close_waiters_commute close_selects_commute res_bind_eq_Inr)
  have 2: "sched_inv s2 \<and> same_control s s2 \<and> g_chans s2 c = Some (ch\<lparr>ch_recv_q := []\<rparr>)"
    using close_waiters_inv [OF inv s2 c] cl by simp
  then have 3: "sched_inv s3 \<and> same_control s2 s3 \<and> g_chans s3 c = Some (ch\<lparr>ch_recv_q := [], ch_send_q := []\<rparr>)"
    using close_waiters_inv [OF _ s3, of "ch\<lparr>ch_recv_q := []\<rparr>"] cl by simp
  then have 4: "sched_inv s4 \<and> same_control s3 s4 \<and>
      g_chans s4 c = Some (ch\<lparr>ch_recv_q := [], ch_send_q := [], ch_select_q := []\<rparr>)"
    using close_selects_inv [OF _ s4, of "ch\<lparr>ch_recv_q := [], ch_send_q := []\<rparr>"] by simp
  let ?ch = "ch\<lparr>ch_recv_q := [], ch_send_q := [], ch_select_q := []\<rparr>"
  have "chan_wf (?ch\<lparr>ch_closed := True\<rparr>)"
    using inv_chan_wf [OF inv c] by (simp add: chan_wf_def)
  then have "sched_inv (set_chan c (?ch\<lparr>ch_closed := True\<rparr>) s4)"
    using 4 by (intro inv_chan [of _ _ _ ?ch]) auto
  moreover have "set_chan c (?ch\<lparr>ch_closed := True\<rparr>) s4 = s'"
    using 4 by (simp add: s' set_closed_def set_chan_def)
  ultimately show ?thesis
    using 2 3 4 s' by (auto simp: same_control_def set_closed_def)
qed

end
