(* ===== verification/Sched_Tasks.thy ===== *)
theory Sched_Tasks
  imports Sched_Steps
begin

text \<open>
  The invariant through the rest of the scheduler: parks on the poller, wake-ups, creation, completion,
  cancellation and joining of tasks, and the pump.
\<close>

section \<open>Awaiters\<close>

lemma inv_aw: "sched_inv_on X s \<Longrightarrow> aw_ok X (g_tasks s)"
  by (simp add: sched_inv_on_def)

lemma inv_on_aw: "sched_inv_on X s \<Longrightarrow> aw_ok Y (g_tasks s) \<Longrightarrow> sched_inv_on Y s"
  by (simp add: sched_inv_on_def)

lemma inv_set_awaiter:
  assumes inv: "sched_inv_on X s" and k0: "g_tasks s t = Some k0"
    and aw: "aw_ok Y ((g_tasks s)(t \<mapsto> k0\<lparr>tk_awaiter := a\<rparr>))"
  shows "sched_inv_on Y (set_task t (k0\<lparr>tk_awaiter := a\<rparr>) s)"
proof -
  let ?k = "k0\<lparr>tk_awaiter := a\<rparr>"
  have k: "task_ok C r ?k = task_ok C r k0" "awaits u ?k = awaits u k0" "joins p ?k = joins p k0"
    "parked_on b c ?k = parked_on b c k0" "tk_sel_regs ?k = tk_sel_regs k0" for C r u p b c
    by (simp_all add: task_ok_def awaits_def joins_def parked_on_def)
  show ?thesis
  proof (rule inv_gen [OF inv, of t])
    show "chan_ok (g_tasks (set_task t ?k s)) c ch" if "g_chans (set_task t ?k s) c = Some ch" for c ch
      using that by (intro inv_chans_same [OF inv k0, of _ ?k]) (simp_all add: k)
    show "join_ok (g_scopes (set_task t ?k s)) (g_tasks (set_task t ?k s))"
      using inv k0 by (auto simp: sched_inv_on_def k intro: join_ok_upd)
    show "scope_ok (g_tasks (set_task t ?k s)) p c" if "g_scopes (set_task t ?k s) p = Some c" for p c
      using that inv k0 by (auto simp: sched_inv_on_def intro: scope_ok_same)
    show "p \<in> dom (g_scopes s)" if "g_tasks (set_task t ?k s) t = Some k'" "active k'" "tk_scope k' = Some p" for k' p
      using that inv k0 unfolding sched_inv_on_def by fastforce
  qed (use aw k0 inv_rqD [OF inv] inv_rqD(2,4) [OF inv k0] inv_taskD [OF inv k0] k in auto)
qed

lemma aw_ok_awaiter:
  assumes "aw_ok X T" "T t = Some k0"
  shows "aw_ok (insert t X) (T(t \<mapsto> k0\<lparr>tk_awaiter := a\<rparr>))" "aw_ok (X - {t}) (T(t \<mapsto> k0\<lparr>tk_awaiter := None\<rparr>))"
proof -
  have k: "awaits u (k0\<lparr>tk_awaiter := b\<rparr>) = awaits u k0" for u b
    by (simp add: awaits_def)
  have h: "holds (awaits u) (T(t \<mapsto> k0\<lparr>tk_awaiter := b\<rparr>)) = holds (awaits u) T" for u b
    using assms(2) by (simp add: fun_eq_iff k)
  show "aw_ok (insert t X) (T(t \<mapsto> k0\<lparr>tk_awaiter := a\<rparr>))" "aw_ok (X - {t}) (T(t \<mapsto> k0\<lparr>tk_awaiter := None\<rparr>))"
    using assms(1) unfolding aw_ok_def h by (auto split: if_splits)
qed

lemma inv_clear_awaiter:
  assumes "sched_inv_on X s" "g_tasks s t = Some k0"
  shows "sched_inv_on (X - {t}) (set_task t (k0\<lparr>tk_awaiter := None\<rparr>) s)"
  using inv_set_awaiter [OF assms aw_ok_awaiter(2) [OF inv_aw [OF assms(1)] assms(2)]] .

lemma inv_new_awaiter:
  assumes "sched_inv s" "g_tasks s t = Some k0"
  shows "sched_inv_on {t} (set_task t (k0\<lparr>tk_awaiter := Some a\<rparr>) s)"
  using inv_set_awaiter [OF assms aw_ok_awaiter(1) [OF inv_aw [OF assms(1)] assms(2)]] .

lemma aw_ok_discharge:
  assumes "aw_ok (insert t X) T" "\<And>k a. T t = Some k \<Longrightarrow> tk_awaiter k = Some a \<Longrightarrow> holds (awaits t) T a"
  shows "aw_ok X T"
  using assms unfolding aw_ok_def by (metis insertE)

section \<open>Parking the running task\<close>

text \<open>The task gives up control: with its timer or descriptor registered (\<open>io\<close>), ready (\<open>ready\<close>), or waiting for
  another task.\<close>

lemma inv_park:
  assumes inv: "sched_inv_on X s" and np: "\<not> g_in_pump s" and t: "t = g_current s" and k0: "g_tasks s t = Some k0"
    and fr: "fr \<noteq> Running" "fr \<noteq> Destroyed" "dc \<noteq> None \<longrightarrow> (\<exists>sc c. fr = In_deadline sc c)"
    and pk: "io \<longleftrightarrow> io_kind pk" "\<not> io \<longrightarrow> pk = PARK_NONE" "\<not> (io \<and> ready)"
    and k: "same_view (k0\<lparr>tk_park_kind := pk, tk_on_io := io, tk_in_rq := ready, tk_ctx := fr, tk_deadline_child := dc\<rparr>) k"
    and s': "same_state (s\<lparr>g_tasks := (g_tasks s)(t \<mapsto> k), g_io := (if io then t # g_io s else g_io s),
                  g_rq := (if ready then g_rq s @ [t] else g_rq s), g_in_pump := True\<rparr>) s'"
  shows "sched_inv_on X s'"
proof -
  let ?s = "s\<lparr>g_tasks := (g_tasks s)(t \<mapsto> k), g_io := (if io then t # g_io s else g_io s),
              g_rq := (if ready then g_rq s @ [t] else g_rq s), g_in_pump := True\<rparr>"
  have tk: "task_ok (g_chans s) True k0"
    using inv_taskD [OF inv k0] np t by simp
  note f = running_facts [OF tk]
  have v: "tk_park_kind k = pk" "tk_on_io k = io" "tk_in_rq k = ready" "tk_ctx k = fr" "tk_deadline_child k = dc"
    "active k" "\<not> tk_done k" "tk_sel_regs k = []" "tk_scope k = tk_scope k0" "tk_awaiter k = tk_awaiter k0"
    "tk_awaitable k = tk_awaitable k0"
    using k f by (auto simp: same_view_def)
  have nc: "\<not> parked_on b c k" for b c
    using pk v(1) by (auto simp: parked_on_def io_kind_def)
  have "task_ok (g_chans s) False k"
    using v fr pk by (auto simp: task_ok_def io_kind_def)
  then have "sched_inv_on X ?s"
    using v f nc np t inv_rqD [OF inv] inv_rqD(2,4) [OF inv k0] inv_chans_same [OF inv k0, of ?s k]
    by (intro inv_task [OF inv k0, of ?s k]) auto
  then show ?thesis by (rule inv_same_state [OF _ s'])
qed


text \<open>The common form of the parks on the poller: fields the invariant does not read are set, the task is
  linked and gives up control.\<close>

lemma inv_park_io:
  assumes inv: "sched_inv_on X s" and np: "\<not> g_in_pump s" and k0: "g_tasks s (g_current s) = Some k0"
    and fr: "fr \<noteq> Running" "fr \<noteq> Destroyed" "dc \<noteq> None \<longrightarrow> (\<exists>sc c. fr = In_deadline sc c)"
    and pk: "io_kind pk"
    and k: "same_view (k0\<lparr>tk_park_kind := pk, tk_on_io := True, tk_ctx := fr, tk_deadline_child := dc\<rparr>) k"
    and s': "same_state (s\<lparr>g_tasks := (g_tasks s)(g_current s \<mapsto> k), g_io := g_current s # g_io s, g_in_pump := True\<rparr>) s'"
  shows "sched_inv_on X s'"
proof -
  have "\<not> tk_in_rq k0"
    using inv_taskD [OF inv k0] np running_facts(4) by auto
  then show ?thesis
    using pk k s' by (intro inv_park [OF inv np refl k0 fr, of True pk False k]) (auto simp: same_view_def)
qed

lemma park_on_poller_inv:
  assumes "sched_inv s" "\<not> g_in_pump s"
  shows "scheduler_park_on_fd fd i s = Inr (out, s') \<Longrightarrow> sched_inv s'"
    "scheduler_park_on_unowned_fd fd i s = Inr (out, s') \<Longrightarrow> sched_inv s'"
    "scheduler_park_on_fd_timeout fd i ms tm s = Inr (out, s') \<Longrightarrow> sched_inv s'"
    "scheduler_park_on_timer ms tm s = Inr (out, s') \<Longrightarrow> sched_inv s'"
    "task_yield s = Inr (out, s') \<Longrightarrow> sched_inv s'"
proof -
  obtain k where k: "g_tasks s (g_current s) = Some k" and tk: "task_ok (g_chans s) True k"
    using inv_currentD [OF assms] .
  note f = running_facts [OF tk]
  note defs = res_bind_eq_Inr set_task_def effect_def Let_def same_view_def same_state_def io_kind_def f
  show "sched_inv s'" if "scheduler_park_on_fd fd i s = Inr (out, s')"
    using that k by (intro inv_park_io [OF assms k, of In_fd None PARK_FD
        "k\<lparr>tk_park_kind := PARK_FD, tk_park_fd := fd, tk_park_interest := i, tk_on_io := True, tk_ctx := In_fd\<rparr>"])
      (auto simp: scheduler_park_on_fd_def park_fd_common_def defs)
  show "sched_inv s'" if "scheduler_park_on_unowned_fd fd i s = Inr (out, s')"
    using that k by (intro inv_park_io [OF assms k, of In_unowned_fd None PARK_FD
        "k\<lparr>tk_park_close_fd := fd, tk_park_kind := PARK_FD, tk_park_fd := fd, tk_park_interest := i, tk_on_io := True,
           tk_ctx := In_unowned_fd\<rparr>"])
      (auto simp: scheduler_park_on_unowned_fd_def park_fd_common_def defs)
  show "sched_inv s'" if r: "scheduler_park_on_fd_timeout fd i ms tm s = Inr (out, s')"
  proof (cases tm)
    case None
    then show ?thesis using r assms by (simp add: scheduler_park_on_fd_timeout_def)
  next
    case (Some tid)
    then show ?thesis
      using r k by (intro inv_park_io [OF assms k, of "In_fd_timeout fd i tid" None PARK_FD_TIMER
        "k\<lparr>tk_park_kind := PARK_FD_TIMER, tk_park_fd := fd, tk_park_interest := i, tk_timer_id := tid,
           tk_timer_dead := False, tk_woke_by_timer := False, tk_on_io := True, tk_ctx := In_fd_timeout fd i tid\<rparr>"])
      (auto simp: scheduler_park_on_fd_timeout_def park_fd_timeout_common_def defs)
  qed
  show "sched_inv s'" if r: "scheduler_park_on_timer ms tm s = Inr (out, s')"
  proof (cases tm)
    case None
    then show ?thesis using r by (simp add: scheduler_park_on_timer_def)
  next
    case (Some tid)
    then show ?thesis
      using r k by (intro inv_park_io [OF assms k, of In_timer None PARK_TIMER
        "k\<lparr>tk_park_kind := PARK_TIMER, tk_timer_id := tid, tk_timer_dead := False, tk_on_io := True, tk_ctx := In_timer\<rparr>"])
      (auto simp: scheduler_park_on_timer_def defs)
  qed
  show "sched_inv s'" if "task_yield s = Inr (out, s')"
    using that k by (intro inv_park [OF assms refl k, of In_yield None False PARK_NONE True
        "k\<lparr>tk_in_rq := True, tk_ctx := In_yield\<rparr>"])
      (auto simp: task_yield_def defs)
qed

lemma park_unowned_timeout_inv:
  assumes "sched_inv s" "\<not> g_in_pump s" "scheduler_park_on_unowned_fd_timeout fd i ms tm s = Inr (out, s')"
  shows "sched_inv s'"
proof -
  obtain k where k: "g_tasks s (g_current s) = Some k" and tk: "task_ok (g_chans s) True k"
    using inv_currentD [OF assms(1,2)] .
  note f = running_facts [OF tk]
  show ?thesis
  proof (cases tm)
    case None
    then have "s' = set_task (g_current s) (k\<lparr>tk_park_close_fd := - 1\<rparr>) s"
      using assms(3) k by (auto simp: scheduler_park_on_unowned_fd_timeout_def res_bind_eq_Inr set_task_def)
    then show ?thesis
      by (intro inv_same_view [OF assms(1) k, of "k\<lparr>tk_park_close_fd := - 1\<rparr>"]) (simp_all add: same_view_def)
  next
    case (Some tid)
    then show ?thesis
      using assms(3) k by (intro inv_park_io [OF assms(1,2) k, of "In_unowned_fd_timeout fd i tid" None PARK_FD_TIMER
        "k\<lparr>tk_park_close_fd := fd, tk_park_kind := PARK_FD_TIMER, tk_park_fd := fd, tk_park_interest := i, tk_timer_id := tid,
           tk_timer_dead := False, tk_woke_by_timer := False, tk_on_io := True, tk_ctx := In_unowned_fd_timeout fd i tid\<rparr>"])
      (auto simp: scheduler_park_on_unowned_fd_timeout_def park_fd_timeout_common_def res_bind_eq_Inr set_task_def
         effect_def Let_def same_view_def same_state_def io_kind_def f)
  qed
qed

lemma set_cleanup_inv:
  assumes "sched_inv s" "\<not> g_in_pump s" "scheduler_set_park_cleanup fn s = Inr (out, s')"
  shows "sched_inv s'"
proof -
  obtain k where k: "g_tasks s (g_current s) = Some k"
    using inv_currentD [OF assms(1,2)] .
  then show ?thesis
    using assms(3) by (intro inv_same_view [OF assms(1) k, of "k\<lparr>tk_park_cleanup := fn\<rparr>"])
      (auto simp: scheduler_set_park_cleanup_def res_bind_eq_Inr same_view_def)
qed

lemma task_await_inv:
  assumes inv: "sched_inv s" and np: "\<not> g_in_pump s" and r: "task_await h s = Inr (out, s')"
  shows "sched_inv s'"
proof -
  obtain t k where t: "g_tasks s t = Some k" and rr: "tk_roots k \<noteq> None"
    and d: "if tk_done k then s' = s
      else parked (In_await t) (set_task t (k\<lparr>tk_awaiter := Some (g_current s)\<rparr>) s) = Inr (out, s')"
    using r by (auto simp: task_await_def res_bind_eq_Inr split: if_splits)
  show ?thesis
  proof (cases "tk_done k")
    case True
    then show ?thesis using d inv by simp
  next
    case False
    let ?a = "g_current s" and ?s = "set_task t (k\<lparr>tk_awaiter := Some (g_current s)\<rparr>) s"
    have i: "sched_inv_on {t} ?s" "\<not> g_in_pump ?s"
      using inv_new_awaiter [OF inv t] np by simp_all
    obtain ka where ka: "g_tasks ?s ?a = Some ka" and ta: "task_ok (g_chans s) True ka"
      using inv_currentD [OF i] by auto
    note f = running_facts [OF ta]
    let ?k = "ka\<lparr>tk_ctx := In_await t\<rparr>"
    have s': "s' = (set_task ?a ?k ?s)\<lparr>g_in_pump := True\<rparr>"
      using d False ka by (auto simp: set_task_def)
    have i2: "sched_inv_on {t} s'"
      using ka by (intro inv_park [OF i _ _ , of ?a ka "In_await t" None False PARK_NONE False ?k])
        (auto simp: s' same_view_def same_state_def f io_kind_def)
    have "awaits t ?k"
      using f by (simp add: awaits_def)
    then have h: "holds (awaits t) (g_tasks s') ?a" by (simp add: s')
    have a: "tk_awaiter k' = Some ?a" if "g_tasks s' t = Some k'" for k'
      using that ka by (cases "t = ?a") (auto simp: s')
    have "aw_ok {} (g_tasks s')"
    proof (rule aw_ok_discharge [OF inv_aw [OF i2]])
      fix k' b assume "g_tasks s' t = Some k'" "tk_awaiter k' = Some b"
      with a h show "holds (awaits t) (g_tasks s') b" by simp
    qed
    then show ?thesis by (rule inv_on_aw [OF i2])
  qed
qed


section \<open>Scopes\<close>

lemma inv_scope:
  assumes inv: "sched_inv_on X s" and c: "g_scopes s p = Some c"
    and c': "sc_live c' = sc_live c" "\<And>f. f \<in> set (sc_forks c') \<Longrightarrow> holds (\<lambda>k. tk_scope k = Some p \<and> tk_awaitable k) (g_tasks s) f"
    and w: "\<And>a. sc_waiter c' = Some a \<Longrightarrow> holds (joins p) (g_tasks s) a"
  shows "sched_inv_on X (set_scope p c' s)"
proof -
  have j: "join_ok ((g_scopes s)(p \<mapsto> c')) (g_tasks s)"
    using inv w unfolding sched_inv_on_def join_ok_def by (metis fun_upd_other fun_upd_same option.inject)
  have so: "scope_ok (g_tasks s) q d" if "((g_scopes s)(p \<mapsto> c')) q = Some d" for q d
    using that inv c c' unfolding sched_inv_on_def by (cases "q = p") (auto simp: scope_ok_def)
  have "\<forall>t k q. g_tasks s t = Some k \<longrightarrow> active k \<longrightarrow> tk_scope k = Some q \<longrightarrow> ((g_scopes s)(p \<mapsto> c')) q \<noteq> None"
    using inv unfolding sched_inv_on_def by (metis fun_upd_other fun_upd_same option.distinct(1))
  then show ?thesis
    using inv j so unfolding sched_inv_on_def set_simps by blast
qed

lemma scope_forks_ok:
  assumes "sched_inv_on X s" "g_scopes s p = Some c" "f \<in> set (sc_forks c)"
  shows "holds (\<lambda>k. tk_scope k = Some p \<and> tk_awaitable k) (g_tasks s) f"
  using assms unfolding sched_inv_on_def scope_ok_def by blast

lemma scope_waiter_ok:
  assumes "sched_inv_on X s" "g_scopes s p = Some c" "sc_waiter c = Some a"
  shows "holds (joins p) (g_tasks s) a"
  using assms unfolding sched_inv_on_def join_ok_def by blast

lemma join_park_inv:
  assumes inv: "sched_inv s" and np: "\<not> g_in_pump s" and c: "g_scopes s sc = Some c"
    and r: "parked (In_join sc) (set_scope sc (c\<lparr>sc_waiter := Some (g_current s)\<rparr>) s) = Inr (out, s')"
  shows "sched_inv s'"
proof -
  obtain k where k: "g_tasks s (g_current s) = Some k" and tk: "task_ok (g_chans s) True k"
    using inv_currentD [OF inv np] .
  note f = running_facts [OF tk]
  let ?k = "k\<lparr>tk_ctx := In_join sc\<rparr>"
  let ?s = "(set_task (g_current s) ?k s)\<lparr>g_in_pump := True\<rparr>"
  have i: "sched_inv ?s"
    using f by (intro inv_park [OF inv np refl k, of "In_join sc" None False PARK_NONE False ?k])
      (auto simp: same_view_def same_state_def io_kind_def)
  have "joins sc ?k"
    using f by (simp add: joins_def)
  then have "sched_inv (set_scope sc (c\<lparr>sc_waiter := Some (g_current s)\<rparr>) ?s)"
    using c scope_forks_ok [OF i, of sc c] by (intro inv_scope [OF i, of sc c]) auto
  moreover have "s' = set_scope sc (c\<lparr>sc_waiter := Some (g_current s)\<rparr>) ?s"
    using r k by (auto simp: set_task_def set_scope_def)
  ultimately show ?thesis by simp
qed

lemma cancel_reason_inv:
  assumes inv: "sched_inv_on X s" and c: "g_scopes s sc = Some c"
  shows "sched_inv_on X (set_scope sc (c\<lparr>sc_reason := r\<rparr>) s)"
  using c scope_forks_ok [OF inv c] scope_waiter_ok [OF inv c] by (intro inv_scope [OF inv c]) auto

section \<open>Making a task ready\<close>

lemma inv_io_wake:
  assumes inv: "sched_inv_on X s" and k0: "g_tasks s t = Some k0" and io: "tk_on_io k0"
    and k: "same_view (k0\<lparr>tk_on_io := False, tk_park_kind := PARK_NONE, tk_in_rq := True\<rparr>) k"
    and s': "same_state (s\<lparr>g_tasks := (g_tasks s)(t \<mapsto> k), g_io := remove1 t (g_io s), g_rq := g_rq s @ [t]\<rparr>) s'"
  shows "sched_inv_on X s'"
proof -
  let ?s = "s\<lparr>g_tasks := (g_tasks s)(t \<mapsto> k), g_io := remove1 t (g_io s), g_rq := g_rq s @ [t]\<rparr>"
  note tk = inv_taskD [OF inv k0]
  have f: "active k0" "io_kind (tk_park_kind k0)" "\<not> tk_in_rq k0" "\<not> (\<not> g_in_pump s \<and> t = g_current s)" "tk_sel_regs k0 = []"
    "tk_ctx k0 \<noteq> Running" "\<not> tk_done k0"
    using tk io by (auto simp: task_ok_def io_kind_def active_def)
  have v: "\<not> tk_on_io k" "tk_park_kind k = PARK_NONE" "tk_in_rq k" "active k" "\<not> tk_done k" "tk_sel_regs k = []"
    "tk_ctx k = tk_ctx k0" "tk_deadline_child k = tk_deadline_child k0" "tk_awaiter k = tk_awaiter k0" "tk_scope k = tk_scope k0"
    "tk_awaitable k = tk_awaitable k0"
    using k f by (auto simp: same_view_def)
  have nc: "\<not> parked_on b c k" "\<not> parked_on b c k0" for b c
    using f(2) v(2) by (auto simp: parked_on_def io_kind_def)
  have w: "awaits u k0 \<Longrightarrow> awaits u k" "joins q k0 \<Longrightarrow> joins q k" for u q
    using io f v by (auto simp: awaits_def joins_def io_kind_def)
  have "task_ok (g_chans s) (\<not> g_in_pump s \<and> t = g_current s) k"
    using tk v f by (auto simp: task_ok_def)
  then have "sched_inv_on X ?s"
    using v f nc w inv_rqD [OF inv] inv_rqD(2,4) [OF inv k0] inv_chans_same [OF inv k0, of ?s k]
    by (intro inv_task [OF inv k0, of ?s k]) auto
  then show ?thesis by (rule inv_same_state [OF _ s'])
qed

text \<open>A task that waits for another one, or for its scope, and that nobody refers to any more.\<close>

lemma inv_push:
  assumes inv: "sched_inv_on X s" and k0: "g_tasks s t = Some k0"
    and blocked: "active k0" "tk_park_kind k0 = PARK_NONE" "\<not> tk_in_rq k0" "\<not> tk_on_io k0" "tk_ctx k0 \<noteq> Running"
    and noref: "\<And>u ku. g_tasks s u = Some ku \<Longrightarrow> tk_awaiter ku = Some t \<Longrightarrow> u \<in> X"
      "\<And>p c. g_scopes s p = Some c \<Longrightarrow> sc_waiter c \<noteq> Some t"
    and s': "s' = (set_task t (k0\<lparr>tk_in_rq := True\<rparr>) s)\<lparr>g_rq := g_rq s @ [t]\<rparr>"
  shows "sched_inv_on X s'"
proof -
  let ?k = "k0\<lparr>tk_in_rq := True\<rparr>"
  note tk = inv_taskD [OF inv k0]
  show ?thesis
  proof (rule inv_gen [OF inv, of t])
    show "chan_ok (g_tasks s') c ch" if "g_chans s' c = Some ch" for c ch
      using that by (intro inv_chans_same [OF inv k0, of s' ?k]) (auto simp: s' parked_on_def)
    show "scope_ok (g_tasks s') p c" if "g_scopes s' p = Some c" for p c
      using that inv k0 by (auto simp: sched_inv_on_def s' intro: scope_ok_same)
    show "p \<in> dom (g_scopes s)" if "g_tasks s' t = Some k'" "active k'" "tk_scope k' = Some p" for k' p
      using that inv k0 unfolding sched_inv_on_def by (auto simp: s')
    show "aw_ok X (g_tasks s')"
      unfolding aw_ok_def
    proof (intro allI impI)
      fix u ku a assume u: "g_tasks s' u = Some ku" "u \<notin> X" "tk_awaiter ku = Some a"
      then obtain ku0 where ku0: "g_tasks s u = Some ku0" "tk_awaiter ku0 = Some a"
        using k0 by (cases "u = t") (auto simp: s')
      then have "a \<noteq> t" using noref(1) u(2) by blast
      then show "holds (awaits u) (g_tasks s') a"
        using inv_aw [OF inv] ku0 u(2) by (auto simp: s' aw_ok_def)
    qed
    show "join_ok (g_scopes s') (g_tasks s')"
      using inv noref(2) by (auto simp: sched_inv_on_def s' join_ok_def)
    show "task_ok (g_chans s) (\<not> g_in_pump s' \<and> t = g_current s') k" if "g_tasks s' t = Some k" for k
      using that tk blocked by (auto simp: s' task_ok_def)
  qed (use blocked k0 inv_rqD [OF inv] inv_rqD(2,4) [OF inv k0] in \<open>auto simp: s'\<close>)
qed


lemma res_bindE:
  assumes "res_bind r f = Inr y"
  obtains x where "r = Inr x" "f x = Inr y"
  using assms by (cases r) auto

lemma harvest_inv:
  assumes inv: "sched_inv_on X s" and r: "harvest ev s = Inr s'"
  shows "sched_inv_on X s' \<and> same_control s s'"
proof -
  obtain w tmr where ev: "ev = (w, tmr)" by (cases ev)
  obtain k where k: "g_tasks s w = Some k"
    using r by (auto simp: harvest_def ev res_bind_eq_Inr)
  let ?k = "if tmr \<and> \<not> tk_timer_dead k then k\<lparr>tk_timer_dead := True\<rparr> else k"
  have "res_bind (if tmr \<and> \<not> tk_timer_dead k
        then upd_task w (\<lambda>k. k\<lparr>tk_timer_dead := True\<rparr>) (effect (Remove_timer (tk_timer_id k)) s) else Inr s) (\<lambda>s1.
      if \<not> tk_on_io k then Inr s1
        else res_bind (upd_task w (\<lambda>k. k\<lparr>tk_woke_by_timer := tmr\<rparr>) s1) (\<lambda>s2.
           res_bind (sched_io_remove w s2) (\<lambda>s3.
             res_bind (upd_task w (\<lambda>k. k\<lparr>tk_park_kind := PARK_NONE, tk_park_fd := - 1, tk_park_close_fd := - 1\<rparr>) s3)
               (sched_rq_push w)))) = Inr s'"
    using r k by (simp add: harvest_def ev get_task_def)
  then obtain s1 where s1: "(if tmr \<and> \<not> tk_timer_dead k
        then upd_task w (\<lambda>k. k\<lparr>tk_timer_dead := True\<rparr>) (effect (Remove_timer (tk_timer_id k)) s) else Inr s) = Inr s1"
    and r1: "(if \<not> tk_on_io k then Inr s1
        else res_bind (upd_task w (\<lambda>k. k\<lparr>tk_woke_by_timer := tmr\<rparr>) s1) (\<lambda>s2.
           res_bind (sched_io_remove w s2) (\<lambda>s3.
             res_bind (upd_task w (\<lambda>k. k\<lparr>tk_park_kind := PARK_NONE, tk_park_fd := - 1, tk_park_close_fd := - 1\<rparr>) s3)
               (sched_rq_push w)))) = Inr s'"
    by (rule res_bindE)
  have st1: "same_state (s\<lparr>g_tasks := (g_tasks s)(w \<mapsto> ?k)\<rparr>) s1 \<and> g_ht s1 = g_ht s"
  proof (cases "tmr \<and> \<not> tk_timer_dead k")
    case True
    then have "s1 = set_task w (k\<lparr>tk_timer_dead := True\<rparr>) (effect (Remove_timer (tk_timer_id k)) s)"
      using s1 k by simp
    then show ?thesis using True by (simp add: same_state_def)
  next
    case False
    then have "s1 = s" using s1 unfolding if_not_P [OF False] by simp
    then show ?thesis
      unfolding if_not_P [OF False] using k by (simp add: same_state_def map_upd_triv)
  qed
  have i1: "sched_inv_on X s1" and k1: "g_tasks s1 w = Some ?k" and on: "tk_on_io ?k = tk_on_io k"
    and c1: "same_control s s1"
    using st1 inv_same_view [OF inv k, of ?k s1] by (auto simp: same_state_def same_view_def same_control_def)
  show ?thesis
  proof (cases "tk_on_io k")
    case False
    then show ?thesis using r1 i1 c1 by simp
  next
    case True
    let ?f = "\<lambda>k. k\<lparr>tk_woke_by_timer := tmr, tk_on_io := False, tk_park_kind := PARK_NONE,
                tk_park_fd := - 1, tk_park_close_fd := - 1, tk_in_rq := True\<rparr>"
    define k' where "k' = ?k"
    have "s' = s1\<lparr>g_tasks := (g_tasks s1)(w \<mapsto> ?f k'), g_io := remove1 w (g_io s1), g_rq := g_rq s1 @ [w]\<rparr>"
      using r1 True k1 [folded k'_def] by (auto simp: res_bind_eq_Inr set_task_def)
    then show ?thesis
      using inv_io_wake [OF i1 k1 [folded k'_def], of "?f k'" s'] True on [folded k'_def] c1
      by (auto simp: same_view_def same_state_def same_control_def)
  qed
qed

lemma harvest_fold_inv:
  "sched_inv_on X s \<Longrightarrow> res_fold harvest evs s = Inr s' \<Longrightarrow> sched_inv_on X s' \<and> same_control s s'"
proof (induction evs arbitrary: s)
  case (Cons ev evs)
  then obtain s1 where "harvest ev s = Inr s1" "res_fold harvest evs s1 = Inr s'"
    by (auto simp: res_bind_eq_Inr)
  then show ?case
    using Cons.IH [of s1] harvest_inv [OF Cons.prems(1)] by (auto simp: same_control_def)
qed (simp add: same_control_def)

section \<open>Completion\<close>

lemma wake_awaiter_inv:
  assumes inv: "sched_inv s" and ka: "g_tasks s a = Some ka" and aw: "awaits t ka"
    and gone: "\<And>k. g_tasks s t = Some k \<Longrightarrow> tk_awaiter k = None" and np: "g_in_pump s"
    and r: "wake_awaiter t a s = Inr s'"
  shows "sched_inv s' \<and> g_current s' = g_current s \<and> g_in_pump s' \<and> g_scopes s' = g_scopes s"
proof -
  note tk = inv_taskD [OF inv ka]
  consider (io) "tk_on_io ka" | (ready) "\<not> tk_on_io ka" "tk_deadline_child ka = Some t"
    | (await) "\<not> tk_on_io ka" "tk_deadline_child ka \<noteq> Some t"
    by auto
  then show ?thesis
  proof cases
    case io
    let ?k = "ka\<lparr>tk_timer_dead := True, tk_on_io := False, tk_park_kind := PARK_NONE, tk_in_rq := True\<rparr>"
    have "same_state (s\<lparr>g_tasks := (g_tasks s)(a \<mapsto> ?k), g_io := remove1 a (g_io s), g_rq := g_rq s @ [a]\<rparr>) s'"
      using r ka io by (auto simp: wake_awaiter_def res_bind_eq_Inr same_state_def set_task_def effect_def split: if_splits)
    then show ?thesis
      using inv_io_wake [OF inv ka io, of ?k s'] np by (auto simp: same_view_def same_state_def)
  next
    case ready
    then show ?thesis
      using r ka inv np by (auto simp: wake_awaiter_def res_bind_eq_Inr)
  next
    case await
    then have b: "active ka" "tk_ctx ka = In_await t" "\<not> tk_in_rq ka" "tk_park_kind ka = PARK_NONE"
      using aw by (auto simp: awaits_def)
    have s': "s' = (set_task a (ka\<lparr>tk_in_rq := True\<rparr>) s)\<lparr>g_rq := g_rq s @ [a]\<rparr>"
      using r ka await by (auto simp: wake_awaiter_def res_bind_eq_Inr split: if_splits)
    have n1: "u \<in> {}" if "g_tasks s u = Some ku" "tk_awaiter ku = Some a" for u ku
    proof -
      have "awaits u ka"
        using inv_aw [OF inv] that ka unfolding aw_ok_def by fastforce
      then have "u = t" using b(2) by (auto simp: awaits_def)
      then show ?thesis using gone that by auto
    qed
    have n2: "sc_waiter c \<noteq> Some a" if "g_scopes s p = Some c" for p c
      using scope_waiter_ok [OF inv that, of a] ka b(2) by (auto simp: joins_def)
    have "sched_inv s'"
      by (rule inv_push [OF inv ka b(1,4,3) await(1) _ n1 n2 s']) (use b(2) in auto)
    then show ?thesis using np s' by simp
  qed
qed

lemma wake_awaiter_commute:
  "wake_awaiter t a (s\<lparr>g_scopes := S, g_in_pump := b\<rparr>) =
   res_map (\<lambda>s. s\<lparr>g_scopes := S, g_in_pump := b\<rparr>) (wake_awaiter t a s)"
  by (cases "g_tasks s a")
    (auto simp: wake_awaiter_def get_task_def upd_task_def sched_rq_push_def sched_io_remove_def set_task_def effect_def
      split: option.splits)

lemma members_remove:
  assumes "T t = Some k0" "active k0" "tk_scope k0 = Some sc" "finite (dom T)" "T' t = None \<or> (\<exists>k. T' t = Some k \<and> \<not> active k)"
    and "\<And>u. u \<noteq> t \<Longrightarrow> T' u = T u"
  shows "int (card (members p T')) = int (card (members p T)) - (if p = sc then 1 else 0)"
proof -
  have "u \<in> members p T' \<longleftrightarrow> u \<in> members p T - {t}" for u
    using assms(5) assms(6) [of u] by (cases "u = t") (auto simp: members_def holds_def)
  then have m: "members p T' = members p T - {t}" by blast
  show ?thesis
  proof (cases "p = sc")
    case True
    then have "t \<in> members p T"
      using assms(1-3) by (simp add: members_def)
    then have "card (members p T) = Suc (card (members p T - {t}))"
      using finite_members [OF assms(4), of p] by (metis card.remove)
    then show ?thesis using True m by simp
  next
    case False
    then have "t \<notin> members p T"
      using assms(1,3) by (simp add: members_def)
    then show ?thesis using False m by simp
  qed
qed


text \<open>A task ends: its record is marked or goes, the live count of its scope follows.\<close>

lemma inv_end:
  assumes inv: "sched_inv_on X s" and k0: "g_tasks s t = Some k0" and act: "active k0" and sc: "tk_scope k0 = Some p"
    and c: "g_scopes s p = Some c"
    and noref: "\<And>u. \<not> awaits u k0" "\<And>q. \<not> joins q k0"
    and T': "\<And>u. u \<noteq> t \<Longrightarrow> g_tasks s' u = g_tasks s u"
    and k: "g_tasks s' t = None \<or> (\<exists>k. g_tasks s' t = Some k \<and> \<not> active k \<and> \<not> tk_in_rq k \<and> \<not> tk_on_io k \<and> tk_awaiter k = None \<and>
       tk_sel_regs k = [] \<and> tk_scope k = Some p \<and> tk_awaitable k = tk_awaitable k0 \<and> (tk_park_kind k = PARK_CHAN \<longrightarrow> tk_park_chan k = None) \<and>
       (tk_done k \<longrightarrow> tk_park_kind k = PARK_NONE) \<and> (tk_deadline_child k = None) \<and> (tk_ctx k = Running \<longrightarrow> tk_done k))"
    and forks: "g_tasks s' t = None \<Longrightarrow> \<not> tk_awaitable k0"
    and S': "g_scopes s' = (g_scopes s)(p \<mapsto> c\<lparr>sc_live := sc_live c - 1\<rparr>)"
    and C': "dom (g_chans s') = dom (g_chans s)" "g_all_chans s' = g_all_chans s"
    and ch: "\<And>d dh. g_chans s' d = Some dh \<Longrightarrow> chan_ok (g_tasks s') d dh"
    and rq: "distinct (g_rq s')" "set (g_rq s') = set (g_rq s) - {t}"
    and io: "distinct (g_io s')" "set (g_io s') = set (g_io s) - {t}"
    and run: "\<And>u. u \<noteq> t \<Longrightarrow> (\<not> g_in_pump s' \<and> u = g_current s') = (\<not> g_in_pump s \<and> u = g_current s)"
      "g_in_pump s' \<or> g_current s' \<noteq> t"
  shows "sched_inv_on X s'"
proof (rule inv_gen [OF inv T'])
  have hl: "holds P (g_tasks s') a" if "holds P (g_tasks s) a" "\<not> P k0" for P a
    using that k0 T' [of a] by (cases "a = t") (auto simp: holds_def)
  show "aw_ok X (g_tasks s')"
    unfolding aw_ok_def
  proof (intro allI impI)
    fix u ku a assume u: "g_tasks s' u = Some ku" "u \<notin> X" "tk_awaiter ku = Some a"
    then have "u \<noteq> t" using k by auto
    then show "holds (awaits u) (g_tasks s') a"
      using inv_aw [OF inv] u T' [of u] noref(1) [of u] by (intro hl) (auto simp: aw_ok_def)
  qed
  show "join_ok (g_scopes s') (g_tasks s')"
    unfolding join_ok_def
  proof (intro allI impI)
    fix q d a assume "g_scopes s' q = Some d" "sc_waiter d = Some a"
    then obtain d0 where "g_scopes s q = Some d0" "sc_waiter d0 = Some a"
      using S' c by (cases "q = p") auto
    then show "holds (joins q) (g_tasks s') a"
      using scope_waiter_ok [OF inv] noref(2) by (intro hl) auto
  qed
  have fin: "finite (dom (g_tasks s))"
    using inv by (simp add: sched_inv_on_def)
  have card: "int (card (members q (g_tasks s'))) = int (card (members q (g_tasks s))) - (if q = p then 1 else 0)" for q
    using k T' by (intro members_remove [OF k0 act sc fin]) auto
  show "scope_ok (g_tasks s') q d" if q: "g_scopes s' q = Some d" for q d
  proof -
    obtain d0 where d0: "g_scopes s q = Some d0" "sc_forks d = sc_forks d0" "sc_live d = sc_live d0 - (if q = p then 1 else 0)"
      using q S' c by (cases "q = p") auto
    have ok0: "scope_ok (g_tasks s) q d0"
      using inv d0(1) by (simp add: sched_inv_on_def)
    have "holds (\<lambda>k. tk_scope k = Some q \<and> tk_awaitable k) (g_tasks s') f" if f: "f \<in> set (sc_forks d)" for f
    proof -
      have f0: "holds (\<lambda>k. tk_scope k = Some q \<and> tk_awaitable k) (g_tasks s) f"
        using ok0 f d0(2) by (simp add: scope_ok_def)
      show ?thesis
      proof (cases "f = t")
        case True
        then have "tk_scope k0 = Some q" "tk_awaitable k0" using f0 k0 by simp_all
        then show ?thesis using forks k sc True by auto
      next
        case False
        then show ?thesis using f0 T' [OF False] by (simp add: holds_def)
      qed
    qed
    then show ?thesis
      using ok0 d0(3) card [of q] by (simp add: scope_ok_def)
  qed
  show "p' \<in> dom (g_scopes s)" if "g_tasks s' t = Some k'" "active k'" "tk_scope k' = Some p'" for k' p'
    using that k by auto
  show "task_ok (g_chans s) (\<not> g_in_pump s' \<and> t = g_current s') k'" if "g_tasks s' t = Some k'" for k'
    using that k run(2) by (auto simp: task_ok_def active_def)
  have nq: "\<not> holds tk_in_rq (g_tasks s') t" "\<not> holds tk_on_io (g_tasks s') t"
    using k by auto
  show "u \<in> set (g_rq s') \<longleftrightarrow> (if u = t then holds tk_in_rq (g_tasks s') t else u \<in> set (g_rq s))"
    "u \<in> set (g_io s') \<longleftrightarrow> (if u = t then holds tk_on_io (g_tasks s') t else u \<in> set (g_io s))" for u
    by (simp_all add: nq rq(2) io(2))
qed (use S' C' c ch rq io run in auto)


lemma scope_child_done_eq:
  assumes c: "g_scopes s p = Some c"
    and B: "B = s\<lparr>g_scopes := (g_scopes s)(p \<mapsto> c\<lparr>sc_live := sc_live c - 1\<rparr>), g_in_pump := True\<rparr>"
    and r: "scope_child_done p s = Inr s4"
  shows "s4\<lparr>g_in_pump := True\<rparr> = B \<or>
    (\<exists>w kw. sc_waiter c = Some w \<and> g_tasks s w = Some kw \<and>
       s4\<lparr>g_in_pump := True\<rparr> =
         (set_task w (kw\<lparr>tk_in_rq := True\<rparr>)
           (set_scope p (c\<lparr>sc_live := sc_live c - 1, sc_waiter := None\<rparr>) B))\<lparr>g_rq := g_rq s @ [w]\<rparr>)"
  using r c by (auto simp: scope_child_done_def B Let_def res_bind_eq_Inr set_scope_def set_task_def split: if_splits option.splits)

text \<open>The joiner of a scope is woken: nobody else refers to it.\<close>

lemma inv_wake_joiner:
  assumes inv: "sched_inv B" and c: "g_scopes B p = Some c" and w: "sc_waiter c = Some w" and kw: "g_tasks B w = Some kw"
    and s': "s' = (set_task w (kw\<lparr>tk_in_rq := True\<rparr>) (set_scope p (c\<lparr>sc_waiter := None\<rparr>) B))\<lparr>g_rq := g_rq B @ [w]\<rparr>"
  shows "sched_inv s'"
proof -
  have j: "joins p kw"
    using scope_waiter_ok [OF inv c w] kw by simp
  have on: "\<not> tk_on_io kw"
    using inv_taskD [OF inv kw] j by (auto simp: task_ok_def joins_def io_kind_def)
  let ?B = "set_scope p (c\<lparr>sc_waiter := None\<rparr>) B"
  have i: "sched_inv ?B"
    using scope_forks_ok [OF inv c] by (intro inv_scope [OF inv c]) auto
  have kw': "g_tasks ?B w = Some kw" using kw by simp
  have n1: "u \<in> {}" if "g_tasks ?B u = Some ku" "tk_awaiter ku = Some w" for u ku
  proof -
    have "awaits u kw"
      using inv_aw [OF i] that kw' unfolding aw_ok_def by fastforce
    then show ?thesis using j on by (auto simp: awaits_def joins_def)
  qed
  have n2: "sc_waiter d \<noteq> Some w" if "g_scopes ?B q = Some d" for q d
  proof
    assume "sc_waiter d = Some w"
    then have "joins q kw" "q \<noteq> p"
      using scope_waiter_ok [OF i that] kw' that by auto
    then show False using j by (auto simp: joins_def)
  qed
  have s'': "s' = (set_task w (kw\<lparr>tk_in_rq := True\<rparr>) ?B)\<lparr>g_rq := g_rq ?B @ [w]\<rparr>"
    by (simp add: s')
  show ?thesis
    by (rule inv_push [OF i kw' _ _ _ on _ n1 n2 s'']) (use j in \<open>auto simp: joins_def\<close>)
qed

lemma pump_reclaim_inv:
  assumes inv: "sched_inv s" and np: "g_in_pump s" and r: "pump_reclaim s = Inr s'"
  shows "sched_inv s' \<and> g_in_pump s'"
proof -
  let ?t = "g_current s"
  obtain k where k: "g_tasks s ?t = Some k"
    using r by (auto simp: pump_reclaim_def Let_def res_bind_eq_Inr)
  consider (same) "s' = s" | (destroyed) "tk_done k" "s' = set_task ?t (k\<lparr>tk_ctx := Destroyed\<rparr>) s"
    | (freed) "tk_done k" "\<not> tk_awaitable k" "s' = s\<lparr>g_tasks := (g_tasks s)(?t := None), g_current := task0\<rparr>"
    using r k by (auto simp: pump_reclaim_def Let_def res_bind_eq_Inr split: if_splits)
  then show ?thesis
  proof cases
    case same
    then show ?thesis using inv np by simp
  next
    case destroyed
    note tk = inv_taskD [OF inv k]
    have na: "\<not> active k" using destroyed by (simp add: active_def)
    have "sched_inv s'"
      using na np destroyed(2) tk inv_rqD [OF inv] inv_rqD(2,4) [OF inv k]
        inv_chans_same [OF inv k, of s' "k\<lparr>tk_ctx := Destroyed\<rparr>"]
      by (intro inv_task [OF inv k, of s' "k\<lparr>tk_ctx := Destroyed\<rparr>"])
        (auto simp: awaits_def joins_def task_ok_def parked_on_def)
    then show ?thesis using np destroyed by simp
  next
    case freed
    note tk = inv_taskD [OF inv k]
    have na: "\<not> active k" "\<not> tk_in_rq k" "\<not> tk_on_io k" "tk_sel_regs k = []" "tk_park_kind k = PARK_NONE"
      using freed tk by (auto simp: active_def task_ok_def)
    have T': "g_tasks s' = (g_tasks s)(?t := None)" by (simp add: freed(3))
    have h: "holds P (g_tasks s') = holds P (g_tasks s)" if "\<not> P k" for P
      unfolding T' using k that by (rule holds_freed)
    have m: "members p (g_tasks s') = members p (g_tasks s)" for p
      using na(1) by (simp add: members_def h)
    have "sched_inv s'"
    proof (rule inv_gen [OF inv, of ?t])
      have "aw_ok {} (g_tasks s)" by (rule inv_aw [OF inv])
      then show "aw_ok {} (g_tasks s')"
        unfolding aw_ok_def using na(1) h [of "awaits _"] by (auto simp: awaits_def T' split: if_splits)
      show "join_ok (g_scopes s') (g_tasks s')"
        using scope_waiter_ok [OF inv] na(1) h [of "joins _"] freed(3) by (auto simp: join_ok_def joins_def)
      show "scope_ok (g_tasks s') p c" if "g_scopes s' p = Some c" for p c
        using that inv freed(2,3) m h [of "\<lambda>k. tk_scope k = Some p \<and> tk_awaitable k"]
        by (auto simp: sched_inv_on_def scope_ok_def)
      show "chan_ok (g_tasks s') c ch" if "g_chans s' c = Some ch" for c ch
        unfolding T' using that freed(3) na by (intro chan_ok_freed [OF inv_chanD [OF inv] k]) (auto simp: parked_on_def)
    qed (use freed(3) np na inv_rqD [OF inv] inv_rqD(2,4) [OF inv k] in auto)
    then show ?thesis using np freed by simp
  qed
qed

end
