(* ===== verification/Sched_Run.thy ===== *)
theory Sched_Run
  imports Sched_Tasks
begin

text \<open>
  The invariant through completion, creation, cancellation, deadlines and joins, the pump, and with it
  every step of the scheduler.
\<close>

section \<open>Completion\<close>

lemma trampoline_inv:
  assumes inv: "sched_inv s" and np: "\<not> g_in_pump s" and r: "task_trampoline v s = Inr (out, s')"
  shows "sched_inv s'"
proof -
  let ?t = "g_current s"
  obtain k where k: "g_tasks s ?t = Some k" and tk: "task_ok (g_chans s) True k"
    using inv_currentD [OF inv np] .
  note f = running_facts [OF tk]
  obtain s1 k' s3 where s1: "store_result ?t v s = Inr s1" and k': "g_tasks s1 ?t = Some k'"
    and s3: "(case tk_awaiter k' of None \<Rightarrow> Inr (set_task ?t (k'\<lparr>tk_done := True, tk_awaiter := None\<rparr>) s1)
        | Some aw \<Rightarrow> wake_awaiter ?t aw (set_task ?t (k'\<lparr>tk_done := True, tk_awaiter := None\<rparr>) s1)) = Inr s3"
    and R: "(case tk_scope k' of None \<Rightarrow> Inl NullDeref
        | Some sc \<Rightarrow> res_bind (scope_child_done sc s3) (\<lambda>s4.
            res_map (Pair Parked) (pump_reclaim (s4\<lparr>g_in_pump := True\<rparr>)))) = Inr (out, s')"
    using r unfolding task_trampoline_def Let_def res_bind_eq_Inr get_Inr by blast
  obtain sc s4 where sc': "tk_scope k' = Some sc" and s4: "scope_child_done sc s3 = Inr s4"
    and s': "pump_reclaim (s4\<lparr>g_in_pump := True\<rparr>) = Inr s'"
    using R by (cases "tk_scope k'") (auto simp: res_bind_eq_Inr)
  have "s1 = set_task ?t k' s \<and> tk_awaiter k' = tk_awaiter k \<and> tk_scope k' = tk_scope k \<and> same_view k k'"
    using s1 k k' f(8) by (auto simp: store_result_def res_bind_eq_Inr same_view_def set_task_def active_def map_upd_triv
        split: if_splits option.splits)
  then have s1': "s1 = set_task ?t k' s" and aw': "tk_awaiter k' = tk_awaiter k" and sc: "tk_scope k = Some sc"
    and v: "same_view k k'"
    using sc' by auto
  define k1 where "k1 = k'\<lparr>tk_done := True, tk_awaiter := None\<rparr>"
  define s2 where "s2 = set_task ?t k1 s"
  have s3: "(case tk_awaiter k of None \<Rightarrow> Inr s2 | Some aw \<Rightarrow> wake_awaiter ?t aw s2) = Inr s3"
  proof -
    have "set_task ?t (k'\<lparr>tk_done := True, tk_awaiter := None\<rparr>) s1 = s2"
      by (simp add: s2_def k1_def s1' set_task_def)
    then show ?thesis using s3 aw' by (simp only:)
  qed
  have "s2 = set_task ?t k1 s" by (rule s2_def)
  then have T2: "g_tasks s2 = (g_tasks s)(?t \<mapsto> k1)" and rest2: "g_scopes s2 = g_scopes s" "g_chans s2 = g_chans s"
    "g_all_chans s2 = g_all_chans s" "g_rq s2 = g_rq s" "g_io s2 = g_io s" "g_current s2 = g_current s"
    by simp_all
  have k1: "\<not> active k1" "\<not> tk_in_rq k1" "\<not> tk_on_io k1" "tk_awaiter k1 = None" "tk_sel_regs k1 = []" "tk_scope k1 = Some sc"
    "tk_awaitable k1 = tk_awaitable k" "tk_park_kind k1 = PARK_NONE" "tk_deadline_child k1 = None" "tk_done k1"
    using f sc v by (auto simp: k1_def active_def same_view_def)
  obtain c where c: "g_scopes s sc = Some c"
    using inv k f(1) sc unfolding sched_inv_on_def by blast
  let ?A = "s2\<lparr>g_scopes := (g_scopes s)(sc \<mapsto> c\<lparr>sc_live := sc_live c - 1\<rparr>), g_in_pump := True\<rparr>"
  have A: "sched_inv ?A"
  proof (rule inv_end [OF inv k f(1) sc c])
    show "chan_ok (g_tasks ?A) d dh" if "g_chans ?A d = Some dh" for d dh
      using that k1(5,8) f(3,6) by (intro inv_chans_same [OF inv k, of ?A k1]) (auto simp: T2 rest2 parked_on_def)
  qed (use f k1 inv_rqD [OF inv] inv_rqD(2,4) [OF inv k] np in \<open>auto simp: T2 rest2\<close>)
  let ?g = "\<lambda>x. x\<lparr>g_scopes := (g_scopes s)(sc \<mapsto> c\<lparr>sc_live := sc_live c - 1\<rparr>), g_in_pump := True\<rparr>"
  have B: "sched_inv (?g s3) \<and> g_current s3 = ?t \<and> g_scopes s3 = g_scopes s"
  proof (cases "tk_awaiter k")
    case None
    then show ?thesis using s3 A rest2 by auto
  next
    case (Some a)
    have w: "wake_awaiter ?t a ?A = Inr (?g s3)"
      using s3 Some by (simp add: wake_awaiter_commute)
    obtain ka where ka: "g_tasks s a = Some ka" "awaits ?t ka"
      using inv_aw [OF inv] k Some by (fastforce simp: aw_ok_def holds_def split: option.splits)
    then have "a \<noteq> ?t" using k f(10) by auto
    then have "g_tasks ?A a = Some ka" using ka by (simp add: T2)
    then have "sched_inv (?g s3) \<and> g_current (?g s3) = g_current ?A"
      using wake_awaiter_inv [OF A _ ka(2) _ _ w] k1(4) by (simp add: T2)
    moreover have "g_scopes s3 = g_scopes s2"
      using s3 Some by (auto simp: wake_awaiter_def res_bind_eq_Inr split: if_splits)
    ultimately show ?thesis by (simp add: rest2)
  qed
  then have c3: "g_scopes s3 sc = Some c" and g3: "g_current s3 = ?t" by (simp_all add: c)
  have BB: "?g s3 = s3\<lparr>g_scopes := (g_scopes s3)(sc \<mapsto> c\<lparr>sc_live := sc_live c - 1\<rparr>), g_in_pump := True\<rparr>"
    using B by (simp add: rest2)
  have "sched_inv (s4\<lparr>g_in_pump := True\<rparr>)"
    using scope_child_done_eq [OF c3 BB s4]
  proof (elim disjE exE conjE)
    assume "s4\<lparr>g_in_pump := True\<rparr> = ?g s3"
    then show ?thesis using B by simp
  next
    fix w kw
    assume w: "sc_waiter c = Some w" "g_tasks s3 w = Some kw" and
      e: "s4\<lparr>g_in_pump := True\<rparr> = (set_task w (kw\<lparr>tk_in_rq := True\<rparr>)
           (set_scope sc (c\<lparr>sc_live := sc_live c - 1, sc_waiter := None\<rparr>) (?g s3)))\<lparr>g_rq := g_rq s3 @ [w]\<rparr>"
    show ?thesis
      by (rule inv_wake_joiner [OF conjunct1 [OF B], of sc "c\<lparr>sc_live := sc_live c - 1\<rparr>" w kw]) (simp_all add: w e)
  qed
  then show ?thesis
    using pump_reclaim_inv [OF _ _ s'] by simp
qed


section \<open>Creation\<close>

lemma holds_new: "T p = None \<Longrightarrow> \<not> P k \<Longrightarrow> holds P (T(p \<mapsto> k)) = holds P T"
  by (auto simp: fun_eq_iff)

lemma chan_ok_new:
  assumes "chan_ok T c ch" "T p = None" "\<And>b. \<not> parked_on b c k" "tk_sel_regs k = []"
  shows "chan_ok (T(p \<mapsto> k)) c ch"
proof -
  have "holds (selects c i) (T(p \<mapsto> k)) = holds (selects c i) T" for i
    using assms(2,4) by (intro holds_new) (auto simp: selects_def)
  then show ?thesis
    using assms(1-3) by (simp add: chan_ok_def queue_ok_def select_ok_def holds_new del: holds_simps)
qed

lemma members_new:
  assumes "T p = None" "active k" "finite (dom T)"
  shows "card (members q (T(p \<mapsto> k))) = card (members q T) + (if tk_scope k = Some q then 1 else 0)"
proof (cases "tk_scope k = Some q")
  case True
  then have "members q (T(p \<mapsto> k)) = insert p (members q T)" "p \<notin> members q T"
    using assms(1,2) by (auto simp: members_def)
  then show ?thesis using True finite_members [OF assms(3), of q] by simp
next
  case False
  then have "members q (T(p \<mapsto> k)) = members q T"
    using assms(1) by (auto simp: members_def)
  then show ?thesis using False by simp
qed

lemma task_create_inv:
  assumes inv: "sched_inv s" and np: "\<not> g_in_pump s" and fresh: "g_tasks s p = None"
    and r: "task_create p sc work b s = Inr s'"
  shows "sched_inv s' \<and> same_control s s' \<and> g_chans s' = g_chans s \<and>
     (\<exists>k. g_tasks s' p = Some k \<and> tk_scope k = Some sc \<and> tk_awaitable k = b)"
proof -
  define k where "k = blank_task\<lparr>tk_work := work, tk_awaitable := b, tk_scope := Some sc,
                         tk_roots := Some [Cell_work, Cell_pending], tk_ctx := At_entry, tk_in_rq := True\<rparr>"
  obtain c where c: "g_scopes s sc = Some c"
    and s': "s' = s\<lparr>g_tasks := (g_tasks s)(p \<mapsto> k), g_scopes := (g_scopes s)(sc \<mapsto> c\<lparr>sc_live := sc_live c + 1\<rparr>),
                    g_rq := g_rq s @ [p]\<rparr>"
    using r by (auto simp: task_create_def Let_def res_bind_eq_Inr set_task_def set_scope_def k_def)
  have k: "active k" "tk_park_kind k = PARK_NONE" "tk_in_rq k" "\<not> tk_on_io k" "tk_sel_regs k = []" "tk_awaiter k = None"
    "tk_deadline_child k = None" "tk_ctx k = At_entry" "\<not> tk_done k" "tk_scope k = Some sc" "tk_awaitable k = b"
    by (simp_all add: k_def blank_task_def active_def)
  have cur: "g_current s \<noteq> p"
    using inv np fresh by (auto simp: sched_inv_on_def)
  have nin: "p \<notin> set (g_rq s)" "p \<notin> set (g_io s)"
    using inv fresh by (auto simp: sched_inv_on_def queue_ok_def)
  have fin: "finite (dom (g_tasks s))"
    using inv by (simp add: sched_inv_on_def)
  have "sched_inv s'"
  proof (rule inv_gen [OF inv, of p])
    have "aw_ok {} (g_tasks s)" by (rule inv_aw [OF inv])
    moreover have "a \<noteq> p" if "holds P (g_tasks s) a" for P a
      using that fresh by (auto simp: holds_def)
    ultimately show "aw_ok {} (g_tasks s')" "join_ok (g_scopes s') (g_tasks s')"
      using k(6) scope_waiter_ok [OF inv] c by (fastforce simp: aw_ok_def join_ok_def s' split: if_splits)+
    show "chan_ok (g_tasks s') d ch" if "g_chans s' d = Some ch" for d ch
      using that k(2,5) fresh by (auto simp: s' parked_on_def intro!: chan_ok_new [OF inv_chanD [OF inv]])
    show "scope_ok (g_tasks s') q d" if q: "g_scopes s' q = Some d" for q d
    proof -
      obtain d0 where d0: "g_scopes s q = Some d0" "sc_forks d = sc_forks d0" "sc_live d = sc_live d0 + (if q = sc then 1 else 0)"
        using q s' c by (cases "q = sc") auto
      have "scope_ok (g_tasks s) q d0"
        using inv d0(1) by (simp add: sched_inv_on_def)
      then show ?thesis
        using members_new [OF fresh k(1) fin, of q] d0 k(10) fresh by (auto simp: scope_ok_def s')
    qed
  qed (use k cur nin c inv_rqD(1,3) [OF inv] fresh in \<open>auto simp: s' task_ok_def\<close>)
  then show ?thesis using s' k by (simp add: same_control_def)
qed

lemma same_control_trans: "same_control a b \<Longrightarrow> same_control b c \<Longrightarrow> same_control a c"
  by (simp add: same_control_def)

lemma scope_spawn_inv:
  assumes "sched_inv s" "\<not> g_in_pump s" "g_tasks s p = None" "scope_spawn p h work s = Inr (out, s')"
  shows "sched_inv s'"
  using assms task_create_inv [OF assms(1-3)] by (auto simp: scope_spawn_def res_bind_eq_Inr)

lemma inv_ht: "sched_inv_on X s \<Longrightarrow> sched_inv_on X (s\<lparr>g_ht := T\<rparr>)"
  by (erule inv_same_state) (simp add: same_state_def)

lemma task_fork_inv:
  assumes inv: "sched_inv s" and np: "\<not> g_in_pump s" and fresh: "g_tasks s p = None"
    and r: "task_fork p h work s = Inr (out, s')"
  shows "sched_inv s'"
proof -
  obtain sc s1 c th T k where s1: "task_create p sc work True s = Inr s1" and c: "g_scopes s1 sc = Some c"
    and k: "g_tasks s1 p = Some k"
    and s': "s' = set_task p (k\<lparr>tk_handle := th\<rparr>) ((set_scope sc (c\<lparr>sc_forks := p # sc_forks c\<rparr>) s1)\<lparr>g_ht := T\<rparr>)"
    using r by (auto simp: task_fork_def res_bind_eq_Inr)
  note cr = task_create_inv [OF inv np fresh s1]
  have i2: "sched_inv (set_scope sc (c\<lparr>sc_forks := p # sc_forks c\<rparr>) s1)"
  proof (rule inv_scope [OF conjunct1 [OF cr] c])
    fix f assume "f \<in> set (sc_forks (c\<lparr>sc_forks := p # sc_forks c\<rparr>))"
    then show "holds (\<lambda>k. tk_scope k = Some sc \<and> tk_awaitable k) (g_tasks s1) f"
      using cr scope_forks_ok [OF conjunct1 [OF cr] c, of f] by auto
  next
    fix a assume "sc_waiter (c\<lparr>sc_forks := p # sc_forks c\<rparr>) = Some a"
    then show "holds (joins sc) (g_tasks s1) a"
      using scope_waiter_ok [OF conjunct1 [OF cr] c] by simp
  qed simp
  show ?thesis
    by (rule inv_same_view [OF inv_ht [OF i2, of T], of p k "k\<lparr>tk_handle := th\<rparr>"]) (simp_all add: k same_view_def s')
qed

lemma scope_open_inv:
  assumes inv: "sched_inv s" and fresh: "g_scopes s p = None" and r: "scope_open p s = Inr (out, s')"
  shows "sched_inv s'"
proof -
  obtain c T where s': "s' = set_scope p c (s\<lparr>g_ht := T\<rparr>)" and c: "sc_live c = 0" "sc_forks c = []" "sc_waiter c = None"
    using r by (auto simp: scope_open_def res_bind_eq_Inr)
  have "members p (g_tasks s) = {}"
    using inv fresh by (fastforce simp: members_def holds_def sched_inv_on_def split: option.splits)
  then have "scope_ok (g_tasks s) p c"
    using c by (simp add: scope_ok_def)
  then have so: "\<forall>q d. ((g_scopes s)(p \<mapsto> c)) q = Some d \<longrightarrow> scope_ok (g_tasks s) q d"
    using inv by (auto simp: sched_inv_on_def)
  have j: "join_ok ((g_scopes s)(p \<mapsto> c)) (g_tasks s)"
    using inv c(3) by (auto simp: sched_inv_on_def join_ok_def)
  have "\<forall>t k q. g_tasks s t = Some k \<longrightarrow> active k \<longrightarrow> tk_scope k = Some q \<longrightarrow> ((g_scopes s)(p \<mapsto> c)) q \<noteq> None"
    using inv unfolding sched_inv_on_def by simp
  then show ?thesis
    using inv so j unfolding sched_inv_on_def s' by simp
qed

lemma ring_inv_extend: "ring_inv (ring.extend r m) = ring_inv r"
  by (simp add: ring_inv_def slot_of_def ring.defs)

lemma chan_new_inv:
  assumes inv: "sched_inv s" and fresh: "g_chans s p = None" and r: "chan_new p h n s = Inr (out, s')"
  shows "sched_inv s'"
proof -
  obtain ch T where s': "s' = set_chan p ch (s\<lparr>g_all_chans := p # g_all_chans s, g_ht := T\<rparr>)"
    and ch: "ring_inv ch" "ch_send_q ch = []" "ch_recv_q ch = []" "ch_select_q ch = []" "\<not> ch_closed ch"
  proof -
    obtain sc rg h' T where rg: "ring_new (nat n) = Inr rg"
      and s': "s' = set_chan p (ring.extend rg \<lparr>ch_handle = h', ch_send_q = [], ch_recv_q = [], ch_select_q = [], ch_closed = False,
                                   ch_scope = sc\<rparr>) (s\<lparr>g_all_chans := p # g_all_chans s, g_ht := T\<rparr>)"
      using r by (auto simp: chan_new_def Let_def res_bind_eq_Inr split: if_splits)
    have "ring_inv (ring.extend rg \<lparr>ch_handle = h', ch_send_q = [], ch_recv_q = [], ch_select_q = [], ch_closed = False, ch_scope = sc\<rparr>)"
      using ring_new_ok [OF rg] by (simp add: ring_inv_extend)
    then show ?thesis
      using that [OF s'] by (simp add: ring.defs)
  qed
  have nt: "\<not> parked_on b p k" "p \<notin> set (tk_sel_regs k)" if "g_tasks s t = Some k" for t k b
  proof -
    have d: "p \<notin> dom (g_chans s)" using fresh by auto
    have "tk_park_kind k = PARK_CHAN \<and> tk_park_chan k \<noteq> None \<longrightarrow> the (tk_park_chan k) \<in> dom (g_chans s)"
      "tk_sel_regs k \<noteq> [] \<longrightarrow> set (tk_sel_regs k) \<subseteq> dom (g_chans s)"
      using inv_taskD [OF inv that] unfolding task_ok_def by blast+
    then show "\<not> parked_on b p k" "p \<notin> set (tk_sel_regs k)"
      using d by (auto simp: parked_on_def)
  qed
  have "\<not> holds (parked_on b p) (g_tasks s) t" "\<not> holds (selects p i) (g_tasks s) t" for b i t
    using nt [of t] by (auto simp: holds_def selects_def split: option.splits)
  then have ok: "chan_ok (g_tasks s) p ch"
    using ch by (simp add: chan_ok_def chan_wf_def queue_ok_def select_ok_def)
  have "task_ok ((g_chans s)(p \<mapsto> ch)) b k" if "task_ok (g_chans s) b k" for b k
    using that unfolding task_ok_def by auto
  then show ?thesis
    using inv ok fresh unfolding sched_inv_on_def s' by auto
qed


section \<open>Cancellation\<close>

text \<open>A task is linked when it is on the list of the poller or on some queue of a channel.\<close>

definition linked :: "task \<Rightarrow> bool" where
  "linked k \<longleftrightarrow> active k \<and> (tk_on_io k \<or> tk_park_kind k = PARK_CHAN \<and> tk_park_chan k \<noteq> None \<or> tk_park_kind k = PARK_SELECT)"

definition unlinked :: "task \<Rightarrow> task \<Rightarrow> bool" where
  "unlinked k k1 \<longleftrightarrow> tk_in_rq k1 = tk_in_rq k \<and> \<not> tk_on_io k1 \<and> tk_sel_regs k1 = [] \<and>
     (tk_park_kind k1 = PARK_CHAN \<longrightarrow> tk_park_chan k1 = None) \<and> tk_park_kind k1 = tk_park_kind k \<and>
     tk_awaiter k1 = tk_awaiter k \<and> tk_awaitable k1 = tk_awaitable k \<and> tk_done k1 = tk_done k \<and> tk_scope k1 = tk_scope k \<and>
     tk_deadline_child k1 = tk_deadline_child k \<and> tk_roots k1 = tk_roots k \<and> tk_ctx k1 = tk_ctx k"

definition unlink_spec :: "nat \<Rightarrow> task \<Rightarrow> sched \<Rightarrow> sched \<Rightarrow> bool" where
  "unlink_spec t k s s1 \<longleftrightarrow> (\<exists>k1 C q.
     same_state (s\<lparr>g_tasks := (g_tasks s)(t \<mapsto> k1), g_chans := C, g_io := q\<rparr>) s1 \<and> g_ht s1 = g_ht s \<and> unlinked k k1 \<and>
     dom C = dom (g_chans s) \<and> (\<forall>d dh. C d = Some dh \<longrightarrow> chan_ok ((g_tasks s)(t \<mapsto> k1)) d dh) \<and>
     distinct q \<and> set q = set (g_io s) - {t})"

lemma linked_facts:
  assumes "task_ok C r k" "linked k"
  shows "active k" "\<not> tk_in_rq k" "\<not> r" "tk_park_kind k \<noteq> PARK_NONE" "\<not> joins p k"
    "tk_on_io k \<Longrightarrow> io_kind (tk_park_kind k)" "tk_sel_regs k \<noteq> [] \<Longrightarrow> tk_park_kind k = PARK_SELECT"
proof -
  have ok: "tk_in_rq k \<longrightarrow> tk_park_kind k = PARK_NONE" "r \<longrightarrow> tk_park_kind k = PARK_NONE"
    "tk_on_io k \<longrightarrow> active k \<and> io_kind (tk_park_kind k)"
    "tk_sel_regs k \<noteq> [] \<longrightarrow> active k \<and> tk_park_kind k = PARK_SELECT"
    using assms(1) unfolding task_ok_def by blast+
  then show "active k" and pk: "tk_park_kind k \<noteq> PARK_NONE"
    using assms(2) unfolding linked_def io_kind_def by (metis park_kind.distinct)+
  show "\<not> tk_in_rq k" "\<not> r" "\<not> joins p k" "tk_on_io k \<Longrightarrow> io_kind (tk_park_kind k)"
    "tk_sel_regs k \<noteq> [] \<Longrightarrow> tk_park_kind k = PARK_SELECT"
    using ok pk by (auto simp: joins_def)
qed

lemma chan_wf_sub:
  assumes "chan_wf ch" "set q \<subseteq> set (ch_send_q ch)" "set r \<subseteq> set (ch_recv_q ch)"
  shows "chan_wf (ch\<lparr>ch_send_q := q, ch_recv_q := r\<rparr>)"
  using assms by (auto simp: chan_wf_def)

lemma drop_select:
  assumes inv: "sched_inv_on X s" and k: "g_tasks s t = Some k" and pk: "tk_park_kind k = PARK_SELECT" "\<not> tk_on_io k"
    and r: "select_unlink_all t s = Inr s1"
  shows "unlink_spec t k s s1"
proof -
  obtain C where C: "regs_removed t (set (enumerate 0 (tk_sel_regs k))) (g_chans s) C"
    and s1: "s1 = s\<lparr>g_tasks := (g_tasks s)(t \<mapsto> k\<lparr>tk_sel_regs := []\<rparr>), g_chans := C\<rparr>"
    using r k by (auto simp: select_unlink_all_def res_bind_eq_Inr set_task_def dest!: sw_remove_fold)
  have "\<forall>d dh. C d = Some dh \<longrightarrow> chan_ok ((g_tasks s)(t \<mapsto> k\<lparr>tk_sel_regs := []\<rparr>)) d dh"
    using chans_gone [OF inv k C, of "k\<lparr>tk_sel_regs := []\<rparr>"] by (simp add: parked_on_def)
  moreover have "t \<notin> set (g_io s)"
    using inv_rqD(4) [OF inv k] pk(2) by simp
  ultimately show ?thesis
    unfolding unlink_spec_def
    by (intro exI [of _ "k\<lparr>tk_sel_regs := []\<rparr>"] exI [of _ C] exI [of _ "g_io s"])
      (use C pk inv_rqD(3) [OF inv] in \<open>auto simp: s1 same_state_def unlinked_def regs_removed_def\<close>)
qed

lemma drop_chan:
  assumes inv: "sched_inv_on X s" and k: "g_tasks s t = Some k" and c: "g_chans s c = Some ch"
    and pk: "tk_park_kind k = PARK_CHAN" "tk_park_chan k = Some c"
    and s1: "s1 = set_task t (k\<lparr>tk_park_chan := None\<rparr>)
       (set_chan c (if tk_is_sender k then ch\<lparr>ch_send_q := remove1 t (ch_send_q ch)\<rparr>
                    else ch\<lparr>ch_recv_q := remove1 t (ch_recv_q ch)\<rparr>) s)"
  shows "unlink_spec t k s s1"
proof -
  let ?k = "k\<lparr>tk_park_chan := None\<rparr>" and ?T = "(g_tasks s)(t \<mapsto> k\<lparr>tk_park_chan := None\<rparr>)"
  let ?b = "tk_is_sender k"
  let ?ch = "if ?b then ch\<lparr>ch_send_q := remove1 t (ch_send_q ch)\<rparr> else ch\<lparr>ch_recv_q := remove1 t (ch_recv_q ch)\<rparr>"
  have p: "parked_on ?b c k" using pk by (simp add: parked_on_def)
  note f = parked_chan_facts [OF inv_taskD [OF inv k] p]
  have np: "\<not> parked_on b d ?k" for b d by (simp add: parked_on_def)
  have ok: "chan_ok (g_tasks s) c ch" by (rule inv_chanD [OF inv c])
  have "queue_ok (remove1 t (ch_send_q ch)) (parked_on True c) ?T" "queue_ok (remove1 t (ch_recv_q ch)) (parked_on False c) ?T"
    using ok np by (auto simp: chan_ok_def intro: queue_ok_pop)
  moreover have "\<not> ?b \<Longrightarrow> t \<notin> set (ch_send_q ch)" "?b \<Longrightarrow> t \<notin> set (ch_recv_q ch)"
    using ok p k by (auto simp: chan_ok_def queue_ok_def parked_on_def)
  moreover have "select_ok (ch_select_q ch) c ?T"
    using ok k by (intro select_ok_same [of _ _ _ t k]) (auto simp: chan_ok_def)
  moreover have "chan_wf ?ch"
    using chan_wf_sub [of ch "remove1 t (ch_send_q ch)" "ch_recv_q ch"] chan_wf_sub [of ch "ch_send_q ch" "remove1 t (ch_recv_q ch)"]
      inv_chan_wf [OF inv c]
      set_remove1_subset [of t "ch_send_q ch"] set_remove1_subset [of t "ch_recv_q ch"] by (cases ?b) auto
  ultimately have "chan_ok ?T c ?ch"
    by (auto simp: chan_ok_def remove1_idem)
  moreover have "chan_ok ?T d dh" if "d \<noteq> c" "g_chans s d = Some dh" for d dh
    using that pk k by (intro chan_ok_same [OF inv_chanD [OF inv that(2)], of t k]) (auto simp: parked_on_def)
  ultimately have "\<forall>d dh. ((g_chans s)(c \<mapsto> ?ch)) d = Some dh \<longrightarrow> chan_ok ?T d dh"
    by (metis fun_upd_other fun_upd_same option.inject)
  then show ?thesis
    unfolding unlink_spec_def
    by (intro exI [of _ ?k] exI [of _ "(g_chans s)(c \<mapsto> ?ch)"] exI [of _ "g_io s"])
      (use f c pk inv_rqD(3) [OF inv] inv_rqD(4) [OF inv k] in \<open>auto simp: s1 same_state_def unlinked_def\<close>)
qed

lemma drop_io:
  assumes inv: "sched_inv_on X s" and k: "g_tasks s t = Some k" and io: "tk_on_io k"
    and s1: "same_state (s\<lparr>g_tasks := (g_tasks s)(t \<mapsto> k1), g_io := remove1 t (g_io s)\<rparr>) s1" "g_ht s1 = g_ht s"
    and k1: "same_view (k\<lparr>tk_on_io := False\<rparr>) k1" "tk_roots k1 = tk_roots k"
  shows "unlink_spec t k s s1"
proof -
  have f: "io_kind (tk_park_kind k)" "tk_sel_regs k = []"
    using inv_taskD [OF inv k] io by (auto simp: task_ok_def io_kind_def)
  have "chan_ok ((g_tasks s)(t \<mapsto> k1)) d dh" if "g_chans s d = Some dh" for d dh
    using k1 k that by (intro chan_ok_same [OF inv_chanD [OF inv that], of t k]) (auto simp: parked_on_def same_view_def)
  then show ?thesis
    unfolding unlink_spec_def
    by (intro exI [of _ k1] exI [of _ "g_chans s"] exI [of _ "remove1 t (g_io s)"])
      (use f k1 s1 inv_rqD(3) [OF inv] in \<open>auto simp: same_state_def unlinked_def same_view_def io_kind_def\<close>)
qed


lemma drop_registration_spec:
  assumes inv: "sched_inv_on X s" and k: "g_tasks s t = Some k" and l: "linked k" and r: "drop_registration t k s = Inr s1"
  shows "unlink_spec t k s s1"
proof -
  note f = linked_facts [OF inv_taskD [OF inv k] l]
  consider (select) "tk_park_kind k = PARK_SELECT" | (chan) "tk_park_kind k = PARK_CHAN"
    | (io) "tk_park_kind k \<noteq> PARK_SELECT" "tk_park_kind k \<noteq> PARK_CHAN" by blast
  then show ?thesis
  proof cases
    case select
    then show ?thesis
      using r f(6) by (intro drop_select [OF inv k]) (auto simp: drop_registration_def io_kind_def)
  next
    case chan
    then obtain c where "tk_park_chan k = Some c"
      using r by (auto simp: drop_registration_def split: option.splits)
    then show ?thesis
      using r chan k by (auto simp: drop_registration_def res_bind_eq_Inr intro!: drop_chan [OF inv k])
  next
    case io
    then have on: "tk_on_io k"
      using l f(7) by (auto simp: linked_def)
    let ?pk = "tk_park_kind k"
    have kind: "drop_registration t k s =
        res_bind (if ?pk = PARK_TIMER \<or> ?pk = PARK_FD_TIMER
                    then if \<not> tk_timer_dead k
                         then upd_task t (\<lambda>k. k\<lparr>tk_timer_dead := True\<rparr>) (effect (Remove_timer (tk_timer_id k)) s)
                         else Inr s
                    else Inr s) (\<lambda>s1.
            let s2 = (if ?pk \<noteq> PARK_TIMER then effect (Poll_remove (tk_park_fd k) (tk_park_interest k)) s1 else s1) in
            res_bind (sched_io_remove t s2) (\<lambda>s3.
              if tk_park_close_fd k \<ge> 0
              then upd_task t (\<lambda>k. k\<lparr>tk_park_close_fd := - 1\<rparr>) (effect (Close_fd (tk_park_close_fd k)) s3)
              else Inr s3))"
      using io by (simp add: drop_registration_def split: park_kind.split)
    obtain sA where sA: "(if ?pk = PARK_TIMER \<or> ?pk = PARK_FD_TIMER
                    then if \<not> tk_timer_dead k
                         then upd_task t (\<lambda>k. k\<lparr>tk_timer_dead := True\<rparr>) (effect (Remove_timer (tk_timer_id k)) s)
                         else Inr s
                    else Inr s) = Inr sA"
      and rA: "res_bind (sched_io_remove t (if ?pk \<noteq> PARK_TIMER then effect (Poll_remove (tk_park_fd k) (tk_park_interest k)) sA else sA)) (\<lambda>s3.
              if tk_park_close_fd k \<ge> 0
              then upd_task t (\<lambda>k. k\<lparr>tk_park_close_fd := - 1\<rparr>) (effect (Close_fd (tk_park_close_fd k)) s3)
              else Inr s3) = Inr s1"
      using r unfolding kind Let_def by (rule res_bindE)
    obtain kA where A: "same_state (s\<lparr>g_tasks := (g_tasks s)(t \<mapsto> kA)\<rparr>) sA" "g_ht sA = g_ht s" "same_view k kA" "tk_roots kA = tk_roots k"
    proof (cases "(?pk = PARK_TIMER \<or> ?pk = PARK_FD_TIMER) \<and> \<not> tk_timer_dead k")
      case True
      then show ?thesis
        using sA k that [of "k\<lparr>tk_timer_dead := True\<rparr>"] by (auto simp: same_state_def same_view_def)
    next
      case False
      then have "sA = s" using sA by (auto split: if_splits)
      then show ?thesis
        using k that [of k] by (simp add: same_state_def same_view_def map_upd_triv)
    qed
    let ?kB = "kA\<lparr>tk_on_io := False\<rparr>"
    have B: "same_state (s\<lparr>g_tasks := (g_tasks s)(t \<mapsto> if tk_park_close_fd k \<ge> 0 then ?kB\<lparr>tk_park_close_fd := - 1\<rparr> else ?kB),
        g_io := remove1 t (g_io s)\<rparr>) s1 \<and> g_ht s1 = g_ht s"
      using rA A(1,2) by (auto simp: res_bind_eq_Inr same_state_def split: if_splits)
    show ?thesis
      by (rule drop_io [OF inv k on conjunct1 [OF B] conjunct2 [OF B]]) (use A(3,4) in \<open>auto simp: same_view_def\<close>)
  qed
qed

lemma force_drop_steps:
  assumes r: "force_drop_task t s = Inr s'" and k: "g_tasks s t = Some k"
  obtains s1 s2 s3 p where "tk_deadline_child k = None" "tk_awaiter k = None \<or> tk_awaiter k = Some (g_current s)"
    "drop_registration t k s = Inr s1" "run_park_cleanup t k s1 = Inr s2" "drop_record t k s2 = Inr s3"
    "tk_scope k = Some p" "upd_scope p (\<lambda>c. c\<lparr>sc_live := sc_live c - 1\<rparr>) s3 = Inr s'"
proof -
  have g: "get_task t s = Inr k" using k by simp
  have a: "\<not> (tk_awaiter k \<noteq> None \<and> tk_awaiter k \<noteq> Some (g_current s))"
    using r unfolding force_drop_task_def g res_bind_simps by (rule contrapos_pn) simp
  have b: "\<not> tk_deadline_child k \<noteq> None"
    using r unfolding force_drop_task_def g res_bind_simps if_not_P [OF a] by (rule contrapos_pn) simp
  obtain s1 where s1: "drop_registration t k s = Inr s1"
    and r1: "res_bind (run_park_cleanup t k s1) (\<lambda>s2. res_bind (drop_record t k s2) (\<lambda>s3.
             case tk_scope k of None \<Rightarrow> Inl NullDeref
             | Some sc \<Rightarrow> upd_scope sc (\<lambda>c. c\<lparr>sc_live := sc_live c - 1\<rparr>) s3)) = Inr s'"
    using r unfolding force_drop_task_def g res_bind_simps if_not_P [OF a] if_not_P [OF b] by (rule res_bindE)
  from r1 obtain s2 s3 where s2: "run_park_cleanup t k s1 = Inr s2" and s3: "drop_record t k s2 = Inr s3"
    and e: "(case tk_scope k of None \<Rightarrow> Inl NullDeref
             | Some sc \<Rightarrow> upd_scope sc (\<lambda>c. c\<lparr>sc_live := sc_live c - 1\<rparr>) s3) = Inr s'"
    by (elim res_bindE)
  then obtain p where p: "tk_scope k = Some p" by (cases "tk_scope k") simp_all
  show thesis
    using that [OF _ _ s1 s2 s3 p] a b e p by simp
qed

lemma force_drop_inv:
  assumes inv: "sched_inv s" and np: "\<not> g_in_pump s" and k: "g_tasks s t = Some k" and l: "linked k"
    and r: "force_drop_task t s = Inr s'"
  shows "sched_inv s' \<and> same_control s s' \<and> (\<forall>u. u \<noteq> t \<longrightarrow> g_tasks s' u = g_tasks s u)"
proof -
  note tk = inv_taskD [OF inv k]
  note f = linked_facts [OF tk l]
  have nt: "t \<noteq> g_current s" using f(3) np by auto
  obtain s1 s2 s3 p where dc: "tk_deadline_child k = None" and aw: "tk_awaiter k = None \<or> tk_awaiter k = Some (g_current s)"
    and s1: "drop_registration t k s = Inr s1"
    and s2: "run_park_cleanup t k s1 = Inr s2" and s3: "drop_record t k s2 = Inr s3"
    and p: "tk_scope k = Some p" and s': "upd_scope p (\<lambda>c. c\<lparr>sc_live := sc_live c - 1\<rparr>) s3 = Inr s'"
    using r k by (rule force_drop_steps)
  obtain k1 C q where st: "same_state (s\<lparr>g_tasks := (g_tasks s)(t \<mapsto> k1), g_chans := C, g_io := q\<rparr>) s1" "g_ht s1 = g_ht s"
    and u: "unlinked k k1" and C: "dom C = dom (g_chans s)" "\<forall>d dh. C d = Some dh \<longrightarrow> chan_ok ((g_tasks s)(t \<mapsto> k1)) d dh"
    and q: "distinct q" "set q = set (g_io s) - {t}"
    using drop_registration_spec [OF inv k l s1] unfolding unlink_spec_def by (elim exE conjE)
  obtain k2 where st2: "same_state (s\<lparr>g_tasks := (g_tasks s)(t \<mapsto> k2), g_chans := C, g_io := q\<rparr>) s2" "g_ht s2 = g_ht s"
    and v2: "same_view k1 k2"
  proof (cases "tk_park_cleanup k")
    case None
    then show ?thesis using that [of k1] s2 st by (simp add: run_park_cleanup_def same_view_def)
  next
    case (Some a)
    then show ?thesis
      using that [of "k1\<lparr>tk_park_cleanup := None\<rparr>"] s2 st by (auto simp: run_park_cleanup_def same_state_def same_view_def)
  qed
  have "tk_awaiter k = None"
  proof (rule ccontr)
    assume "tk_awaiter k \<noteq> None"
    then have "holds (awaits t) (g_tasks s) (g_current s)"
      using aw inv_aw [OF inv] k by (auto simp: aw_ok_def)
    moreover obtain kc where "g_tasks s (g_current s) = Some kc" "task_ok (g_chans s) True kc"
      using inv_currentD [OF inv np] .
    ultimately show False using running_facts(10) by fastforce
  qed
  then have k2: "\<not> tk_in_rq k2" "\<not> tk_on_io k2" "tk_awaiter k2 = None" "tk_sel_regs k2 = []" "tk_scope k2 = Some p"
    "tk_awaitable k2 = tk_awaitable k" "tk_park_kind k2 = PARK_CHAN \<longrightarrow> tk_park_chan k2 = None" "\<not> tk_done k2"
    "tk_deadline_child k2 = None"
    using u v2 f(1,2) p dc by (auto simp: unlinked_def same_view_def active_def)
  obtain c where c: "g_scopes s p = Some c"
    using inv k f(1) p unfolding sched_inv_on_def by blast
  define T' where "T' = (g_tasks s)(t := if tk_awaitable k then Some (k2\<lparr>tk_ctx := Destroyed, tk_roots := None\<rparr>) else None)"
  have fin: "same_state (s\<lparr>g_tasks := T', g_chans := C, g_io := q, g_scopes := (g_scopes s)(p \<mapsto> c\<lparr>sc_live := sc_live c - 1\<rparr>)\<rparr>) s' \<and>
      g_ht s' = g_ht s"
    using s3 s' st2 c by (auto simp: drop_record_def same_state_def T'_def split: if_splits)
  have chk: "chan_ok T' d dh" if "C d = Some dh" for d dh
  proof -
    have np2: "\<not> parked_on b d k2" for b using k2(7) by (auto simp: parked_on_def)
    have "chan_ok (((g_tasks s)(t \<mapsto> k1))(t \<mapsto> k2)) d dh"
      using v2 by (intro chan_ok_same [OF C(2) [rule_format, OF that], of t k1]) (auto simp: same_view_def parked_on_def)
    then have c2: "chan_ok ((g_tasks s)(t \<mapsto> k2)) d dh" by simp
    show ?thesis
      using chan_ok_freed [OF c2, of t k2] np2 k2(4)
        chan_ok_same [OF c2, of t k2 "k2\<lparr>tk_ctx := Destroyed, tk_roots := None\<rparr>"]
      by (cases "tk_awaitable k") (auto simp: T'_def parked_on_def)
  qed
  have naw: "\<not> awaits v k" for v
    using f(2,4) dc tk by (auto simp: awaits_def)
  have "sched_inv s'"
  proof (rule inv_end [OF inv k f(1) p c])
  qed (use fin chk k2 naw f nt np C(1) q inv_rqD(1) [OF inv] inv_rqD(2) [OF inv k] in
        \<open>auto simp: same_state_def T'_def active_def\<close>)
  then show ?thesis using fin by (simp add: same_state_def same_control_def T'_def)
qed

lemma cancel_one_inv:
  assumes inv: "sched_inv s" and np: "\<not> g_in_pump s" and l: "holds linked (g_tasks s) t" and r: "cancel_one sc t s = Inr s'"
  shows "sched_inv s' \<and> same_control s s' \<and> (\<forall>u. u \<noteq> t \<longrightarrow> g_tasks s' u = g_tasks s u)"
proof -
  obtain k where k: "g_tasks s t = Some k" "linked k"
    using l by (auto simp: holds_def split: option.splits)
  obtain b where r': "(if b then force_drop_task t s else Inr s) = Inr s'"
    using r unfolding cancel_one_def by (rule res_bindE)
  show ?thesis
  proof (cases b)
    case True
    then show ?thesis using force_drop_inv [OF inv np k] r' by simp
  next
    case False
    then show ?thesis using inv r' by (simp add: same_control_def)
  qed
qed

lemma cancel_fold_inv:
  assumes "sched_inv s" "\<not> g_in_pump s" "distinct ts" "\<forall>t \<in> set ts. holds linked (g_tasks s) t"
    "res_fold (cancel_one sc) ts s = Inr s'"
  shows "sched_inv s' \<and> same_control s s'"
  using assms
proof (induction ts arbitrary: s)
  case Nil
  then show ?case by (simp add: same_control_def)
next
  case (Cons t ts)
  obtain s1 where s1: "cancel_one sc t s = Inr s1" and r: "res_fold (cancel_one sc) ts s1 = Inr s'"
    using Cons.prems(5) unfolding res_fold.simps by (rule res_bindE)
  have i: "sched_inv s1" "same_control s s1" "\<forall>u. u \<noteq> t \<longrightarrow> g_tasks s1 u = g_tasks s u"
    using cancel_one_inv [OF Cons.prems(1,2) _ s1] Cons.prems(4) by auto
  have "\<forall>u \<in> set ts. holds linked (g_tasks s1) u"
  proof
    fix u assume u: "u \<in> set ts"
    then have "u \<noteq> t" using Cons.prems(3) by auto
    then show "holds linked (g_tasks s1) u"
      using i(3) Cons.prems(4) u by (simp add: holds_def)
  qed
  moreover have "\<not> g_in_pump s1" using i(2) Cons.prems(2) by (simp add: same_control_def)
  ultimately show ?case
    using Cons.IH [OF i(1) _ _ _ r] Cons.prems(3) same_control_trans [OF i(2)] by simp
qed

lemma io_linked:
  assumes inv: "sched_inv_on X s" and t: "t \<in> set (g_io s)"
  shows "holds linked (g_tasks s) t"
proof -
  have "holds tk_on_io (g_tasks s) t"
    using inv t unfolding sched_inv_on_def queue_ok_def by blast
  then obtain k where k: "g_tasks s t = Some k" "tk_on_io k" by (auto simp: holds_def split: option.splits)
  moreover have "active k"
    using inv_taskD [OF inv k(1)] k(2) unfolding task_ok_def by blast
  ultimately show ?thesis by (simp add: linked_def)
qed

lemma waiter_linked:
  assumes inv: "sched_inv_on X s" and c: "g_chans s c = Some ch" and t: "t \<in> set (if b then ch_send_q ch else ch_recv_q ch)"
  shows "holds linked (g_tasks s) t"
proof -
  obtain k where k: "g_tasks s t = Some k" "parked_on b c k"
    using queue_parked [OF inv_chanD [OF inv c] t] .
  then show ?thesis
    using parked_chan_facts(1) [OF inv_taskD [OF inv k(1)] k(2)] by (simp add: linked_def parked_on_def)
qed

lemma selector_linked:
  assumes inv: "sched_inv_on X s" and c: "g_chans s c = Some ch" and t: "(t, i) \<in> set (ch_select_q ch)"
  shows "holds linked (g_tasks s) t"
proof -
  have "holds (selects c i) (g_tasks s) t"
    using inv_chanD [OF inv c] t unfolding chan_ok_def select_ok_def by blast
  then obtain k where k: "g_tasks s t = Some k" "tk_sel_regs k \<noteq> []" using selects_regs by blast
  moreover have "active k \<and> tk_park_kind k = PARK_SELECT"
    using inv_taskD [OF inv k(1)] k(2) unfolding task_ok_def by blast
  ultimately show ?thesis by (simp add: linked_def)
qed

lemma first_to_cancel_mem: "first_to_cancel sc ws s = Inr (Some t) \<Longrightarrow> \<exists>i. (t, i) \<in> set ws"
  by (induction ws) (force simp: res_bind_eq_Inr split: if_splits)+

lemma cancel_selects_inv:
  "sched_inv s \<Longrightarrow> \<not> g_in_pump s \<Longrightarrow> cancel_selects n sc c s = Inr s' \<Longrightarrow> sched_inv s' \<and> same_control s s'"
proof (induction n arbitrary: s)
  case 0
  then show ?case by (simp add: same_control_def)
next
  case (Suc n)
  obtain ch w where ch: "get_chan c s = Inr ch" and w: "first_to_cancel sc (ch_select_q ch) s = Inr w"
    and r: "(case w of None \<Rightarrow> Inr s | Some t \<Rightarrow> res_bind (force_drop_task t s) (cancel_selects n sc c)) = Inr s'"
    using Suc.prems(3) unfolding cancel_selects.simps by (elim res_bindE)
  show ?case
  proof (cases w)
    case None
    then show ?thesis using Suc.prems r by (simp add: same_control_def)
  next
    case (Some t)
    then obtain i where "(t, i) \<in> set (ch_select_q ch)" using first_to_cancel_mem w by blast
    then have "holds linked (g_tasks s) t" using selector_linked [OF Suc.prems(1)] ch by simp
    then obtain k where k: "g_tasks s t = Some k" "linked k"
      by (auto simp: holds_def split: option.splits)
    obtain s1 where s1: "force_drop_task t s = Inr s1" and r1: "cancel_selects n sc c s1 = Inr s'"
      using r unfolding Some option.case by (rule res_bindE)
    have i1: "sched_inv s1" "same_control s s1"
      using force_drop_inv [OF Suc.prems(1,2) k s1] by auto
    moreover have "\<not> g_in_pump s1" using i1(2) Suc.prems(2) by (simp add: same_control_def)
    ultimately show ?thesis
      using Suc.IH [OF _ _ r1] same_control_trans by blast
  qed
qed

lemma cancel_chan_inv:
  assumes inv: "sched_inv s" and np: "\<not> g_in_pump s" and r: "cancel_chan sc c s = Inr s'"
  shows "sched_inv s' \<and> same_control s s'"
proof -
  obtain ch s1 ch1 s2 ch2 where ch: "get_chan c s = Inr ch" and s1: "res_fold (cancel_one sc) (ch_send_q ch) s = Inr s1"
    and ch1: "get_chan c s1 = Inr ch1" and s2: "res_fold (cancel_one sc) (ch_recv_q ch1) s1 = Inr s2"
    and "get_chan c s2 = Inr ch2" and r: "cancel_selects (length (ch_select_q ch2)) sc c s2 = Inr s'"
    using r unfolding cancel_chan_def by (elim res_bindE)
  have d: "distinct (ch_send_q ch) \<and> distinct (ch_recv_q ch)" if "sched_inv s" "g_chans s c = Some ch" for s ch
    using inv_chanD [OF that] by (simp add: chan_ok_def queue_ok_def)
  have i1: "sched_inv s1 \<and> same_control s s1"
    using cancel_fold_inv [OF inv np _ _ s1] d [OF inv] ch waiter_linked [OF inv, of c ch _ True] by simp
  then have np1: "\<not> g_in_pump s1" and inv1: "sched_inv s1" using np by (simp_all add: same_control_def)
  have i2: "sched_inv s2 \<and> same_control s1 s2"
    using cancel_fold_inv [OF inv1 np1 _ _ s2] d [OF inv1] ch1 waiter_linked [OF inv1, of c ch1 _ False] by simp
  then have np2: "\<not> g_in_pump s2" and inv2: "sched_inv s2" using np1 by (simp_all add: same_control_def)
  show ?thesis
    using cancel_selects_inv [OF inv2 np2 r] i1 i2 same_control_trans by blast
qed

lemma cancel_chans_inv:
  "sched_inv s \<Longrightarrow> \<not> g_in_pump s \<Longrightarrow> res_fold (cancel_chan sc) cs s = Inr s' \<Longrightarrow> sched_inv s' \<and> same_control s s'"
proof (induction cs arbitrary: s)
  case Nil
  then show ?case by (simp add: same_control_def)
next
  case (Cons c cs)
  obtain s1 where s1: "cancel_chan sc c s = Inr s1" and r: "res_fold (cancel_chan sc) cs s1 = Inr s'"
    using Cons.prems(3) unfolding res_fold.simps by (rule res_bindE)
  have i: "sched_inv s1" "same_control s s1" using cancel_chan_inv [OF Cons.prems(1,2) s1] by auto
  moreover have "\<not> g_in_pump s1" using i(2) Cons.prems(2) by (simp add: same_control_def)
  ultimately show ?case using Cons.IH [OF _ _ r] same_control_trans by blast
qed

lemma scope_cancel_inv:
  assumes inv: "sched_inv s" and np: "\<not> g_in_pump s" and r: "scope_cancel h s = Inr (out, s')"
  shows "sched_inv s'"
proof -
  obtain sc c where c: "g_scopes s sc = Some c" and own: "g_current s = sc_owner c"
    and r1: "res_bind (res_fold (cancel_one sc) (g_io s) (set_scope sc (c\<lparr>sc_reason := REASON_CANCELLED\<rparr>) s)) (\<lambda>s2.
             res_bind (res_fold (cancel_chan sc) (g_all_chans s2) s2) (returned RUnit)) = Inr (out, s')"
    using r unfolding scope_cancel_def by (elim res_bindE) (simp add: Let_def split: if_splits)
  let ?s = "set_scope sc (c\<lparr>sc_reason := REASON_CANCELLED\<rparr>) s"
  have inv1: "sched_inv ?s" by (rule cancel_reason_inv [OF inv c])
  obtain s2 s3 where s2: "res_fold (cancel_one sc) (g_io s) ?s = Inr s2" and s3: "res_fold (cancel_chan sc) (g_all_chans s2) s2 = Inr s3"
    and e: "returned RUnit s3 = Inr (out, s')"
    using r1 by (elim res_bindE)
  have i2: "sched_inv s2 \<and> same_control ?s s2"
    using cancel_fold_inv [OF inv1 _ _ _ s2] io_linked [OF inv] np inv_rqD(3) [OF inv] by simp
  then have "\<not> g_in_pump s2" using np by (simp add: same_control_def)
  then show ?thesis
    using cancel_chans_inv [OF _ _ s3] i2 e by simp
qed

section \<open>Deadlines\<close>

lemma await_deadline_inv:
  assumes inv: "sched_inv s" and np: "\<not> g_in_pump s" and r: "await_deadline h th ms tm s = Inr (out, s')"
  shows "sched_inv s'"
proof -
  let ?o = "g_current s"
  obtain sc child where r1: "(case tm of None \<Rightarrow> Inl (SproutFail ''with_timeout: could not arm the deadline timer (descriptor exhaustion?)'')
         | Some tid \<Rightarrow>
             res_bind (upd_task ?o (\<lambda>k. k\<lparr>tk_park_kind := PARK_TIMER, tk_timer_id := tid, tk_timer_dead := False,
                                             tk_deadline_child := Some child\<rparr>)
                         (effect (Add_timer ms ?o tid) s)) (\<lambda>s1.
               res_bind (sched_io_push ?o s1) (\<lambda>s2.
                 res_bind (upd_task child (\<lambda>k. k\<lparr>tk_awaiter := Some ?o\<rparr>) s2) (parked (In_deadline sc child))))) = Inr (out, s')"
    using r unfolding await_deadline_def Let_def by (elim res_bindE)
  then obtain tid where tm: "tm = Some tid" by (cases tm) auto
  obtain ko where ko: "g_tasks s ?o = Some ko" and ok: "task_ok (g_chans s) True ko" using inv_currentD [OF inv np] .
  define k1 where "k1 = ko\<lparr>tk_park_kind := PARK_TIMER, tk_timer_id := tid, tk_timer_dead := False,
      tk_deadline_child := Some child, tk_on_io := True\<rparr>"
  define sa where "sa = (set_task ?o k1 (effect (Add_timer ms ?o tid) s))\<lparr>g_io := ?o # g_io s\<rparr>"
  have "res_bind (upd_task child (\<lambda>k. k\<lparr>tk_awaiter := Some ?o\<rparr>) sa) (parked (In_deadline sc child)) = Inr (out, s')"
  proof -
    obtain s1 where s1: "upd_task ?o (\<lambda>k. k\<lparr>tk_park_kind := PARK_TIMER, tk_timer_id := tid, tk_timer_dead := False,
          tk_deadline_child := Some child\<rparr>) (effect (Add_timer ms ?o tid) s) = Inr s1"
      and r2: "res_bind (sched_io_push ?o s1) (\<lambda>s2.
                 res_bind (upd_task child (\<lambda>k. k\<lparr>tk_awaiter := Some ?o\<rparr>) s2) (parked (In_deadline sc child))) = Inr (out, s')"
      using r1 unfolding tm option.case by (rule res_bindE)
    obtain s2 where s2: "sched_io_push ?o s1 = Inr s2"
      and r2: "res_bind (upd_task child (\<lambda>k. k\<lparr>tk_awaiter := Some ?o\<rparr>) s2) (parked (In_deadline sc child)) = Inr (out, s')"
      using r2 by (rule res_bindE)
    have "s2 = sa" using s1 s2 ko by (auto simp: effect_def set_task_def sa_def k1_def)
    then show ?thesis using r2 by simp
  qed
  then obtain sb kc where kc: "g_tasks sa child = Some kc" and sb: "sb = set_task child (kc\<lparr>tk_awaiter := Some ?o\<rparr>) sa"
    and p: "parked (In_deadline sc child) sb = Inr (out, s')"
    by (elim res_bindE) auto
  obtain k0 where k0: "g_tasks s child = Some k0" "child = ?o \<longrightarrow> k0 = ko \<and> kc = k1" "child \<noteq> ?o \<longrightarrow> kc = k0"
    using kc ko by (cases "child = ?o") (auto simp: sa_def)
  let ?s0 = "set_task child (k0\<lparr>tk_awaiter := Some ?o\<rparr>) s"
  have inv0: "sched_inv_on {child} ?s0" by (rule inv_new_awaiter [OF inv k0(1)])
  let ?a = "if child = ?o then Some ?o else tk_awaiter ko"
  have ko0: "g_tasks ?s0 (g_current ?s0) = Some (ko\<lparr>tk_awaiter := ?a\<rparr>)" using ko k0(2) by auto
  let ?k = "k1\<lparr>tk_awaiter := ?a, tk_ctx := In_deadline sc child\<rparr>"
  have st: "same_state (?s0\<lparr>g_tasks := (g_tasks ?s0)(g_current ?s0 \<mapsto> ?k), g_io := g_current ?s0 # g_io ?s0, g_in_pump := True\<rparr>) s'"
  proof -
    have T: "((g_tasks s)(?o \<mapsto> k1))(child \<mapsto> kc\<lparr>tk_awaiter := Some ?o\<rparr>, ?o \<mapsto> ?k) = ((g_tasks s)(child \<mapsto> k0\<lparr>tk_awaiter := Some ?o\<rparr>, ?o \<mapsto> ?k))"
      using k0(2,3) by (cases "child = ?o") (simp_all add: fun_eq_iff)
    have kb: "g_tasks sb ?o = Some (k1\<lparr>tk_awaiter := ?a\<rparr>)"
      using k0(2,3) by (cases "child = ?o") (simp_all add: sb sa_def k1_def)
    have cb: "g_current sb = ?o" by (simp add: sb sa_def effect_def)
    have "s' = (set_task ?o ?k sb)\<lparr>g_in_pump := True\<rparr>"
      using p kb by (simp add: cb)
    then show ?thesis
      using T by (simp add: same_state_def sb sa_def effect_def)
  qed
  have inv': "sched_inv_on {child} s'"
    by (rule inv_park_io [OF inv0 _ ko0 _ _ _ _ _ st, where pk = PARK_TIMER and dc = "Some child" and fr = "In_deadline sc child"])
      (use np running_facts [OF ok] in \<open>auto simp: io_kind_def same_view_def k1_def\<close>)
  have "g_tasks s' ?o = Some ?k" using st by (simp add: same_state_def)
  moreover have "awaits child ?k" using running_facts(1) [OF ok] by (simp add: awaits_def k1_def)
  moreover have "tk_awaiter k' = Some ?o" if "g_tasks s' child = Some k'" for k'
    using that st by (auto simp: same_state_def split: if_splits)
  ultimately have "holds (awaits child) (g_tasks s') a" if "g_tasks s' child = Some k'" "tk_awaiter k' = Some a" for k' a
    using that by auto
  then show ?thesis
    using inv_on_aw [OF inv'] aw_ok_discharge [of child "{}" "g_tasks s'"] inv_aw [OF inv'] by blast
qed

lemma deadline_expired_inv:
  assumes inv: "sched_inv_on {child} s" and np: "\<not> g_in_pump s" and k: "g_tasks s child = Some k"
    and pk: "tk_on_io k \<or> tk_park_kind k = PARK_CHAN \<or> tk_park_kind k = PARK_SELECT"
    and r: "deadline_expired sc child s = Inr (out, s')"
  shows "sched_inv s'"
proof -
  obtain s1 s2 s3 where s1: "upd_scope sc (\<lambda>c. c\<lparr>sc_reason := REASON_TIMEDOUT\<rparr>) s = Inr s1"
    and s2: "upd_task child (\<lambda>k. k\<lparr>tk_awaiter := None\<rparr>) s1 = Inr s2" and s3: "force_drop_task child s2 = Inr s3"
    and e: "returned (RFlag False) s3 = Inr (out, s')"
    using r unfolding deadline_expired_def by (elim res_bindE)
  obtain c where c: "g_scopes s sc = Some c" and s1: "s1 = set_scope sc (c\<lparr>sc_reason := REASON_TIMEDOUT\<rparr>) s"
    using s1 by auto
  have inv1: "sched_inv_on {child} s1" unfolding s1 by (rule cancel_reason_inv [OF inv c])
  let ?k = "k\<lparr>tk_awaiter := None\<rparr>"
  have s2: "s2 = set_task child ?k s1" using s2 k by (simp add: s1)
  have inv2: "sched_inv s2"
    using inv_clear_awaiter [OF inv1, of child k] k by (simp add: s1 s2)
  have k2: "g_tasks s2 child = Some ?k" by (simp add: s2)
  obtain sA sB sC where sA: "drop_registration child ?k s2 = Inr sA" and sC: "drop_record child ?k sB = Inr sC"
    using s3 k2 by (rule force_drop_steps)
  have roots: "tk_roots k \<noteq> None" using sC by (auto simp: drop_record_def split: if_splits)
  have ch: "tk_park_kind k = PARK_CHAN \<Longrightarrow> tk_park_chan k \<noteq> None"
    using sA by (auto simp: drop_registration_def split: option.splits)
  have dn: "tk_done k \<longrightarrow> tk_park_kind k = PARK_NONE" "tk_on_io k \<longrightarrow> active k"
    using inv_taskD [OF inv k] unfolding task_ok_def by blast+
  then have "active k" using pk roots by (auto simp: active_def)
  then have l: "linked ?k" using ch pk by (auto simp: linked_def)
  show ?thesis
    using force_drop_inv [OF inv2 _ k2 l s3] np e by (simp add: s1 s2)
qed

lemma inv_park_ready:
  assumes inv: "sched_inv s" and np: "\<not> g_in_pump s" and fr: "fr \<noteq> Running" "fr \<noteq> Destroyed"
    and r: "res_bind (sched_rq_push (g_current s) s) (parked fr) = Inr (out, s')"
  shows "sched_inv s'"
proof -
  obtain k where k: "g_tasks s (g_current s) = Some k" and ok: "task_ok (g_chans s) True k" using inv_currentD [OF inv np] .
  show ?thesis
    by (rule inv_park [OF inv np refl k fr, where io = False and ready = True and pk = PARK_NONE and dc = None
          and k = "k\<lparr>tk_in_rq := True, tk_ctx := fr\<rparr>"])
      (use r k running_facts [OF ok] in \<open>auto simp: io_kind_def same_view_def same_state_def elim!: res_bindE\<close>)
qed

lemma deadline_classify_inv:
  assumes inv: "sched_inv_on {child} s" and np: "\<not> g_in_pump s" and r: "deadline_classify sc child s = Inr (out, s')"
  shows "sched_inv s'"
proof -
  obtain ko where ko: "g_tasks s (g_current s) = Some ko" and ok: "task_ok (g_chans s) True ko" using inv_currentD [OF inv np] .
  obtain k where k: "get_task child s = Inr k"
    using r unfolding deadline_classify_def Let_def by (rule res_bindE)
  then have kt: "g_tasks s child = Some k" by simp
  have "get_task (g_current s) s = Inr ko" using ko by simp
  note r1 = r [unfolded deadline_classify_def Let_def k res_bind_simps this]
  have clr: "sched_inv (set_task child (k\<lparr>tk_awaiter := None\<rparr>) s)"
    using inv_clear_awaiter [OF inv kt] by simp
  have upd: "upd_task child (\<lambda>k. k\<lparr>tk_awaiter := None\<rparr>) s = Inr (set_task child (k\<lparr>tk_awaiter := None\<rparr>) s)"
    using kt by simp
  consider (fin) "tk_done k" | (exp) "\<not> tk_done k" "tk_on_io k \<or> tk_park_kind k = PARK_CHAN \<or> tk_park_kind k = PARK_SELECT"
    | (ready) "\<not> tk_done k" "\<not> (tk_on_io k \<or> tk_park_kind k = PARK_CHAN \<or> tk_park_kind k = PARK_SELECT)" "tk_in_rq k"
    using r1 by (fastforce split: if_splits)
  then show ?thesis
  proof cases
    case fin
    then have "s' = set_task child (k\<lparr>tk_awaiter := None\<rparr>) s"
      using r1 running_facts(5) [OF ok] by (simp add: upd del: upd_Inr)
    then show ?thesis using clr by simp
  next
    case exp
    then show ?thesis using r1 deadline_expired_inv [OF inv np kt exp(2)] by simp
  next
    case ready
    let ?s = "set_task child (k\<lparr>tk_awaiter := None\<rparr>) s"
    have "res_bind (sched_rq_push (g_current ?s) ?s) (parked (In_redeadline sc child)) = Inr (out, s')"
      using r1 unfolding if_not_P [OF ready(1)] if_not_P [OF ready(2)] if_P [OF ready(3)] upd res_bind_simps by simp
    then show ?thesis by (rule inv_park_ready [OF clr, rotated 3]) (use np in auto)
  qed
qed

end
