(* ===== verification/Sched_Reach.thy ===== *)
theory Sched_Reach
  imports Sched_Run
begin

text \<open>
  Join, resumption and the pump keep the invariant; the transition system of the scheduler and what holds in the
  states of its runs. The invariant is kept by every step but one: a join that is resumed while its scope has
  unfinished tasks again. The code tests the live count once, before the join parks, so that a task spawned between
  the wake-up of the joiner and its resumption is overlooked. The properties of runs below therefore take
  the absence of such a resumption (\<open>quiet_run\<close>) as an explicit hypothesis, and
  \<open>late_spawn_uses_freed_scope\<close> shows what happens without it.
\<close>

section \<open>Join\<close>

lemma join_fork_fold:
  "res_fold join_fork fs s = Inr s' \<Longrightarrow>
   \<exists>H. s' = s\<lparr>g_ht := H, g_tasks := (\<lambda>t. if t \<in> set fs then None else g_tasks s t)\<rparr>"
proof (induction fs arbitrary: s)
  case Nil
  then show ?case by (auto intro: exI [of _ "g_ht s"])
next
  case (Cons f fs)
  obtain s1 where s1: "join_fork f s = Inr s1" and r1: "res_fold join_fork fs s1 = Inr s'"
    using Cons.prems unfolding res_fold.simps by (rule res_bindE)
  obtain k where "get_task f s = Inr k" and "Inr (s\<lparr>g_ht := handle_release (tk_handle k) (g_ht s), g_tasks := (g_tasks s)(f := None)\<rparr>) = (Inr s1 :: sched res)"
    using s1 unfolding join_fork_def by (rule res_bindE)
  then have r: "res_fold join_fork fs (s\<lparr>g_ht := handle_release (tk_handle k) (g_ht s), g_tasks := (g_tasks s)(f := None)\<rparr>) = Inr s'"
    using r1 by simp
  let ?s = "s\<lparr>g_ht := handle_release (tk_handle k) (g_ht s), g_tasks := (g_tasks s)(f := None)\<rparr>"
  obtain H where s': "s' = ?s\<lparr>g_ht := H, g_tasks := (\<lambda>t. if t \<in> set fs then None else g_tasks ?s t)\<rparr>"
    using Cons.IH [OF r] by (rule exE)
  have "(\<lambda>t. if t \<in> set fs then None else g_tasks ?s t) = (\<lambda>t. if t \<in> set (f # fs) then None else g_tasks s t)"
    by (auto simp: fun_eq_iff)
  then show ?case unfolding s' by (intro exI [of _ H]) simp
qed

definition idle :: "chan \<Rightarrow> bool" where
  "idle ch \<longleftrightarrow> ch_send_q ch = [] \<and> ch_recv_q ch = [] \<and> ch_select_q ch = []"

definition owned :: "nat \<Rightarrow> nat list \<Rightarrow> (nat \<Rightarrow> chan option) \<Rightarrow> nat set" where
  "owned sc cs C = {c \<in> set cs. \<exists>ch. C c = Some ch \<and> ch_scope ch = sc}"

lemma join_chan_fold:
  assumes "res_fold (join_chan sc) cs s = Inr s'" "distinct cs" "distinct (g_all_chans s)"
  shows "\<exists>H L. s' = s\<lparr>g_ht := H, g_all_chans := L, g_chans := g_chans s |` (- owned sc cs (g_chans s))\<rparr> \<and>
      distinct L \<and> set L = set (g_all_chans s) - owned sc cs (g_chans s) \<and>
      (\<forall>c ch. c \<in> owned sc cs (g_chans s) \<longrightarrow> g_chans s c = Some ch \<longrightarrow> idle ch)"
  using assms
proof (induction cs arbitrary: s)
  case Nil
  then show ?case by (auto simp: owned_def restrict_map_def intro!: exI [of _ "g_ht s"] exI [of _ "g_all_chans s"])
next
  case (Cons c cs)
  obtain s1 where s1: "join_chan sc c s = Inr s1" and r: "res_fold (join_chan sc) cs s1 = Inr s'"
    using Cons.prems(1) unfolding res_fold.simps by (rule res_bindE)
  obtain ch where ch: "g_chans s c = Some ch" using s1 by (auto simp: join_chan_def res_bind_eq_Inr)
  show ?case
  proof (cases "ch_scope ch = sc")
    case False
    then have "s1 = s" using s1 ch by (auto simp: join_chan_def res_bind_eq_Inr)
    moreover have "owned sc (c # cs) (g_chans s) = owned sc cs (g_chans s)" using False ch by (auto simp: owned_def)
    ultimately show ?thesis using Cons.IH [OF r] Cons.prems(2,3) by simp
  next
    case True
    then have id: "idle ch" and s1: "s1 = s\<lparr>g_all_chans := remove1 c (g_all_chans s), g_ht := handle_release (ch_handle ch) (g_ht s),
                        g_chans := (g_chans s)(c := None)\<rparr>"
      using s1 ch by (auto simp: join_chan_def res_bind_eq_Inr idle_def split: if_splits)
    have o: "owned sc (c # cs) (g_chans s) = insert c (owned sc cs (g_chans s1))"
      "c \<notin> owned sc cs (g_chans s1)"
      using True ch Cons.prems(2) by (auto simp: owned_def s1)
    have d1: "distinct cs" "distinct (g_all_chans s1)" using Cons.prems(2,3) by (auto simp: s1)
    obtain H L where s': "s' = s1\<lparr>g_ht := H, g_all_chans := L, g_chans := g_chans s1 |` (- owned sc cs (g_chans s1))\<rparr>"
      and L: "distinct L" "set L = set (g_all_chans s1) - owned sc cs (g_chans s1)"
      and i: "\<forall>c ch. c \<in> owned sc cs (g_chans s1) \<longrightarrow> g_chans s1 c = Some ch \<longrightarrow> idle ch"
      using Cons.IH [OF r d1] by (elim exE conjE)
    have "g_chans s1 |` (- owned sc cs (g_chans s1)) = g_chans s |` (- owned sc (c # cs) (g_chans s))"
      using o by (auto simp: fun_eq_iff restrict_map_def s1)
    then have "s' = s\<lparr>g_ht := H, g_all_chans := L, g_chans := g_chans s |` (- owned sc (c # cs) (g_chans s))\<rparr>"
      unfolding s' by (simp add: s1)
    moreover have "set L = set (g_all_chans s) - owned sc (c # cs) (g_chans s)"
      using L(2) Cons.prems(3) o(1) by (auto simp: s1)
    moreover have "idle dh" if "d \<in> owned sc (c # cs) (g_chans s)" "g_chans s d = Some dh" for d dh
      using that i o(1) id ch by (cases "d = c") (auto simp: s1)
    ultimately show ?thesis using L(1) by blast
  qed
qed

text \<open>Freeing tasks that are finished, channels no task waits on, and a scope without members.\<close>

lemma inv_free:
  assumes inv: "sched_inv s"
    and F: "\<And>t k. t \<in> F \<Longrightarrow> g_tasks s t = Some k \<Longrightarrow> \<not> active k \<and> tk_scope k = Some sc"
    and D: "\<And>c ch. c \<in> D \<Longrightarrow> g_chans s c = Some ch \<Longrightarrow> idle ch"
    and empty: "members sc (g_tasks s) = {}" and L: "distinct L" "set L = set (g_all_chans s) - D"
    and s': "s' = s\<lparr>g_tasks := (\<lambda>t. if t \<in> F then None else g_tasks s t), g_chans := g_chans s |` (- D), g_all_chans := L,
                g_ht := H, g_scopes := (g_scopes s)(sc := None)\<rparr>"
  shows "sched_inv s'"
proof -
  let ?T = "\<lambda>t. if t \<in> F then None else g_tasks s t"
  have ok: "task_ok (g_chans s) (\<not> g_in_pump s \<and> t = g_current s) k" if "g_tasks s t = Some k" for t k
    by (rule inv_taskD [OF inv that])
  have gone: "holds P ?T t = holds P (g_tasks s) t" if "\<And>k b. task_ok (g_chans s) b k \<Longrightarrow> P k \<Longrightarrow> active k" for P t
  proof (cases "t \<in> F")
    case True
    have "\<not> P k" if "g_tasks s t = Some k" for k
      using F [OF True that] ok [OF that] \<open>\<And>k b. task_ok (g_chans s) b k \<Longrightarrow> P k \<Longrightarrow> active k\<close> by blast
    then show ?thesis using True by (auto simp: holds_def split: option.splits)
  qed (simp add: holds_def)
  have a: "task_ok (g_chans s) b k \<Longrightarrow> tk_in_rq k \<Longrightarrow> active k" "task_ok (g_chans s) b k \<Longrightarrow> tk_on_io k \<Longrightarrow> active k"
    "task_ok (g_chans s) b k \<Longrightarrow> parked_on d c k \<Longrightarrow> active k" "task_ok (g_chans s) b k \<Longrightarrow> selects c i k \<Longrightarrow> active k"
    "task_ok (g_chans s) b k \<Longrightarrow> awaits u k \<Longrightarrow> active k" "task_ok (g_chans s) b k \<Longrightarrow> joins p k \<Longrightarrow> active k" for b k d c i u p
    by (auto simp: task_ok_def parked_on_def selects_def awaits_def joins_def)
  have q: "queue_ok q tk_in_rq ?T = queue_ok q tk_in_rq (g_tasks s)" "queue_ok q tk_on_io ?T = queue_ok q tk_on_io (g_tasks s)"
    "queue_ok q (parked_on b c) ?T = queue_ok q (parked_on b c) (g_tasks s)" "select_ok w c ?T = select_ok w c (g_tasks s)" for q b c w
    unfolding queue_ok_def select_ok_def using gone a by (auto simp: gone)
  have ch: "chan_ok ?T c = chan_ok (g_tasks s) c" for c
    by (simp add: chan_ok_def q fun_eq_iff)
  have mem: "members p ?T = members p (g_tasks s)" for p
    using gone [of "\<lambda>k. active k \<and> tk_scope k = Some p"] by (simp add: members_def set_eq_iff)
  have nD: "c \<notin> D" if "g_tasks s t = Some k" "parked_on b c k \<or> selects c i k" "g_chans s c = Some dh" for t k b c i dh
  proof
    assume "c \<in> D"
    then have "idle dh" using D that(3) by blast
    then have "\<not> holds (parked_on b c) (g_tasks s) t" "\<not> holds (selects c i) (g_tasks s) t"
      using inv_chanD [OF inv that(3)] by (cases b; simp add: idle_def chan_ok_def queue_ok_def select_ok_def)+
    then show False using that(1,2) by simp
  qed
  have tok: "task_ok (g_chans s |` (- D)) r k" if k: "g_tasks s t = Some k" and o: "task_ok (g_chans s) r k" for t r k
  proof -
    have "the (tk_park_chan k) \<in> dom (g_chans s |` (- D))" if pc: "tk_park_kind k = PARK_CHAN" "tk_park_chan k \<noteq> None"
    proof -
      obtain c where c: "tk_park_chan k = Some c" using pc(2) by auto
      then have "parked_on (tk_is_sender k) c k" using pc by (simp add: parked_on_def)
      moreover obtain dh where "g_chans s c = Some dh" using o pc c unfolding task_ok_def by auto
      ultimately show ?thesis using nD [OF k, of "tk_is_sender k" c] c by (auto simp: restrict_map_def)
    qed
    moreover have "set (tk_sel_regs k) \<subseteq> dom (g_chans s |` (- D))"
    proof
      fix c assume c: "c \<in> set (tk_sel_regs k)"
      then obtain i where "selects c i k" by (auto simp: selects_def in_set_conv_nth)
      moreover obtain dh where "g_chans s c = Some dh" using o c unfolding task_ok_def by (cases "tk_sel_regs k = []") auto
      ultimately show "c \<in> dom (g_chans s |` (- D))" using nD [OF k, of True c i] by (auto simp: restrict_map_def)
    qed
    ultimately show ?thesis using o unfolding task_ok_def by simp
  qed
  have fin: "finite (dom ?T)"
    using inv by (auto simp: sched_inv_on_def intro: finite_subset [of _ "dom (g_tasks s)"] split: if_splits)
  have all: "set L = dom (g_chans s |` (- D))" using inv L(2) by (auto simp: sched_inv_on_def)
  have aw: "aw_ok {} ?T"
    using inv_aw [OF inv] gone [OF a(5)] unfolding aw_ok_def by (auto split: if_splits)
  have jo: "join_ok ((g_scopes s)(sc := None)) ?T"
    using inv gone [OF a(6)] unfolding sched_inv_on_def join_ok_def by (auto split: if_splits)
  have so: "scope_ok ?T p c" if "g_scopes s p = Some c" "p \<noteq> sc" for p c
  proof -
    have "scope_ok (g_tasks s) p c" using inv that(1) unfolding sched_inv_on_def by blast
    moreover have "holds (\<lambda>k. tk_scope k = Some p \<and> tk_awaitable k) ?T f"
      if "holds (\<lambda>k. tk_scope k = Some p \<and> tk_awaitable k) (g_tasks s) f" for f
      using that F [of f] \<open>p \<noteq> sc\<close> by (auto simp: holds_def split: option.splits)
    ultimately show ?thesis by (simp add: scope_ok_def mem)
  qed
  have act: "p \<noteq> sc \<and> g_scopes s p \<noteq> None" if k: "g_tasks s t = Some k" "active k" "tk_scope k = Some p" for t k p
  proof
    have "t \<notin> members sc (g_tasks s)" using empty by simp
    then show "p \<noteq> sc" using k by (auto simp: members_def)
    show "g_scopes s p \<noteq> None" using inv k unfolding sched_inv_on_def by blast
  qed
  have cur: "?T (g_current s) \<noteq> None" if np: "\<not> g_in_pump s"
  proof -
    obtain k where "g_tasks s (g_current s) = Some k" "task_ok (g_chans s) True k" using inv_currentD [OF inv np] .
    then show ?thesis using F [of "g_current s"] running_facts(1) by auto
  qed
  have "\<forall>c ch. (g_chans s |` (- D)) c = Some ch \<longrightarrow> chan_ok ?T c ch"
    using inv_chanD [OF inv] by (simp add: ch restrict_map_def)
  moreover have "\<forall>t k. ?T t = Some k \<longrightarrow> task_ok (g_chans s |` (- D)) (\<not> g_in_pump s \<and> t = g_current s) k"
    using tok ok by simp
  moreover have "\<forall>p c. ((g_scopes s)(sc := None)) p = Some c \<longrightarrow> scope_ok ?T p c"
    using so by simp
  moreover have "\<forall>t k p. ?T t = Some k \<longrightarrow> active k \<longrightarrow> tk_scope k = Some p \<longrightarrow> ((g_scopes s)(sc := None)) p \<noteq> None"
    using act by simp
  moreover have "queue_ok (g_rq s) tk_in_rq ?T" "queue_ok (g_io s) tk_on_io ?T"
    using inv unfolding q sched_inv_on_def by blast+
  ultimately show ?thesis
    using fin all aw jo cur L(1) unfolding sched_inv_on_def s' by simp
qed

lemma members_empty:
  assumes inv: "sched_inv_on X s" and c: "g_scopes s sc = Some c" "sc_live c = 0"
  shows "members sc (g_tasks s) = {}"
proof -
  have "scope_ok (g_tasks s) sc c" "finite (members sc (g_tasks s))"
    using inv c(1) finite_members unfolding sched_inv_on_def by blast+
  then show ?thesis using c(2) by (simp add: scope_ok_def)
qed

lemma join_finish_inv:
  assumes inv: "sched_inv s" and c: "g_scopes s sc = Some c" "sc_live c = 0" and r: "join_finish sc s = Inr (out, s')"
  shows "sched_inv s'"
proof -
  obtain c1 s1 s2 where "get_scope sc s = Inr c1" and s1: "res_fold join_fork (sc_forks c1) s = Inr s1"
    and s2: "res_fold (join_chan sc) (g_all_chans s1) s1 = Inr s2"
    and s': "returned RUnit (s2\<lparr>g_ht := handle_release (sc_handle c1) (g_ht s2), g_scopes := (g_scopes s2)(sc := None)\<rparr>) = Inr (out, s')"
    using r unfolding join_finish_def by (elim res_bindE)
  then have s1: "res_fold join_fork (sc_forks c) s = Inr s1" using c(1) by simp
  obtain H1 where s1: "s1 = s\<lparr>g_ht := H1, g_tasks := (\<lambda>t. if t \<in> set (sc_forks c) then None else g_tasks s t)\<rparr>"
    using join_fork_fold [OF s1] by blast
  let ?D = "owned sc (g_all_chans s1) (g_chans s1)"
  have d: "distinct (g_all_chans s1)" using inv by (simp add: s1 sched_inv_on_def)
  obtain H2 L where s2: "s2 = s1\<lparr>g_ht := H2, g_all_chans := L, g_chans := g_chans s1 |` (- ?D)\<rparr>"
    and L: "distinct L" "set L = set (g_all_chans s1) - ?D"
    and i: "\<forall>c ch. c \<in> ?D \<longrightarrow> g_chans s1 c = Some ch \<longrightarrow> idle ch"
    using join_chan_fold [OF s2 d d] by blast
  note em = members_empty [OF inv c]
  have F: "\<not> active k \<and> tk_scope k = Some sc" if f: "t \<in> set (sc_forks c)" and k: "g_tasks s t = Some k" for t k
  proof -
    have "tk_scope k = Some sc"
      using scope_forks_ok [OF inv c(1) f] k by simp
    moreover have "t \<notin> members sc (g_tasks s)" using em by simp
    ultimately show ?thesis using k by (simp add: members_def)
  qed
  show ?thesis
  proof (rule inv_free [OF inv F _ em L(1), where H = "handle_release (sc_handle c1) H2"])
    show "idle ch" if "d \<in> ?D" "g_chans s d = Some ch" for d ch using i that by (simp add: s1)
  qed (use s' L(2) in \<open>auto simp: s2 s1\<close>)
qed

section \<open>Resumption\<close>

definition expected :: "frame \<Rightarrow> nat set" where
  "expected fr = (case fr of In_deadline _ c \<Rightarrow> {c} | _ \<Rightarrow> {})"

lemma dispatch_inv:
  assumes inv: "sched_inv s" and p: "g_in_pump s" and q: "g_rq s = t # q" and k: "g_tasks s t = Some k"
    and s': "s' = set_task t (k\<lparr>tk_in_rq := False, tk_ctx := Running, tk_deadline_child := None\<rparr>)
                 (s\<lparr>g_rq := q, g_current := t, g_in_pump := False\<rparr>)"
  shows "sched_inv_on (expected (tk_ctx k)) s'"
proof -
  let ?k = "k\<lparr>tk_in_rq := False, tk_ctx := Running, tk_deadline_child := None\<rparr>"
  have rq: "tk_in_rq k" using inv_rqD(2) [OF inv k] q by simp
  have tk: "task_ok (g_chans s) False k" using inv_taskD [OF inv k] p by simp
  have pk: "tk_park_kind k = PARK_NONE" "active k" "\<not> tk_on_io k" "tk_sel_regs k = []"
    using tk rq unfolding task_ok_def by auto
  have T': "g_tasks s' = (g_tasks s)(t \<mapsto> ?k)" by (simp add: s' set_task_def)
  show ?thesis
  proof (rule inv_gen [OF inv, of t])
    show "chan_ok (g_tasks s') c ch" if "g_chans s' c = Some ch" for c ch
      using that by (intro inv_chans_same [OF inv k T']) (auto simp: s' set_task_def parked_on_def)
    show "aw_ok (expected (tk_ctx k)) (g_tasks s')"
      unfolding aw_ok_def
    proof (intro allI impI)
      fix u ku a assume u: "g_tasks s' u = Some ku" "u \<notin> expected (tk_ctx k)" "tk_awaiter ku = Some a"
      then obtain ku0 where "g_tasks s u = Some ku0" "tk_awaiter ku0 = Some a"
        using k T' by (cases "u = t") auto
      then have h: "holds (awaits u) (g_tasks s) a" using inv_aw [OF inv] unfolding aw_ok_def by blast
      have "a \<noteq> t" using h k u(2) rq by (auto simp: awaits_def expected_def)
      then show "holds (awaits u) (g_tasks s') a" using h by (simp add: T')
    qed
    show "join_ok (g_scopes s') (g_tasks s')"
      unfolding join_ok_def
    proof (intro allI impI)
      fix p c a assume "g_scopes s' p = Some c" "sc_waiter c = Some a"
      then have h: "holds (joins p) (g_tasks s) a" using scope_waiter_ok [OF inv] by (simp add: s' set_task_def)
      then have "a \<noteq> t" using k rq by (auto simp: joins_def)
      then show "holds (joins p) (g_tasks s') a" using h by (simp add: T')
    qed
    show "scope_ok (g_tasks s') p c" if "g_scopes s' p = Some c" for p c
    proof -
      have "scope_ok (g_tasks s) p c" using that inv by (simp add: s' set_task_def sched_inv_on_def)
      then show ?thesis unfolding T' by (rule scope_ok_same) (use k in simp_all)
    qed
    show "p \<in> dom (g_scopes s)" if "g_tasks s' t = Some k'" "active k'" "tk_scope k' = Some p" for k' p
      using that inv k pk(2) unfolding sched_inv_on_def T' by fastforce
    show "task_ok (g_chans s) (\<not> g_in_pump s' \<and> t = g_current s') k'" if "g_tasks s' t = Some k'" for k'
      using that tk pk unfolding T' by (auto simp: task_ok_def s' set_task_def)
  qed (use q inv_rqD(1,3) [OF inv] inv_rqD(4) [OF inv k] p pk in \<open>auto simp: s' set_task_def\<close>)
qed

lemma take_pending_inv:
  assumes inv: "sched_inv s" and r: "take_pending s = Inr (rv, s')"
  shows "sched_inv s'"
proof -
  obtain k where k: "g_tasks s (g_current s) = Some k"
    and s': "s' = set_task (g_current s) (k\<lparr>tk_closed_wake := False\<rparr>) s \<or> s' = set_task (g_current s) (k\<lparr>tk_chan_pending := 0\<rparr>) s"
    using r by (auto simp: take_pending_def Let_def res_bind_eq_Inr split: if_splits)
  from s' show ?thesis
    by (elim disjE) (erule ssubst, rule inv_same_view [OF inv k]; simp add: same_view_def)+
qed

lemma fd_timeout_done_inv:
  assumes inv: "sched_inv s" and r: "fd_timeout_done fd i tid s = Inr (b, s')"
  shows "sched_inv s' \<and> g_current s' = g_current s"
proof -
  obtain k where k: "g_tasks s (g_current s) = Some k"
    and s': "s' = effect (Poll_remove fd i) s \<or>
      s' = set_task (g_current s) (k\<lparr>tk_timer_dead := True\<rparr>) (effect (Remove_timer tid) (effect (Poll_remove fd i) s))"
    using r by (auto simp: fd_timeout_done_def Let_def res_bind_eq_Inr effect_def split: if_splits)
  from s' show ?thesis
  proof
    assume "s' = effect (Poll_remove fd i) s"
    then show ?thesis using inv_effect [OF inv] by (simp add: effect_def)
  next
    assume s': "s' = set_task (g_current s) (k\<lparr>tk_timer_dead := True\<rparr>) (effect (Remove_timer tid) (effect (Poll_remove fd i) s))"
    have "sched_inv s'"
      unfolding s' by (rule inv_same_view [OF inv k]) (simp_all add: same_view_def effect_def)
    then show ?thesis by (simp add: s' effect_def)
  qed
qed

lemma close_fd_inv:
  assumes inv: "sched_inv s" and r: "upd_task t (\<lambda>k. k\<lparr>tk_park_close_fd := - 1\<rparr>) s = Inr s'"
  shows "sched_inv s'"
proof -
  obtain k where k: "g_tasks s t = Some k" and s': "s' = set_task t (k\<lparr>tk_park_close_fd := - 1\<rparr>) s" using r by auto
  show ?thesis unfolding s' by (rule inv_same_view [OF inv k]) (simp_all add: same_view_def)
qed

text \<open>A join that finds its scope without unfinished tasks, which is what its wake-up meant.\<close>

definition join_quiet :: "frame \<Rightarrow> sched \<Rightarrow> bool" where
  "join_quiet fr s = (case fr of In_join sc \<Rightarrow> (case g_scopes s sc of None \<Rightarrow> True | Some c \<Rightarrow> sc_live c = 0) | _ \<Rightarrow> True)"

lemma resume_inv:
  assumes inv: "sched_inv s" and np: "\<not> g_in_pump s" and q: "join_quiet fr s" and dl: "\<And>sc c. fr \<noteq> In_deadline sc c"
    and r: "resume fr s = Inr (out, s')"
  shows "sched_inv s'"
proof (cases fr)
  case (In_join sc)
  then have r: "join_finish sc s = Inr (out, s')" using r by simp
  then obtain c where "g_scopes s sc = Some c" by (auto simp: join_finish_def res_bind_eq_Inr)
  then show ?thesis using join_finish_inv [OF inv _ _ r] q In_join by (simp add: join_quiet_def)
next
  case In_recv
  then show ?thesis using r take_pending_inv [OF inv] by (auto elim!: res_bindE)
next
  case In_select
  then show ?thesis using r take_pending_inv [OF inv] by (auto elim!: res_bindE)
next
  case (In_redeadline sc c)
  then show ?thesis using r deadline_classify_inv [OF inv_on_aw [OF inv] np, of c] inv_aw [OF inv] by (auto simp: aw_ok_def)
next
  case In_unowned_fd
  then show ?thesis using r close_fd_inv [OF inv] by (auto elim!: res_bindE simp del: upd_Inr)
next
  case (In_fd_timeout fd i tid)
  then show ?thesis using r fd_timeout_done_inv [OF inv] by (auto elim!: res_bindE)
next
  case (In_unowned_fd_timeout fd i tid)
  then obtain b s1 where "fd_timeout_done fd i tid s = Inr (b, s1)"
    and "upd_task (g_current s1) (\<lambda>k. k\<lparr>tk_park_close_fd := - 1\<rparr>) s1 = Inr s'"
    using r by (auto elim!: res_bindE simp del: upd_Inr)
  then show ?thesis using fd_timeout_done_inv [OF inv] close_fd_inv by blast
qed (use r inv dl in \<open>auto elim!: res_bindE split: if_splits\<close>)

lemma pump_round_inv:
  assumes inv: "sched_inv s" and p: "g_in_pump s"
    and q: "\<And>t q k. g_rq s = t # q \<Longrightarrow> g_tasks s t = Some k \<Longrightarrow> join_quiet (tk_ctx k) s"
    and r: "pump_round evs s = Inr (out, s')"
  shows "sched_inv s'"
proof (cases "g_rq s")
  case Nil
  then obtain "res_fold harvest evs s = Inr s'"
    using r by (auto simp: pump_round_def split: if_splits)
  then show ?thesis using harvest_fold_inv [OF inv] by blast
next
  case (Cons t rq)
  let ?d = "\<lambda>k. set_task t (k\<lparr>tk_in_rq := False, tk_ctx := Running\<rparr>) (s\<lparr>g_rq := rq, g_current := t, g_in_pump := False\<rparr>)"
  obtain k where "get_task t s = Inr k" and r1: "resume (tk_ctx k) (?d k) = Inr (out, s')"
    using r unfolding pump_round_def Cons list.case by (rule res_bindE)
  then have k: "g_tasks s t = Some k" by simp
  note d = dispatch_inv [OF inv p Cons k refl]
  let ?k = "k\<lparr>tk_in_rq := False, tk_ctx := Running, tk_deadline_child := None\<rparr>"
  show ?thesis
  proof (cases "\<exists>sc c. tk_ctx k = In_deadline sc c")
    case True
    then obtain sc c where fr: "tk_ctx k = In_deadline sc c" by blast
    have "deadline_classify sc c (set_task t ?k (s\<lparr>g_rq := rq, g_current := t, g_in_pump := False\<rparr>)) = Inr (out, s')"
      using r1 by (simp add: fr set_task_def upd_task_def get_task_def)
    then show ?thesis
      by (rule deadline_classify_inv [rotated 2]) (use d in \<open>simp_all add: fr expected_def\<close>)
  next
    case False
    then have "tk_deadline_child k = None"
      using inv_taskD [OF inv k] unfolding task_ok_def by blast
    then have "?k = k\<lparr>tk_in_rq := False, tk_ctx := Running\<rparr>" by simp
    moreover have "expected (tk_ctx k) = {}" using False by (simp add: expected_def split: frame.split)
    ultimately have d': "sched_inv (?d k)" using d by simp
    show ?thesis
    proof (rule resume_inv [OF d' _ _ _ r1])
      show "join_quiet (tk_ctx k) (?d k)"
        using q [OF Cons k] by (cases "tk_ctx k") (simp_all add: join_quiet_def)
    qed (use False in \<open>auto\<close>)
  qed
qed

section \<open>The transition system\<close>

text \<open>What the running task may do: call one of the builtins of the scheduler, or return from its body. The
  address arguments are the choices of the allocator, \<open>tm\<close> the answer of the poller.\<close>

datatype call =
    Scope_open nat
  | Scope_spawn nat "64 word" sval
  | Scope_join "64 word"
  | Scope_cancel "64 word"
  | Task_fork nat "64 word" sval
  | Task_await "64 word"
  | Task_yield
  | Task_sleep int "int option"
  | Await_deadline "64 word" "64 word" int "int option"
  | Chan_new nat "64 word" int
  | Chan_send "64 word" sval
  | Chan_recv "64 word"
  | Chan_close "64 word"
  | Chan_select "64 word list"
  | Park_fd int int
  | Park_unowned_fd int int
  | Park_fd_timeout int int int "int option"
  | Park_unowned_fd_timeout int int int "int option"
  | Set_park_cleanup "nat option"
  | Body_returns sval

fun exec :: "call \<Rightarrow> sched \<Rightarrow> (outcome \<times> sched) res" where
  "exec (Scope_open p) = scope_open p"
| "exec (Scope_spawn p h w) = scope_spawn p h w"
| "exec (Scope_join h) = scope_join h"
| "exec (Scope_cancel h) = scope_cancel h"
| "exec (Task_fork p h w) = task_fork p h w"
| "exec (Task_await h) = task_await h"
| "exec Task_yield = task_yield"
| "exec (Task_sleep ms tm) = task_sleep ms tm"
| "exec (Await_deadline h th ms tm) = await_deadline h th ms tm"
| "exec (Chan_new p h n) = chan_new p h n"
| "exec (Chan_send h v) = chan_send h v"
| "exec (Chan_recv h) = chan_recv h"
| "exec (Chan_close h) = chan_close h"
| "exec (Chan_select hs) = chan_select hs"
| "exec (Park_fd fd i) = scheduler_park_on_fd fd i"
| "exec (Park_unowned_fd fd i) = scheduler_park_on_unowned_fd fd i"
| "exec (Park_fd_timeout fd i ms tm) = scheduler_park_on_fd_timeout fd i ms tm"
| "exec (Park_unowned_fd_timeout fd i ms tm) = scheduler_park_on_unowned_fd_timeout fd i ms tm"
| "exec (Set_park_cleanup fn) = scheduler_set_park_cleanup fn"
| "exec (Body_returns v) = task_trampoline v"

text \<open>\<^verbatim>\<open>malloc\<close> returns an address that is not in use.\<close>

fun fresh_for :: "call \<Rightarrow> sched \<Rightarrow> bool" where
  "fresh_for (Scope_open p) s = (g_scopes s p = None)"
| "fresh_for (Scope_spawn p _ _) s = (g_tasks s p = None)"
| "fresh_for (Task_fork p _ _) s = (g_tasks s p = None)"
| "fresh_for (Chan_new p _ _) s = (g_chans s p = None)"
| "fresh_for _ s = True"

lemma scope_join_inv:
  assumes inv: "sched_inv s" and np: "\<not> g_in_pump s" and r: "scope_join h s = Inr (out, s')"
  shows "sched_inv s'"
proof -
  obtain sc c where "get_scope sc s = Inr c"
    and r1: "(if sc_live c > 0 then parked (In_join sc) (set_scope sc (c\<lparr>sc_waiter := Some (g_current s)\<rparr>) s)
              else join_finish sc s) = Inr (out, s')"
    using r unfolding scope_join_def by (elim res_bindE)
  then have c: "g_scopes s sc = Some c" by simp
  have "sc_live c \<ge> 0"
    using inv c unfolding sched_inv_on_def scope_ok_def by fastforce
  then show ?thesis
    using join_park_inv [OF inv np c] join_finish_inv [OF inv c] r1 by (cases "sc_live c > 0") auto
qed

lemma exec_inv:
  assumes inv: "sched_inv s" and np: "\<not> g_in_pump s" and fr: "fresh_for f s" and r: "exec f s = Inr (out, s')"
  shows "sched_inv s'"
proof -
  note park = park_on_poller_inv [OF inv np] park_unowned_timeout_inv [OF inv np] set_cleanup_inv [OF inv np]
  note task = task_await_inv [OF inv np] await_deadline_inv [OF inv np] trampoline_inv [OF inv np]
  note scope = scope_join_inv [OF inv np] scope_cancel_inv [OF inv np]
  note chan = chan_send_inv [OF inv np] chan_recv_inv [OF inv np] chan_select_inv [OF inv np]
    chan_close_inv [OF inv, THEN conjunct1]
  note new = scope_open_inv [OF inv] chan_new_inv [OF inv] scope_spawn_inv [OF inv np] task_fork_inv [OF inv np]
  show ?thesis
    using r fr by (cases f; simp only: exec.simps fresh_for.simps task_sleep_def) (erule (1) new | erule park task scope chan)+
qed

text \<open>A run alternates between the running task and the pump.\<close>

datatype move = Call call | Round "(nat \<times> bool) list"

fun legal :: "move \<Rightarrow> sched \<Rightarrow> bool" where
  "legal (Call f) s = (\<not> g_in_pump s \<and> fresh_for f s)"
| "legal (Round evs) s = g_in_pump s"

fun step_move :: "move \<Rightarrow> sched \<Rightarrow> sched res" where
  "step_move (Call f) s = res_map snd (exec f s)"
| "step_move (Round evs) s = res_map snd (pump_round evs s)"

text \<open>The task the pump switches to next is not a join whose scope has unfinished tasks. The code does not
  check this: it is a condition on runs.\<close>

definition quiet :: "sched \<Rightarrow> bool" where
  "quiet s = (g_in_pump s \<longrightarrow> (case g_rq s of [] \<Rightarrow> True | t # _ \<Rightarrow>
     (case g_tasks s t of None \<Rightarrow> True | Some k \<Rightarrow> join_quiet (tk_ctx k) s)))"

inductive sched_step :: "sched \<Rightarrow> sched \<Rightarrow> bool" where
  move: "legal m s \<Longrightarrow> step_move m s = Inr s' \<Longrightarrow> sched_step s s'"

inductive_cases sched_stepE: "sched_step s s'"

inductive quiet_reachable :: "sched \<Rightarrow> bool" where
  start: "quiet_reachable sprout_scheduler_init"
| step: "quiet_reachable s \<Longrightarrow> quiet s \<Longrightarrow> sched_step s s' \<Longrightarrow> quiet_reachable s'"

lemma init_inv: "sched_inv sprout_scheduler_init"
  by (auto simp: sprout_scheduler_init_def sched_inv_on_def queue_ok_def holds_def blank_task_def task0_def task_ok_def
      active_def aw_ok_def join_ok_def split: if_splits option.splits)

lemma step_inv:
  assumes inv: "sched_inv s" and q: "quiet s" and st: "sched_step s s'"
  shows "sched_inv s'"
proof -
  obtain m where 1: "legal m s" "step_move m s = Inr s'" using st by (rule sched_stepE)
  show ?thesis
  proof (cases m)
    case (Call f)
    then obtain out where "exec f s = Inr (out, s')" using 1(2) by (auto simp: prod_eq_iff)
    then show ?thesis using exec_inv [OF inv, of f] 1(1) Call by simp
  next
    case (Round evs)
    then obtain out where r: "pump_round evs s = Inr (out, s')" using 1(2) by (auto simp: prod_eq_iff)
    have p: "g_in_pump s" using 1(1) Round by simp
    show ?thesis
      by (rule pump_round_inv [OF inv p _ r]) (use q p in \<open>simp add: quiet_def\<close>)
  qed
qed

lemma quiet_reachable_inv: "quiet_reachable s \<Longrightarrow> sched_inv s"
  by (induction rule: quiet_reachable.induct) (blast intro: init_inv step_inv)+

text \<open>Runs given as lists of moves.\<close>

fun play :: "move list \<Rightarrow> sched \<Rightarrow> sched res" where
  "play [] s = Inr s"
| "play (m # ms) s = res_bind (step_move m s) (play ms)"

fun legal_run :: "move list \<Rightarrow> sched \<Rightarrow> bool" where
  "legal_run [] s = True"
| "legal_run (m # ms) s = (legal m s \<and> (case step_move m s of Inl _ \<Rightarrow> True | Inr s' \<Rightarrow> legal_run ms s'))"

fun quiet_run :: "move list \<Rightarrow> sched \<Rightarrow> bool" where
  "quiet_run [] s = True"
| "quiet_run (m # ms) s = (quiet s \<and> (case step_move m s of Inl _ \<Rightarrow> True | Inr s' \<Rightarrow> quiet_run ms s'))"

lemma play_quiet:
  "quiet_reachable s \<Longrightarrow> legal_run ms s \<Longrightarrow> quiet_run ms s \<Longrightarrow> play ms s = Inr s' \<Longrightarrow> quiet_reachable s'"
proof (induction ms arbitrary: s)
  case (Cons m ms)
  obtain s1 where s1: "step_move m s = Inr s1" and r: "play ms s1 = Inr s'"
    using Cons.prems(4) unfolding play.simps by (rule res_bindE)
  have "sched_step s s1" using Cons.prems(2) s1 by (auto intro: sched_step.move)
  then have "quiet_reachable s1" using Cons.prems(1,3) by (auto intro: quiet_reachable.step)
  then show ?case using Cons.IH [OF _ _ _ r] Cons.prems(2,3) s1 by simp
qed simp

lemma run_inv:
  "legal_run ms sprout_scheduler_init \<Longrightarrow> quiet_run ms sprout_scheduler_init \<Longrightarrow>
   play ms sprout_scheduler_init = Inr s \<Longrightarrow> sched_inv s"
  using play_quiet [OF quiet_reachable.start] quiet_reachable_inv by blast

text \<open>The bound of the handle table, for evaluation.\<close>

lemma handle_alloc_code [code]:
  "handle_alloc kind ptr T =
     res_bind
       (if g_handles_free T \<noteq> HANDLE_NONE
        then Inr (g_handles_free T,
                  T\<lparr>g_handles_free := hs_next_free (g_handles T ! unat (g_handles_free T))\<rparr>)
        else if int (length (g_handles T)) \<ge> 4294967295
        then Inl (SproutFail ''scheduler: out of handles'')
        else let T1 = T\<lparr>g_handles_cap := (if length (g_handles T) = g_handles_cap T
                                         then if g_handles_cap T = 0 then 64 else g_handles_cap T * 2
                                         else g_handles_cap T)\<rparr>
             in Inr (of_nat (length (g_handles T1)),
                     T1\<lparr>g_handles := g_handles T1 @ [\<lparr>hs_ptr = 0, hs_gen = 1, hs_next_free = 0, hs_kind = kind\<rparr>]\<rparr>))
       (\<lambda>(idx, T1).
          let slot = g_handles T1 ! unat idx in
          Inr (handle_make (hs_gen slot) idx,
               T1\<lparr>g_handles := (g_handles T1)[unat idx := slot\<lparr>hs_ptr := ptr, hs_kind := kind\<rparr>]\<rparr>))"
proof -
  have "unat HANDLE_NONE \<le> n \<longleftrightarrow> 4294967295 \<le> int n" for n
    unfolding HANDLE_NONE_unat by simp
  then show ?thesis unfolding handle_alloc_def by simp
qed

section \<open>Properties\<close>

text \<open>Three tasks and a rendezvous channel: a receiver is parked, a child is ready, a scope is being joined.\<close>

definition three_tasks :: "move list" where
  "three_tasks = [Call (Scope_open 10), Call (Chan_new 20 4294967296 0), Call (Scope_spawn 2 4294967296 0),
     Call (Scope_spawn 3 4294967296 0), Call (Scope_join 4294967296), Round [], Call (Chan_recv 4294967297)]"

definition three_state :: sched where
  "three_state = (case play three_tasks sprout_scheduler_init of Inr s \<Rightarrow> s | Inl _ \<Rightarrow> sprout_scheduler_init)"

lemma three_play: "play three_tasks sprout_scheduler_init = Inr three_state"
proof -
  have "case play three_tasks sprout_scheduler_init of Inl _ \<Rightarrow> False | Inr _ \<Rightarrow> True" by code_simp
  then show ?thesis by (auto simp: three_state_def split: sum.splits)
qed

lemma three_run: "legal_run three_tasks sprout_scheduler_init" "quiet_run three_tasks sprout_scheduler_init"
  by code_simp+

lemmas three_quiet = three_run three_play

text \<open>Where a task that does not run can be found.\<close>

datatype place = On_ready | On_poller | On_send nat | On_recv nat | On_select nat

fun waits_at :: "sched \<Rightarrow> nat \<Rightarrow> place \<Rightarrow> bool" where
  "waits_at s t On_ready = (t \<in> set (g_rq s))"
| "waits_at s t On_poller = (t \<in> set (g_io s))"
| "waits_at s t (On_send c) = (case g_chans s c of None \<Rightarrow> False | Some ch \<Rightarrow> t \<in> set (ch_send_q ch))"
| "waits_at s t (On_recv c) = (case g_chans s c of None \<Rightarrow> False | Some ch \<Rightarrow> t \<in> set (ch_recv_q ch))"
| "waits_at s t (On_select c) = (case g_chans s c of None \<Rightarrow> False | Some ch \<Rightarrow> t \<in> fst ` set (ch_select_q ch))"

fun place_flag :: "place \<Rightarrow> task \<Rightarrow> bool" where
  "place_flag On_ready k = tk_in_rq k"
| "place_flag On_poller k = tk_on_io k"
| "place_flag (On_send c) k = parked_on True c k"
| "place_flag (On_recv c) k = parked_on False c k"
| "place_flag (On_select c) k = (tk_sel_regs k \<noteq> [])"

lemma waits_flag:
  assumes inv: "sched_inv s" and w: "waits_at s t p"
  shows "holds (place_flag p) (g_tasks s) t"
proof (cases p)
  case (On_select c)
  then obtain ch i where ch: "g_chans s c = Some ch" "(t, i) \<in> set (ch_select_q ch)"
    using w by (auto split: option.splits)
  then have "holds (selects c i) (g_tasks s) t"
    using inv_chanD [OF inv ch(1)] unfolding chan_ok_def select_ok_def by blast
  then show ?thesis using selects_regs [of c i "g_tasks s" t] On_select by auto
next
  case (On_send c)
  then obtain ch where ch: "g_chans s c = Some ch" "t \<in> set (ch_send_q ch)" using w by (auto split: option.splits)
  then show ?thesis using queue_parked [OF inv_chanD [OF inv ch(1)], of t True] On_send by force
next
  case (On_recv c)
  then obtain ch where ch: "g_chans s c = Some ch" "t \<in> set (ch_recv_q ch)" using w by (auto split: option.splits)
  then show ?thesis using queue_parked [OF inv_chanD [OF inv ch(1)], of t False] On_recv by force
next
  case On_ready
  have "queue_ok (g_rq s) tk_in_rq (g_tasks s)" using inv by (simp add: sched_inv_on_def)
  then have "holds tk_in_rq (g_tasks s) t" using w On_ready by (simp add: queue_ok_def)
  then show ?thesis using On_ready by (auto simp: holds_def split: option.splits)
next
  case On_poller
  have "queue_ok (g_io s) tk_on_io (g_tasks s)" using inv by (simp add: sched_inv_on_def)
  then have "holds tk_on_io (g_tasks s) t" using w On_poller by (simp add: queue_ok_def)
  then show ?thesis using On_poller by (auto simp: holds_def split: option.splits)
qed

lemma flag_unique:
  assumes ok: "task_ok C r k" and f: "place_flag p k" "place_flag q k"
  shows "p = q \<or> (\<exists>c d. p = On_select c \<and> q = On_select d)" "active k \<and> \<not> r"
proof -
  have k: "tk_in_rq k \<longrightarrow> active k \<and> tk_park_kind k = PARK_NONE" "tk_on_io k \<longrightarrow> active k \<and> io_kind (tk_park_kind k)"
    "parked_on b c k \<longrightarrow> active k \<and> tk_park_kind k = PARK_CHAN \<and> tk_park_chan k = Some c \<and> tk_is_sender k = b"
    "tk_sel_regs k \<noteq> [] \<longrightarrow> active k \<and> tk_park_kind k = PARK_SELECT"
    "r \<longrightarrow> tk_park_kind k = PARK_NONE \<and> \<not> tk_in_rq k" for b c
    using ok unfolding task_ok_def parked_on_def by auto
  show "active k \<and> \<not> r"
    using f(1) k by (cases p) (auto simp: io_kind_def)
  show "p = q \<or> (\<exists>c d. p = On_select c \<and> q = On_select d)"
    using f k by (cases p; cases q; simp add: io_kind_def; metis park_kind.distinct option.inject)
qed

text \<open>C1. In every state reached by a run from the start in which no join is resumed while its scope has unfinished
  tasks (\<open>quiet_run\<close>, which the code does not enforce), a task waits in at most one place: the ready queue, the
  poller's list, or the queue of one channel (a select may wait on several channels at once, and nowhere else).
  A waiting task exists, is unfinished, and is not the running one, so that no wake-up can enqueue a task twice
  and none can touch a freed record.\<close>

theorem task_waits_in_one_place:
  assumes run: "legal_run ms sprout_scheduler_init" "quiet_run ms sprout_scheduler_init" "play ms sprout_scheduler_init = Inr s"
    and "waits_at s t p" "waits_at s t q"
  shows "(p = q \<or> (\<exists>c d. p = On_select c \<and> q = On_select d)) \<and>
    (\<exists>k. g_tasks s t = Some k \<and> active k) \<and> (g_in_pump s \<or> t \<noteq> g_current s) \<and>
    distinct (g_rq s) \<and> distinct (g_io s)"
proof -
  note inv = run_inv [OF run]
  obtain k where k: "g_tasks s t = Some k" "place_flag p k" "place_flag q k"
    using waits_flag [OF inv assms(4)] waits_flag [OF inv assms(5)] by (auto simp: holds_def split: option.splits)
  then show ?thesis
    using flag_unique [OF inv_taskD [OF inv k(1)] k(2,3)] inv_rqD(1,3) [OF inv] by blast
qed

theorem task_waits_in_one_place_witness:
  "waits_at three_state 2 (On_recv 20) \<and> \<not> waits_at three_state 2 On_ready \<and> (\<exists>k. g_tasks three_state 2 = Some k \<and> active k)"
proof -
  have "waits_at three_state 2 (On_recv 20)" by code_simp
  then show ?thesis using task_waits_in_one_place [OF three_quiet] by blast
qed

text \<open>C3. The waiting discipline of channels, in every state of a run without a join resumed over unfinished tasks
  (\<open>quiet_run\<close>, which the code does not enforce): a sender waits only on a channel that is full,
  a receiver or a selector only on one that is empty with no sender waiting, and nobody waits on a closed channel.
  So a value and a task able to take it never wait for each other.\<close>

theorem channel_waiting_discipline:
  assumes run: "legal_run ms sprout_scheduler_init" "quiet_run ms sprout_scheduler_init" "play ms sprout_scheduler_init = Inr s"
    and "g_chans s c = Some ch"
  shows "rg_count ch \<le> rg_cap ch \<and> (ch_send_q ch \<noteq> [] \<longrightarrow> rg_count ch = rg_cap ch) \<and>
    (ch_recv_q ch \<noteq> [] \<or> ch_select_q ch \<noteq> [] \<longrightarrow> rg_count ch = 0 \<and> ch_send_q ch = []) \<and>
    (ch_closed ch \<longrightarrow> ch_send_q ch = [] \<and> ch_recv_q ch = [] \<and> ch_select_q ch = [])"
  using chan_wfD(2) [OF inv_chan_wf [OF run_inv [OF run] assms(4)]]
    inv_chan_wf [OF run_inv [OF run] assms(4)] unfolding chan_wf_def by blast

theorem channel_waiting_discipline_witness:
  "\<exists>ch. g_chans three_state 20 = Some ch \<and> ch_recv_q ch = [2] \<and> ch_send_q ch = []"
proof -
  have "map_option ch_recv_q (g_chans three_state 20) = Some [2]" by code_simp
  then obtain ch where "g_chans three_state 20 = Some ch" "ch_recv_q ch = [2]" by auto
  then show ?thesis using channel_waiting_discipline [OF three_quiet, of 20 ch] by simp
qed

text \<open>C2. The live count a join waits for is exact in every state of a run in which no join was resumed over unfinished
  tasks (\<open>quiet_run\<close>, which the code does not enforce): it is the number of unfinished tasks of
  the scope, and the task recorded as the joiner exists and is blocked in the join of that scope.\<close>

theorem live_count_exact:
  assumes run: "legal_run ms sprout_scheduler_init" "quiet_run ms sprout_scheduler_init" "play ms sprout_scheduler_init = Inr s"
    and "g_scopes s p = Some c"
  shows "sc_live c = int (card {t. \<exists>k. g_tasks s t = Some k \<and> active k \<and> tk_scope k = Some p}) \<and>
    (\<forall>w. sc_waiter c = Some w \<longrightarrow> (\<exists>k. g_tasks s w = Some k \<and> active k \<and> tk_ctx k = In_join p \<and> \<not> tk_in_rq k))"
proof -
  note inv = run_inv [OF run]
  have m: "members p (g_tasks s) = {t. \<exists>k. g_tasks s t = Some k \<and> active k \<and> tk_scope k = Some p}"
    by (auto simp: members_def holds_def split: option.splits)
  have "scope_ok (g_tasks s) p c" using inv assms(4) unfolding sched_inv_on_def by blast
  then have "sc_live c = int (card {t. \<exists>k. g_tasks s t = Some k \<and> active k \<and> tk_scope k = Some p})"
    unfolding scope_ok_def m by (rule conjunct1)
  moreover have "\<exists>k. g_tasks s w = Some k \<and> active k \<and> tk_ctx k = In_join p \<and> \<not> tk_in_rq k" if "sc_waiter c = Some w" for w
    using scope_waiter_ok [OF inv assms(4) that] by (auto simp: holds_def joins_def split: option.splits)
  ultimately show ?thesis by blast
qed

theorem live_count_exact_witness:
  "2 = int (card {t. \<exists>k. g_tasks three_state t = Some k \<and> active k \<and> tk_scope k = Some 10})"
proof -
  have "map_option sc_live (g_scopes three_state 10) = Some 2" by code_simp
  then obtain c where c: "g_scopes three_state 10 = Some c" "sc_live c = 2" by auto
  show ?thesis using conjunct1 [OF live_count_exact [OF three_quiet c(1)]] unfolding c(2) .
qed

text \<open>C5. The pump only switches to contexts that can run, as long as no join was resumed over unfinished tasks
  (\<open>quiet_run\<close>, which the code does not enforce): the task at the head of the ready queue
  has a record, is unfinished, and stands in the call it parked in (or at its entry), never in a stack
  that is running or has been released.\<close>

theorem pump_resumes_live_context:
  assumes run: "legal_run ms sprout_scheduler_init" "quiet_run ms sprout_scheduler_init" "play ms sprout_scheduler_init = Inr s"
    and "g_rq s = t # q"
  shows "\<exists>k. g_tasks s t = Some k \<and> active k \<and> tk_ctx k \<noteq> Running \<and> tk_ctx k \<noteq> Destroyed \<and> t \<notin> set q"
proof -
  note inv = run_inv [OF run]
  have "waits_at s t On_ready" using assms(4) by simp
  then obtain k where k: "g_tasks s t = Some k" "tk_in_rq k"
    using waits_flag [OF inv, of t On_ready] by (auto simp: holds_def split: option.splits)
  then show ?thesis
    using inv_taskD [OF inv k(1)] inv_rqD(1) [OF inv] assms(4) unfolding task_ok_def by auto
qed

theorem pump_resumes_live_context_witness:
  "g_rq three_state = [3] \<and> (\<exists>k. g_tasks three_state 3 = Some k \<and> active k \<and> tk_ctx k \<noteq> Destroyed)"
proof -
  have "g_rq three_state = [3]" by code_simp
  then show ?thesis using pump_resumes_live_context [OF three_quiet] by auto
qed

text \<open>A join that is overtaken: it stands at the head of the ready queue, and its scope has unfinished tasks.\<close>

definition unfinished :: "sched \<Rightarrow> nat \<Rightarrow> nat \<Rightarrow> bool" where
  "unfinished s sc t = (case g_tasks s t of None \<Rightarrow> False | Some k \<Rightarrow> active k \<and> tk_scope k = Some sc)"

lemma unfinished_live:
  assumes inv: "sched_inv s" and c: "g_scopes s sc = Some c"
  shows "sc_live c = int (card {t. unfinished s sc t})"
proof -
  have "members sc (g_tasks s) = {t. unfinished s sc t}"
    by (auto simp: members_def holds_def unfinished_def split: option.splits)
  moreover have "scope_ok (g_tasks s) sc c" using inv c unfolding sched_inv_on_def by blast
  ultimately show ?thesis unfolding scope_ok_def by metis
qed

lemma overtaken_round:
  assumes inv: "sched_inv s" and q: "g_rq s = t # q" "g_tasks s t = Some k" "tk_ctx k = In_join sc"
    and c: "g_scopes s sc = Some c" and r: "pump_round evs s = Inr (out, s')"
  shows "g_scopes s' sc = None" "unfinished s sc t' \<Longrightarrow> if t' \<in> set (sc_forks c) then g_tasks s' t' = None else unfinished s' sc t'"
proof -
  define s0 where "s0 = set_task t (k\<lparr>tk_in_rq := False, tk_ctx := Running\<rparr>) (s\<lparr>g_rq := q, g_current := t, g_in_pump := False\<rparr>)"
  have "join_finish sc s0 = Inr (out, s')" using r q by (simp add: pump_round_def get_task_def s0_def)
  then obtain c1 s1 s2 where "get_scope sc s0 = Inr c1" and s1: "res_fold join_fork (sc_forks c1) s0 = Inr s1"
    and s2: "res_fold (join_chan sc) (g_all_chans s1) s1 = Inr s2"
    and s': "returned RUnit (s2\<lparr>g_ht := handle_release (sc_handle c1) (g_ht s2), g_scopes := (g_scopes s2)(sc := None)\<rparr>) = Inr (out, s')"
    unfolding join_finish_def by (elim res_bindE)
  then have c1: "c1 = c" using c by (simp add: get_scope_def s0_def set_task_def)
  obtain H1 where s1: "s1 = s0\<lparr>g_ht := H1, g_tasks := (\<lambda>t. if t \<in> set (sc_forks c) then None else g_tasks s0 t)\<rparr>"
    using join_fork_fold [OF s1 [unfolded c1]] by blast
  have d: "distinct (g_all_chans s1)" using inv by (simp add: s1 s0_def set_task_def sched_inv_on_def)
  have t2: "g_tasks s2 = g_tasks s1" using join_chan_fold [OF s2 d d] by auto
  show "g_scopes s' sc = None" using s' by (auto simp: returned_def)
  show "if t' \<in> set (sc_forks c) then g_tasks s' t' = None else unfinished s' sc t'" if "unfinished s sc t'"
    using s' that q(2) by (auto simp: returned_def t2 s1 s0_def set_task_def unfinished_def)
qed

lemma orphan_returns:
  assumes "unfinished s sc (g_current s)" "g_scopes s sc = None" "g_tasks s (g_current s) = Some k"
    "\<not> tk_awaitable k" "tk_awaiter k = None"
  shows "exec (Body_returns v) s = Inl UseAfterFree"
  using assms by (simp add: unfinished_def task_trampoline_def store_result_def get_task_def scope_child_done_def
      get_scope_def set_task_def)

text \<open>C6. The condition \<open>quiet_run\<close> of the properties above is not implied by the code, which tests the live count
  of a scope once, before the join parks, and not again when the join is resumed. Take any state of a run that was
  quiet so far, in which the task the pump switches to is a join whose scope has unfinished tasks: a task
  was spawned after the joiner was woken. There are such tasks, and the round frees the scope all the same. An unfinished task
  that was forked loses its record, so that a pump that later takes it from the ready queue reads freed memory; every other one
  lives on with the freed scope, and writes through it when it returns, unless the address is in use again.\<close>

theorem late_spawn_uses_freed_scope:
  assumes run: "legal_run ms sprout_scheduler_init" "quiet_run ms sprout_scheduler_init" "play ms sprout_scheduler_init = Inr s"
    and "g_in_pump s" "g_rq s = t # q" "g_tasks s t = Some k" "tk_ctx k = In_join sc"
    and "g_scopes s sc = Some c" "sc_live c > 0" "pump_round evs s = Inr (out, s')"
  shows "\<not> quiet s \<and> (\<exists>t'. unfinished s sc t') \<and> g_scopes s' sc = None \<and>
    (\<forall>t'. unfinished s sc t' \<longrightarrow> (if t' \<in> set (sc_forks c) then g_tasks s' t' = None else unfinished s' sc t')) \<and>
    (\<forall>s2 t' q2 evs2. g_rq s2 = t' # q2 \<and> g_tasks s2 t' = None \<longrightarrow> pump_round evs2 s2 = Inl UseAfterFree) \<and>
    (\<forall>s2 k2 v. unfinished s2 sc (g_current s2) \<and> g_scopes s2 sc = None \<and> g_tasks s2 (g_current s2) = Some k2 \<and>
       \<not> tk_awaitable k2 \<and> tk_awaiter k2 = None \<longrightarrow> exec (Body_returns v) s2 = Inl UseAfterFree)"
proof -
  note inv = run_inv [OF run]
  have "{t. unfinished s sc t} \<noteq> {}" using unfinished_live [OF inv assms(8)] assms(9) by (intro notI) simp
  moreover have "\<not> quiet s" using assms(4-9) by (simp add: quiet_def join_quiet_def)
  moreover note overtaken_round [OF inv assms(5-8,10)]
  moreover have "pump_round evs2 s2 = Inl UseAfterFree" if "g_rq s2 = t' # q2" "g_tasks s2 t' = None" for s2 t' q2 evs2
    using that by (simp add: pump_round_def get_task_def)
  ultimately show ?thesis using orphan_returns by blast
qed

text \<open>Such a run: a task of the outer scope 10 (address 2) spawns into the inner scope 11 after the last child
  (address 3) of that scope woke its joiner and before the joiner runs. The spawned task then returns.\<close>

definition late_spawn :: "move list" where
  "late_spawn = [Call (Scope_open 10), Call (Scope_open 11), Call (Scope_spawn 2 4294967296 0), Call (Scope_spawn 3 4294967297 0),
     Call (Scope_join 4294967297), Round [], Call Task_yield, Round [], Call (Body_returns 0), Round [],
     Call (Scope_spawn 4 4294967297 0), Call (Body_returns 0)]"

definition orphaned :: "move list" where
  "orphaned = [Round [], Call Task_yield, Round []]"

definition late_state :: sched where
  "late_state = (case play late_spawn sprout_scheduler_init of Inr s \<Rightarrow> s | Inl _ \<Rightarrow> sprout_scheduler_init)"

definition orphan_state :: sched where
  "orphan_state = (case play orphaned late_state of Inr s \<Rightarrow> s | Inl _ \<Rightarrow> late_state)"

lemma late_run:
  "legal_run late_spawn sprout_scheduler_init" "quiet_run late_spawn sprout_scheduler_init"
  "play late_spawn sprout_scheduler_init = Inr late_state"
  "legal_run orphaned late_state" "play orphaned late_state = Inr orphan_state"
proof -
  show "legal_run late_spawn sprout_scheduler_init" "quiet_run late_spawn sprout_scheduler_init" "legal_run orphaned late_state"
    by code_simp+
  have "case play late_spawn sprout_scheduler_init of Inl _ \<Rightarrow> False | Inr _ \<Rightarrow> True" by code_simp
  then show "play late_spawn sprout_scheduler_init = Inr late_state" by (auto simp: late_state_def split: sum.splits)
  have "case play orphaned late_state of Inl _ \<Rightarrow> False | Inr _ \<Rightarrow> True" by code_simp
  then show "play orphaned late_state = Inr orphan_state" by (auto simp: orphan_state_def split: sum.splits)
qed

theorem late_spawn_uses_freed_scope_witness:
  "legal_run late_spawn sprout_scheduler_init \<and> play late_spawn sprout_scheduler_init = Inr late_state \<and> \<not> quiet late_state \<and>
   legal_run orphaned late_state \<and> play orphaned late_state = Inr orphan_state \<and> exec (Body_returns 0) orphan_state = Inl UseAfterFree"
proof -
  have q: "g_in_pump late_state" "g_rq late_state = [1, 4]" by code_simp+
  have "map_option tk_ctx (g_tasks late_state 1) = Some (In_join 11)" by code_simp
  then obtain k where k: "g_tasks late_state 1 = Some k" "tk_ctx k = In_join 11" by auto
  have "map_option sc_live (g_scopes late_state 11) = Some 1" by code_simp
  then obtain c where c: "g_scopes late_state 11 = Some c" "sc_live c > 0" by force
  have "case pump_round [] late_state of Inl _ \<Rightarrow> False | Inr _ \<Rightarrow> True" by code_simp
  then obtain out s' where r: "pump_round [] late_state = Inr (out, s')" by (auto split: sum.splits)
  note late = late_spawn_uses_freed_scope [OF late_run(1-3) q k c r]
  have o: "unfinished orphan_state 11 (g_current orphan_state)" "g_scopes orphan_state 11 = None" by code_simp+
  have "map_option (\<lambda>k. (tk_awaitable k, tk_awaiter k)) (g_tasks orphan_state (g_current orphan_state)) = Some (False, None)"
    by code_simp
  then have "exec (Body_returns 0) orphan_state = Inl UseAfterFree" using late o by blast
  then show ?thesis using late late_run by blast
qed

end
