(* ===== verification/Sched_Fair.thy ===== *)
theory Sched_Fair
  imports Sched_Reach "HOL-Library.Sublist"
begin

text \<open>
  Fairness of the ready queue. No operation of a running task takes a task from the ready queue or moves one in
  it: each only appends. The pump takes the head. So tasks run in the order they became ready, and a ready
  task runs after the tasks before it have run once each.
\<close>

named_theorems ext_intros \<open>operations that only append to the ready queue\<close>

definition grows :: "sched \<Rightarrow> sched \<Rightarrow> bool" where
  "grows s s' \<longleftrightarrow> prefix (g_rq s) (g_rq s')"

definition ext :: "('a \<Rightarrow> sched) \<Rightarrow> sched \<Rightarrow> 'a res \<Rightarrow> bool" where
  "ext p s r \<longleftrightarrow> (\<forall>y. r = Inr y \<longrightarrow> grows s (p y))"

lemma grows_simps [simp]:
  "grows s s" "grows s (set_task t k s1) = grows s s1" "grows s (set_scope p c s1) = grows s s1"
  "grows s (set_chan d ch s1) = grows s s1" "grows s (effect e s1) = grows s s1"
  "grows s (s1\<lparr>g_ht := T\<rparr>) = grows s s1" "grows s (s1\<lparr>g_io := q\<rparr>) = grows s s1"
  "grows s (s1\<lparr>g_tasks := m\<rparr>) = grows s s1" "grows s (s1\<lparr>g_current := u\<rparr>) = grows s s1"
  "grows s (s1\<lparr>g_in_pump := b\<rparr>) = grows s s1" "grows s (s1\<lparr>g_all_chans := l\<rparr>) = grows s s1"
  "grows s (s1\<lparr>g_chans := ch'\<rparr>) = grows s s1" "grows s (s1\<lparr>g_scopes := sc'\<rparr>) = grows s s1"
  "grows s s1 \<Longrightarrow> grows s (s1\<lparr>g_rq := g_rq s1 @ xs\<rparr>)"
  by (auto simp: grows_def set_task_def set_scope_def set_chan_def effect_def prefix_def)

lemma ext_structure [ext_intros]:
  "ext id s r \<Longrightarrow> (\<And>s1. grows s s1 \<Longrightarrow> ext p s (f s1)) \<Longrightarrow> ext p s (res_bind r f)"
  "ext snd s r2 \<Longrightarrow> (\<And>a s1. grows s s1 \<Longrightarrow> ext p s (g a s1)) \<Longrightarrow> ext p s (res_bind r2 (case_prod g))"
  "(b \<Longrightarrow> ext p s x) \<Longrightarrow> (\<not> b \<Longrightarrow> ext p s y) \<Longrightarrow> ext p s (if b then x else y)"
  "ext p s x \<Longrightarrow> (\<And>v. ext p s (h v)) \<Longrightarrow> ext p s (case ov of None \<Rightarrow> x | Some v \<Rightarrow> h v)"
  "ext p s x \<Longrightarrow> (\<And>v vs. ext p s (h2 v vs)) \<Longrightarrow> ext p s (case l of [] \<Rightarrow> x | v # vs \<Rightarrow> h2 v vs)"
  "ext p s (Inl e)" "grows s (p z) \<Longrightarrow> ext p s (Inr z)"
  by (auto simp: ext_def res_bind_eq_Inr split: option.splits list.splits)

lemma ext_pair: "(\<And>a b. ext p s (f a b)) \<Longrightarrow> ext p s (case v of (a, b) \<Rightarrow> f a b)"
  by (simp split: prod.split)

lemma ext_pure: "(\<And>x. ext p s (f x)) \<Longrightarrow> ext p s (res_bind r f)"
  by (auto simp: ext_def res_bind_eq_Inr)

lemma ext_pure_pair: "(\<And>a b. ext p s (g a b)) \<Longrightarrow> ext p s (res_bind r (case_prod g))"
  by (auto simp: ext_def res_bind_eq_Inr)

lemmas ext_reads [ext_intros] =
  ext_pure [where r = "get_task t u" for t u] ext_pure [where r = "get_scope c u" for c u] ext_pure [where r = "get_chan c u" for c u]
  ext_pure [where r = "scope_of h x T" for h x T] ext_pure [where r = "task_of h x T" for h x T]
  ext_pure [where r = "chan_of h x T" for h x T] ext_pure [where r = "ring_new n" for n]
  ext_pure_pair [where r = "handle_alloc k p T" for k p T] ext_pure [where r = "select_chans hs T" for hs T]
  ext_pure [where r = "to_cancel sc t u" for sc t u] ext_pure [where r = "first_to_cancel sc ws u" for sc ws u]
  ext_pure [where r = "chan_store v (c :: chan)" for v c] ext_pure [where r = "chan_put v (c :: chan)" for v c]
  ext_pure_pair [where r = "chan_fetch (c :: chan)" for c]

lemma ext_map [ext_intros]:
  "ext id s r \<Longrightarrow> ext snd s (res_map (Pair x) r)" "ext id s r \<Longrightarrow> ext id s (res_map (effect e) r)"
  "ext snd s r2 \<Longrightarrow> ext id s (res_map snd r2)"
  by (auto simp: ext_def)

lemma ext_basic [ext_intros]:
  assumes "grows s s1"
  shows "ext id s (upd_task t f s1)" "ext id s (upd_scope p g s1)" "ext id s (upd_chan c h s1)" "ext id s (sched_rq_push t s1)"
    "ext id s (sched_io_push t s1)" "ext id s (sched_io_remove t s1)" "ext id s (chan_wake t s1)" "ext id s (park_to_pump fr s1)"
    "ext snd s (parked fr s1)" "ext snd s (returned v s1)"
  using assms by (auto simp: ext_def grows_def prefix_def)

lemma ext_fold [ext_intros]:
  assumes "\<And>x s1. grows s s1 \<Longrightarrow> ext id s (f x s1)" "grows s s1"
  shows "ext id s (res_fold f xs s1)"
  using assms(2)
proof (induction xs arbitrary: s1)
  case (Cons x xs)
  then show ?case
    using assms(1) by (auto intro!: ext_intros)
qed (auto simp: ext_def)

lemma sw_ext [ext_intros]:
  assumes "grows s s1"
  shows "ext id s (sched_sw_remove t x s1)" "ext id s (select_register t x s1)"
  unfolding sched_sw_remove_def select_register_def by (cases x; simp only: prod.case; intro ext_intros assms)+

lemma select_unlink_ext [ext_intros]: "grows s s1 \<Longrightarrow> ext id s (select_unlink_all t s1)"
  unfolding select_unlink_all_def by (intro ext_intros)

lemma select_fire_ext [ext_intros]: "grows s s1 \<Longrightarrow> ext id s (select_fire t i s1)"
  unfolding select_fire_def by (intro ext_intros)

lemma poll_take_ext [ext_intros]: "grows s s1 \<Longrightarrow> ext snd s (chan_poll_take c s1)"
  unfolding chan_poll_take_def by (intro ext_intros) simp_all

lemma select_scan_ext [ext_intros]: "grows s s1 \<Longrightarrow> ext snd s (select_scan i cs s1)"
proof (induction cs arbitrary: i s1)
  case (Cons c cs)
  show ?case unfolding select_scan.simps by (intro ext_intros Cons.prems Cons.IH) simp_all
qed (simp add: ext_def)

lemma close_waiters_ext [ext_intros]: "grows s s1 \<Longrightarrow> ext id s (close_waiters n b c s1)"
proof (induction n arbitrary: s1)
  case (Suc n)
  show ?case unfolding close_waiters.simps by (intro ext_intros Suc.IH; simp add: Suc.prems)
qed (simp add: ext_def)

lemma close_selects_ext [ext_intros]: "grows s s1 \<Longrightarrow> ext id s (close_selects n c s1)"
proof (induction n arbitrary: s1)
  case (Suc n)
  show ?case unfolding close_selects.simps by (intro ext_intros ext_pair Suc.IH; simp add: Suc.prems)
qed (simp add: ext_def)

lemma chan_ops_ext [ext_intros]:
  assumes "grows s s1"
  shows "ext snd s (chan_send h v s1)" "ext snd s (chan_recv h s1)" "ext snd s (chan_close h s1)" "ext snd s (chan_select hs s1)"
    "ext snd s (chan_new p h n s1)"
  unfolding chan_send_def chan_recv_def chan_close_def chan_select_def chan_new_def Let_def
  by (intro ext_intros ext_pair; simp add: assms)+

lemma task_ops_ext [ext_intros]:
  assumes "grows s s1"
  shows "ext id s (task_create p sc w b s1)" "ext snd s (scope_open p s1)" "ext snd s (task_await h s1)" "ext snd s (task_yield s1)"
    "ext id s (wake_awaiter t a s1)" "ext id s (scope_child_done sc s1)" "ext id s (pump_reclaim s1)" "ext id s (store_result t v s1)"
  unfolding task_create_def scope_open_def task_await_def task_yield_def wake_awaiter_def scope_child_done_def pump_reclaim_def
    store_result_def Let_def
  by (intro ext_intros; simp add: assms)+

lemma spawn_ext [ext_intros]:
  assumes "grows s s1"
  shows "ext snd s (scope_spawn p h w s1)" "ext snd s (task_fork p h w s1)" "ext snd s (task_trampoline v s1)"
  unfolding scope_spawn_def task_fork_def task_trampoline_def Let_def
  by (intro ext_intros; simp add: assms)+

lemma drop_registration_ext [ext_intros]: "grows s s1 \<Longrightarrow> ext id s (drop_registration t k s1)"
  unfolding drop_registration_def Let_def
  by (cases "tk_park_kind k"; simp only: park_kind.case; intro ext_intros; simp)

lemma drop_ext [ext_intros]:
  assumes "grows s s1"
  shows "ext id s (run_park_cleanup t k s1)" "ext id s (drop_record t k s1)"
  unfolding run_park_cleanup_def drop_record_def by (intro ext_intros; simp add: assms)+

lemma force_drop_ext [ext_intros]: "grows s s1 \<Longrightarrow> ext id s (force_drop_task t s1)"
  unfolding force_drop_task_def by (intro ext_intros) simp_all

lemma cancel_one_ext [ext_intros]: "grows s s1 \<Longrightarrow> ext id s (cancel_one sc t s1)"
  unfolding cancel_one_def by (intro ext_intros) simp_all

lemma cancel_selects_ext [ext_intros]: "grows s s1 \<Longrightarrow> ext id s (cancel_selects n sc c s1)"
proof (induction n arbitrary: s1)
  case (Suc n)
  show ?case unfolding cancel_selects.simps by (intro ext_intros Suc.IH; simp add: Suc.prems)
qed (simp add: ext_def)

lemma cancel_chan_ext [ext_intros]: "grows s s1 \<Longrightarrow> ext id s (cancel_chan sc c s1)"
  unfolding cancel_chan_def by (intro ext_intros) simp_all

lemma deadline_ext [ext_intros]:
  assumes "grows s s1"
  shows "ext snd s (scope_cancel h s1)" "ext snd s (await_deadline h th ms tm s1)" "ext snd s (deadline_expired sc c s1)"
  unfolding scope_cancel_def await_deadline_def deadline_expired_def Let_def
  by (intro ext_intros; simp add: assms)+

lemma classify_ext [ext_intros]: "grows s s1 \<Longrightarrow> ext snd s (deadline_classify sc c s1)"
  unfolding deadline_classify_def Let_def by (intro ext_intros) simp_all

lemma join_ext [ext_intros]:
  assumes "grows s s1"
  shows "ext id s (join_fork f s1)" "ext id s (join_chan sc c s1)"
  unfolding join_fork_def join_chan_def by (intro ext_intros; simp add: assms)+

lemma join_finish_ext [ext_intros]: "grows s s1 \<Longrightarrow> ext snd s (join_finish sc s1)"
  unfolding join_finish_def by (intro ext_intros) simp_all

lemma scope_join_ext [ext_intros]: "grows s s1 \<Longrightarrow> ext snd s (scope_join h s1)"
  unfolding scope_join_def by (intro ext_intros) simp_all

lemma park_ext [ext_intros]:
  assumes "grows s s1"
  shows "ext snd s (scheduler_park_on_fd fd i s1)" "ext snd s (scheduler_park_on_unowned_fd fd i s1)"
    "ext snd s (scheduler_park_on_fd_timeout fd i ms tm s1)" "ext snd s (scheduler_park_on_unowned_fd_timeout fd i ms tm s1)"
    "ext snd s (scheduler_park_on_timer ms tm s1)" "ext snd s (scheduler_set_park_cleanup fn s1)"
    "ext snd s (fd_timeout_done fd i tid s1)" "ext snd s (take_pending s1)"
  unfolding scheduler_park_on_fd_def scheduler_park_on_unowned_fd_def scheduler_park_on_fd_timeout_def
    scheduler_park_on_unowned_fd_timeout_def scheduler_park_on_timer_def scheduler_set_park_cleanup_def fd_timeout_done_def
    take_pending_def park_fd_common_def park_fd_timeout_common_def Let_def
  by (intro ext_intros; simp add: assms)+

lemma exec_ext: "ext snd s (exec f s)"
  by (cases f; simp only: exec.simps task_sleep_def; intro ext_intros; simp)

lemma resume_ext: "ext snd s (resume fr s)"
  by (cases fr; simp only: resume.simps; intro ext_intros; simp)

lemma harvest_ext [ext_intros]: "grows s s1 \<Longrightarrow> ext id s (harvest ev s1)"
  unfolding harvest_def by (cases ev) (simp, intro ext_intros; simp)

section \<open>Dispatch order\<close>

text \<open>The task a move makes the running one, if it is a dispatch of the pump (\<open>round_dispatches\<close> below).\<close>

fun dispatch_of :: "move \<Rightarrow> sched \<Rightarrow> nat list" where
  "dispatch_of (Call f) s = []"
| "dispatch_of (Round evs) s = take 1 (g_rq s)"

fun dispatched :: "move list \<Rightarrow> sched \<Rightarrow> nat list" where
  "dispatched [] s = []"
| "dispatched (m # ms) s = dispatch_of m s @ (case step_move m s of Inl _ \<Rightarrow> [] | Inr s' \<Rightarrow> dispatched ms s')"

text \<open>A round with a ready task makes the head of the queue the current task and resumes its call.\<close>

lemma round_dispatches:
  assumes "pump_round evs s = Inr (out, s')" "g_rq s = t # q"
  shows "dispatch_of (Round evs) s = [t] \<and>
    (\<exists>k s0. g_tasks s t = Some k \<and> resume (tk_ctx k) s0 = Inr (out, s') \<and> g_current s0 = t \<and> \<not> g_in_pump s0 \<and> g_rq s0 = q)"
proof -
  obtain k where k: "g_tasks s t = Some k" "resume (tk_ctx k) (set_task t (k\<lparr>tk_in_rq := False, tk_ctx := Running\<rparr>)
                 (s\<lparr>g_rq := q, g_current := t, g_in_pump := False\<rparr>)) = Inr (out, s')"
    using assms by (auto simp: pump_round_def res_bind_eq_Inr)
  show ?thesis using assms(2) k by (intro conjI exI [of _ k] exI) (auto simp: set_task_def)
qed

lemma step_order:
  assumes "step_move m s = Inr s'"
  shows "prefix (g_rq s) (dispatch_of m s @ g_rq s')"
proof (cases m)
  case (Call f)
  then show ?thesis using assms exec_ext [of s f] by (auto simp: ext_def grows_def)
next
  case (Round evs)
  then obtain out where r: "pump_round evs s = Inr (out, s')" using assms by (auto simp: prod_eq_iff)
  show ?thesis
  proof (cases "g_rq s")
    case (Cons t q)
    obtain k :: task and s0 where "resume (tk_ctx k) s0 = Inr (out, s')" "g_rq s0 = q"
      using round_dispatches [OF r Cons] by blast
    then have "prefix q (g_rq s')" using resume_ext unfolding ext_def grows_def by fastforce
    then show ?thesis using Cons Round by simp
  qed simp
qed

text \<open>C4. The scheduler is fair: along every run, the tasks the pump dispatches followed by those still in the ready queue
  extend the ready queue of the start. A task at position \<open>i\<close> of the queue is therefore the one dispatched
  by the pump's dispatch number \<open>i\<close> from now on, whatever the running tasks do in between.\<close>

theorem ready_queue_is_fair:
  assumes "play ms s = Inr s'"
  shows "prefix (g_rq s) (dispatched ms s @ g_rq s') \<and>
    (\<forall>i < length (g_rq s). i < length (dispatched ms s) \<longrightarrow> dispatched ms s ! i = g_rq s ! i)"
proof -
  have *: "prefix (g_rq s) (dispatched ms s @ g_rq s')"
    using assms
  proof (induction ms arbitrary: s)
    case (Cons m ms)
    obtain s1 where s1: "step_move m s = Inr s1" and r: "play ms s1 = Inr s'"
      using Cons.prems unfolding play.simps by (rule res_bindE)
    have "prefix (dispatch_of m s @ g_rq s1) (dispatch_of m s @ (dispatched ms s1 @ g_rq s'))"
      using Cons.IH [OF r] by simp
    then show ?case using prefix_order.trans [OF step_order [OF s1]] s1 by simp
  qed simp
  then have "dispatched ms s ! i = g_rq s ! i" if "i < length (g_rq s)" "i < length (dispatched ms s)" for i
    using that by (auto simp: prefix_def) (metis nth_append)
  then show ?thesis using * by blast
qed

theorem ready_queue_is_fair_witness:
  "\<exists>s'. play [Round [], Call Task_yield] three_state = Inr s' \<and> g_rq three_state = [3] \<and>
     dispatched [Round [], Call Task_yield] three_state ! 0 = 3"
proof -
  have "case play [Round [], Call Task_yield] three_state of Inl _ \<Rightarrow> False | Inr _ \<Rightarrow> True" by code_simp
  then obtain s' where s': "play [Round [], Call Task_yield] three_state = Inr s'" by (auto split: sum.splits)
  have "g_rq three_state = [3]" "length (dispatched [Round [], Call Task_yield] three_state) = 1" by code_simp+
  then show ?thesis using ready_queue_is_fair [OF s'] s' by simp
qed

end
