(* ===== verification/Spec2Isabelle.thy ===== *)
theory Spec2Isabelle
  imports Poller Bst_Map Crypto_Digest Base64 Gc_Major Link_Queues Sched_Fair
begin

text \<open>
  A verification of the C runtime of the Sprout language (\<^verbatim>\<open>src/runtime\<close>): what a compiled Sprout program links
  against. The compiler and the standard library are written in Sprout itself and call the runtime through
  C functions on 64-bit values.

  \<^bold>\<open>The parts and how they interact.\<close>
  \<^item> A Sprout value is a 64-bit word, an integer or the address of a heap object. Every object has a header word with
    kind, colour, age, remembered bit and an auxiliary number from which the collector computes the size of its slot.
  \<^item> Slots lie in 1-MiB regions, taken from a reserved arena or from \<^verbatim>\<open>malloc\<close>; a large object has a block of its own. The
    allocator takes a slot from the free list of its size class, from the bump pointer of an open region, or opens a region.
  \<^item> The collector marks from the roots (globals, the temporary roots of every task, the handle table) through an
    explicit worklist, then sweeps. A minor collection treats coloured objects as old and relies on the write barrier
    and its remembered set.
  \<^item> The scheduler runs green tasks in scopes, with channels, select, deadlines and cancellation. Tasks give up control only
    inside a builtin; the pump takes ready tasks in order and asks the poller for timers and descriptors.
  \<^item> Maps, characters and byte buffers are builtins over the heap: a persistent AVL tree, UTF-8 walkers, buffers
    with their builders, and the hashes and Base64 of the crypto module.

  \<^bold>\<open>The theories.\<close>
  \<^item> \<^verbatim>\<open>Runtime_Prelude\<close>, \<^verbatim>\<open>Runtime_Words\<close>: values, C strings, the result type \<open>'a res\<close> (\<open>Inl\<close> for \<^verbatim>\<open>sprout_fail\<close> and for
    undefined behaviour), word arithmetic.
  \<^item> \<^verbatim>\<open>Heap_Word\<close> (\<^verbatim>\<open>sprout_word.h\<close> and the header section of \<^verbatim>\<open>sprout_runtime.c\<close>): header packing, slot sizes, the request each allocating
    function makes. Allocation and sweep agree on sizes; tags survive collector writes.
  \<^item> \<^verbatim>\<open>Gc_Roots\<close>: permanent roots, root pools and their registry, the handle table as a finite map.
  \<^item> \<^verbatim>\<open>Gc_Regions\<close>: arena, sorted region table, \<open>region_find\<close>. Every sequence of openings, large blocks and releases keeps
    \<open>table_inv\<close>, under which the lookup is exact.
  \<^item> \<^verbatim>\<open>Gc_Heap\<close>, \<^verbatim>\<open>Gc_Mark\<close>: object membership, children, barrier, mark phase. The locale \<open>tracing_heap\<close> holds the tracing
    argument and is interpreted on the runtime's heap: a major mark is exactly reachability, a minor one is safe.
  \<^item> \<^verbatim>\<open>Gc_Sweep\<close>, \<^verbatim>\<open>Gc_Reclaim\<close>: the full sweep with staged free lists. Marked objects survive intact, all others are reclaimed, and the
    free lists hold exactly the free slots of the regions that are left.
  \<^item> \<^verbatim>\<open>Gc_Alloc\<close>: \<open>sprout_gc_alloc_block\<close>. On a well-formed heap it returns a slot of its own and keeps the heap well formed.
  \<^item> \<^verbatim>\<open>Gc_Cycle\<close>: allocation, stores and sweeps as steps of one heap, through the locale \<open>managed_heap\<close> and its interpretation:
    in every state reached from the start of a program the objects are disjoint and only an unmarked object goes away.
  \<^item> \<^verbatim>\<open>Gc_Collect\<close>, \<^verbatim>\<open>Gc_Live\<close>, \<^verbatim>\<open>Gc_Major\<close>: a collection from the clearing walk to the sweep. Outside lineage mode a major collection
    of a well-formed heap leaves exactly the objects reachable from the roots, intact.
  \<^item> \<^verbatim>\<open>Link_Queues\<close>: the intrusive lists of the scheduler over their pointers, as the locale \<open>fifo\<close>.
  \<^item> \<^verbatim>\<open>Sched_Handles\<close>: generation-checked handles; a released handle never resolves again.
  \<^item> \<^verbatim>\<open>Chan_Ring\<close>: the growing ring of a channel, an instance of the locale \<open>bounded_fifo\<close>.
  \<^item> \<^verbatim>\<open>Scheduler\<close>: tasks, scopes, channels, select, deadlines, cancellation and the pump of \<^verbatim>\<open>sprout_scheduler.c\<close>. A builtin that blocks ends
    with the task's continuation stored (the datatype of suspended contexts) and control in the pump.
  \<^item> \<^verbatim>\<open>Sched_Inv\<close>, \<^verbatim>\<open>Sched_Steps\<close>, \<^verbatim>\<open>Sched_Tasks\<close>, \<^verbatim>\<open>Sched_Run\<close>, \<^verbatim>\<open>Sched_Reach\<close>: the invariant, its preservation by every builtin,
    resumption and round of the pump, and what holds in every state of a run in which no join is resumed over unfinished tasks; that
    condition is not enforced by the code, and a run without it uses a freed scope. \<^verbatim>\<open>Sched_Fair\<close>: the ready queue is served in order.
  \<^item> \<^verbatim>\<open>Timer_Heap\<close>, \<^verbatim>\<open>Poller\<close>: the deadline heap (locale \<open>deadline_queue\<close>) and the Windows poller of \<^verbatim>\<open>sprout_poll.c\<close>; the token tags
    of the Linux one.
  \<^item> \<^verbatim>\<open>Bst_Map\<close>: the map builtins, an instance of the locale \<open>persistent_map\<close> for maps of at most \<open>INT_MAX\<close> entries. \<^verbatim>\<open>Utf8\<close>: stepping, decoding, counting, validation, encoding.
  \<^item> \<^verbatim>\<open>Byte_Buffers\<close>: buffers and builders; a builder builds to the concatenation of its parts unless its length wraps. \<^verbatim>\<open>Crypto_Digest\<close>: SHA-256 and
    HMAC, equal to block-wise reference definitions. \<^verbatim>\<open>Base64\<close>: the round trip, and that the decoder stays in its buffer.

  \<^bold>\<open>Conventions.\<close> Memory of the collector is a function from byte addresses to 64-bit cells; every access in the modelled
  code is to an aligned cell. Answers of the operating system and of \<^verbatim>\<open>malloc\<close> for heap blocks are arguments; hypotheses on them (a block is
  disjoint from the regions of the table) are stated in the theorems. Allocations of the runtime's own tables and records (the
  region table and bitmaps, the handle table, the ring of a channel, map nodes, byte buffers) are taken to succeed; where they
  fail, the program ends, or a region is not opened. Loops are recursive functions with a termination
  proof, except four that carry a bound: the two wake-up loops of \<^verbatim>\<open>__chan_close\<close> and the walk over the selects of a cancelled scope
  (\<open>cancel_selects\<close>) are bounded by the length of the queue they shorten in every round, and the wait of the poller by the list of
  answers of \<^verbatim>\<open>WSAPoll\<close>. Null dereference and use after free are errors of the model, and so is signed overflow where the
  code adds numbers that its callers do not bound (timer deadlines, the sizes of maps); a theorem that an operation returns excludes
  what the definition tests for.

  \<^bold>\<open>Modelled without a theorem.\<close> The young-only sweep, which a minor collection runs when the next one is minor too and no region
  would be released, is defined as a branch of the collection; no theorem covers it.

  \<^bold>\<open>Not modelled.\<close> Context switching (\<^verbatim>\<open>sprout_context.h\<close>, assembly), the kqueue, epoll and timerfd calls,
  the builtins for files, processes, sockets, TLS and terminals (system calls), regular expressions (libc), number formatting and
  floating point, JSON, random bytes and string builtins other than the UTF-8 walkers, the threshold that starts a collection
  and its adaptation, the release of a vector's inline tail, the collector's diagnostics (census,
  age profile, header check, generation check, lineage reports, free-list verifier, livelock warning), crash handlers and the
  analysis service. The tree-sitter parser is generated. The compiler, the standard library and the
  editor plugins are not C.
\<close>

end
